(* ===== verification/Prelude.thy ===== *)
theory Prelude
  imports Complex_Main "HOL-Library.Word" "HOL-Library.AList" "HOL-Library.Product_Lexorder"
begin

text \<open>
  Shared vocabulary of the development: the JavaScript number, string and byte types, errors
  as values, and the insertion-ordered JavaScript Map with the interface its users rely on.

  A JavaScript number is modelled as an exact rational: the client's numbers are sizes,
  offsets, rates and times in milliseconds, and the checks the code makes on them
  (\<open>Number.isInteger\<close>, comparisons, \<open>Math.floor\<close>) are meaningful on rationals. Rounding of
  IEEE doubles, NaN and the infinities are not modelled; where the code uses an infinity as
  a start value, the model uses an option.
\<close>

section \<open>Types\<close>

type_synonym num = rat
type_synonym byte = "8 word"
type_synonym jschar = "16 word"
type_synonym jsstring = "jschar list"

text \<open>Collections used by the component proofs.\<close>

named_theorems wire_simps \<open>layout and size facts of the wire codec\<close>
named_theorems step_simps \<open>unfolding rules of state-changing operations\<close>

section \<open>Numbers\<close>

definition is_integer :: "num \<Rightarrow> bool" where
  "is_integer x \<longleftrightarrow> of_int \<lfloor>x\<rfloor> = x"

abbreviation len :: "'a list \<Rightarrow> num" where
  "len xs \<equiv> of_nat (length xs)"

lemma is_integer_of_int [simp]: "is_integer (of_int i)"
  by (simp add: is_integer_def)

lemma is_integer_of_nat [simp]: "is_integer (of_nat n)"
  by (simp add: is_integer_def)

lemma is_integer_numeral [simp]: "is_integer (numeral n)" "is_integer 0" "is_integer 1"
  by (simp_all add: is_integer_def)

lemma is_integer_floor: "is_integer x \<Longrightarrow> of_int \<lfloor>x\<rfloor> = x"
  by (simp add: is_integer_def)

lemma is_integerE:
  assumes "is_integer x"
  obtains i where "x = of_int i"
  using assms unfolding is_integer_def by metis

lemma is_integer_arith [simp]:
  "is_integer x \<Longrightarrow> is_integer y \<Longrightarrow> is_integer (x + y)"
  "is_integer x \<Longrightarrow> is_integer y \<Longrightarrow> is_integer (x - y)"
  "is_integer x \<Longrightarrow> is_integer y \<Longrightarrow> is_integer (min x y)"
  "is_integer x \<Longrightarrow> is_integer y \<Longrightarrow> is_integer (max x y)"
  by (auto simp: min_def max_def elim!: is_integerE)
     (metis is_integer_of_int of_int_add of_int_diff)+

lemma floor_nonneg_bound:
  "is_integer x \<Longrightarrow> 0 \<le> x \<Longrightarrow> x \<le> of_int m \<Longrightarrow> 0 \<le> \<lfloor>x\<rfloor> \<and> \<lfloor>x\<rfloor> \<le> m"
  by (metis is_integer_def of_int_0_le_iff of_int_le_iff)

section \<open>Errors as values\<close>

definition rbind :: "'e + 'a \<Rightarrow> ('a \<Rightarrow> 'e + 'b) \<Rightarrow> 'e + 'b" where
  "rbind m f = (case m of Inl e \<Rightarrow> Inl e | Inr x \<Rightarrow> f x)"

lemma rbind_simps [simp]:
  "rbind (Inl e) f = Inl e" "rbind (Inr x) f = f x"
  by (simp_all add: rbind_def)

lemma rbind_Inr_conv: "rbind m f = Inr y \<longleftrightarrow> (\<exists>x. m = Inr x \<and> f x = Inr y)"
  by (cases m) auto

lemma rbind_Inl_conv: "rbind m f = Inl e \<longleftrightarrow> m = Inl e \<or> (\<exists>x. m = Inr x \<and> f x = Inl e)"
  by (cases m) auto

lemma rbind_cong [fundef_cong]:
  "m = m' \<Longrightarrow> (\<And>x. m' = Inr x \<Longrightarrow> f x = g x) \<Longrightarrow> rbind m f = rbind m' g"
  by (cases m') auto

text \<open>An early \<open>throw\<close>: the statement \<open>if (c) throw e;\<close> followed by the rest.\<close>

definition throw_if :: "bool \<Rightarrow> 'e \<Rightarrow> 'e + unit" where
  "throw_if c e = (if c then Inl e else Inr ())"

lemma throw_if_simps [simp]:
  "throw_if True e = Inl e" "throw_if False e = Inr ()"
  "throw_if c e = Inr u \<longleftrightarrow> \<not> c" "throw_if c e = Inl e' \<longleftrightarrow> c \<and> e' = e"
  by (auto simp: throw_if_def)

section \<open>Lists of numbers\<close>

lemma sum_list_map_mono_on:
  "(\<And>x. x \<in> set xs \<Longrightarrow> f x \<le> (g x :: num)) \<Longrightarrow> sum_list (map f xs) \<le> sum_list (map g xs)"
  by (induction xs) (auto intro: add_mono)

lemma sum_list_map_nonneg_on:
  "(\<And>x. x \<in> set xs \<Longrightarrow> 0 \<le> (f x :: num)) \<Longrightarrow> 0 \<le> sum_list (map f xs)"
  by (induction xs) auto

lemma sum_list_map_member_le:
  "(\<And>x. x \<in> set xs \<Longrightarrow> 0 \<le> (f x :: num)) \<Longrightarrow> x \<in> set xs \<Longrightarrow> f x \<le> sum_list (map f xs)"
  by (induction xs) (auto intro: add_increasing2 add_increasing sum_list_map_nonneg_on)

section \<open>The JavaScript Map\<close>

text \<open>
  A JavaScript \<open>Map\<close> iterates in insertion order; \<open>set\<close> on a present key keeps its place,
  and \<open>delete\<close> drops the entry. An association list with distinct keys has exactly these
  operations: \<open>map_of\<close>, \<open>AList.update\<close> and \<open>AList.delete\<close>.
\<close>

type_synonym ('k, 'v) jsmap = "('k \<times> 'v) list"

definition jm_get :: "('k, 'v) jsmap \<Rightarrow> 'k \<Rightarrow> 'v option" where
  "jm_get m k = map_of m k"

definition jm_set :: "'k \<Rightarrow> 'v \<Rightarrow> ('k, 'v) jsmap \<Rightarrow> ('k, 'v) jsmap" where
  "jm_set k v m = AList.update k v m"

definition jm_delete :: "'k \<Rightarrow> ('k, 'v) jsmap \<Rightarrow> ('k, 'v) jsmap" where
  "jm_delete k m = AList.delete k m"

definition jm_ok :: "('k, 'v) jsmap \<Rightarrow> bool" where
  "jm_ok m \<longleftrightarrow> distinct (map fst m)"

text \<open>What the rest of the client relies on, whatever the map is made of.\<close>

locale js_map =
  fixes get :: "'m \<Rightarrow> 'k \<Rightarrow> 'v option"
    and put :: "'k \<Rightarrow> 'v \<Rightarrow> 'm \<Rightarrow> 'm"
    and del :: "'k \<Rightarrow> 'm \<Rightarrow> 'm"
    and entries :: "'m \<Rightarrow> ('k \<times> 'v) list"
    and ok :: "'m \<Rightarrow> bool"
  assumes put_ok: "ok m \<Longrightarrow> ok (put k v m)"
    and del_ok: "ok m \<Longrightarrow> ok (del k m)"
    and get_put: "get (put k v m) k' = (if k' = k then Some v else get m k')"
    and get_del: "get (del k m) k' = (if k' = k then None else get m k')"
    and get_entries: "ok m \<Longrightarrow> get m k = Some v \<longleftrightarrow> (k, v) \<in> set (entries m)"
    and put_present: "ok m \<Longrightarrow> get m k = Some u \<Longrightarrow>
      \<exists>as bs. entries m = as @ (k, u) # bs \<and> entries (put k v m) = as @ (k, v) # bs"
    and put_absent: "get m k = None \<Longrightarrow> entries (put k v m) = entries m @ [(k, v)]"
    and del_present: "ok m \<Longrightarrow> get m k = Some u \<Longrightarrow>
      \<exists>as bs. entries m = as @ (k, u) # bs \<and> entries (del k m) = as @ bs"
    and del_absent: "get m k = None \<Longrightarrow> entries (del k m) = entries m"
begin

text \<open>A total over the entries moves by exactly what changed at the key.\<close>

lemma total_put_present:
  assumes "ok m" "get m k = Some u"
  shows "sum_list (map (\<lambda>e. f (snd e)) (entries (put k v m))) =
    sum_list (map (\<lambda>e. f (snd e)) (entries m)) - f u + (f v :: num)"
  using put_present [OF assms, of v] by auto

lemma total_put_absent:
  assumes "get m k = None"
  shows "sum_list (map (\<lambda>e. f (snd e)) (entries (put k v m))) =
    sum_list (map (\<lambda>e. f (snd e)) (entries m)) + (f v :: num)"
  using put_absent [OF assms, of v] by simp

lemma total_del_present:
  assumes "ok m" "get m k = Some u"
  shows "sum_list (map (\<lambda>e. f (snd e)) (entries (del k m))) =
    sum_list (map (\<lambda>e. f (snd e)) (entries m)) - (f u :: num)"
  using del_present [OF assms] by auto

lemma put_entries_keys:
  assumes "ok m" "get m k = Some u"
  shows "map fst (entries (put k v m)) = map fst (entries m)"
  using put_present [OF assms, of v] by auto

lemma put_idle: "ok m \<Longrightarrow> get m k = Some v \<Longrightarrow> entries (put k v m) = entries m"
  using put_present [of m k v v] by auto

end

lemma jm_delete_present:
  "distinct (map fst m) \<Longrightarrow> map_of m k = Some u \<Longrightarrow>
    \<exists>as bs. m = as @ (k, u) # bs \<and> AList.delete k m = as @ bs"
proof (induction m)
  case (Cons e m)
  show ?case
  proof (cases "fst e = k")
    case True
    then have "AList.delete k (e # m) = [] @ m" "e # m = [] @ (k, u) # m"
      using Cons.prems by (cases e; auto simp: delete_id)+
    then show ?thesis by blast
  next
    case False
    then obtain as bs where "m = as @ (k, u) # bs" "AList.delete k m = as @ bs"
      using Cons by (cases e) auto
    then have "e # m = (e # as) @ (k, u) # bs" "AList.delete k (e # m) = (e # as) @ bs"
      using False by (cases e; auto)+
    then show ?thesis by blast
  qed
qed simp

lemma jm_update_present:
  "map_of m k = Some u \<Longrightarrow>
    \<exists>as bs. m = as @ (k, u) # bs \<and> AList.update k v m = as @ (k, v) # bs"
proof (induction m)
  case (Cons e m)
  show ?case
  proof (cases "fst e = k")
    case True
    then have "AList.update k v (e # m) = [] @ (k, v) # m" "e # m = [] @ (k, u) # m"
      using Cons.prems by (cases e; auto)+
    then show ?thesis by blast
  next
    case False
    then obtain as bs where "m = as @ (k, u) # bs" "AList.update k v m = as @ (k, v) # bs"
      using Cons by (cases e) auto
    then have "e # m = (e # as) @ (k, u) # bs"
      "AList.update k v (e # m) = (e # as) @ (k, v) # bs"
      using False by (cases e; auto)+
    then show ?thesis by blast
  qed
qed simp

lemma jm_update_absent: "map_of m k = None \<Longrightarrow> AList.update k v m = m @ [(k, v)]"
  by (induction m) auto

interpretation jm: js_map jm_get jm_set jm_delete "\<lambda>m. m" jm_ok
proof (unfold_locales, goal_cases)
  case (6 m k u v)
  then show ?case using jm_update_present [of m k u v] by (simp add: jm_get_def jm_set_def)
next
  case (8 m k u)
  then show ?case using jm_delete_present [of m k u]
    by (simp add: jm_get_def jm_delete_def jm_ok_def)
qed (auto simp: jm_get_def jm_set_def jm_delete_def jm_ok_def update_conv' delete_conv'
       jm_update_absent delete_id map_of_eq_None_iff distinct_update distinct_delete)

lemmas jm_simps [simp] = jm.get_put jm.get_del jm.put_ok jm.del_ok

lemma jm_ok_Nil [simp]: "jm_ok []"
  by (simp add: jm_ok_def)

lemma jm_get_Nil [simp]: "jm_get [] k = None"
  by (simp add: jm_get_def)

definition jm_keys :: "('k, 'v) jsmap \<Rightarrow> 'k set" where
  "jm_keys m = {k. jm_get m k \<noteq> None}"

lemma jm_keys_simps [simp]:
  "jm_keys [] = {}" "jm_keys (jm_set k v m) = insert k (jm_keys m)"
  "jm_keys (jm_delete k m) = jm_keys m - {k}"
  by (auto simp: jm_keys_def)

lemma jm_keys_fst: "jm_keys m = fst ` set m"
  by (auto simp: jm_keys_def jm_get_def map_of_eq_None_iff)

lemma jm_get_keys: "jm_get m k = None \<longleftrightarrow> k \<notin> jm_keys m"
  by (simp add: jm_keys_def)

lemma jm_get_Some_keys: "jm_get m k = Some v \<Longrightarrow> k \<in> jm_keys m"
  by (simp add: jm_keys_def)

lemma jm_ok_Cons [simp]: "jm_ok ((k, v) # m) \<longleftrightarrow> k \<notin> jm_keys m \<and> jm_ok m"
  by (simp add: jm_ok_def jm_keys_fst)

lemma jm_get_Cons: "jm_get ((k, v) # m) k' = (if k' = k then Some v else jm_get m k')"
  by (simp add: jm_get_def)

lemma jm_keys_Cons [simp]: "jm_keys ((k, v) # m) = insert k (jm_keys m)"
  by (simp add: jm_keys_fst)

end
