(* ===== verification/Bytes.thy ===== *)
theory Bytes
  imports Prelude
begin

text \<open>
  The typed-array primitives the codec uses (ECMAScript standard library): big-endian
  \<open>DataView\<close> reads and writes, \<open>Uint8Array.set\<close>, \<open>subarray\<close> and indexed writes. A
  \<open>DataView\<close> access or a \<open>set\<close> outside the buffer is a \<open>RangeError\<close>, here the error the
  caller passes.
\<close>

section \<open>Big-endian integers\<close>

fun be_put :: "nat \<Rightarrow> int \<Rightarrow> byte list" where
  "be_put 0 v = []"
| "be_put (Suc n) v = be_put n (v div 256) @ [word_of_int v]"

definition be_get :: "byte list \<Rightarrow> int" where
  "be_get bs = foldl (\<lambda>a b. a * 256 + uint b) 0 bs"

lemma length_be_put [simp]: "length (be_put n v) = n"
  by (induction n arbitrary: v) auto

lemma be_put_numeral:
  "be_put (numeral k) v = be_put (pred_numeral k) (v div 256) @ [word_of_int v]"
  by (simp add: numeral_eq_Suc)

lemma be_get_snoc [simp]: "be_get (bs @ [b]) = be_get bs * 256 + uint b"
  by (simp add: be_get_def)

lemma be_get_Nil [simp]: "be_get [] = 0"
  by (simp add: be_get_def)

lemma uint_byte: "uint (word_of_int v :: byte) = v mod 256"
  by (simp add: uint_word_of_int)

lemma uint_byte_bound: "0 \<le> uint (b :: byte) \<and> uint b < 256"
  using uint_range_size [of b] by (simp add: word_size)

lemma be_get_put: "0 \<le> v \<Longrightarrow> v < 256 ^ n \<Longrightarrow> be_get (be_put n v) = v"
proof (induction n arbitrary: v)
  case (Suc n)
  from Suc.prems have "0 \<le> v div 256" "v div 256 < 256 ^ n"
    by (simp_all add: div_less_iff_less_mult mult.commute pos_imp_zdiv_nonneg_iff)
  then have "be_get (be_put n (v div 256)) = v div 256"
    by (rule Suc.IH)
  then show ?case by (simp add: uint_byte)
qed simp

lemma be_get_bounds: "0 \<le> be_get bs \<and> be_get bs < 256 ^ length bs"
proof (induction bs rule: rev_induct)
  case (snoc b bs)
  then show ?case using uint_byte_bound [of b] by simp
qed simp

lemma be_put_get: "be_put (length bs) (be_get bs) = bs"
proof (induction bs rule: rev_induct)
  case (snoc b bs)
  have "(be_get bs * 256 + uint b) div 256 = be_get bs"
    using uint_byte_bound [of b] by simp
  moreover have "(word_of_int (be_get bs * 256 + uint b) :: byte) = b"
  proof -
    have "(be_get bs * 256 + uint b) mod 256 = uint b"
      using uint_byte_bound [of b] by simp
    then have "uint (word_of_int (be_get bs * 256 + uint b) :: byte) = uint b"
      by (simp only: uint_byte)
    then show ?thesis by (rule word_uint_eqI)
  qed
  ultimately show ?case using snoc by simp
qed simp

lemma be_put_get_n: "length bs = n \<Longrightarrow> be_put n (be_get bs) = bs"
  using be_put_get by auto

section \<open>Views on a buffer\<close>

text \<open>\<open>b.subarray(i, j)\<close> for \<open>i \<le> j\<close>, clipped to the buffer as the standard says.\<close>

definition subarray :: "byte list \<Rightarrow> nat \<Rightarrow> nat \<Rightarrow> byte list" where
  "subarray b i j = take (j - i) (drop i b)"

definition get_uint :: "'e \<Rightarrow> byte list \<Rightarrow> nat \<Rightarrow> nat \<Rightarrow> 'e + int" where
  "get_uint e b i n = (if i + n \<le> length b then Inr (be_get (take n (drop i b))) else Inl e)"

text \<open>\<open>Uint8Array.set(bs, i)\<close>, and the \<open>DataView\<close> setters through it.\<close>

definition put_bytes :: "'e \<Rightarrow> byte list \<Rightarrow> nat \<Rightarrow> byte list \<Rightarrow> 'e + byte list" where
  "put_bytes e b i bs =
     (if i + length bs \<le> length b
      then Inr (take i b @ bs @ drop (i + length bs) b) else Inl e)"

definition set_uint :: "'e \<Rightarrow> byte list \<Rightarrow> nat \<Rightarrow> nat \<Rightarrow> int \<Rightarrow> 'e + byte list" where
  "set_uint e b i n v = put_bytes e b i (be_put n v)"

lemma length_put_bytes: "put_bytes e b i bs = Inr b' \<Longrightarrow> length b' = length b"
  by (auto simp: put_bytes_def split: if_splits)

lemma get_uint_append:
  "i = length xs \<Longrightarrow> length ys = n \<Longrightarrow> get_uint e (xs @ ys @ zs) i n = Inr (be_get ys)"
  by (simp add: get_uint_def)

lemma get_uint_ok: "i + n \<le> length b \<Longrightarrow> get_uint e b i n = Inr (be_get (take n (drop i b)))"
  by (simp add: get_uint_def)

text \<open>Writes that go left to right through a zeroed buffer append to what is written.\<close>

lemma put_bytes_next:
  assumes "i = length xs" "length bs \<le> k"
  shows "put_bytes e (xs @ replicate k 0) i bs = Inr (xs @ bs @ replicate (k - length bs) 0)"
  using assms by (simp add: put_bytes_def)

lemma put_bytes_first:
  "length bs \<le> k \<Longrightarrow> put_bytes e (replicate k 0) 0 bs = Inr (bs @ replicate (k - length bs) 0)"
  using put_bytes_next [of 0 "[]" bs k e] by simp

lemma set_uint_next:
  assumes "i = length xs" "n \<le> k"
  shows "set_uint e (xs @ replicate k 0) i n v = Inr (xs @ be_put n v @ replicate (k - n) 0)"
  using assms by (simp add: set_uint_def put_bytes_next)

text \<open>Reading a layout: a buffer that starts with known pieces.\<close>

lemma take_drop_append:
  "i = length xs \<Longrightarrow> n = length ys \<Longrightarrow> take n (drop i (xs @ ys @ zs)) = ys"
  by simp

lemma subarray_all: "subarray b i (length b) = drop i b"
  by (simp add: subarray_def)

end
