(* ===== verification/Utf8.thy ===== *)
theory Utf8
  imports Bytes
begin

text \<open>
  JavaScript strings are sequences of 16-bit code units. This theory models the three library
  operations the codec uses on them: \<open>String.isWellFormed\<close>, \<open>TextEncoder.encode\<close> (UTF-8 of
  the scalar values, a lone surrogate becoming U+FFFD) and
  \<open>new TextDecoder("utf-8", {fatal: true}).decode\<close>, which rejects malformed UTF-8 and, since
  \<open>ignoreBOM\<close> is left at its default, drops a leading byte order mark.
\<close>

section \<open>UTF-16\<close>

definition is_lead :: "jschar \<Rightarrow> bool" where
  "is_lead u \<longleftrightarrow> 0xD800 \<le> unat u \<and> unat u \<le> 0xDBFF"

definition is_trail :: "jschar \<Rightarrow> bool" where
  "is_trail u \<longleftrightarrow> 0xDC00 \<le> unat u \<and> unat u \<le> 0xDFFF"

fun is_well_formed :: "jsstring \<Rightarrow> bool" where
  "is_well_formed [] = True"
| "is_well_formed [u] = (\<not> is_lead u \<and> \<not> is_trail u)"
| "is_well_formed (u # v # us) =
     (if is_lead u then is_trail v \<and> is_well_formed us
      else \<not> is_trail u \<and> is_well_formed (v # us))"

definition join_pair :: "jschar \<Rightarrow> jschar \<Rightarrow> nat" where
  "join_pair u v = 0x10000 + (unat u - 0xD800) * 0x400 + (unat v - 0xDC00)"

fun scalars :: "jsstring \<Rightarrow> nat list" where
  "scalars [] = []"
| "scalars [u] = (if is_lead u \<or> is_trail u then [0xFFFD] else [unat u])"
| "scalars (u # v # us) =
     (if is_lead u then
        (if is_trail v then join_pair u v # scalars us else 0xFFFD # scalars (v # us))
      else (if is_trail u then 0xFFFD else unat u) # scalars (v # us))"

definition unit_of :: "nat \<Rightarrow> jschar" where
  "unit_of n = of_nat n"

definition utf16_of :: "nat \<Rightarrow> jsstring" where
  "utf16_of c =
     (if c < 0x10000 then [unit_of c]
      else [unit_of (0xD800 + (c - 0x10000) div 0x400), unit_of (0xDC00 + (c - 0x10000) mod 0x400)])"

definition is_scalar :: "nat \<Rightarrow> bool" where
  "is_scalar c \<longleftrightarrow> c < 0xD800 \<or> 0xDFFF < c \<and> c < 0x110000"

section \<open>UTF-8\<close>

definition byte_of :: "nat \<Rightarrow> byte" where
  "byte_of n = of_nat n"

definition utf8_of :: "nat \<Rightarrow> byte list" where
  "utf8_of c =
     (if c < 0x80 then [byte_of c]
      else if c < 0x800 then [byte_of (0xC0 + c div 0x40), byte_of (0x80 + c mod 0x40)]
      else if c < 0x10000 then
        [byte_of (0xE0 + c div 0x1000), byte_of (0x80 + c div 0x40 mod 0x40), byte_of (0x80 + c mod 0x40)]
      else
        [byte_of (0xF0 + c div 0x40000), byte_of (0x80 + c div 0x1000 mod 0x40),
         byte_of (0x80 + c div 0x40 mod 0x40), byte_of (0x80 + c mod 0x40)])"

definition utf8_encode :: "jsstring \<Rightarrow> byte list" where
  "utf8_encode s = concat (map utf8_of (scalars s))"

definition is_cont :: "byte \<Rightarrow> bool" where
  "is_cont b \<longleftrightarrow> 0x80 \<le> unat b \<and> unat b \<le> 0xBF"

text \<open>The least and greatest second byte after a given lead byte (no overlong forms, no
  surrogates, nothing past U+10FFFF).\<close>

definition second_ok :: "nat \<Rightarrow> nat \<Rightarrow> bool" where
  "second_ok x y \<longleftrightarrow>
     (if x = 0xE0 then 0xA0 \<le> y \<and> y \<le> 0xBF
      else if x = 0xED then 0x80 \<le> y \<and> y \<le> 0x9F
      else if x = 0xF0 then 0x90 \<le> y \<and> y \<le> 0xBF
      else if x = 0xF4 then 0x80 \<le> y \<and> y \<le> 0x8F
      else 0x80 \<le> y \<and> y \<le> 0xBF)"

text \<open>One scalar value off the front of the buffer, with what is left.\<close>

fun utf8_next :: "byte list \<Rightarrow> (nat \<times> byte list) option" where
  "utf8_next (a # bs) =
     (let x = unat a in
      if x < 0x80 then Some (x, bs)
      else if 0xC2 \<le> x \<and> x \<le> 0xDF then
        (case bs of
           b # rest \<Rightarrow> if is_cont b then Some ((x - 0xC0) * 0x40 + (unat b - 0x80), rest) else None
         | _ \<Rightarrow> None)
      else if 0xE0 \<le> x \<and> x \<le> 0xEF then
        (case bs of
           b # c # rest \<Rightarrow>
             if second_ok x (unat b) \<and> is_cont c
             then Some ((x - 0xE0) * 0x1000 + (unat b - 0x80) * 0x40 + (unat c - 0x80), rest)
             else None
         | _ \<Rightarrow> None)
      else if 0xF0 \<le> x \<and> x \<le> 0xF4 then
        (case bs of
           b # c # d # rest \<Rightarrow>
             if second_ok x (unat b) \<and> is_cont c \<and> is_cont d
             then Some ((x - 0xF0) * 0x40000 + (unat b - 0x80) * 0x1000
                        + (unat c - 0x80) * 0x40 + (unat d - 0x80), rest)
             else None
         | _ \<Rightarrow> None)
      else None)"
| "utf8_next [] = None"

lemma utf8_next_shorter: "utf8_next bs = Some (c, rest) \<Longrightarrow> length rest < length bs"
  by (cases bs) (auto simp: Let_def split: if_splits list.splits)

function utf8_scalars :: "byte list \<Rightarrow> nat list option" where
  "utf8_scalars bs =
     (if bs = [] then Some []
      else case utf8_next bs of
        None \<Rightarrow> None
      | Some (c, rest) \<Rightarrow> map_option (Cons c) (utf8_scalars rest))"
  by pat_completeness auto
termination
  by (relation "measure length") (auto dest: utf8_next_shorter)

declare utf8_scalars.simps [simp del]

definition bom_bytes :: "byte list" where
  "bom_bytes = [0xEF, 0xBB, 0xBF]"

definition utf8_decode :: "byte list \<Rightarrow> jsstring option" where
  "utf8_decode bs =
     map_option (\<lambda>cs. concat (map utf16_of cs))
       (utf8_scalars (if take 3 bs = bom_bytes then drop 3 bs else bs))"

section \<open>UTF-8 round trip\<close>

lemma unat_byte: "n < 256 \<Longrightarrow> unat (byte_of n) = n"
  by (simp add: byte_of_def unat_of_nat)

lemma unat_jschar: "n < 65536 \<Longrightarrow> unat (unit_of n) = n"
  by (simp add: unit_of_def unat_of_nat)

lemma unat_byte_less: "unat (b :: byte) < 256"
  using unsigned_less [of b, where ?'a = nat] by simp

lemma unat_jschar_less: "unat (u :: jschar) < 65536"
  using unsigned_less [of u, where ?'a = nat] by simp

lemma byte_of_unat [simp]: "byte_of (unat b) = b"
  by (simp add: byte_of_def)

lemma unit_of_unat [simp]: "unit_of (unat u) = u"
  by (simp add: unit_of_def)

text \<open>A number in base 64, the digits the continuation bytes carry.\<close>

lemma base64:
  obtains a b d e :: nat
  where "c div 0x40000 = a" "c div 0x1000 mod 0x40 = b" "c div 0x40 mod 0x40 = d"
    "c mod 0x40 = e" "c = a * 0x40000 + b * 0x1000 + d * 0x40 + e"
    "b < 0x40" "d < 0x40" "e < 0x40" "c div 0x1000 = a * 0x40 + b" "c div 0x40 = a * 0x1000 + b * 0x40 + d"
proof -
  have 1: "c div 0x1000 = c div 0x40000 * 0x40 + c div 0x1000 mod 0x40"
    using div_mod_decomp [of "c div 0x1000" "0x40"] by (simp add: div_mult2_eq [symmetric])
  have 2: "c div 0x40 = c div 0x1000 * 0x40 + c div 0x40 mod 0x40"
    using div_mod_decomp [of "c div 0x40" "0x40"] by (simp add: div_mult2_eq [symmetric])
  have 3: "c = c div 0x40 * 0x40 + c mod 0x40" by simp
  show ?thesis
    by (rule that [OF refl refl refl refl]) (use 1 2 3 in \<open>linarith | simp\<close>)+
qed

lemma base64_digits:
  fixes a b d e :: nat
  assumes "c = a * 0x40000 + b * 0x1000 + d * 0x40 + e" "b < 0x40" "d < 0x40" "e < 0x40"
  shows "c div 0x40 = a * 0x1000 + b * 0x40 + d" "c mod 0x40 = e" "c div 0x40 mod 0x40 = d"
    "c div 0x1000 = a * 0x40 + b" "c div 0x1000 mod 0x40 = b" "c div 0x40000 = a"
proof -
  obtain a' b' d' e' where f: "c div 0x40000 = a'" "c div 0x1000 mod 0x40 = b'"
    "c div 0x40 mod 0x40 = d'" "c mod 0x40 = e'"
    "c = a' * 0x40000 + b' * 0x1000 + d' * 0x40 + e'" "b' < 0x40" "d' < 0x40" "e' < 0x40"
    "c div 0x1000 = a' * 0x40 + b'" "c div 0x40 = a' * 0x1000 + b' * 0x40 + d'"
    by (rule base64)
  have a: "a' = a" using f(5-8) assms by linarith
  then have b: "b' = b" using f(5-8) assms by linarith
  with a have d: "d' = d" using f(5-8) assms by linarith
  with a b have e: "e' = e" using f(5-8) assms by linarith
  show "c div 0x40 = a * 0x1000 + b * 0x40 + d" using f(10) unfolding a b d .
  show "c mod 0x40 = e" using f(4) unfolding e .
  show "c div 0x40 mod 0x40 = d" using f(3) unfolding d .
  show "c div 0x1000 = a * 0x40 + b" using f(9) unfolding a b .
  show "c div 0x1000 mod 0x40 = b" using f(2) unfolding b .
  show "c div 0x40000 = a" using f(1) unfolding a .
qed

lemma utf8_next_of: "is_scalar c \<Longrightarrow> utf8_next (utf8_of c @ rest) = Some (c, rest)"
proof -
  assume sc: "is_scalar c"
  obtain a b d e where dg: "c div 0x40000 = a" "c div 0x1000 mod 0x40 = b"
    "c div 0x40 mod 0x40 = d" "c mod 0x40 = e"
    and c: "c = a * 0x40000 + b * 0x1000 + d * 0x40 + e"
    and lt: "b < 0x40" "d < 0x40" "e < 0x40"
    and q: "c div 0x1000 = a * 0x40 + b" "c div 0x40 = a * 0x1000 + b * 0x40 + d"
    by (rule base64)
  consider "c < 0x80" | "0x80 \<le> c" "c < 0x800" | "0x800 \<le> c" "c < 0x10000"
    | "0x10000 \<le> c" "c < 0x110000"
    using sc by (fastforce simp: is_scalar_def)
  then show ?thesis
  proof cases
    case 1
    then show ?thesis by (simp add: utf8_of_def unat_byte Let_def)
  next
    case 2
    then have a: "a = 0" using c by auto
    then have b: "b = 0" using 2 c by auto
    have "d < 0x20" "2 \<le> d" using 2 c lt unfolding a b by linarith+
    note this a b
    then show ?thesis using 2 lt
      by (simp add: utf8_of_def dg q unat_byte is_cont_def Let_def) (use c in simp)
  next
    case 3
    then have a: "a = 0" using c by auto
    have "b < 0x10" using 3 c a lt by auto
    moreover have "b = 0 \<longrightarrow> 0x20 \<le> d" using 3 c a lt by auto
    moreover have "b = 0xD \<longrightarrow> d \<le> 0x1F" using sc c a lt 3 by (auto simp: is_scalar_def)
    ultimately show ?thesis using 3 lt a
      by (simp add: utf8_of_def dg q(1) unat_byte is_cont_def second_ok_def Let_def) (use c in simp)
  next
    case 4
    have a: "a \<le> 4" using 4 c by auto
    have "a = 0 \<longrightarrow> 0x10 \<le> b" using 4 c lt by auto
    moreover have "a = 4 \<longrightarrow> b \<le> 0xF" using 4 c lt by auto
    ultimately show ?thesis using 4 lt a
      by (simp add: utf8_of_def dg unat_byte is_cont_def second_ok_def Let_def) (use c in simp)
  qed
qed

lemma utf8_of_nonempty: "utf8_of c \<noteq> []"
  by (simp add: utf8_of_def)

lemma utf8_scalars_of:
  "\<forall>c \<in> set cs. is_scalar c \<Longrightarrow> utf8_scalars (concat (map utf8_of cs)) = Some cs"
proof (induction cs)
  case Nil
  show ?case by (subst utf8_scalars.simps) simp
next
  case (Cons c cs)
  then show ?case
    by (subst utf8_scalars.simps) (simp add: utf8_next_of utf8_of_nonempty)
qed

lemma offset_split: "l \<le> n \<Longrightarrow> n \<le> u \<Longrightarrow> \<exists>y. n = l + y \<and> y \<le> u - (l :: nat)"
  by (intro exI [of _ "n - l"]) auto

lemma cont_split: "is_cont b \<Longrightarrow> \<exists>y. unat b = 0x80 + y \<and> y < 0x40"
  using offset_split [of "0x80" "unat b" "0xBF"] by (auto simp: is_cont_def)

lemma utf8_of_1: "unat a < 0x80 \<Longrightarrow> utf8_of (unat a) = [a]"
  by (simp add: utf8_of_def)

lemma utf8_of_2:
  assumes "0xC2 \<le> unat a" "unat a \<le> 0xDF" "is_cont b"
    and c: "c = (unat a - 0xC0) * 0x40 + (unat b - 0x80)"
  shows "is_scalar c \<and> utf8_of c = [a, b]"
proof -
  obtain x y where xy: "unat a = 0xC0 + x" "unat b = 0x80 + y" "2 \<le> x" "x < 0x20" "y < 0x40"
  proof -
    obtain x' where "unat a = 0xC2 + x'" "x' \<le> 0x1D" using offset_split [OF assms(1,2)] by auto
    moreover obtain y where "unat b = 0x80 + y" "y < 0x40" using cont_split [OF assms(3)] by auto
    ultimately show ?thesis using that [of "2 + x'" y] by simp
  qed
  have cc: "c = x * 0x40 + y" using c xy by simp
  then have "c div 0x40 = x" "c mod 0x40 = y" using xy by auto
  moreover have "0x80 \<le> c" "c < 0x800" using cc xy by auto
  moreover have "byte_of (0xC0 + x) = a" "byte_of (0x80 + y) = b"
    using byte_of_unat [of a] byte_of_unat [of b] xy by simp_all
  ultimately show ?thesis by (simp add: utf8_of_def is_scalar_def)
qed

lemma utf8_of_3:
  assumes "0xE0 \<le> unat a" "unat a \<le> 0xEF" "second_ok (unat a) (unat b)" "is_cont d"
    and c: "c = (unat a - 0xE0) * 0x1000 + (unat b - 0x80) * 0x40 + (unat d - 0x80)"
  shows "is_scalar c \<and> utf8_of c = [a, b, d]"
proof -
  have "0x80 \<le> unat b" "unat b \<le> 0xBF"
    using assms by (auto simp: second_ok_def split: if_splits)
  then obtain y where y: "unat b = 0x80 + y" "y < 0x40" using cont_split [of b] by (auto simp: is_cont_def)
  obtain x where x: "unat a = 0xE0 + x" "x < 0x10" using offset_split [OF assms(1,2)] by auto
  obtain z where z: "unat d = 0x80 + z" "z < 0x40" using cont_split [OF assms(4)] by auto
  note xy = x(1) y(1) z(1) x(2) y(2) z(2)
  have ok: "x = 0 \<longrightarrow> 0x20 \<le> y" "x = 0xD \<longrightarrow> y < 0x20"
    using assms(3) xy by (auto simp: second_ok_def split: if_splits)
  have cc: "c = x * 0x1000 + y * 0x40 + z" using c xy by simp
  then have "c = 0 * 0x40000 + x * 0x1000 + y * 0x40 + z" by simp
  then have "c div 0x1000 = x" "c div 0x40 mod 0x40 = y" "c mod 0x40 = z"
    using base64_digits [of c 0 x y z] xy by auto
  moreover have "0x800 \<le> c" using cc ok xy by (cases "x = 0") auto
  moreover have "c < 0x10000" using cc xy by auto
  moreover have "is_scalar c"
    using cc ok xy unfolding is_scalar_def by (cases "x < 0xD"; cases "x = 0xD") auto
  moreover have "byte_of (0xE0 + x) = a" "byte_of (0x80 + y) = b" "byte_of (0x80 + z) = d"
    using byte_of_unat [of a] byte_of_unat [of b] byte_of_unat [of d] xy by simp_all
  ultimately show ?thesis by (simp add: utf8_of_def)
qed

lemma utf8_of_4:
  assumes "0xF0 \<le> unat a" "unat a \<le> 0xF4" "second_ok (unat a) (unat b)" "is_cont d" "is_cont e"
    and c: "c = (unat a - 0xF0) * 0x40000 + (unat b - 0x80) * 0x1000
      + (unat d - 0x80) * 0x40 + (unat e - 0x80)"
  shows "is_scalar c \<and> utf8_of c = [a, b, d, e]"
proof -
  have "0x80 \<le> unat b" "unat b \<le> 0xBF"
    using assms by (auto simp: second_ok_def split: if_splits)
  then obtain y where y: "unat b = 0x80 + y" "y < 0x40" using cont_split [of b] by (auto simp: is_cont_def)
  obtain x where x: "unat a = 0xF0 + x" "x < 5" using offset_split [OF assms(1,2)] by auto
  obtain z where z: "unat d = 0x80 + z" "z < 0x40" using cont_split [OF assms(4)] by auto
  obtain w where w: "unat e = 0x80 + w" "w < 0x40" using cont_split [OF assms(5)] by auto
  note xy = x(1) y(1) z(1) w(1) x(2) y(2) z(2) w(2)
  have ok: "x = 0 \<longrightarrow> 0x10 \<le> y" "x = 4 \<longrightarrow> y < 0x10"
    using assms(3) xy by (auto simp: second_ok_def split: if_splits)
  have cc: "c = x * 0x40000 + y * 0x1000 + z * 0x40 + w" using c xy by simp
  have "c div 0x40000 = x" "c div 0x1000 mod 0x40 = y" "c div 0x40 mod 0x40 = z" "c mod 0x40 = w"
    using base64_digits [OF cc] xy by auto
  moreover have "0x10000 \<le> c" using cc ok xy by (cases "x = 0") auto
  moreover have "c < 0x110000" using cc ok xy by (cases "x = 4") auto
  moreover have "byte_of (0xF0 + x) = a" "byte_of (0x80 + y) = b" "byte_of (0x80 + z) = d"
    "byte_of (0x80 + w) = e"
    using byte_of_unat [of a] byte_of_unat [of b] byte_of_unat [of d] byte_of_unat [of e] xy
    by simp_all
  ultimately show ?thesis by (simp add: utf8_of_def is_scalar_def)
qed

lemma utf8_next_inv:
  assumes "utf8_next bs = Some (c, rest)"
  shows "is_scalar c \<and> bs = utf8_of c @ rest"
proof (cases bs)
  case (Cons a bs')
  have small: "unat a < 0x80 \<Longrightarrow> is_scalar (unat a)" by (simp add: is_scalar_def)
  from assms Cons show ?thesis
    by (auto simp: Let_def utf8_of_1 small dest: utf8_of_2 [OF _ _ _ refl]
        utf8_of_3 [OF _ _ _ _ refl] utf8_of_4 [OF _ _ _ _ _ refl]
        split: if_splits list.splits)
qed (use assms in simp)

lemma utf8_scalars_inv:
  "utf8_scalars bs = Some cs \<Longrightarrow> (\<forall>c \<in> set cs. is_scalar c) \<and> concat (map utf8_of cs) = bs"
proof (induction bs arbitrary: cs rule: utf8_scalars.induct)
  case (1 bs)
  show ?case
  proof (cases "bs = []")
    case True
    with "1.prems" show ?thesis by (simp add: utf8_scalars.simps)
  next
    case False
    with "1.prems" obtain c rest cs' where nx: "utf8_next bs = Some (c, rest)"
      and cs': "utf8_scalars rest = Some cs'" and cs: "cs = c # cs'"
      by (subst (asm) utf8_scalars.simps) (auto split: option.splits)
    from "1.IH" [OF False nx refl cs'] utf8_next_inv [OF nx] show ?thesis by (simp add: cs)
  qed
qed

section \<open>UTF-16 round trip\<close>

lemma lead_not_trail: "is_lead u \<Longrightarrow> \<not> is_trail u"
  by (simp add: is_lead_def is_trail_def)

lemma utf16_of_basic:
  assumes "is_scalar c" "c < 0x10000"
  shows "\<not> is_lead (unit_of c)" "\<not> is_trail (unit_of c)" "unat (unit_of c) = c"
  using assms by (auto simp: is_scalar_def is_lead_def is_trail_def unat_jschar)

lemma utf16_of_pair:
  assumes "is_scalar c" "0x10000 \<le> c"
  obtains u v where "utf16_of c = [u, v]" "is_lead u" "is_trail v" "join_pair u v = c"
proof -
  define x where "x = (c - 0x10000) div 0x400"
  define y where "y = (c - 0x10000) mod 0x400"
  have x: "x < 0x400" using assms by (auto simp: x_def is_scalar_def)
  have y: "y < 0x400" by (simp add: y_def)
  have c: "c = 0x10000 + x * 0x400 + y"
    using assms by (simp add: x_def y_def)
  show ?thesis
    by (rule that [of "unit_of (0xD800 + x)" "unit_of (0xDC00 + y)"])
       (use assms x y c in \<open>simp_all add: utf16_of_def x_def [symmetric] y_def [symmetric]
          is_lead_def is_trail_def join_pair_def unat_jschar\<close>)
qed

lemma scalars_utf16_append: "is_scalar c \<Longrightarrow> scalars (utf16_of c @ us) = c # scalars us"
proof (cases "c < 0x10000")
  case True
  assume "is_scalar c"
  from utf16_of_basic [OF this True] True show ?thesis
    by (cases us) (simp_all add: utf16_of_def)
next
  case False
  assume "is_scalar c"
  from this False obtain u v
    where "utf16_of c = [u, v]" "is_lead u" "is_trail v" "join_pair u v = c"
    by (elim utf16_of_pair) auto
  then show ?thesis by simp
qed

lemma well_formed_utf16_append:
  "is_scalar c \<Longrightarrow> is_well_formed (utf16_of c @ us) = is_well_formed us"
proof (cases "c < 0x10000")
  case True
  assume "is_scalar c"
  from utf16_of_basic [OF this True] True show ?thesis
    by (cases us) (simp_all add: utf16_of_def)
next
  case False
  assume "is_scalar c"
  from this False obtain u v
    where "utf16_of c = [u, v]" "is_lead u" "is_trail v" "join_pair u v = c"
    by (elim utf16_of_pair) auto
  then show ?thesis by simp
qed

lemma utf16_scalars_back:
  "\<forall>c \<in> set cs. is_scalar c \<Longrightarrow>
    scalars (concat (map utf16_of cs)) = cs \<and> is_well_formed (concat (map utf16_of cs))"
  by (induction cs) (simp_all add: scalars_utf16_append well_formed_utf16_append)

lemma join_pair_scalar:
  assumes "is_lead u" "is_trail v"
  shows "is_scalar (join_pair u v)" "utf16_of (join_pair u v) = [u, v]"
proof -
  obtain x y where xy: "unat u = 0xD800 + x" "unat v = 0xDC00 + y" "x < 0x400" "y < 0x400"
    using assms by (atomize_elim, intro exI [of _ "unat u - 0xD800"] exI [of _ "unat v - 0xDC00"])
      (auto simp: is_lead_def is_trail_def)
  then have j: "join_pair u v = 0x10000 + (x * 0x400 + y)"
    by (simp add: join_pair_def)
  have "(x * 0x400 + y) div 0x400 = x" "(x * 0x400 + y) mod 0x400 = y"
    using xy by auto
  moreover have "unit_of (0xD800 + x) = u" "unit_of (0xDC00 + y) = v"
    using unit_of_unat [of u] unit_of_unat [of v] xy by simp_all
  ultimately show "utf16_of (join_pair u v) = [u, v]"
    by (simp add: j utf16_of_def)
  show "is_scalar (join_pair u v)" using xy by (simp add: j is_scalar_def)
qed

lemma scalars_well_formed:
  "is_well_formed s \<Longrightarrow>
    (\<forall>c \<in> set (scalars s). is_scalar c) \<and> concat (map utf16_of (scalars s)) = s"
proof (induction s rule: is_well_formed.induct)
  case (2 u)
  then show ?case
    using unat_jschar_less [of u]
    by (auto simp: is_scalar_def is_lead_def is_trail_def utf16_of_def)
next
  case (3 u v us)
  show ?case
  proof (cases "is_lead u")
    case True
    with 3 show ?thesis by (auto simp: join_pair_scalar)
  next
    case False
    then have "\<not> is_trail u" "is_well_formed (v # us)" using "3.prems" by auto
    with False 3 show ?thesis
      using unat_jschar_less [of u]
      by (auto simp: is_scalar_def is_lead_def is_trail_def utf16_of_def)
  qed
qed simp

section \<open>The decoder against the encoder\<close>

definition starts_with_bom :: "jsstring \<Rightarrow> bool" where
  "starts_with_bom s \<longleftrightarrow> (\<exists>us. s = 0xFEFF # us)"

lemma starts_with_bom_simps [simp]:
  "\<not> starts_with_bom []" "starts_with_bom (u # us) \<longleftrightarrow> u = 0xFEFF"
  by (auto simp: starts_with_bom_def)

lemma utf8_of_bom: "utf8_of 0xFEFF = bom_bytes"
  by (simp add: utf8_of_def bom_bytes_def byte_of_def)

lemma scalars_bom: "is_well_formed s \<Longrightarrow> scalars (0xFEFF # s) = 0xFEFF # scalars s"
  by (cases s) (simp_all add: is_lead_def is_trail_def)

lemma encode_bom: "is_well_formed s \<Longrightarrow> utf8_encode (0xFEFF # s) = bom_bytes @ utf8_encode s"
  by (simp add: utf8_encode_def scalars_bom utf8_of_bom)

lemma take_bom_encode:
  assumes wf: "is_well_formed s" and "take 3 (utf8_encode s) = bom_bytes"
  shows "starts_with_bom s"
proof -
  let ?bs = "utf8_encode s"
  have sc: "is_scalar 0xFEFF" by (simp add: is_scalar_def)
  have "?bs = utf8_of 0xFEFF @ drop 3 ?bs"
    using assms(2) append_take_drop_id [of 3 ?bs] by (simp add: utf8_of_bom)
  then have nx: "utf8_next ?bs = Some (0xFEFF, drop 3 ?bs)"
    using utf8_next_of [OF sc, of "drop 3 ?bs"] by simp
  have "scalars s \<noteq> []" using nx by (auto simp: utf8_encode_def)
  then obtain c cs where cs: "scalars s = c # cs" by (cases "scalars s") auto
  then have "is_scalar c" using scalars_well_formed [OF wf] by auto
  then have "c = 0xFEFF" using nx cs utf8_next_of by (simp add: utf8_encode_def)
  then have "s = utf16_of 0xFEFF @ concat (map utf16_of cs)"
    using scalars_well_formed [OF wf] cs by auto
  then show ?thesis by (simp add: utf16_of_def unit_of_def)
qed

lemma utf8_decode_encode:
  assumes wf: "is_well_formed s" and "\<not> starts_with_bom s"
  shows "utf8_decode (utf8_encode s) = Some s"
proof -
  have "take 3 (utf8_encode s) \<noteq> bom_bytes" using take_bom_encode assms by blast
  moreover have "utf8_scalars (utf8_encode s) = Some (scalars s)"
    using utf8_scalars_of scalars_well_formed [OF wf] by (simp add: utf8_encode_def)
  ultimately show ?thesis using scalars_well_formed [OF wf] by (simp add: utf8_decode_def)
qed

text \<open>The leading mark is lost: the decoder gives back the string without it.\<close>

lemma utf8_decode_bom:
  assumes wf: "is_well_formed s"
  shows "utf8_decode (utf8_encode (0xFEFF # s)) = Some s"
proof -
  have "utf8_scalars (utf8_encode s) = Some (scalars s)"
    using utf8_scalars_of scalars_well_formed [OF wf] by (simp add: utf8_encode_def)
  moreover have "take 3 (bom_bytes @ utf8_encode s) = bom_bytes"
    "drop 3 (bom_bytes @ utf8_encode s) = utf8_encode s"
    by (simp_all add: bom_bytes_def)
  ultimately show ?thesis
    using scalars_well_formed [OF wf] by (simp add: utf8_decode_def encode_bom [OF wf])
qed

lemma utf8_encode_decode:
  assumes "utf8_decode bs = Some s" "take 3 bs \<noteq> bom_bytes"
  shows "is_well_formed s \<and> utf8_encode s = bs"
proof -
  from assms obtain cs where cs: "utf8_scalars bs = Some cs" and s: "s = concat (map utf16_of cs)"
    by (auto simp: utf8_decode_def)
  from utf8_scalars_inv [OF cs] utf16_scalars_back [of cs]
  show ?thesis by (simp add: s utf8_encode_def)
qed

lemma utf8_encode_nonempty: "s \<noteq> [] \<Longrightarrow> utf8_encode s \<noteq> []"
  by (cases s rule: scalars.cases) (auto simp: utf8_encode_def utf8_of_nonempty)

end
