(* ===== verification/Wire.thy ===== *)
theory Wire
  imports Utf8
begin

text \<open>
  The datagram codec, \<open>client/src/wire.ts\<close>: the packet union, the checks shared by both
  directions, \<open>decode\<close> and \<open>encode\<close>. A \<open>MalformedPacketError\<close> carries the reason its message
  states; a \<open>RangeErr\<close> is what an access outside the buffer would throw. The layout that
  docs/wire-format.md prescribes is stated separately (\<open>packet_bytes\<close>, \<open>wf_packet\<close>), and the
  two routines are proved to implement it.
\<close>

section \<open>Constants and packets\<close>

abbreviation REQ :: byte where "REQ \<equiv> 0x01"
abbreviation DATA :: byte where "DATA \<equiv> 0x02"
abbreviation GRANT :: byte where "GRANT \<equiv> 0x03"
abbreviation RESEND :: byte where "RESEND \<equiv> 0x04"
abbreviation ERROR :: byte where "ERROR \<equiv> 0x05"
abbreviation META :: byte where "META \<equiv> 0x06"
abbreviation HELLO :: byte where "HELLO \<equiv> 0x07"
abbreviation DATA_SEQ :: byte where "DATA_SEQ \<equiv> 0x08"
abbreviation RESEND_SEQ :: byte where "RESEND_SEQ \<equiv> 0x09"

abbreviation NOT_FOUND :: num where "NOT_FOUND \<equiv> 0x01"
abbreviation BAD_REQUEST :: num where "BAD_REQUEST \<equiv> 0x02"
abbreviation UNKNOWN_RPC :: num where "UNKNOWN_RPC \<equiv> 0x03"

abbreviation CAP_SESSION_SEQ :: num where "CAP_SESSION_SEQ \<equiv> 1"

abbreviation HEADER_LEN :: nat where "HEADER_LEN \<equiv> 9"
abbreviation DATA_HEADER_LEN :: nat where "DATA_HEADER_LEN \<equiv> 17"
abbreviation REQ_FIXED_LEN :: nat where "REQ_FIXED_LEN \<equiv> 15"
abbreviation GRANT_LEN :: nat where "GRANT_LEN \<equiv> 14"
abbreviation RESEND_LEN :: nat where "RESEND_LEN \<equiv> 17"
abbreviation ERROR_LEN :: nat where "ERROR_LEN \<equiv> 10"
abbreviation META_FIXED_LEN :: nat where "META_FIXED_LEN \<equiv> 10"
abbreviation HELLO_LEN :: nat where "HELLO_LEN \<equiv> 13"
abbreviation DATA_SEQ_HEADER_LEN :: nat where "DATA_SEQ_HEADER_LEN \<equiv> 21"
abbreviation RESEND_SEQ_LEN :: nat where "RESEND_SEQ_LEN \<equiv> 17"
abbreviation MAX_META_VALUE :: nat where "MAX_META_VALUE \<equiv> 0xFFFF"
abbreviation U32_MAX :: num where "U32_MAX \<equiv> 0xFFFFFFFF"

text \<open>ASCII literals of the source as JavaScript strings.\<close>

definition js :: "string \<Rightarrow> jsstring" where
  "js s = map of_char s"

definition META_NAMES :: "jsstring list" where
  "META_NAMES = [js ''content-type'', js ''etag'', js ''last-modified'', js ''cache-control'']"

type_synonym meta_fields = "(jsstring \<times> jsstring) list"

datatype packet =
    Req (rpcId: int) (initialGrant: num) (assetId: jsstring)
  | Data (rpcId: int) (totalSize: num) (data_offset: num) (payload: "byte list")
  | Grant (rpcId: int) (maxOffset: num) (grant_priority: num)
  | Resend (rpcId: int) (range_start: num) (range_end: num)
  | ErrorPacket (rpcId: int) (error_code: num)
  | Meta (rpcId: int) (meta_fields: meta_fields)
  | Hello (rpcId: int) (caps: num)
  | DataSeq (rpcId: int) (totalSize: num) (data_offset: num) (data_seq: num) (payload: "byte list")
  | ResendSeq (rpcId: int) (range_start: num) (range_end: num)

datatype malformed =
    ShorterThanHeader | ReqTooShort | ReqEmptyId | ReqIdLen | ReqNotUtf8 | DataTooShort
  | DataPastTotal | GrantLength | ResendLength | EmptyRange | ErrorLength | MetaTooShort
  | MetaTruncated | MetaFieldTruncated | MetaValueTruncated | MetaTrailing | MetaTooMany
  | MetaNameNotAllowed | MetaRepeated | MetaBadValue | HelloLength | DataSeqTooShort
  | ResendSeqLength | UnknownType | AssetIdNotUnicode | AssetIdLength | NotU64 | NotU32 | NotU8

datatype wire_error = MalformedPacketError malformed | RangeErr

abbreviation malformed_if :: "bool \<Rightarrow> malformed \<Rightarrow> wire_error + unit" where
  "malformed_if c r \<equiv> throw_if c (MalformedPacketError r)"

section \<open>Checks shared by decode and encode\<close>

definition maxPayload :: "num \<Rightarrow> num" where
  "maxPayload maxDatagramSize = max 0 (maxDatagramSize - of_nat DATA_HEADER_LEN)"

text \<open>\<open>newRpcId\<close>, from the eight bytes it drew; an id always fits its field.\<close>

definition newRpcId :: "byte list \<Rightarrow> int" where
  "newRpcId drawn = be_get (take 8 drawn)"

lemma newRpcId_fits: "0 \<le> newRpcId drawn \<and> newRpcId drawn < 2 ^ 64"
proof -
  have "(256::int) ^ length (take 8 drawn) \<le> 256 ^ 8" by (intro power_increasing) simp_all
  then show ?thesis using be_get_bounds [of "take 8 drawn"] by (simp add: newRpcId_def)
qed

definition checkDataBounds :: "num \<Rightarrow> num \<Rightarrow> byte list \<Rightarrow> wire_error + unit" where
  "checkDataBounds tot off p = malformed_if (off + len p > tot) DataPastTotal"

definition visible :: "jschar \<Rightarrow> bool" where
  "visible c \<longleftrightarrow> 0x21 \<le> unat c \<and> unat c \<le> 0x7E"

definition printable :: "jschar \<Rightarrow> bool" where
  "printable c \<longleftrightarrow> 0x20 \<le> unat c \<and> unat c \<le> 0x7E"

definition validMetaValue :: "jsstring \<Rightarrow> bool" where
  "validMetaValue v \<longleftrightarrow> length v > 0 \<and> length v \<le> MAX_META_VALUE \<and>
     (case v of [] \<Rightarrow> False
      | c # rest \<Rightarrow> visible c \<and>
          (rest = [] \<or> list_all printable (butlast rest) \<and> visible (last rest)))"

fun checkMeta_fields :: "jsstring list \<Rightarrow> meta_fields \<Rightarrow> wire_error + unit" where
  "checkMeta_fields seen [] = Inr ()"
| "checkMeta_fields seen ((name, value) # rest) =
     rbind (malformed_if (name \<notin> set META_NAMES) MetaNameNotAllowed) (\<lambda>_.
     rbind (malformed_if (name \<in> set seen) MetaRepeated) (\<lambda>_.
     rbind (malformed_if (\<not> validMetaValue value) MetaBadValue) (\<lambda>_.
     checkMeta_fields (name # seen) rest)))"

definition checkMeta :: "meta_fields \<Rightarrow> wire_error + unit" where
  "checkMeta fields =
     rbind (malformed_if (length fields > length META_NAMES) MetaTooMany) (\<lambda>_.
     checkMeta_fields [] fields)"

definition checkResendRange :: "num \<Rightarrow> num \<Rightarrow> wire_error + unit" where
  "checkResendRange s e = malformed_if (s \<ge> e) EmptyRange"

definition checkU64 :: "int \<Rightarrow> wire_error + unit" where
  "checkU64 n = malformed_if (n < 0 \<or> n > 0xFFFFFFFFFFFFFFFF) NotU64"

definition checkU32 :: "num \<Rightarrow> wire_error + unit" where
  "checkU32 n = malformed_if (\<not> is_integer n \<or> n < 0 \<or> n > U32_MAX) NotU32"

definition checkU8 :: "num \<Rightarrow> wire_error + unit" where
  "checkU8 n = malformed_if (\<not> is_integer n \<or> n < 0 \<or> n > 0xFF) NotU8"

text \<open>\<open>latin1\<close>: one character per byte.\<close>

definition latin1 :: "byte list \<Rightarrow> jsstring" where
  "latin1 b = map (\<lambda>c. unit_of (unat c)) b"

section \<open>decode\<close>

abbreviation getU :: "byte list \<Rightarrow> nat \<Rightarrow> nat \<Rightarrow> wire_error + int" where
  "getU \<equiv> get_uint RangeErr"

abbreviation num_of :: "int \<Rightarrow> num" where
  "num_of \<equiv> of_int"

definition decode_req :: "byte list \<Rightarrow> int \<Rightarrow> wire_error + packet" where
  "decode_req b rpc =
     rbind (malformed_if (length b < REQ_FIXED_LEN) ReqTooShort) (\<lambda>_.
     rbind (getU b 13 2) (\<lambda>n.
     rbind (malformed_if (n = 0) ReqEmptyId) (\<lambda>_.
     rbind (malformed_if (length b \<noteq> REQ_FIXED_LEN + nat n) ReqIdLen) (\<lambda>_.
     case utf8_decode (subarray b REQ_FIXED_LEN (length b)) of
       None \<Rightarrow> Inl (MalformedPacketError ReqNotUtf8)
     | Some aid \<Rightarrow> rbind (getU b 9 4) (\<lambda>g. Inr (Req rpc (num_of g) aid))))))"

definition decode_data :: "byte list \<Rightarrow> int \<Rightarrow> wire_error + packet" where
  "decode_data b rpc =
     rbind (malformed_if (length b < DATA_HEADER_LEN) DataTooShort) (\<lambda>_.
     rbind (getU b 9 4) (\<lambda>tot.
     rbind (getU b 13 4) (\<lambda>off.
     let p = subarray b DATA_HEADER_LEN (length b) in
     rbind (checkDataBounds (num_of tot) (num_of off) p) (\<lambda>_.
     Inr (Data rpc (num_of tot) (num_of off) p)))))"

definition decode_grant :: "byte list \<Rightarrow> int \<Rightarrow> wire_error + packet" where
  "decode_grant b rpc =
     rbind (malformed_if (length b \<noteq> GRANT_LEN) GrantLength) (\<lambda>_.
     rbind (getU b 9 4) (\<lambda>m.
     rbind (getU b 13 1) (\<lambda>pr. Inr (Grant rpc (num_of m) (num_of pr)))))"

definition decode_resend :: "byte list \<Rightarrow> int \<Rightarrow> wire_error + packet" where
  "decode_resend b rpc =
     rbind (malformed_if (length b \<noteq> RESEND_LEN) ResendLength) (\<lambda>_.
     rbind (getU b 9 4) (\<lambda>s.
     rbind (getU b 13 4) (\<lambda>e.
     rbind (checkResendRange (num_of s) (num_of e)) (\<lambda>_.
     Inr (Resend rpc (num_of s) (num_of e))))))"

definition decode_error :: "byte list \<Rightarrow> int \<Rightarrow> wire_error + packet" where
  "decode_error b rpc =
     rbind (malformed_if (length b \<noteq> ERROR_LEN) ErrorLength) (\<lambda>_.
     rbind (getU b 9 1) (\<lambda>c. Inr (ErrorPacket rpc (num_of c))))"

fun decode_meta_fields ::
    "byte list \<Rightarrow> nat \<Rightarrow> nat \<Rightarrow> meta_fields \<Rightarrow> wire_error + nat \<times> meta_fields" where
  "decode_meta_fields b 0 i fields = Inr (i, fields)"
| "decode_meta_fields b (Suc k) i fields =
     rbind (malformed_if (i + 1 > length b) MetaTruncated) (\<lambda>_.
     let n = unat (b ! i) in
     rbind (malformed_if (i + 1 + n + 2 > length b) MetaFieldTruncated) (\<lambda>_.
     let name = latin1 (subarray b (i + 1) (i + 1 + n)) in
     rbind (getU b (i + 1 + n) 2) (\<lambda>m.
     let j = i + 3 + n in
     rbind (malformed_if (j + nat m > length b) MetaValueTruncated) (\<lambda>_.
     decode_meta_fields b k (j + nat m)
       (fields @ [(name, latin1 (subarray b j (j + nat m)))])))))"

definition decode_meta :: "byte list \<Rightarrow> int \<Rightarrow> wire_error + packet" where
  "decode_meta b rpc =
     rbind (malformed_if (length b < META_FIXED_LEN) MetaTooShort) (\<lambda>_.
     rbind (decode_meta_fields b (unat (b ! 9)) META_FIXED_LEN []) (\<lambda>(i, fields).
     rbind (malformed_if (i \<noteq> length b) MetaTrailing) (\<lambda>_.
     rbind (checkMeta fields) (\<lambda>_. Inr (Meta rpc fields)))))"

definition decode_hello :: "byte list \<Rightarrow> int \<Rightarrow> wire_error + packet" where
  "decode_hello b rpc =
     rbind (malformed_if (length b \<noteq> HELLO_LEN) HelloLength) (\<lambda>_.
     rbind (getU b 9 4) (\<lambda>c. Inr (Hello rpc (num_of c))))"

definition decode_data_seq :: "byte list \<Rightarrow> int \<Rightarrow> wire_error + packet" where
  "decode_data_seq b rpc =
     rbind (malformed_if (length b < DATA_SEQ_HEADER_LEN) DataSeqTooShort) (\<lambda>_.
     rbind (getU b 9 4) (\<lambda>tot.
     rbind (getU b 13 4) (\<lambda>off.
     rbind (getU b 17 4) (\<lambda>seq.
     let p = subarray b DATA_SEQ_HEADER_LEN (length b) in
     rbind (checkDataBounds (num_of tot) (num_of off) p) (\<lambda>_.
     Inr (DataSeq rpc (num_of tot) (num_of off) (num_of seq) p))))))"

definition decode_resend_seq :: "byte list \<Rightarrow> int \<Rightarrow> wire_error + packet" where
  "decode_resend_seq b rpc =
     rbind (malformed_if (length b \<noteq> RESEND_SEQ_LEN) ResendSeqLength) (\<lambda>_.
     rbind (getU b 9 4) (\<lambda>s.
     rbind (getU b 13 4) (\<lambda>e.
     rbind (checkResendRange (num_of s) (num_of e)) (\<lambda>_.
     Inr (ResendSeq rpc (num_of s) (num_of e))))))"

definition decode :: "byte list \<Rightarrow> wire_error + packet" where
  "decode b =
     rbind (malformed_if (length b < HEADER_LEN) ShorterThanHeader) (\<lambda>_.
     rbind (getU b 1 8) (\<lambda>rpc.
     let ty = b ! 0 in
     if ty = REQ then decode_req b rpc
     else if ty = DATA then decode_data b rpc
     else if ty = GRANT then decode_grant b rpc
     else if ty = RESEND then decode_resend b rpc
     else if ty = ERROR then decode_error b rpc
     else if ty = META then decode_meta b rpc
     else if ty = HELLO then decode_hello b rpc
     else if ty = DATA_SEQ then decode_data_seq b rpc
     else if ty = RESEND_SEQ then decode_resend_seq b rpc
     else Inl (MalformedPacketError UnknownType)))"

section \<open>encode\<close>

abbreviation setU :: "byte list \<Rightarrow> nat \<Rightarrow> nat \<Rightarrow> int \<Rightarrow> wire_error + byte list" where
  "setU \<equiv> set_uint RangeErr"

abbreviation setN :: "byte list \<Rightarrow> nat \<Rightarrow> nat \<Rightarrow> num \<Rightarrow> wire_error + byte list" where
  "setN b i n v \<equiv> set_uint RangeErr b i n \<lfloor>v\<rfloor>"

definition header :: "byte \<Rightarrow> int \<Rightarrow> nat \<Rightarrow> wire_error + byte list" where
  "header ty rpc n =
     rbind (put_bytes RangeErr (replicate n 0) 0 [ty]) (\<lambda>b. setU b 1 8 rpc)"

fun writeAscii :: "byte list \<Rightarrow> nat \<Rightarrow> jsstring \<Rightarrow> byte list" where
  "writeAscii b i [] = b"
| "writeAscii b i (c # cs) = writeAscii (b[i := byte_of (unat c)]) (i + 1) cs"

fun encode_fields :: "byte list \<Rightarrow> nat \<Rightarrow> meta_fields \<Rightarrow> wire_error + byte list" where
  "encode_fields b i [] = Inr b"
| "encode_fields b i ((name, value) # rest) =
     rbind (setU b i 1 (int (length name))) (\<lambda>b.
     let b = writeAscii b (i + 1) name in
     rbind (setU b (i + 1 + length name) 2 (int (length value))) (\<lambda>b.
     let b = writeAscii b (i + 3 + length name) value in
     encode_fields b (i + 3 + length name + length value) rest))"

definition fields_len :: "meta_fields \<Rightarrow> nat" where
  "fields_len fields =
     foldl (\<lambda>n (name, value). n + 3 + length name + length value) META_FIXED_LEN fields"

fun encode_body :: "packet \<Rightarrow> wire_error + byte list" where
  "encode_body (Req rpc g aid) =
     rbind (checkU32 g) (\<lambda>_.
     rbind (malformed_if (\<not> is_well_formed aid) AssetIdNotUnicode) (\<lambda>_.
     let i = utf8_encode aid in
     rbind (malformed_if (length i = 0 \<or> length i > 0xFFFF) AssetIdLength) (\<lambda>_.
     rbind (header REQ rpc (REQ_FIXED_LEN + length i)) (\<lambda>b.
     rbind (setN b 9 4 g) (\<lambda>b.
     rbind (setU b 13 2 (int (length i))) (\<lambda>b.
     put_bytes RangeErr b REQ_FIXED_LEN i))))))"
| "encode_body (Data rpc tot off p) =
     rbind (checkU32 tot) (\<lambda>_.
     rbind (checkU32 off) (\<lambda>_.
     rbind (checkDataBounds tot off p) (\<lambda>_.
     rbind (header DATA rpc (DATA_HEADER_LEN + length p)) (\<lambda>b.
     rbind (setN b 9 4 tot) (\<lambda>b.
     rbind (setN b 13 4 off) (\<lambda>b.
     put_bytes RangeErr b DATA_HEADER_LEN p))))))"
| "encode_body (Grant rpc m pr) =
     rbind (checkU32 m) (\<lambda>_.
     rbind (checkU8 pr) (\<lambda>_.
     rbind (header GRANT rpc GRANT_LEN) (\<lambda>b.
     rbind (setN b 9 4 m) (\<lambda>b.
     setN b 13 1 pr))))"
| "encode_body (Resend rpc s e) =
     rbind (checkU32 s) (\<lambda>_.
     rbind (checkU32 e) (\<lambda>_.
     rbind (checkResendRange s e) (\<lambda>_.
     rbind (header RESEND rpc RESEND_LEN) (\<lambda>b.
     rbind (setN b 9 4 s) (\<lambda>b.
     setN b 13 4 e)))))"
| "encode_body (ErrorPacket rpc c) =
     rbind (checkU8 c) (\<lambda>_.
     rbind (header ERROR rpc ERROR_LEN) (\<lambda>b.
     setN b 9 1 c))"
| "encode_body (Meta rpc fields) =
     rbind (checkMeta fields) (\<lambda>_.
     rbind (header META rpc (fields_len fields)) (\<lambda>b.
     rbind (setU b 9 1 (int (length fields))) (\<lambda>b.
     encode_fields b META_FIXED_LEN fields)))"
| "encode_body (Hello rpc c) =
     rbind (checkU32 c) (\<lambda>_.
     rbind (header HELLO rpc HELLO_LEN) (\<lambda>b.
     setN b 9 4 c))"
| "encode_body (DataSeq rpc tot off seq p) =
     rbind (checkU32 tot) (\<lambda>_.
     rbind (checkU32 off) (\<lambda>_.
     rbind (checkU32 seq) (\<lambda>_.
     rbind (checkDataBounds tot off p) (\<lambda>_.
     rbind (header DATA_SEQ rpc (DATA_SEQ_HEADER_LEN + length p)) (\<lambda>b.
     rbind (setN b 9 4 tot) (\<lambda>b.
     rbind (setN b 13 4 off) (\<lambda>b.
     rbind (setN b 17 4 seq) (\<lambda>b.
     put_bytes RangeErr b DATA_SEQ_HEADER_LEN p))))))))"
| "encode_body (ResendSeq rpc s e) =
     rbind (checkU32 s) (\<lambda>_.
     rbind (checkU32 e) (\<lambda>_.
     rbind (checkResendRange s e) (\<lambda>_.
     rbind (header RESEND_SEQ rpc RESEND_SEQ_LEN) (\<lambda>b.
     rbind (setN b 9 4 s) (\<lambda>b.
     setN b 13 4 e)))))"

definition encode :: "packet \<Rightarrow> wire_error + byte list" where
  "encode p = rbind (checkU64 (rpcId p)) (\<lambda>_. encode_body p)"

end
