(* ===== verification/WireLayout.thy ===== *)
theory WireLayout
  imports Wire
begin

text \<open>
  The layout docs/wire-format.md prescribes, as a plain concatenation of fields, and the rules
  a packet must keep. \<open>encode\<close> writes exactly this layout and refuses exactly the packets that
  break a rule; \<open>decode\<close> reads it back.
\<close>

section \<open>The specified layout\<close>

definition u32 :: "num \<Rightarrow> bool" where
  "u32 n \<longleftrightarrow> is_integer n \<and> 0 \<le> n \<and> n \<le> U32_MAX"

definition u8 :: "num \<Rightarrow> bool" where
  "u8 n \<longleftrightarrow> is_integer n \<and> 0 \<le> n \<and> n \<le> 0xFF"

definition ascii_bytes :: "jsstring \<Rightarrow> byte list" where
  "ascii_bytes s = map (\<lambda>c. byte_of (unat c)) s"

fun packet_type :: "packet \<Rightarrow> byte" where
  "packet_type (Req _ _ _) = REQ"
| "packet_type (Data _ _ _ _) = DATA"
| "packet_type (Grant _ _ _) = GRANT"
| "packet_type (Resend _ _ _) = RESEND"
| "packet_type (ErrorPacket _ _) = ERROR"
| "packet_type (Meta _ _) = META"
| "packet_type (Hello _ _) = HELLO"
| "packet_type (DataSeq _ _ _ _ _) = DATA_SEQ"
| "packet_type (ResendSeq _ _ _) = RESEND_SEQ"

definition nput :: "nat \<Rightarrow> num \<Rightarrow> byte list" where
  "nput n v = be_put n \<lfloor>v\<rfloor>"

definition field_bytes :: "jsstring \<times> jsstring \<Rightarrow> byte list" where
  "field_bytes f = be_put 1 (int (length (fst f))) @ ascii_bytes (fst f)
     @ be_put 2 (int (length (snd f))) @ ascii_bytes (snd f)"

fun body_bytes :: "packet \<Rightarrow> byte list" where
  "body_bytes (Req _ g aid) =
     nput 4 g @ be_put 2 (int (length (utf8_encode aid))) @ utf8_encode aid"
| "body_bytes (Data _ tot off p) = nput 4 tot @ nput 4 off @ p"
| "body_bytes (Grant _ m pr) = nput 4 m @ nput 1 pr"
| "body_bytes (Resend _ s e) = nput 4 s @ nput 4 e"
| "body_bytes (ErrorPacket _ c) = nput 1 c"
| "body_bytes (Meta _ fs) = be_put 1 (int (length fs)) @ concat (map field_bytes fs)"
| "body_bytes (Hello _ c) = nput 4 c"
| "body_bytes (DataSeq _ tot off seq p) = nput 4 tot @ nput 4 off @ nput 4 seq @ p"
| "body_bytes (ResendSeq _ s e) = nput 4 s @ nput 4 e"

definition packet_bytes :: "packet \<Rightarrow> byte list" where
  "packet_bytes p = packet_type p # be_put 8 (rpcId p) @ body_bytes p"

definition meta_ok :: "meta_fields \<Rightarrow> bool" where
  "meta_ok fs \<longleftrightarrow> length fs \<le> 4 \<and> distinct (map fst fs) \<and>
     (\<forall>(name, value) \<in> set fs. name \<in> set META_NAMES \<and> validMetaValue value)"

fun wf_body :: "packet \<Rightarrow> bool" where
  "wf_body (Req _ g aid) \<longleftrightarrow> u32 g \<and> is_well_formed aid \<and> aid \<noteq> [] \<and>
     length (utf8_encode aid) \<le> 0xFFFF"
| "wf_body (Data _ tot off p) \<longleftrightarrow> u32 tot \<and> u32 off \<and> off + len p \<le> tot"
| "wf_body (Grant _ m pr) \<longleftrightarrow> u32 m \<and> u8 pr"
| "wf_body (Resend _ s e) \<longleftrightarrow> u32 s \<and> u32 e \<and> s < e"
| "wf_body (ErrorPacket _ c) \<longleftrightarrow> u8 c"
| "wf_body (Meta _ fs) \<longleftrightarrow> meta_ok fs"
| "wf_body (Hello _ c) \<longleftrightarrow> u32 c"
| "wf_body (DataSeq _ tot off seq p) \<longleftrightarrow> u32 tot \<and> u32 off \<and> u32 seq \<and> off + len p \<le> tot"
| "wf_body (ResendSeq _ s e) \<longleftrightarrow> u32 s \<and> u32 e \<and> s < e"

definition wf_packet :: "packet \<Rightarrow> bool" where
  "wf_packet p \<longleftrightarrow> 0 \<le> rpcId p \<and> rpcId p < 2 ^ 64 \<and> wf_body p"

section \<open>Checks against the rules\<close>

lemma checkU32_ok [wire_simps]: "checkU32 n = Inr u \<longleftrightarrow> u32 n"
  by (auto simp: checkU32_def u32_def)

lemma checkU8_ok [wire_simps]: "checkU8 n = Inr u \<longleftrightarrow> u8 n"
  by (auto simp: checkU8_def u8_def)

lemma checkU64_ok [wire_simps]: "checkU64 n = Inr u \<longleftrightarrow> 0 \<le> n \<and> n < 2 ^ 64"
  by (auto simp: checkU64_def)

lemma checkDataBounds_ok [wire_simps]: "checkDataBounds tot off p = Inr u \<longleftrightarrow> off + len p \<le> tot"
  by (auto simp: checkDataBounds_def)

lemma checkResendRange_ok [wire_simps]: "checkResendRange s e = Inr u \<longleftrightarrow> s < e"
  by (auto simp: checkResendRange_def)

lemma checkMeta_fields_ok:
  "checkMeta_fields seen fs = Inr u \<longleftrightarrow>
     distinct (map fst fs) \<and> fst ` set fs \<inter> set seen = {} \<and>
     (\<forall>(name, value) \<in> set fs. name \<in> set META_NAMES \<and> validMetaValue value)"
proof (induction seen fs rule: checkMeta_fields.induct)
  case (2 seen nm vl rest)
  then show ?case by (auto simp: rbind_Inr_conv)
qed simp

lemma checkMeta_ok [wire_simps]: "checkMeta fs = Inr u \<longleftrightarrow> meta_ok fs"
  by (auto simp: checkMeta_def meta_ok_def rbind_Inr_conv checkMeta_fields_ok META_NAMES_def)

lemma u32_floor: "u32 n \<Longrightarrow> 0 \<le> \<lfloor>n\<rfloor> \<and> \<lfloor>n\<rfloor> < 2 ^ 32 \<and> num_of \<lfloor>n\<rfloor> = n"
  using floor_nonneg_bound [of n "0xFFFFFFFF"] by (auto simp: u32_def is_integer_def)

lemma u8_floor: "u8 n \<Longrightarrow> 0 \<le> \<lfloor>n\<rfloor> \<and> \<lfloor>n\<rfloor> < 256 \<and> num_of \<lfloor>n\<rfloor> = n"
  using floor_nonneg_bound [of n "0xFF"] by (auto simp: u8_def is_integer_def)

lemma u32_num_of: "0 \<le> v \<Longrightarrow> v < 2 ^ 32 \<Longrightarrow> u32 (num_of v)"
  unfolding u32_def by simp

lemma nput_u32: "u32 v \<Longrightarrow> num_of (be_get (nput 4 v)) = v"
  using u32_floor [of v] by (simp add: nput_def be_get_put)

lemma nput_u8: "u8 v \<Longrightarrow> num_of (be_get (nput 1 v)) = v"
  using u8_floor [of v] be_get_put [of "\<lfloor>v\<rfloor>" 1] unfolding nput_def by (simp del: be_put.simps)

lemma length_nput [simp]: "length (nput n v) = n"
  by (simp add: nput_def)

section \<open>ASCII\<close>

lemma length_ascii_bytes [simp]: "length (ascii_bytes s) = length s"
  by (simp add: ascii_bytes_def)

lemma ascii_latin1: "ascii_bytes (latin1 b) = b"
proof -
  have "byte_of (unat (unit_of (unat c))) = c" for c :: byte
    using unat_byte_less [of c] unat_jschar [of "unat c"] by simp
  then show ?thesis by (simp add: ascii_bytes_def latin1_def comp_def)
qed

definition is_ascii :: "jsstring \<Rightarrow> bool" where
  "is_ascii s \<longleftrightarrow> (\<forall>c \<in> set s. unat c < 256)"

lemma latin1_ascii: "is_ascii s \<Longrightarrow> latin1 (ascii_bytes s) = s"
  by (induction s) (auto simp: is_ascii_def ascii_bytes_def latin1_def unat_byte)

lemma validMetaValue_ascii: "validMetaValue v \<Longrightarrow> is_ascii v"
proof -
  assume v: "validMetaValue v"
  then obtain c rest where cr: "v = c # rest" by (cases v) (auto simp: validMetaValue_def)
  have "unat d < 256" if "d \<in> set rest" for d
  proof -
    have "rest = butlast rest @ [last rest]" using that by (cases rest) auto
    then have "d \<in> set (butlast rest) \<or> d = last rest" using that
      by (metis Un_iff empty_iff list.set(1) set_ConsD set_append)
    then show ?thesis using v cr that
      by (auto simp: validMetaValue_def printable_def visible_def list_all_iff)
  qed
  then show ?thesis using v cr by (auto simp: is_ascii_def validMetaValue_def visible_def)
qed

lemma META_NAMES_ascii: "name \<in> set META_NAMES \<Longrightarrow> is_ascii name \<and> length name < 256"
  unfolding META_NAMES_def js_def is_ascii_def by auto

lemma meta_ok_field:
  "meta_ok fs \<Longrightarrow> f \<in> set fs \<Longrightarrow>
    is_ascii (fst f) \<and> length (fst f) < 256 \<and> is_ascii (snd f) \<and> length (snd f) \<le> 0xFFFF"
  using META_NAMES_ascii validMetaValue_ascii
  by (cases f) (fastforce simp: meta_ok_def validMetaValue_def)

section \<open>encode writes the layout\<close>

definition hd9 :: "byte \<Rightarrow> int \<Rightarrow> byte list" where
  "hd9 ty rpc = ty # be_put 8 rpc"

lemma length_hd9 [simp]: "length (hd9 ty rpc) = 9"
  by (simp add: hd9_def)

lemma packet_bytes_hd9: "packet_bytes p = hd9 (packet_type p) (rpcId p) @ body_bytes p"
  by (simp add: packet_bytes_def hd9_def)

lemma put_bytes_at:
  "i = length xs \<Longrightarrow> length bs \<le> k \<Longrightarrow>
    put_bytes e (xs @ replicate k 0) i bs = Inr ((xs @ bs) @ replicate (k - length bs) 0)"
  by (simp add: put_bytes_next)

lemma set_uint_at:
  "i = length xs \<Longrightarrow> n \<le> k \<Longrightarrow>
    set_uint e (xs @ replicate k 0) i n v = Inr ((xs @ be_put n v) @ replicate (k - n) 0)"
  by (simp add: set_uint_next)

lemma header_ok: "9 \<le> n \<Longrightarrow> header ty rpc n = Inr (hd9 ty rpc @ replicate (n - 9) 0)"
  using set_uint_next [of 1 "[ty]" 8 "n - 1" RangeErr rpc]
  by (simp add: header_def put_bytes_first hd9_def)

lemma writeAscii_at:
  "i = length xs \<Longrightarrow> length s \<le> k \<Longrightarrow>
    writeAscii (xs @ replicate k 0) i s = (xs @ ascii_bytes s) @ replicate (k - length s) 0"
proof (induction s arbitrary: xs i k)
  case (Cons c s)
  then obtain k' where k: "k = Suc k'" by (cases k) auto
  have "(xs @ replicate k 0)[i := byte_of (unat c)] = (xs @ [byte_of (unat c)]) @ replicate k' 0"
    using Cons.prems k by (simp add: list_update_append)
  with Cons.IH [of "Suc i" "xs @ [byte_of (unat c)]" k'] Cons.prems k
  show ?case by (simp add: ascii_bytes_def)
qed (simp add: ascii_bytes_def)

lemma length_field_bytes [simp]: "length (field_bytes f) = 3 + length (fst f) + length (snd f)"
  by (simp add: field_bytes_def del: be_put.simps)

lemma encode_field_step:
  assumes "i = length xs" "3 + length nm + length vl \<le> k"
  shows "encode_fields (xs @ replicate k 0) i ((nm, vl) # fs) =
    encode_fields ((xs @ field_bytes (nm, vl)) @ replicate (k - (3 + length nm + length vl)) 0)
      (i + 3 + length nm + length vl) fs"
  using assms
  by (simp add: set_uint_at writeAscii_at Let_def
      del: append_assoc be_put.simps replicate.simps replicate_Suc)
     (simp add: field_bytes_def numeral_3_eq_3 del: be_put.simps replicate.simps replicate_Suc)

lemma encode_fields_at:
  "i = length xs \<Longrightarrow> length (concat (map field_bytes fs)) \<le> k \<Longrightarrow>
    encode_fields (xs @ replicate k 0) i fs =
      Inr ((xs @ concat (map field_bytes fs)) @ replicate (k - length (concat (map field_bytes fs))) 0)"
proof (induction fs arbitrary: xs i k)
  case (Cons f fs)
  obtain nm vl where f: "f = (nm, vl)" by (cases f)
  have k: "3 + length nm + length vl + length (concat (map field_bytes fs)) \<le> k"
    using Cons.prems f by simp
  let ?n = "3 + length nm + length vl"
  have "encode_fields ((xs @ field_bytes f) @ replicate (k - ?n) 0)
      (i + 3 + length nm + length vl) fs
    = Inr (((xs @ field_bytes f) @ concat (map field_bytes fs)) @
        replicate (k - ?n - length (concat (map field_bytes fs))) 0)"
    by (rule Cons.IH) (use Cons.prems k f in simp_all)
  with Cons.prems(1) k show ?case
    unfolding f by (subst encode_field_step) (simp_all add: add.assoc)
qed simp

lemma fields_len_eq: "fields_len fs = 10 + length (concat (map field_bytes fs))"
proof -
  have "foldl (\<lambda>n (name, value). n + 3 + length name + length value) k fs
      = k + length (concat (map field_bytes fs))" for k
    by (induction fs arbitrary: k) (auto simp: split_def)
  then show ?thesis by (simp add: fields_len_def)
qed

lemma checks_pass:
  "u32 n \<Longrightarrow> checkU32 n = Inr ()" "u8 n \<Longrightarrow> checkU8 n = Inr ()"
  "off + len p \<le> tot \<Longrightarrow> checkDataBounds tot off p = Inr ()"
  "r < e \<Longrightarrow> checkResendRange r e = Inr ()" "meta_ok fs \<Longrightarrow> checkMeta fs = Inr ()"
  by (simp_all add: wire_simps)

lemma encode_body_ok: "wf_body p \<Longrightarrow> encode_body p = Inr (packet_bytes p)"
  by (cases p)
     (simp_all add: checks_pass header_ok set_uint_at put_bytes_at encode_fields_at
       fields_len_eq packet_bytes_hd9 nput_def utf8_encode_nonempty Let_def
       del: append_assoc be_put.simps replicate.simps replicate_Suc, simp_all)

lemma encode_body_wf: "encode_body p = Inr b \<Longrightarrow> wf_body p"
  by (cases p) (auto simp: rbind_Inr_conv wire_simps Let_def utf8_encode_def)

text \<open>\<open>encode\<close> implements the layout: it succeeds exactly on the packets that keep the rules.\<close>

lemma encode_iff: "encode p = Inr b \<longleftrightarrow> wf_packet p \<and> b = packet_bytes p"
  using encode_body_ok [of p] encode_body_wf [of p b]
  by (auto simp: encode_def rbind_Inr_conv wire_simps wf_packet_def)

section \<open>decode reads the layout\<close>

lemma get_uint_skip:
  "length xs \<le> i \<Longrightarrow> get_uint e (xs @ ys) i n = get_uint e ys (i - length xs) n"
  by (auto simp: get_uint_def)

lemma get_uint_here: "length xs = n \<Longrightarrow> get_uint e (xs @ ys) 0 n = Inr (be_get xs)"
  by (simp add: get_uint_def)

lemma get_uint_whole: "length xs = n \<Longrightarrow> get_uint e xs 0 n = Inr (be_get xs)"
  by (simp add: get_uint_def)

lemma get_uint_rpc:
  "0 \<le> rpc \<Longrightarrow> rpc < 2 ^ 64 \<Longrightarrow> get_uint e (hd9 ty rpc @ ys) 1 8 = Inr rpc"
  using get_uint_append [of 1 "[ty]" "be_put 8 rpc" 8 e ys]
  by (simp add: hd9_def be_get_put del: be_put.simps)

lemma hd9_nth0: "(hd9 ty rpc @ ys) ! 0 = ty"
  by (simp add: hd9_def)

lemmas get_uint_layout = get_uint_skip get_uint_here get_uint_whole

lemma nput_back [simp]: "u32 v \<Longrightarrow> be_get (nput 4 v) = \<lfloor>v\<rfloor>" "u8 v \<Longrightarrow> be_get (nput 1 v) = \<lfloor>v\<rfloor>"
  "u8 v \<Longrightarrow> be_get (nput (Suc 0) v) = \<lfloor>v\<rfloor>"
  using nput_u32 [of v] nput_u8 [of v] u32_floor [of v] u8_floor [of v]
  by (metis floor_of_int One_nat_def)+

lemma num_of_floor: "u32 v \<Longrightarrow> num_of \<lfloor>v\<rfloor> = v" "u8 v \<Longrightarrow> num_of \<lfloor>v\<rfloor> = v"
  using u32_floor u8_floor by blast+

lemma decode_fields_at:
  assumes "\<forall>f \<in> set fs. is_ascii (fst f) \<and> length (fst f) < 256 \<and> is_ascii (snd f) \<and> length (snd f) \<le> 0xFFFF"
    and "i = length xs"
  shows "decode_meta_fields (xs @ concat (map field_bytes fs)) (length fs) i acc =
    Inr (length xs + length (concat (map field_bytes fs)), acc @ fs)"
  using assms
proof (induction fs arbitrary: xs i acc)
  case (Cons f fs)
  obtain nm vl where f: "f = (nm, vl)" by (cases f)
  let ?rest = "concat (map field_bytes fs)"
  let ?b = "xs @ field_bytes f @ ?rest"
  have fb: "field_bytes f = be_put 1 (int (length nm)) @ ascii_bytes nm
      @ be_put 2 (int (length vl)) @ ascii_bytes vl"
    by (simp add: field_bytes_def f)
  have lens: "length nm < 256" "length vl \<le> 0xFFFF" and asc: "is_ascii nm" "is_ascii vl"
    using Cons.prems f by auto
  have b0: "unat (?b ! i) = length nm"
    using Cons.prems lens by (simp add: fb nth_append unat_of_nat)
  have nm: "latin1 (subarray ?b (i + 1) (i + 1 + length nm)) = nm"
    using Cons.prems asc by (simp add: fb subarray_def latin1_ascii del: One_nat_def)
  have m: "getU ?b (i + 1 + length nm) 2 = Inr (int (length vl))"
    using Cons.prems lens by (simp add: fb get_uint_layout be_get_put del: be_put.simps)
  have vl: "latin1 (subarray ?b (i + 3 + length nm) (i + 3 + length nm + length vl)) = vl"
    using Cons.prems asc by (simp add: fb subarray_def latin1_ascii del: be_put.simps)
  have "decode_meta_fields ((xs @ field_bytes f) @ ?rest) (length fs)
      (i + 3 + length nm + length vl) (acc @ [(nm, vl)])
    = Inr (length (xs @ field_bytes f) + length ?rest, (acc @ [(nm, vl)]) @ fs)"
    by (rule Cons.IH) (use Cons.prems f in auto)
  then have IH: "decode_meta_fields ?b (length fs) (i + 3 + length nm + length vl) (acc @ [(nm, vl)])
    = Inr (length ?b, acc @ f # fs)"
    by (simp add: f)
  have "i + 3 + length nm + length vl \<le> length ?b" using Cons.prems f by simp
  then show ?case
    using b0 nm m vl IH by (simp add: Let_def f) 
qed simp

end
