(* ===== verification/Codec.thy ===== *)
theory Codec
  imports WireLayout
begin

text \<open>
  The correctness of the codec of \<open>client/src/wire.ts\<close>: the two round trips, the set of errors
  \<open>decode\<close> can throw, the sizes of what \<open>encode\<close> produces, and the one place where the pair is
  not a round trip, an asset id that starts with U+FEFF. The interface the session relies on is
  the locale \<open>datagram_codec\<close>.
\<close>

section \<open>decode after encode\<close>

definition bom_req :: "packet \<Rightarrow> bool" where
  "bom_req p = (case p of Req _ _ aid \<Rightarrow> starts_with_bom aid | _ \<Rightarrow> False)"

lemma decode_hd9:
  "0 \<le> rpc \<Longrightarrow> rpc < 2 ^ 64 \<Longrightarrow> decode (hd9 ty rpc @ body) =
    (let b = hd9 ty rpc @ body in
     if ty = REQ then decode_req b rpc else if ty = DATA then decode_data b rpc
     else if ty = GRANT then decode_grant b rpc else if ty = RESEND then decode_resend b rpc
     else if ty = ERROR then decode_error b rpc else if ty = META then decode_meta b rpc
     else if ty = HELLO then decode_hello b rpc else if ty = DATA_SEQ then decode_data_seq b rpc
     else if ty = RESEND_SEQ then decode_resend_seq b rpc
     else Inl (MalformedPacketError UnknownType))"
  by (simp add: decode_def get_uint_rpc hd9_nth0 Let_def del: One_nat_def)

lemmas decode_bodies = decode_req_def decode_data_def decode_grant_def decode_resend_def
  decode_error_def decode_hello_def decode_data_seq_def decode_resend_seq_def

lemma decode_meta_layout:
  assumes "meta_ok fs"
  shows "decode_meta (hd9 META rpc @ be_put 1 (int (length fs)) @ concat (map field_bytes fs)) rpc
    = Inr (Meta rpc fs)"
proof -
  let ?xs = "hd9 META rpc @ be_put 1 (int (length fs))"
  have "length fs < 256" using assms by (simp add: meta_ok_def)
  then have n: "unat ((?xs @ concat (map field_bytes fs)) ! 9) = length fs"
    by (simp add: nth_append unat_of_nat)
  have "decode_meta_fields (?xs @ concat (map field_bytes fs)) (length fs) 10 [] =
      Inr (length ?xs + length (concat (map field_bytes fs)), [] @ fs)"
    by (rule decode_fields_at) (use meta_ok_field [OF assms] in simp_all)
  with n show ?thesis
    using checks_pass(5) [OF assms] by (simp add: decode_meta_def del: be_put.simps)
qed

lemma decode_packet_bytes:
  assumes wf: "wf_packet p" and nb: "\<not> bom_req p"
  shows "decode (packet_bytes p) = Inr p"
proof (cases p)
  case (Req rpc g aid)
  then have "utf8_decode (utf8_encode aid) = Some aid" "0 < length (utf8_encode aid)"
    using wf nb by (auto simp: bom_req_def wf_packet_def utf8_decode_encode utf8_encode_nonempty)
  then show ?thesis using wf
    by (simp add: Req wf_packet_def packet_bytes_hd9 decode_hd9 decode_req_def get_uint_layout
        subarray_all be_get_put num_of_floor Let_def del: be_put.simps)
next
  case (Meta rpc fs)
  then show ?thesis using wf decode_meta_layout [of fs rpc]
    by (simp add: wf_packet_def packet_bytes_hd9 decode_hd9 Let_def)
qed (use wf in \<open>simp_all add: wf_packet_def packet_bytes_hd9 decode_hd9 decode_bodies
       get_uint_layout subarray_all num_of_floor checks_pass Let_def\<close>)

section \<open>encode after decode\<close>

lemma drop_field:
  "i + n \<le> length b \<Longrightarrow> drop i b = be_put n (be_get (take n (drop i b))) @ drop (i + n) b"
  using be_put_get_n [of "take n (drop i b)" n] append_take_drop_id [of n "drop i b"]
  by (simp add: add.commute)

lemma be_get_take_bounds: "0 \<le> be_get (take n xs) \<and> be_get (take n xs) < 256 ^ n"
proof -
  have "be_get (take n xs) < 256 ^ length (take n xs)" using be_get_bounds by blast
  also have "\<dots> \<le> 256 ^ n" by (rule power_increasing) auto
  finally show ?thesis using be_get_bounds by blast
qed

lemma split_header:
  assumes "9 \<le> length b"
  shows "b = hd9 (b ! 0) (be_get (take 8 (drop 1 b))) @ drop 9 b"
proof -
  have "b = b ! 0 # drop 1 b" using assms by (cases b) auto
  also have "drop 1 b = be_put 8 (be_get (take 8 (drop 1 b))) @ drop 9 b"
    using drop_field [of 1 8 b] assms by simp
  finally show ?thesis by (simp add: hd9_def)
qed

lemma nput_num_of [simp]: "nput n (num_of v) = be_put n v"
  by (simp add: nput_def)

lemma decode_fields_inv:
  assumes "decode_meta_fields b k i acc = Inr (j, fs)" "i \<le> length b"
  shows "\<exists>gs. fs = acc @ gs \<and> length gs = k \<and> j \<le> length b \<and>
    drop i b = concat (map field_bytes gs) @ drop j b"
  using assms
proof (induction b k i acc rule: decode_meta_fields.induct)
  case (2 b k i acc)
  define n where "n = unat (b ! i)"
  define nm where "nm = latin1 (subarray b (i + 1) (i + 1 + n))"
  from "2.prems"(1) obtain m where m: "getU b (i + 1 + n) 2 = Inr m"
    and l: "i + 1 \<le> length b" "i + 1 + n + 2 \<le> length b" "i + 3 + n + nat m \<le> length b"
    and rec: "decode_meta_fields b k (i + 3 + n + nat m)
      (acc @ [(nm, latin1 (subarray b (i + 3 + n) (i + 3 + n + nat m)))]) = Inr (j, fs)"
    by (auto simp: rbind_Inr_conv Let_def n_def nm_def)
  define vl where "vl = latin1 (subarray b (i + 3 + n) (i + 3 + n + nat m))"
  obtain gs where gs: "fs = (acc @ [(nm, vl)]) @ gs" "length gs = k" "j \<le> length b"
    "drop (i + 3 + n + nat m) b = concat (map field_bytes gs) @ drop j b"
    using "2.IH" [of "()" n "()" nm m "i + 3 + n" "()"] m l rec
    by (auto simp: n_def nm_def vl_def)
  have mb: "0 \<le> m" "m = be_get (take 2 (drop (i + 1 + n) b))"
    using m l be_get_bounds by (auto simp: get_uint_def split: if_splits)
  have "drop i b = [b ! i] @ drop (i + 1) b"
    using l Cons_nth_drop_Suc [of i b] by simp
  also have "[b ! i] = be_put 1 (int n)" by (simp add: n_def)
  also have "drop (i + 1) b = ascii_bytes nm @ drop (i + 1 + n) b"
    using append_take_drop_id [of n "drop (i + 1) b"]
    by (simp add: nm_def ascii_latin1 subarray_def add.commute)
  also have "drop (i + 1 + n) b = be_put 2 m @ drop (i + 3 + n) b"
    using drop_field [of "i + 1 + n" 2 b] l mb by (simp add: numeral_3_eq_3)
  also have "drop (i + 3 + n) b = ascii_bytes vl @ drop (i + 3 + n + nat m) b"
    using append_take_drop_id [of "nat m" "drop (i + 3 + n) b"]
    by (simp add: vl_def ascii_latin1 subarray_def add.commute)
  finally have "drop i b = field_bytes (nm, vl) @ concat (map field_bytes gs) @ drop j b"
    using gs(4) l mb by (simp add: field_bytes_def nm_def vl_def latin1_def subarray_def)
  then show ?case using gs by (intro exI [of _ "(nm, vl) # gs"]) simp
qed auto

definition bom_datagram :: "byte list \<Rightarrow> bool" where
  "bom_datagram b \<longleftrightarrow> b ! 0 = REQ \<and> take 3 (drop 15 b) = bom_bytes"

text \<open>What one successful read says about the buffer.\<close>

lemma get_uint_field:
  assumes "get_uint e b i n = Inr v"
  shows "drop i b = be_put n v @ drop (i + n) b" "0 \<le> v" "v < 256 ^ n"
proof -
  from assms have "i + n \<le> length b" "v = be_get (take n (drop i b))"
    by (auto simp: get_uint_def split: if_splits)
  then show "drop i b = be_put n v @ drop (i + n) b" "0 \<le> v" "v < 256 ^ n"
    using drop_field [of i n b] be_get_take_bounds [of n "drop i b"] by simp_all
qed

lemma get_u32:
  "get_uint e b i 4 = Inr v \<Longrightarrow> u32 (num_of v)"
  using get_uint_field(2,3) [of e b i 4 v] by (auto intro!: u32_num_of)

lemma get_u8:
  "get_uint e b i 1 = Inr v \<Longrightarrow> u8 (num_of v)"
  using get_uint_field(2,3) [of e b i 1 v] by (auto simp: u8_def)

lemma decode_req_inv:
  assumes "decode_req b rpc = Inr p" "take 3 (drop 15 b) \<noteq> bom_bytes"
  shows "wf_body p \<and> packet_type p = REQ \<and> rpcId p = rpc \<and> drop 9 b = body_bytes p"
proof -
  from assms(1) obtain n g aid where n: "getU b 13 2 = Inr n" "n \<noteq> 0" "length b = 15 + nat n"
    and aid: "utf8_decode (drop 15 b) = Some aid"
    and g: "getU b 9 4 = Inr g" and p: "p = Req rpc (num_of g) aid"
    by (simp add: decode_req_def rbind_Inr_conv subarray_all split: option.splits)
       (clarify, blast)
  note f = get_uint_field [OF g] get_uint_field [OF n(1)]
  have enc: "is_well_formed aid \<and> utf8_encode aid = drop 15 b"
    by (rule utf8_encode_decode [OF aid assms(2)])
  have "drop 9 b = body_bytes p"
    using enc n f by (simp add: p del: be_put.simps)
  moreover have "aid \<noteq> []" using enc n f by (auto simp: utf8_encode_def)
  moreover have "length (drop 15 b) \<le> 0xFFFF" using n f by simp
  ultimately show ?thesis using enc get_u32 [OF g] by (simp add: p)
qed

lemma decode_data_inv:
  assumes "decode_data b rpc = Inr p"
  shows "wf_body p \<and> packet_type p = DATA \<and> rpcId p = rpc \<and> drop 9 b = body_bytes p"
proof -
  from assms obtain t off where g: "getU b 9 4 = Inr t" "getU b 13 4 = Inr off"
    and bd: "num_of off + len (drop 17 b) \<le> num_of t"
    and p: "p = Data rpc (num_of t) (num_of off) (drop 17 b)"
    by (auto simp: decode_data_def rbind_Inr_conv subarray_all Let_def checkDataBounds_ok)
  from bd get_uint_field [OF g(1)] get_uint_field [OF g(2)] get_u32 [OF g(1)] get_u32 [OF g(2)]
  show ?thesis by (simp add: p del: be_put.simps)
qed

lemma decode_grant_inv:
  assumes "decode_grant b rpc = Inr p"
  shows "wf_body p \<and> packet_type p = GRANT \<and> rpcId p = rpc \<and> drop 9 b = body_bytes p"
proof -
  from assms obtain m pr where l: "length b = 14" and g: "getU b 9 4 = Inr m" "getU b 13 1 = Inr pr"
    and p: "p = Grant rpc (num_of m) (num_of pr)"
    by (auto simp: decode_grant_def rbind_Inr_conv)
  from l get_uint_field [OF g(1)] get_uint_field [OF g(2)] get_u32 [OF g(1)] get_u8 [OF g(2)]
  show ?thesis by (simp add: p del: be_put.simps)
qed

lemma decode_resend_inv:
  assumes "decode_resend b rpc = Inr p"
  shows "wf_body p \<and> packet_type p = RESEND \<and> rpcId p = rpc \<and> drop 9 b = body_bytes p"
proof -
  from assms obtain s e where l: "length b = 17" and g: "getU b 9 4 = Inr s" "getU b 13 4 = Inr e"
    and r: "num_of s < num_of e" and p: "p = Resend rpc (num_of s) (num_of e)"
    by (auto simp: decode_resend_def rbind_Inr_conv checkResendRange_ok)
  from l r get_uint_field [OF g(1)] get_uint_field [OF g(2)] get_u32 [OF g(1)] get_u32 [OF g(2)]
  show ?thesis by (simp add: p del: be_put.simps)
qed

lemma decode_error_inv:
  assumes "decode_error b rpc = Inr p"
  shows "wf_body p \<and> packet_type p = ERROR \<and> rpcId p = rpc \<and> drop 9 b = body_bytes p"
proof -
  from assms obtain c where l: "length b = 10" and g: "getU b 9 1 = Inr c"
    and p: "p = ErrorPacket rpc (num_of c)"
    by (auto simp: decode_error_def rbind_Inr_conv)
  from l get_uint_field [OF g] get_u8 [OF g] show ?thesis by (simp add: p del: be_put.simps)
qed

lemma decode_meta_inv:
  assumes "decode_meta b rpc = Inr p"
  shows "wf_body p \<and> packet_type p = META \<and> rpcId p = rpc \<and> drop 9 b = body_bytes p"
proof -
  from assms obtain i fs where l: "10 \<le> length b"
    and m: "decode_meta_fields b (unat (b ! 9)) 10 [] = Inr (i, fs)"
    and i: "i = length b" and ok: "meta_ok fs" and p: "p = Meta rpc fs"
    by (auto simp: decode_meta_def rbind_Inr_conv checkMeta_ok)
  from decode_fields_inv [OF m l] i have d: "length fs = unat (b ! 9)"
    "drop 10 b = concat (map field_bytes fs)" by auto
  have "drop 9 b = b ! 9 # drop 10 b" using l Cons_nth_drop_Suc [of 9 b] by simp
  with d ok show ?thesis by (simp add: p)
qed

lemma decode_hello_inv:
  assumes "decode_hello b rpc = Inr p"
  shows "wf_body p \<and> packet_type p = HELLO \<and> rpcId p = rpc \<and> drop 9 b = body_bytes p"
proof -
  from assms obtain c where l: "length b = 13" and g: "getU b 9 4 = Inr c"
    and p: "p = Hello rpc (num_of c)"
    by (auto simp: decode_hello_def rbind_Inr_conv)
  from l get_uint_field [OF g] get_u32 [OF g] show ?thesis by (simp add: p del: be_put.simps)
qed

lemma decode_data_seq_inv:
  assumes "decode_data_seq b rpc = Inr p"
  shows "wf_body p \<and> packet_type p = DATA_SEQ \<and> rpcId p = rpc \<and> drop 9 b = body_bytes p"
proof -
  from assms obtain t off sq
    where g: "getU b 9 4 = Inr t" "getU b 13 4 = Inr off" "getU b 17 4 = Inr sq"
    and bd: "num_of off + len (drop 21 b) \<le> num_of t"
    and p: "p = DataSeq rpc (num_of t) (num_of off) (num_of sq) (drop 21 b)"
    by (auto simp: decode_data_seq_def rbind_Inr_conv subarray_all Let_def checkDataBounds_ok)
  from bd get_uint_field [OF g(1)] get_uint_field [OF g(2)] get_uint_field [OF g(3)]
    get_u32 [OF g(1)] get_u32 [OF g(2)] get_u32 [OF g(3)]
  show ?thesis by (simp add: p del: be_put.simps)
qed

lemma decode_resend_seq_inv:
  assumes "decode_resend_seq b rpc = Inr p"
  shows "wf_body p \<and> packet_type p = RESEND_SEQ \<and> rpcId p = rpc \<and> drop 9 b = body_bytes p"
proof -
  from assms obtain s e where l: "length b = 17" and g: "getU b 9 4 = Inr s" "getU b 13 4 = Inr e"
    and r: "num_of s < num_of e" and p: "p = ResendSeq rpc (num_of s) (num_of e)"
    by (auto simp: decode_resend_seq_def rbind_Inr_conv checkResendRange_ok)
  from l r get_uint_field [OF g(1)] get_uint_field [OF g(2)] get_u32 [OF g(1)] get_u32 [OF g(2)]
  show ?thesis by (simp add: p del: be_put.simps)
qed

lemma decode_inv:
  assumes d: "decode b = Inr p" and nb: "\<not> bom_datagram b"
  shows "wf_packet p \<and> packet_bytes p = b"
proof -
  from d obtain rpc where l: "9 \<le> length b" and r: "getU b 1 8 = Inr rpc"
    by (auto simp: decode_def rbind_Inr_conv)
  from d l r have "b ! 0 = REQ \<and> decode_req b rpc = Inr p \<or> b ! 0 = DATA \<and> decode_data b rpc = Inr p
    \<or> b ! 0 = GRANT \<and> decode_grant b rpc = Inr p \<or> b ! 0 = RESEND \<and> decode_resend b rpc = Inr p
    \<or> b ! 0 = ERROR \<and> decode_error b rpc = Inr p \<or> b ! 0 = META \<and> decode_meta b rpc = Inr p
    \<or> b ! 0 = HELLO \<and> decode_hello b rpc = Inr p \<or> b ! 0 = DATA_SEQ \<and> decode_data_seq b rpc = Inr p
    \<or> b ! 0 = RESEND_SEQ \<and> decode_resend_seq b rpc = Inr p"
    by (simp add: decode_def Let_def split: if_splits)
  moreover have "b ! 0 = REQ \<Longrightarrow> take 3 (drop 15 b) \<noteq> bom_bytes"
    using nb by (simp add: bom_datagram_def)
  ultimately have "wf_body p \<and> packet_type p = b ! 0 \<and> rpcId p = rpc \<and> drop 9 b = body_bytes p"
    by (elim disjE conjE)
       (simp_all add: decode_req_inv decode_data_inv decode_grant_inv decode_resend_inv
         decode_error_inv decode_meta_inv decode_hello_inv decode_data_seq_inv decode_resend_seq_inv)
  moreover have "rpc = be_get (take 8 (drop 1 b))" using r by (auto simp: get_uint_def split: if_splits)
  ultimately show ?thesis using split_header [OF l] get_uint_field(2,3) [OF r]
    by (simp add: wf_packet_def packet_bytes_hd9)
qed

section \<open>The errors of decode\<close>

text \<open>A computation that throws nothing but \<open>MalformedPacketError\<close>.\<close>

definition clean :: "wire_error + 'a \<Rightarrow> bool" where
  "clean m \<longleftrightarrow> m \<noteq> Inl RangeErr"

lemma clean_intros:
  "clean (Inr x)" "clean (Inl (MalformedPacketError r))" "clean (malformed_if c r)"
  "i + n \<le> length b \<Longrightarrow> clean (getU b i n)"
  "clean (checkDataBounds tot off p)" "clean (checkResendRange st en)"
  by (auto simp: clean_def throw_if_def get_uint_def checkDataBounds_def checkResendRange_def)

lemma clean_bind: "clean m \<Longrightarrow> (\<And>x. m = Inr x \<Longrightarrow> clean (f x)) \<Longrightarrow> clean (rbind m f)"
  by (cases m) (auto simp: clean_def)

lemma clean_checkMeta: "clean (checkMeta fs)"
proof -
  have "clean (checkMeta_fields seen fs)" for seen
    by (induction seen fs rule: checkMeta_fields.induct) (auto intro!: clean_bind clean_intros)
  then show ?thesis by (auto simp: checkMeta_def intro!: clean_bind clean_intros)
qed

lemma clean_meta_fields: "clean (decode_meta_fields b k i acc)"
  by (induction b k i acc rule: decode_meta_fields.induct)
     (auto simp: Let_def intro!: clean_bind clean_intros)

lemma clean_decode: "clean (decode b)"
  by (auto simp: decode_def decode_bodies decode_meta_def Let_def split_def
      intro!: clean_bind clean_intros clean_checkMeta clean_meta_fields split: option.splits)

lemma check_not_range [simp]:
  "checkU32 n \<noteq> Inl RangeErr" "checkU8 n \<noteq> Inl RangeErr" "checkU64 k \<noteq> Inl RangeErr"
  "checkDataBounds tot off p \<noteq> Inl RangeErr" "checkResendRange st en \<noteq> Inl RangeErr"
  "checkMeta fs \<noteq> Inl RangeErr"
  using clean_checkMeta
  by (auto simp: checkU32_def checkU8_def checkU64_def checkDataBounds_def checkResendRange_def clean_def)

lemma encode_no_range: "encode p \<noteq> Inl RangeErr"
proof
  assume r: "encode p = Inl RangeErr"
  then have "encode_body p = Inl RangeErr" by (auto simp: encode_def rbind_Inl_conv)
  moreover from this have "wf_body p"
    by (cases p) (auto simp: rbind_Inl_conv wire_simps Let_def utf8_encode_def)
  ultimately show False using encode_body_ok by simp
qed

section \<open>What the session relies on\<close>

locale datagram_codec =
  fixes enc :: "'p \<Rightarrow> 'e + 'd" and dec :: "'d \<Rightarrow> 'e + 'p" and sendable :: "'p \<Rightarrow> bool"
    and dropped :: "'e \<Rightarrow> bool"
  assumes enc_dec: "sendable p \<Longrightarrow> \<exists>d. enc p = Inr d \<and> dec d = Inr p"
    and dec_error: "dec d = Inl e \<Longrightarrow> dropped e"
begin

lemma enc_inj: "sendable p \<Longrightarrow> sendable q \<Longrightarrow> enc p = enc q \<Longrightarrow> p = q"
  using enc_dec by (metis sum.inject(2))

text \<open>Datagrams may be lost, repeated and reordered: whatever arrives of what was sent decodes
  to packets that were sent, and none of it is dropped as malformed.\<close>

lemma channel:
  assumes sent: "\<forall>p \<in> S. sendable p" and arrived: "\<forall>d \<in> set ds. \<exists>p \<in> S. enc p = Inr d"
  shows "\<exists>ps. map dec ds = map Inr ps \<and> set ps \<subseteq> S"
  using arrived
proof (induction ds)
  case (Cons d ds)
  then obtain p where p: "p \<in> S" "enc p = Inr d" by auto
  then have "dec d = Inr p" using enc_dec [of p] sent by auto
  moreover obtain ps where "map dec ds = map Inr ps" "set ps \<subseteq> S" using Cons by auto
  ultimately have "map dec (d # ds) = map Inr (p # ps)" "set (p # ps) \<subseteq> S" using p by auto
  then show ?case by blast
qed auto

end

interpretation wire: datagram_codec encode decode "\<lambda>p. wf_packet p \<and> \<not> bom_req p"
  "\<lambda>e. e \<noteq> RangeErr"
  by unfold_locales
     (auto simp: encode_iff decode_packet_bytes intro: clean_decode [unfolded clean_def, THEN notE])

section \<open>Properties\<close>

text \<open>C2: every packet \<open>encode\<close> accepts is decoded back to the same packet, unless it is a REQ
  whose asset id starts with a byte order mark.\<close>

theorem decode_encode:
  assumes "encode p = Inr b" "\<not> bom_req p"
  shows "decode b = Inr p"
  using assms by (simp add: encode_iff decode_packet_bytes)

theorem decode_encode_witness:
  "decode [0x03, 0,0,0,0,0,0,0,7, 0,0,1,0, 5] = Inr (Grant 7 256 5)"
proof -
  have "encode (Grant 7 256 5) = Inr [0x03, 0,0,0,0,0,0,0,7, 0,0,1,0, 5]"
    by (simp add: encode_iff wf_packet_def u32_def u8_def packet_bytes_def nput_def be_put_numeral)
  then show ?thesis by (rule decode_encode) (simp add: bom_req_def)
qed

text \<open>C3: the accepted datagrams are canonical: re-encoding a decoded packet gives the same
  bytes, unless the datagram is a REQ whose asset id starts with a byte order mark.\<close>

theorem encode_decode:
  assumes "decode b = Inr p" "\<not> bom_datagram b"
  shows "encode p = Inr b"
  using decode_inv [OF assms] by (simp add: encode_iff)

theorem encode_decode_witness:
  "encode (ErrorPacket 7 1) = Inr [0x05, 0,0,0,0,0,0,0,7, 1]"
proof (rule encode_decode)
  show "decode [0x05, 0,0,0,0,0,0,0,7, 1] = Inr (ErrorPacket 7 1)"
    by (simp add: decode_def get_uint_def decode_error_def be_get_def)
  show "\<not> bom_datagram [0x05, 0,0,0,0,0,0,0,7, 1]"
    by (simp add: bom_datagram_def)
qed

text \<open>C31: \<open>decode\<close> is total and throws nothing but \<open>MalformedPacketError\<close>: no datagram makes it
  read outside the buffer, so no datagram ends the read loop.\<close>

theorem decode_only_malformed:
  "(\<exists>p. decode b = Inr p) \<or> (\<exists>r. decode b = Inl (MalformedPacketError r))"
proof (cases "decode b")
  case (Inl e)
  then show ?thesis using wire.dec_error [OF Inl] by (cases e) auto
qed auto

text \<open>\<open>encode\<close> writes the layout of docs/wire-format.md and refuses exactly the packets that
  break one of its rules (widths, bounds, non-empty ranges, META field rules).\<close>

theorem encode_exact:
  "case encode p of
     Inr b \<Rightarrow> wf_packet p \<and> b = packet_bytes p
   | Inl e \<Rightarrow> \<not> wf_packet p \<and> e \<noteq> RangeErr"
proof (cases "encode p")
  case (Inl e)
  then have "\<not> wf_packet p" using encode_iff [of p "packet_bytes p"] by auto
  then show ?thesis using Inl encode_no_range [of p] by auto
next
  case (Inr b)
  then show ?thesis using encode_iff [of p b] by simp
qed

text \<open>C40: an asset id that starts with U+FEFF does not survive: \<open>encode\<close> accepts the REQ and
  \<open>decode\<close> returns it without the mark.\<close>

theorem bom_asset_id_lost:
  assumes "encode (Req rpc g (0xFEFF # s)) = Inr b" "s \<noteq> []"
  shows "decode b = Inr (Req rpc g s)"
proof -
  have wf: "wf_packet (Req rpc g (0xFEFF # s))" and b: "b = packet_bytes (Req rpc g (0xFEFF # s))"
    using assms by (auto simp: encode_iff)
  have wfs: "is_well_formed s"
    using wf assms(2) by (cases s) (auto simp: wf_packet_def is_lead_def is_trail_def)
  have "utf8_encode (0xFEFF # s) \<noteq> []" by (rule utf8_encode_nonempty) simp
  with wf show ?thesis using utf8_decode_bom [OF wfs]
    by (simp add: b wf_packet_def packet_bytes_hd9 decode_hd9 decode_req_def get_uint_layout
        subarray_all be_get_put num_of_floor Let_def del: be_put.simps is_well_formed.simps)
qed

theorem bom_asset_id_lost_witness:
  "decode (packet_bytes (Req 9 4096 [0xFEFF, 97])) = Inr (Req 9 4096 [97])"
proof (rule bom_asset_id_lost)
  show "encode (Req 9 4096 [0xFEFF, 97]) = Inr (packet_bytes (Req 9 4096 [0xFEFF, 97]))"
    by (simp add: encode_iff wf_packet_def u32_def is_lead_def is_trail_def utf8_encode_def utf8_of_def)
qed simp

text \<open>A DATA packet whose payload is at most \<open>maxPayload(m)\<close> bytes fits a datagram of \<open>m\<close>
  bytes, and one byte more does not.\<close>

theorem maxPayload_exact:
  assumes "encode (Data rpc tot off p) = Inr b" "17 \<le> m"
  shows "len b \<le> m \<longleftrightarrow> len p \<le> maxPayload m"
  using assms by (auto simp: encode_iff packet_bytes_def maxPayload_def)

theorem maxPayload_exact_witness:
  "len (packet_bytes (Data 1 10 0 [1,2,3])) \<le> (1024 :: num) \<longleftrightarrow> len [1::byte,2,3] \<le> maxPayload 1024"
proof -
  have "encode (Data 1 10 0 [1,2,3]) = Inr (packet_bytes (Data 1 10 0 [1,2,3]))"
    by (simp add: encode_iff wf_packet_def u32_def)
  then show ?thesis by (rule maxPayload_exact) simp
qed

end
