(* ===== verification/Ranges.thy ===== *)
theory Ranges
  imports Prelude
begin

text \<open>
  Half-open byte ranges (\<open>interface Range\<close> of \<open>client/src/reassembly.ts\<close>) and the lists of
  them the client keeps: sorted and disjoint. A list is read as the set of positions it covers
  and as the number of bytes it holds; the lemmas relate the two.
\<close>

datatype range = Range (rstart: num) (rend: num)

definition rset :: "range \<Rightarrow> num set" where
  "rset r = {rstart r ..< rend r}"

definition cover :: "range list \<Rightarrow> num set" where
  "cover rs = (\<Union>r \<in> set rs. rset r)"

definition weight :: "range list \<Rightarrow> num" where
  "weight rs = sum_list (map (\<lambda>r. rend r - rstart r) rs)"

text \<open>Sorted, with a gap between neighbours, inside \<open>[lo, hi)\<close>, none of them empty.\<close>

definition spaced :: "range list \<Rightarrow> bool" where
  "spaced rs \<longleftrightarrow> sorted_wrt (\<lambda>r r'. rend r < rstart r') rs \<and> (\<forall>r \<in> set rs. rstart r < rend r)"

definition inside :: "num \<Rightarrow> num \<Rightarrow> range list \<Rightarrow> bool" where
  "inside lo hi rs \<longleftrightarrow> (\<forall>r \<in> set rs. lo \<le> rstart r \<and> rend r \<le> hi)"

lemma cover_simps [simp]:
  "cover [] = {}" "cover (r # rs) = rset r \<union> cover rs" "cover (xs @ ys) = cover xs \<union> cover ys"
  by (auto simp: cover_def)

lemma weight_simps [simp]:
  "weight [] = 0" "weight (r # rs) = rend r - rstart r + weight rs"
  "weight (xs @ ys) = weight xs + weight ys"
  by (auto simp: weight_def)

lemma spaced_Nil [simp]: "spaced []"
  by (simp add: spaced_def)

lemma spaced_Cons [simp]:
  "spaced (r # rs) \<longleftrightarrow> rstart r < rend r \<and> (\<forall>r' \<in> set rs. rend r < rstart r') \<and> spaced rs"
  by (auto simp: spaced_def)

lemma spaced_mem: "spaced rs \<Longrightarrow> r \<in> set rs \<Longrightarrow> rstart r < rend r"
  by (auto simp: spaced_def)

lemma spaced_append:
  "spaced (xs @ ys) \<longleftrightarrow> spaced xs \<and> spaced ys \<and> (\<forall>x \<in> set xs. \<forall>y \<in> set ys. rend x < rstart y)"
  by (auto simp: spaced_def sorted_wrt_append)

lemma inside_simps [simp]:
  "inside lo hi []" "inside lo hi (r # rs) \<longleftrightarrow> lo \<le> rstart r \<and> rend r \<le> hi \<and> inside lo hi rs"
  "inside lo hi (xs @ ys) \<longleftrightarrow> inside lo hi xs \<and> inside lo hi ys"
  by (auto simp: inside_def)

lemma mem_rset [simp]: "x \<in> rset r \<longleftrightarrow> rstart r \<le> x \<and> x < rend r"
  by (simp add: rset_def)

lemma mem_cover: "x \<in> cover rs \<longleftrightarrow> (\<exists>r \<in> set rs. rstart r \<le> x \<and> x < rend r)"
  by (simp add: cover_def)

lemma cover_inside: "inside lo hi rs \<Longrightarrow> cover rs \<subseteq> {lo..<hi}"
  by (force simp: inside_def cover_def)

lemma weight_nonneg: "spaced rs \<Longrightarrow> 0 \<le> weight rs"
  by (induction rs) auto

lemma spaced_inside_weight:
  "spaced rs \<Longrightarrow> inside lo hi rs \<Longrightarrow> lo \<le> hi \<Longrightarrow> weight rs \<le> hi - lo"
proof (induction rs arbitrary: lo)
  case (Cons r rs)
  have "inside (rend r) hi rs" using Cons.prems by (auto simp: inside_def)
  with Cons show ?case by fastforce
qed simp

lemma spaced_tail_weight:
  "spaced rs \<Longrightarrow> inside lo hi rs \<Longrightarrow> \<forall>r \<in> set rs. lo < rstart r \<Longrightarrow> lo < hi \<Longrightarrow> weight rs < hi - lo"
proof (cases rs)
  case (Cons r rs')
  assume a: "spaced rs" "inside lo hi rs" "\<forall>r \<in> set rs. lo < rstart r"
  then have "inside (rend r) hi rs'" "spaced rs'" using Cons by (auto simp: inside_def)
  then have "weight rs' \<le> hi - rend r" using spaced_inside_weight a Cons by auto
  with a Cons show ?thesis by auto
qed simp

text \<open>A list that holds as many bytes as fit has no gap at all.\<close>

lemma weight_full:
  assumes "spaced rs" "inside lo hi rs" "weight rs = hi - lo"
  shows "rs = [] \<and> lo = hi \<or> rs = [Range lo hi]"
proof (cases rs)
  case (Cons r rs')
  then have r: "rstart r < rend r" "lo \<le> rstart r" "rend r \<le> hi" and s: "spaced rs'"
    "\<forall>r' \<in> set rs'. rend r < rstart r'" and i: "inside (rend r) hi rs'"
    using assms by (auto simp: inside_def)
  have w: "rend r - rstart r + weight rs' = hi - lo" using assms Cons by simp
  show ?thesis
  proof (cases rs')
    case Nil
    with w r have "rstart r = lo" "rend r = hi" by auto
    with Cons Nil show ?thesis by (cases r) simp
  next
    case (Cons r' rs'')
    then have "rend r < hi" using s i by auto
    then have "weight rs' < hi - rend r" using spaced_tail_weight [OF s(1) i s(2)] by simp
    with w r show ?thesis by simp
  qed
qed (use assms in simp)

text \<open>With whole-number ends, the weight is the number of byte positions covered.\<close>

definition whole :: "range list \<Rightarrow> bool" where
  "whole rs \<longleftrightarrow> (\<forall>r \<in> set rs. is_integer (rstart r) \<and> is_integer (rend r))"

definition positions :: "num set \<Rightarrow> int set" where
  "positions S = {i. of_int i \<in> S}"

lemma whole_simps [simp]:
  "whole []" "whole (r # rs) \<longleftrightarrow> is_integer (rstart r) \<and> is_integer (rend r) \<and> whole rs"
  "whole (xs @ ys) \<longleftrightarrow> whole xs \<and> whole ys"
  by (auto simp: whole_def)

lemma positions_range:
  assumes "is_integer (rstart r)" "is_integer (rend r)"
  shows "positions (rset r) = {\<lfloor>rstart r\<rfloor> ..< \<lfloor>rend r\<rfloor>}"
proof -
  have "rstart r \<le> of_int i \<longleftrightarrow> \<lfloor>rstart r\<rfloor> \<le> i" "of_int i < rend r \<longleftrightarrow> i < \<lfloor>rend r\<rfloor>" for i
    using assms unfolding is_integer_def by (metis of_int_le_iff, metis of_int_less_iff)
  then show ?thesis by (auto simp: positions_def)
qed

lemma positions_Un: "positions (A \<union> B) = positions A \<union> positions B"
  by (auto simp: positions_def)

lemma positions_Diff: "positions (A - B) = positions A - positions B"
  by (auto simp: positions_def)

lemma positions_mono: "A \<subseteq> B \<Longrightarrow> positions A \<subseteq> positions B"
  by (auto simp: positions_def)

lemma weight_card:
  "spaced rs \<Longrightarrow> whole rs \<Longrightarrow>
    finite (positions (cover rs)) \<and> weight rs = of_nat (card (positions (cover rs)))"
proof (induction rs)
  case (Cons r rs)
  have f: "finite (positions (cover rs))" "weight rs = of_nat (card (positions (cover rs)))"
    using Cons by auto
  have p: "positions (rset r) = {\<lfloor>rstart r\<rfloor> ..< \<lfloor>rend r\<rfloor>}"
    using Cons.prems by (simp add: positions_range)
  have "rset r \<inter> cover rs = {}" using Cons.prems by (fastforce simp: mem_cover)
  then have d: "positions (rset r) \<inter> positions (cover rs) = {}" by (auto simp: positions_def)
  obtain i j where "rstart r = of_int i" "rend r = of_int j" "rstart r < rend r"
    using Cons.prems by (auto elim!: is_integerE)
  then have "rend r - rstart r = of_nat (card (positions (rset r)))"
    by (simp add: p)
  moreover have "card (positions (cover (r # rs)))
      = card (positions (rset r)) + card (positions (cover rs))"
    unfolding cover_simps positions_Un by (rule card_Un_disjoint) (use f d p in auto)
  moreover have "finite (positions (cover (r # rs)))"
    using f p by (simp add: positions_Un)
  ultimately show ?case using f by simp
qed (simp add: positions_def)

end
