(* ===== verification/Reassembly.thy ===== *)
theory Reassembly
  imports Ranges
begin

text \<open>
  \<open>class Reassembly\<close> of \<open>client/src/reassembly.ts\<close>: one asset rebuilt from DATA payloads that
  arrive in any order and more than once. The state is the class's: the size, the buffer, the
  list of ranges that have arrived, and the count of unique bytes. Offsets and sizes are those
  of decoded packets.
\<close>

section \<open>State and operations\<close>

record reassembly =
  asm_size :: num
  asm_bytes :: "byte list"
  asm_ranges :: "range list"
  asm_received :: num

datatype asm_error = RangeError

definition new_reassembly :: "num \<Rightarrow> reassembly" where
  "new_reassembly sz =
     \<lparr>asm_size = sz, asm_bytes = replicate (nat \<lfloor>sz\<rfloor>) 0, asm_ranges = [], asm_received = 0\<rparr>"

definition asm_complete :: "reassembly \<Rightarrow> bool" where
  "asm_complete a \<longleftrightarrow> asm_received a = asm_size a"

definition asm_contiguous :: "reassembly \<Rightarrow> num" where
  "asm_contiguous a =
     (case asm_ranges a of [] \<Rightarrow> 0 | r # _ \<Rightarrow> if rstart r = 0 then rend r else 0)"

definition asm_frontier :: "reassembly \<Rightarrow> num" where
  "asm_frontier a = (if asm_ranges a = [] then 0 else rend (last (asm_ranges a)))"

text \<open>\<open>this.bytes.set(payload, offset)\<close>, for a payload that fits.\<close>

definition write_at :: "byte list \<Rightarrow> nat \<Rightarrow> byte list \<Rightarrow> byte list" where
  "write_at b i p = take i b @ p @ drop (i + length p) b"

text \<open>The inner loop: what the touched ranges cover, and how far they reach.\<close>

fun merge_hits :: "num \<Rightarrow> num \<Rightarrow> num \<Rightarrow> num \<Rightarrow> num \<Rightarrow> range list \<Rightarrow> num \<times> num \<times> num" where
  "merge_hits off en covered st sp [] = (covered, st, sp)"
| "merge_hits off en covered st sp (r # rs) =
     merge_hits off en (covered + max 0 (min (rend r) en - max (rstart r) off))
       (min st (rstart r)) (max sp (rend r)) rs"

definition asm_add :: "num \<Rightarrow> byte list \<Rightarrow> reassembly \<Rightarrow> asm_error + num \<times> reassembly" where
  "asm_add off p a =
     (let en = off + len p in
      if off < 0 \<or> en > asm_size a then Inl RangeError
      else if p = [] then Inr (0, a)
      else
        let bytes = write_at (asm_bytes a) (nat \<lfloor>off\<rfloor>) p;
            before = takeWhile (\<lambda>r. rend r < off) (asm_ranges a);
            rest = dropWhile (\<lambda>r. rend r < off) (asm_ranges a);
            hits = takeWhile (\<lambda>r. rstart r \<le> en) rest;
            after = dropWhile (\<lambda>r. rstart r \<le> en) rest;
            (covered, st, sp) = merge_hits off en 0 off en hits;
            fresh = len p - covered
        in Inr (fresh,
             a\<lparr>asm_bytes := bytes, asm_ranges := before @ [Range st sp] @ after,
               asm_received := asm_received a + fresh\<rparr>))"

text \<open>Once \<open>pos\<close> has reached the limit the loop breaks and nothing is left to report.\<close>

fun missing_from :: "num \<Rightarrow> num \<Rightarrow> range list \<Rightarrow> range list" where
  "missing_from limit pos [] = (if pos < limit then [Range pos limit] else [])"
| "missing_from limit pos (r # rs) =
     (if pos \<ge> limit then []
      else (if rstart r > pos then [Range pos (min (rstart r) limit)] else [])
        @ missing_from limit (rend r) rs)"

definition asm_missing :: "reassembly \<Rightarrow> num \<Rightarrow> range list" where
  "asm_missing a limit = missing_from limit 0 (asm_ranges a)"

section \<open>Merging one payload into the ranges\<close>

text \<open>The invariant of the class.\<close>

definition asm_ok :: "reassembly \<Rightarrow> bool" where
  "asm_ok a \<longleftrightarrow> is_integer (asm_size a) \<and> 0 \<le> asm_size a \<and>
     length (asm_bytes a) = nat \<lfloor>asm_size a\<rfloor> \<and>
     spaced (asm_ranges a) \<and> inside 0 (asm_size a) (asm_ranges a) \<and> whole (asm_ranges a) \<and>
     asm_received a = weight (asm_ranges a)"

definition asm_cover :: "reassembly \<Rightarrow> num set" where
  "asm_cover a = cover (asm_ranges a)"

text \<open>Each hit touches \<open>[off, en)\<close>, so the hull of all of them is their union.\<close>

lemma merge_hits_cover:
  assumes "merge_hits off en c st sp hits = (c', st', sp')"
    "st \<le> off" "off < en" "en \<le> sp" "\<forall>r \<in> set hits. off \<le> rend r \<and> rstart r \<le> en \<and> rstart r < rend r"
  shows "{st'..<sp'} = {st..<sp} \<union> cover hits \<and> st' \<le> st \<and> sp \<le> sp'"
  using assms
proof (induction hits arbitrary: c st sp)
  case (Cons r hits)
  have "{st'..<sp'} = {min st (rstart r)..<max sp (rend r)} \<union> cover hits \<and>
      st' \<le> min st (rstart r) \<and> max sp (rend r) \<le> sp'"
    by (rule Cons.IH) (use Cons.prems in auto)
  moreover have "{min st (rstart r)..<max sp (rend r)} = {st..<sp} \<union> rset r"
    using Cons.prems by (auto simp: min_def max_def)
  ultimately show ?case by auto
qed simp

lemma merge_hits_bounds:
  "merge_hits off en c st sp hits = (c', st', sp') \<Longrightarrow> \<forall>r \<in> set hits. lo \<le> rstart r \<and> rend r \<le> hi \<Longrightarrow>
    lo \<le> st \<Longrightarrow> sp \<le> hi \<Longrightarrow> lo \<le> st' \<and> sp' \<le> hi"
  by (induction hits arbitrary: c st sp) auto

lemma merge_hits_end:
  "merge_hits off en c st sp hits = (c', st', sp') \<Longrightarrow> sp' = sp \<or> (\<exists>h \<in> set hits. sp' = rend h)"
proof (induction hits arbitrary: c st sp)
  case (Cons r hits)
  from Cons.IH [of _ "min st (rstart r)" "max sp (rend r)"] Cons.prems
  have "sp' = max sp (rend r) \<or> (\<exists>h \<in> set hits. sp' = rend h)" by fastforce
  then show ?case by (auto simp: max_def split: if_splits)
qed simp

lemma merge_hits_whole:
  "merge_hits off en c st sp hits = (c', st', sp') \<Longrightarrow> whole hits \<Longrightarrow> is_integer st \<Longrightarrow>
    is_integer sp \<Longrightarrow> is_integer st' \<and> is_integer sp'"
  by (induction hits arbitrary: c st sp) auto

text \<open>How much of the hits lies outside \<open>[off, en)\<close> is exactly how far the hull reaches past it.
  Only the first hit can start before \<open>off\<close>, only the last can end after \<open>en\<close>.\<close>

lemma merge_hits_rest:
  assumes "merge_hits off en c st sp hits = (c', st', sp')"
    "spaced hits" "st \<le> off" "\<forall>r \<in> set hits. off \<le> rstart r \<and> rstart r \<le> en"
    "hits \<noteq> [] \<longrightarrow> sp = en"
  shows "st' = st \<and> sp' - sp = weight hits - (c' - c)"
  using assms
proof (induction hits arbitrary: c st sp)
  case (Cons r hits)
  let ?c = "c + max 0 (min (rend r) en - max (rstart r) off)"
  have nxt: "hits \<noteq> [] \<longrightarrow> rend r < en"
    using Cons.prems by (cases hits) auto
  have m: "merge_hits off en ?c st (max sp (rend r)) hits = (c', st', sp')"
    using Cons.prems by (simp add: min_absorb1)
  have "st' = st \<and> sp' - max sp (rend r) = weight hits - (c' - ?c)"
    by (rule Cons.IH [OF m]) (use Cons.prems nxt in auto)
  moreover have "max 0 (min (rend r) en - max (rstart r) off) = min (rend r) en - rstart r"
    using Cons.prems by (auto simp: min_def max_def)
  moreover have "max sp (rend r) - sp = rend r - min (rend r) en"
    using Cons.prems by (auto simp: min_def max_def)
  ultimately show ?case by simp
qed simp

lemma merge_hits_weight:
  assumes "merge_hits off en 0 off en hits = (c', st', sp')" "spaced hits" "off < en"
    "\<forall>r \<in> set hits. off \<le> rend r \<and> rstart r \<le> en"
  shows "sp' - st' = weight hits + (en - off) - c'"
proof (cases hits)
  case (Cons r hs)
  let ?c = "max 0 (min (rend r) en - max (rstart r) off)"
  have nxt: "hs \<noteq> [] \<longrightarrow> rend r < en" using assms Cons by (cases hs) auto
  have "st' = min off (rstart r) \<and> sp' - max en (rend r) = weight hs - (c' - ?c)"
    by (rule merge_hits_rest [of off en ?c "min off (rstart r)"]) (use assms Cons nxt in auto)
  moreover have "?c = min (rend r) en - max (rstart r) off"
    using assms Cons by (auto simp: min_def max_def)
  moreover have "min (rend r) en + max en (rend r) = rend r + en"
    "max (rstart r) off + min off (rstart r) = rstart r + off"
    by (auto simp: min_def max_def)
  ultimately show ?thesis using Cons by simp
qed (use assms in simp)

text \<open>What the two scans of the sorted list find.\<close>

lemma dropWhile_ends:
  "spaced rs \<Longrightarrow> r \<in> set (dropWhile (\<lambda>r. rend r < off) rs) \<Longrightarrow> off \<le> rend r"
  by (induction rs) (fastforce dest: spaced_mem split: if_splits)+

lemma dropWhile_starts:
  "spaced rs \<Longrightarrow> r \<in> set (dropWhile (\<lambda>r. rstart r \<le> en) rs) \<Longrightarrow> en < rstart r"
  by (induction rs) (fastforce split: if_splits)+

lemma scan_split:
  assumes "spaced rs"
  obtains before hits after where
    "before = takeWhile (\<lambda>r. rend r < off) rs"
    "hits = takeWhile (\<lambda>r. rstart r \<le> en) (dropWhile (\<lambda>r. rend r < off) rs)"
    "after = dropWhile (\<lambda>r. rstart r \<le> en) (dropWhile (\<lambda>r. rend r < off) rs)"
    "rs = before @ hits @ after" "\<forall>r \<in> set before. rend r < off"
    "\<forall>r \<in> set hits. off \<le> rend r \<and> rstart r \<le> en" "\<forall>r \<in> set after. en < rstart r"
proof -
  let ?rest = "dropWhile (\<lambda>r. rend r < off) rs"
  have "spaced (takeWhile (\<lambda>r. rend r < off) rs @ ?rest)" using assms by simp
  then have sp: "spaced ?rest" unfolding spaced_append by blast
  show ?thesis
    by (rule that [OF refl refl refl])
       (use dropWhile_ends [OF assms] dropWhile_starts [OF sp] in
        \<open>auto dest: set_takeWhileD\<close>)
qed

lemma spaced_replace:
  assumes "spaced (before @ hits @ after)" "st < sp"
    "\<forall>r \<in> set before. rend r < st" "\<forall>r \<in> set after. sp < rstart r"
  shows "spaced (before @ [Range st sp] @ after)"
  using assms by (fastforce simp: spaced_append)

text \<open>The effect of one \<open>add\<close> on the ranges.\<close>

lemma asm_add_ranges:
  assumes ok: "asm_ok a" and add: "asm_add off p a = Inr (fresh, a')" and p: "p \<noteq> []"
    and int: "is_integer off"
  shows "asm_ok a' \<and> asm_size a' = asm_size a \<and>
    asm_cover a' = asm_cover a \<union> {off..<off + len p} \<and>
    asm_bytes a' = write_at (asm_bytes a) (nat \<lfloor>off\<rfloor>) p \<and> fresh = weight (asm_ranges a') - weight (asm_ranges a)"
proof -
  let ?en = "off + len p"
  have rng: "0 \<le> off" "?en \<le> asm_size a" using add by (auto simp: asm_add_def Let_def split: if_splits)
  have lt: "off < ?en" using p by simp
  have sp: "spaced (asm_ranges a)" using ok by (simp add: asm_ok_def)
  obtain before hits after where parts:
    "before = takeWhile (\<lambda>r. rend r < off) (asm_ranges a)"
    "hits = takeWhile (\<lambda>r. rstart r \<le> ?en) (dropWhile (\<lambda>r. rend r < off) (asm_ranges a))"
    "after = dropWhile (\<lambda>r. rstart r \<le> ?en) (dropWhile (\<lambda>r. rend r < off) (asm_ranges a))"
    and rs: "asm_ranges a = before @ hits @ after" and bef: "\<forall>r \<in> set before. rend r < off"
    and hit: "\<forall>r \<in> set hits. off \<le> rend r \<and> rstart r \<le> ?en" and aft: "\<forall>r \<in> set after. ?en < rstart r"
    by (rule scan_split [OF sp])
  obtain c st sp' where m: "merge_hits off ?en 0 off ?en hits = (c, st, sp')"
    by (metis prod_cases3)
  from add rng p m have fresh: "fresh = len p - c"
    and a': "a' = a\<lparr>asm_bytes := write_at (asm_bytes a) (nat \<lfloor>off\<rfloor>) p,
      asm_ranges := before @ [Range st sp'] @ after, asm_received := asm_received a + fresh\<rparr>"
    by (auto simp: asm_add_def Let_def parts)
  have sph: "spaced hits" using sp by (simp add: rs spaced_append)
  then have ne: "\<forall>r \<in> set hits. rstart r < rend r" by (auto dest: spaced_mem)
  have hull: "{st..<sp'} = {off..<?en} \<union> cover hits" "st \<le> off" "?en \<le> sp'"
    using merge_hits_cover [OF m order_refl lt order_refl] hit ne by auto
  have stsp: "st < sp'" using hull(2,3) lt by linarith
  have w: "sp' - st = weight hits + len p - c"
    using merge_hits_weight [OF m sph lt] hit by simp
  have inn: "inside 0 (asm_size a) (asm_ranges a)" and wh: "whole (asm_ranges a)"
    and sz: "is_integer (asm_size a)"
    using ok by (auto simp: asm_ok_def)
  have b1: "0 \<le> st" "sp' \<le> asm_size a"
    using merge_hits_bounds [OF m, of 0 "asm_size a"] inn rng by (auto simp: rs inside_def)
  have "\<forall>r \<in> set before. rend r < st"
  proof
    fix r assume r: "r \<in> set before"
    have "\<forall>h \<in> set hits. rend r < rstart h" using sp r by (auto simp: rs spaced_append)
    moreover have "rend r < off" using bef r by simp
    ultimately have "\<forall>x \<in> {st..<sp'}. rend r < x"
      unfolding hull(1) by (force simp: mem_cover)
    then show "rend r < st" using stsp by simp
  qed
  moreover have "\<forall>r \<in> set after. sp' < rstart r"
  proof
    fix r assume r: "r \<in> set after"
    have "\<forall>h \<in> set hits. rend h < rstart r" using sp r by (auto simp: rs spaced_append)
    moreover have "?en < rstart r" using aft r by simp
    moreover have "sp' = ?en \<or> (\<exists>h \<in> set hits. sp' = rend h)"
      using m by (rule merge_hits_end)
    ultimately show "sp' < rstart r" by auto
  qed
  ultimately have "spaced (before @ [Range st sp'] @ after)"
    by (intro spaced_replace [of before hits after]) (use sp rs stsp in auto)
  moreover have "is_integer st \<and> is_integer sp'"
    by (rule merge_hits_whole [OF m]) (use wh int rs in auto)
  moreover have "cover (before @ [Range st sp'] @ after) = cover (asm_ranges a) \<union> {off..<?en}"
    using hull(1) by (auto simp: rs rset_def)
  moreover have "weight (before @ [Range st sp'] @ after) = weight (asm_ranges a) + fresh"
    using w fresh by (simp add: rs)
  moreover have "length (write_at (asm_bytes a) (nat \<lfloor>off\<rfloor>) p) = length (asm_bytes a)"
  proof -
    from int rng(1) sz obtain i j where ij: "off = of_int i" "asm_size a = of_int j"
      by (auto elim!: is_integerE)
    with rng have "of_int (i + int (length p)) \<le> (of_int j :: num)" "0 \<le> i" by simp_all
    then have "i + int (length p) \<le> j" "0 \<le> i" by linarith+
    then show ?thesis using ok ij by (simp add: write_at_def asm_ok_def)
  qed
  ultimately show ?thesis
    using ok inn wh b1 by (simp add: a' asm_ok_def asm_cover_def rs)
qed

section \<open>The gaps\<close>

lemma missing_from_spec:
  assumes "spaced rs" "\<forall>r \<in> set rs. pos \<le> rstart r"
  shows "cover (missing_from l pos rs) = {pos..<l} - cover rs \<and> spaced (missing_from l pos rs) \<and>
    (\<forall>g \<in> set (missing_from l pos rs). pos \<le> rstart g \<and> rend g \<le> l)"
  using assms
proof (induction l pos rs rule: missing_from.induct)
  case (1 l pos)
  then show ?case by (auto simp: rset_def)
next
  case (2 l pos r rs)
  show ?case
  proof (cases "pos \<ge> l")
    case False
    have r: "pos \<le> rstart r" "rstart r < rend r" "spaced rs" "\<forall>r' \<in> set rs. rend r < rstart r'"
      using "2.prems" by auto
    then have IH: "cover (missing_from l (rend r) rs) = {rend r..<l} - cover rs"
      "spaced (missing_from l (rend r) rs)"
      "\<forall>g \<in> set (missing_from l (rend r) rs). rend r \<le> rstart g \<and> rend g \<le> l"
      using "2.IH" [OF False] by (auto intro: less_imp_le)
    have "rset r \<inter> cover rs = {}" "\<forall>x \<in> cover rs. rend r < x"
      using r by (fastforce simp: mem_cover)+
    then have "{pos..<l} - cover (r # rs) = {pos..<min (rstart r) l} \<union> ({rend r..<l} - cover rs)"
      using r by (force simp: not_le)
    then show ?thesis using False IH r
      by (auto simp: rset_def min_def split: if_splits)
  qed auto
qed

lemma missing_from_whole:
  "whole rs \<Longrightarrow> is_integer l \<Longrightarrow> is_integer pos \<Longrightarrow> whole (missing_from l pos rs)"
  by (induction l pos rs rule: missing_from.induct) auto

lemma asm_missing_spec:
  assumes "asm_ok a"
  shows "cover (asm_missing a l) = {0..<l} - asm_cover a" "spaced (asm_missing a l)"
    "inside 0 l (asm_missing a l)"
  using missing_from_spec [of "asm_ranges a" 0 l] assms
  by (auto simp: asm_missing_def asm_cover_def asm_ok_def inside_def)

lemma asm_cover_bound: "asm_ok a \<Longrightarrow> asm_cover a \<subseteq> {0..<asm_size a}"
  using cover_inside by (simp add: asm_ok_def asm_cover_def)

lemma asm_complete_cover: "asm_ok a \<Longrightarrow> asm_complete a \<longleftrightarrow> asm_cover a = {0..<asm_size a}"
proof
  assume ok: "asm_ok a" and "asm_complete a"
  then have "weight (asm_ranges a) = asm_size a - 0" by (simp add: asm_ok_def asm_complete_def)
  then have "asm_ranges a = [] \<and> 0 = asm_size a \<or> asm_ranges a = [Range 0 (asm_size a)]"
    using weight_full ok by (metis asm_ok_def)
  then show "asm_cover a = {0..<asm_size a}" by (auto simp: asm_cover_def rset_def)
next
  assume ok: "asm_ok a" and c: "asm_cover a = {0..<asm_size a}"
  obtain n where n: "asm_size a = of_int n" using ok by (auto simp: asm_ok_def elim: is_integerE)
  have "positions {0..<asm_size a} = {0..<n}" by (auto simp: positions_def n)
  moreover have "0 \<le> n" using ok by (simp add: asm_ok_def n)
  ultimately have "of_nat (card (positions (asm_cover a))) = asm_size a" by (simp add: c n)
  then show "asm_complete a"
    using weight_card [of "asm_ranges a"] ok
    by (simp add: asm_complete_def asm_ok_def asm_cover_def)
qed

section \<open>The prefix and the frontier\<close>

lemma asm_contiguous_spec:
  assumes "asm_ok a"
  shows "{0..<asm_contiguous a} \<subseteq> asm_cover a \<and> asm_contiguous a \<notin> asm_cover a \<and>
    0 \<le> asm_contiguous a \<and> asm_contiguous a \<le> asm_size a \<and> is_integer (asm_contiguous a)"
proof (cases "asm_ranges a")
  case (Cons r rs)
  have r: "rstart r < rend r" "\<forall>r' \<in> set rs. rend r < rstart r'" "0 \<le> rstart r" "rend r \<le> asm_size a"
    "is_integer (rend r)"
    using assms Cons by (auto simp: asm_ok_def)
  show ?thesis
  proof (cases "rstart r = 0")
    case True
    with r Cons show ?thesis
      by (fastforce simp: asm_contiguous_def asm_cover_def mem_cover)
  next
    case False
    with r Cons assms show ?thesis
      by (fastforce simp: asm_contiguous_def asm_cover_def mem_cover asm_ok_def)
  qed
qed (use assms in \<open>simp add: asm_contiguous_def asm_cover_def asm_ok_def\<close>)

lemma asm_frontier_spec:
  assumes "asm_ok a"
  shows "(\<forall>x \<in> asm_cover a. x < asm_frontier a) \<and> 0 \<le> asm_frontier a \<and> asm_frontier a \<le> asm_size a
    \<and> is_integer (asm_frontier a)"
proof (cases "asm_ranges a" rule: rev_cases)
  case (snoc rs r)
  have r: "\<forall>r' \<in> set rs. rend r' < rstart r \<and> rstart r' < rend r'" "rstart r < rend r"
    "0 \<le> rstart r" "rend r \<le> asm_size a" "is_integer (rend r)"
    using assms snoc by (auto simp: asm_ok_def spaced_append dest: spaced_mem)
  then show ?thesis using snoc
    by (fastforce simp: asm_frontier_def asm_cover_def mem_cover)
qed (use assms in \<open>simp add: asm_frontier_def asm_cover_def asm_ok_def\<close>)

section \<open>The content\<close>

text \<open>A payload cut from the asset, and a reassembly whose received bytes are the asset's.\<close>

definition payload_of :: "byte list \<Rightarrow> num \<Rightarrow> byte list \<Rightarrow> bool" where
  "payload_of A off p \<longleftrightarrow> is_integer off \<and> 0 \<le> off \<and> off + len p \<le> len A \<and>
     p = take (length p) (drop (nat \<lfloor>off\<rfloor>) A)"

definition asm_holds :: "byte list \<Rightarrow> reassembly \<Rightarrow> bool" where
  "asm_holds A a \<longleftrightarrow> asm_ok a \<and> asm_size a = len A \<and>
     (\<forall>i < length A. of_nat i \<in> asm_cover a \<longrightarrow> asm_bytes a ! i = A ! i)"

lemma asm_holds_new: "asm_holds A (new_reassembly (len A))"
  by (simp add: asm_holds_def asm_ok_def new_reassembly_def asm_cover_def)

lemma asm_add_fits:
  "asm_ok a \<Longrightarrow> 0 \<le> off \<Longrightarrow> off + len p \<le> asm_size a \<Longrightarrow> \<exists>n a'. asm_add off p a = Inr (n, a')"
  by (auto simp: asm_add_def Let_def split_def)

lemma asm_add_empty: "asm_add off [] a = Inr (n, a') \<Longrightarrow> n = 0 \<and> a' = a"
  by (auto simp: asm_add_def Let_def split: if_splits)

lemma write_at_nth:
  "k + length p \<le> length b \<Longrightarrow> i < length b \<Longrightarrow>
    write_at b k p ! i = (if k \<le> i \<and> i < k + length p then p ! (i - k) else b ! i)"
  by (auto simp: write_at_def nth_append min_def)

lemma asm_add_holds:
  assumes h: "asm_holds A a" and pl: "payload_of A off p" and add: "asm_add off p a = Inr (n, a')"
  shows "asm_holds A a'"
proof (cases "p = []")
  case True
  with add h asm_add_empty show ?thesis by blast
next
  case False
  obtain k where k: "off = of_nat k"
    using pl by (auto simp: payload_of_def elim!: is_integerE) (metis nonneg_int_cases of_int_of_nat_eq)
  have ok: "asm_ok a" "asm_size a = len A" using h by (auto simp: asm_holds_def)
  have fit: "k + length p \<le> length A" using pl k by (simp add: payload_of_def flip: of_nat_add)
  have a': "asm_ok a'" "asm_size a' = len A" "asm_cover a' = asm_cover a \<union> {off..<off + len p}"
    "asm_bytes a' = write_at (asm_bytes a) k p"
    using asm_add_ranges [OF ok(1) add False] pl k ok by (auto simp: payload_of_def)
  have lb: "length (asm_bytes a) = length A" using ok by (simp add: asm_ok_def)
  have p: "p = take (length p) (drop k A)" using pl k by (simp add: payload_of_def)
  have "asm_bytes a' ! i = A ! i" if i: "i < length A" "of_nat i \<in> asm_cover a'" for i
  proof (cases "k \<le> i \<and> i < k + length p")
    case True
    then obtain j where j: "i = k + j" "j < length p" by (metis le_Suc_ex nat_add_left_cancel_less)
    then have "p ! j = A ! (k + j)" using fit by (metis p nth_take nth_drop add_leD1)
    then have "p ! (i - k) = A ! i" by (simp add: j)
    then show ?thesis using True lb fit i by (simp add: a' write_at_nth)
  next
    case False
    then have "of_nat i \<in> asm_cover a" using i by (auto simp: a' k simp flip: of_nat_add)
    then have "asm_bytes a ! i = A ! i" using h i by (simp add: asm_holds_def)
    moreover have "asm_bytes a' ! i = asm_bytes a ! i"
      unfolding a' using False lb fit i by (subst write_at_nth) auto
    ultimately show ?thesis by simp
  qed
  with a' show ?thesis by (simp add: asm_holds_def)
qed

lemma asm_add_cover:
  assumes "asm_ok a" "asm_add off p a = Inr (n, a')" "is_integer off"
  shows "asm_ok a'" "asm_size a' = asm_size a" "asm_cover a' = asm_cover a \<union> {off..<off + len p}"
  using asm_add_ranges [OF assms(1,2) _ assms(3)] asm_add_empty [of off a n a'] assms
  by (cases "p = []"; auto)+

text \<open>A whole session of one transfer: the payloads in the order they arrive.\<close>

fun asm_run :: "reassembly \<Rightarrow> (num \<times> byte list) list \<Rightarrow> asm_error + reassembly" where
  "asm_run a [] = Inr a"
| "asm_run a ((off, p) # ps) = rbind (asm_add off p a) (\<lambda>(_, a'). asm_run a' ps)"

lemma asm_run_holds:
  assumes "asm_holds A a" "\<forall>(off, p) \<in> set ps. payload_of A off p"
  shows "\<exists>a'. asm_run a ps = Inr a' \<and> asm_holds A a' \<and>
    asm_cover a' = asm_cover a \<union> (\<Union>(off, p) \<in> set ps. {off..<off + len p})"
  using assms
proof (induction ps arbitrary: a)
  case (Cons op ps)
  obtain off p where op: "op = (off, p)" by (cases op)
  have pl: "payload_of A off p" and rest: "\<forall>(off, p) \<in> set ps. payload_of A off p"
    using Cons.prems op by auto
  have ok: "asm_ok a" "asm_size a = len A" using Cons.prems by (auto simp: asm_holds_def)
  then obtain n a1 where add: "asm_add off p a = Inr (n, a1)"
    using asm_add_fits [of a off p] pl by (auto simp: payload_of_def)
  have h1: "asm_holds A a1" by (rule asm_add_holds [OF Cons.prems(1) pl add])
  have c1: "asm_cover a1 = asm_cover a \<union> {off..<off + len p}"
    using asm_add_cover [OF ok(1) add] pl by (simp add: payload_of_def)
  from Cons.IH [OF h1 rest] add c1 show ?case by (auto simp: op)
qed auto

lemma asm_holds_complete: "asm_holds A a \<Longrightarrow> asm_complete a \<Longrightarrow> asm_bytes a = A"
  by (rule nth_equalityI) (auto simp: asm_holds_def asm_complete_cover asm_ok_def)

lemma asm_holds_prefix:
  assumes "asm_holds A a"
  shows "take (nat \<lfloor>asm_contiguous a\<rfloor>) (asm_bytes a) = take (nat \<lfloor>asm_contiguous a\<rfloor>) A"
proof -
  have ok: "asm_ok a" "asm_size a = len A" using assms by (auto simp: asm_holds_def)
  note c = asm_contiguous_spec [OF ok(1)]
  obtain k where k: "asm_contiguous a = of_nat k"
    using c by (metis is_integerE nonneg_int_cases of_int_0_le_iff of_int_of_nat_eq)
  have "k \<le> length A" using c ok k by simp
  moreover have "asm_bytes a ! i = A ! i" if "i < k" for i
  proof -
    have "of_nat i \<in> {0..<asm_contiguous a}" using that k by simp
    then have "of_nat i \<in> asm_cover a" using c by blast
    then show ?thesis using assms that \<open>k \<le> length A\<close> by (simp add: asm_holds_def)
  qed
  ultimately show ?thesis using ok by (intro nth_equalityI) (auto simp: k asm_ok_def)
qed

section \<open>Properties\<close>

lemma asm_new_ok: "is_integer sz \<Longrightarrow> 0 \<le> sz \<Longrightarrow> asm_ok (new_reassembly sz)"
  by (simp add: asm_ok_def new_reassembly_def)

lemma asm_received_card:
  "asm_ok a \<Longrightarrow> finite (positions (asm_cover a)) \<and> asm_received a = of_nat (card (positions (asm_cover a)))"
  using weight_card by (simp add: asm_ok_def asm_cover_def)

lemma asm_complete_positions:
  assumes "asm_ok a" "asm_size a = of_nat n"
  shows "asm_complete a \<longleftrightarrow> (\<forall>i < n. of_nat i \<in> asm_cover a)"
proof
  assume "asm_complete a"
  then show "\<forall>i < n. of_nat i \<in> asm_cover a" using assms by (simp add: asm_complete_cover)
next
  assume all: "\<forall>i < n. of_nat i \<in> asm_cover a"
  have "positions (asm_cover a) = {0..<int n}"
  proof
    show "positions (asm_cover a) \<subseteq> {0..<int n}"
      using asm_cover_bound [OF assms(1)] assms(2) by (force simp: positions_def)
    show "{0..<int n} \<subseteq> positions (asm_cover a)"
      using all by (force simp: positions_def elim!: nonneg_int_cases)
  qed
  then show "asm_complete a"
    using asm_received_card [OF assms(1)] assms(2) by (simp add: asm_complete_def)
qed

text \<open>C26: payloads of one asset, arriving in any order and any number of times, are all accepted;
  the reassembly is complete exactly when every byte of the asset was in one of them, and then its
  buffer is the asset. At every moment the gap-free prefix of the buffer is a prefix of it.\<close>

theorem asm_rebuilds:
  assumes "\<forall>(off, p) \<in> set ps. payload_of A off p"
  shows "\<exists>a. asm_run (new_reassembly (len A)) ps = Inr a \<and>
    (asm_complete a \<longleftrightarrow> (\<forall>i < length A. \<exists>(off, p) \<in> set ps. off \<le> of_nat i \<and> of_nat i < off + len p)) \<and>
    (asm_complete a \<longrightarrow> asm_bytes a = A) \<and>
    take (nat \<lfloor>asm_contiguous a\<rfloor>) (asm_bytes a) = take (nat \<lfloor>asm_contiguous a\<rfloor>) A"
proof -
  obtain a where run: "asm_run (new_reassembly (len A)) ps = Inr a" and h: "asm_holds A a"
    and c: "asm_cover a = asm_cover (new_reassembly (len A)) \<union> (\<Union>(off, p) \<in> set ps. {off..<off + len p})"
    using asm_run_holds [OF asm_holds_new assms] by blast
  have "asm_complete a \<longleftrightarrow> (\<forall>i < length A. of_nat i \<in> asm_cover a)"
    using asm_complete_positions h by (simp add: asm_holds_def)
  moreover have "asm_cover (new_reassembly (len A)) = {}"
    by (simp add: asm_cover_def new_reassembly_def)
  ultimately show ?thesis
    using run h asm_holds_complete asm_holds_prefix by (fastforce simp: c)
qed

theorem asm_rebuilds_witness:
  "\<exists>a. asm_run (new_reassembly (len [10::byte, 20, 30])) [(1, [20, 30]), (1, [20]), (0, [10, 20])] = Inr a \<and>
    (asm_complete a \<longrightarrow> asm_bytes a = [10, 20, 30])"
proof -
  have "\<forall>(off, p) \<in> set [(1, [20, 30]), (1, [20]), (0, [10, 20])]. payload_of [10, 20, 30] off p"
    by (simp add: payload_of_def)
  from asm_rebuilds [OF this] show ?thesis by blast
qed

text \<open>\<open>add\<close> keeps the range list sorted, disjoint and merged, adds exactly the payload's bytes
  to what has arrived, and returns how many of them had not arrived before.\<close>

theorem asm_add_counts:
  assumes "asm_ok a" "is_integer off" "asm_add off p a = Inr (fresh, a')"
  shows "asm_ok a' \<and> asm_cover a' = asm_cover a \<union> {off..<off + len p} \<and>
    fresh = of_nat (card (positions ({off..<off + len p} - asm_cover a))) \<and>
    asm_received a' = asm_received a + fresh"
proof -
  note c = asm_add_cover [OF assms(1,3,2)]
  have rec: "asm_received a' = asm_received a + fresh"
    using assms(3) asm_add_empty [of off a fresh a']
    by (cases "p = []") (auto simp: asm_add_def Let_def split_def split: if_splits)
  have f: "finite (positions (asm_cover a))" "finite (positions (asm_cover a'))"
    using asm_received_card assms(1) c(1) by blast+
  have "positions (asm_cover a') = positions (asm_cover a) \<union> positions ({off..<off + len p} - asm_cover a)"
    by (auto simp: c(3) positions_def)
  moreover from this have "finite (positions ({off..<off + len p} - asm_cover a))" using f by simp
  ultimately have "card (positions (asm_cover a'))
      = card (positions (asm_cover a)) + card (positions ({off..<off + len p} - asm_cover a))"
    using f by (simp add: card_Un_disjoint positions_def disjoint_iff)
  then have "fresh = of_nat (card (positions ({off..<off + len p} - asm_cover a)))"
    using rec asm_received_card [OF assms(1)] asm_received_card [OF c(1)] by simp
  then show ?thesis using c rec by simp
qed

lemma asm_sample:
  "asm_ok \<lparr>asm_size = 10, asm_bytes = replicate 10 0, asm_ranges = [Range 0 4], asm_received = 4\<rparr>"
  by (simp add: asm_ok_def)

theorem asm_add_counts_witness:
  "\<exists>fresh a'. asm_add 2 [7, 7, 7]
      \<lparr>asm_size = 10, asm_bytes = replicate 10 0, asm_ranges = [Range 0 4], asm_received = 4\<rparr>
      = Inr (fresh, a') \<and> asm_ok a'"
proof -
  obtain fresh a' where r: "asm_add 2 [7, 7, 7]
      \<lparr>asm_size = 10, asm_bytes = replicate 10 0, asm_ranges = [Range 0 4], asm_received = 4\<rparr>
      = Inr (fresh, a')"
    by (simp add: asm_add_def)
  from asm_add_counts [OF asm_sample _ r] r show ?thesis by simp
qed

text \<open>\<open>missing(limit)\<close> lists exactly the positions below the limit that have not arrived, as
  sorted non-empty ranges with received bytes between them.\<close>

theorem asm_missing_exact:
  assumes "asm_ok a"
  shows "cover (asm_missing a l) = {0..<l} - asm_cover a \<and> spaced (asm_missing a l)"
  using asm_missing_spec [OF assms] by simp

theorem asm_missing_exact_witness:
  "cover (asm_missing \<lparr>asm_size = 10, asm_bytes = replicate 10 0, asm_ranges = [Range 0 4], asm_received = 4\<rparr> 9)
     = {4..<9}"
  using asm_missing_exact [OF asm_sample, of 9]
  by (auto simp: asm_cover_def rset_def)

text \<open>The gap-free prefix ends at the first byte that has not arrived, and nothing has arrived
  at or past the frontier.\<close>

theorem asm_prefix_frontier:
  assumes "asm_ok a"
  shows "{0..<asm_contiguous a} \<subseteq> asm_cover a \<and> asm_contiguous a \<notin> asm_cover a \<and>
    asm_cover a \<subseteq> {0..<asm_frontier a} \<and> asm_frontier a \<le> asm_size a"
  using asm_contiguous_spec [OF assms] asm_frontier_spec [OF assms] asm_cover_bound [OF assms]
  by auto

theorem asm_prefix_frontier_witness:
  "asm_contiguous \<lparr>asm_size = 10, asm_bytes = replicate 10 0, asm_ranges = [Range 0 4], asm_received = 4\<rparr>
     \<notin> cover [Range 0 4]"
  using asm_prefix_frontier [OF asm_sample] by (simp add: asm_cover_def)

end
