(* ===== verification/Repair.thy ===== *)
theory Repair
  imports Reassembly
begin

text \<open>
  \<open>class RepairTracker\<close> of \<open>client/src/reassembly.ts\<close>: which missing ranges of one transfer to
  RESEND, and when. \<open>detect\<close> declares a gap lost once it has been a suspect for the reordering
  window; \<open>claim\<close> takes out of the wanted ranges what a live RESEND already covers and records the
  rest. The tracker uses a reassembly only through its gaps, the interface \<open>gap_source\<close>.
\<close>

section \<open>State and operations\<close>

datatype pending = Pending (pstart: num) (pend: num) (pdue: num)

record repair =
  suspects :: "(num, num) jsmap"
  pendings :: "pending list"
  requested_count :: nat

definition new_repair :: repair where
  "new_repair = \<lparr>suspects = [], pendings = [], requested_count = 0\<rparr>"

definition repair_requested :: "repair \<Rightarrow> bool" where
  "repair_requested r \<longleftrightarrow> requested_count r > 0"

text \<open>The first sweep: pending RESENDs that are not overdue and still overlap a gap.\<close>

fun live_loop :: "num \<Rightarrow> range list \<Rightarrow> pending list \<Rightarrow> pending list" where
  "live_loop now gs [] = []"
| "live_loop now gs (p # ps) =
     (if pdue p \<le> now then live_loop now gs ps
      else let gs' = dropWhile (\<lambda>g. rend g \<le> pstart p) gs in
        case gs' of
          [] \<Rightarrow> live_loop now gs' ps
        | g # _ \<Rightarrow> if rstart g < pend p then p # live_loop now gs' ps else live_loop now gs' ps)"

text \<open>The second sweep: one wanted range minus the live RESENDs, then all of them in order.\<close>

fun carve :: "num \<Rightarrow> num \<Rightarrow> pending list \<Rightarrow> range list \<times> num" where
  "carve pos en [] = ([], pos)"
| "carve pos en (p # ps) =
     (if pstart p < en then
        let (out, pos') = carve (max pos (pend p)) en ps
        in ((if pstart p > pos then [Range pos (pstart p)] else []) @ out, pos')
      else ([], pos))"

fun claim_loop :: "pending list \<Rightarrow> range list \<Rightarrow> range list" where
  "claim_loop live [] = []"
| "claim_loop live (g # gs) =
     (let live' = dropWhile (\<lambda>p. pend p \<le> rstart g) live;
          (out, pos) = carve (rstart g) (rend g) live'
      in out @ (if pos < rend g then [Range pos (rend g)] else []) @ claim_loop live' gs)"

definition claim_core ::
    "range list \<Rightarrow> range list \<Rightarrow> num \<Rightarrow> num \<Rightarrow> pending list \<Rightarrow> range list \<times> pending list" where
  "claim_core opn gaps now delay ps =
     (let live = live_loop now opn ps;
          out = claim_loop live gaps;
          fresh = map (\<lambda>r. Pending (rstart r) (rend r) (now + delay)) out
      in (out, sort_key pstart (live @ fresh)))"

definition repair_claim ::
    "reassembly \<Rightarrow> range list \<Rightarrow> num \<Rightarrow> num \<Rightarrow> repair \<Rightarrow> range list \<times> repair" where
  "repair_claim asm gaps now delay r =
     (let (out, ps) = claim_core (asm_missing asm (asm_size asm)) gaps now delay (pendings r)
      in (out, r\<lparr>pendings := ps, requested_count := requested_count r + length out\<rparr>))"

fun detect_loop ::
    "(num, num) jsmap \<Rightarrow> num \<Rightarrow> num \<Rightarrow> range list \<Rightarrow> (num, num) jsmap \<Rightarrow> range list \<Rightarrow>
      (num, num) jsmap \<times> range list" where
  "detect_loop old now window [] sus lost = (sus, lost)"
| "detect_loop old now window (g # gs) sus lost =
     (let since = (case jm_get old (rstart g) of None \<Rightarrow> now | Some t \<Rightarrow> t)
      in detect_loop old now window gs (jm_set (rstart g) since sus)
           (if now - since \<ge> window then lost @ [g] else lost))"

definition repair_detect ::
    "reassembly \<Rightarrow> num \<Rightarrow> num \<Rightarrow> num \<Rightarrow> num \<Rightarrow> repair \<Rightarrow> range list \<times> repair" where
  "repair_detect asm limit now window delay r =
     (let (sus, lost) = detect_loop (suspects r) now window (asm_missing asm limit) [] []
      in repair_claim asm lost now delay (r\<lparr>suspects := sus\<rparr>))"

section \<open>Sweeps over sorted lists\<close>

definition pset :: "pending \<Rightarrow> num set" where
  "pset p = {pstart p ..< pend p}"

definition pcover :: "pending list \<Rightarrow> num set" where
  "pcover ps = (\<Union>p \<in> set ps. pset p)"

definition pend_ok :: "pending list \<Rightarrow> bool" where
  "pend_ok ps \<longleftrightarrow> sorted_wrt (\<lambda>p q. pend p \<le> pstart q) ps \<and> (\<forall>p \<in> set ps. pstart p < pend p)"

text \<open>The wanted ranges: sorted and disjoint, neighbours may touch.\<close>

definition gaps_ok :: "range list \<Rightarrow> bool" where
  "gaps_ok gs \<longleftrightarrow> sorted_wrt (\<lambda>g h. rend g \<le> rstart h) gs \<and> (\<forall>g \<in> set gs. rstart g < rend g)"

lemma pcover_simps [simp]:
  "pcover [] = {}" "pcover (p # ps) = pset p \<union> pcover ps" "pcover (xs @ ys) = pcover xs \<union> pcover ys"
  by (auto simp: pcover_def)

lemma mem_pset [simp]: "x \<in> pset p \<longleftrightarrow> pstart p \<le> x \<and> x < pend p"
  by (simp add: pset_def)

lemma pend_ok_Nil [simp]: "pend_ok []"
  by (simp add: pend_ok_def)

lemma pend_ok_Cons [simp]:
  "pend_ok (p # ps) \<longleftrightarrow> pstart p < pend p \<and> (\<forall>q \<in> set ps. pend p \<le> pstart q) \<and> pend_ok ps"
  by (auto simp: pend_ok_def)

lemma gaps_ok_Nil [simp]: "gaps_ok []"
  by (simp add: gaps_ok_def)

lemma gaps_ok_Cons [simp]:
  "gaps_ok (g # gs) \<longleftrightarrow> rstart g < rend g \<and> (\<forall>h \<in> set gs. rend g \<le> rstart h) \<and> gaps_ok gs"
  by (auto simp: gaps_ok_def)

lemma gaps_ok_append:
  "gaps_ok (xs @ ys) \<longleftrightarrow> gaps_ok xs \<and> gaps_ok ys \<and> (\<forall>x \<in> set xs. \<forall>y \<in> set ys. rend x \<le> rstart y)"
  by (auto simp: gaps_ok_def sorted_wrt_append)

lemma spaced_gaps_ok: "spaced gs \<Longrightarrow> gaps_ok gs"
  by (induction gs) (auto intro: less_imp_le)

lemma pend_ok_filter: "pend_ok ps \<Longrightarrow> pend_ok (filter P ps)"
  by (induction ps) auto

lemma pend_ok_mem: "pend_ok ps \<Longrightarrow> p \<in> set ps \<Longrightarrow> pstart p < pend p"
  by (auto simp: pend_ok_def)

lemma dropWhile_pend_ok: "pend_ok ps \<Longrightarrow> pend_ok (dropWhile P ps)"
  by (induction ps) auto

lemma dropWhile_gaps_ok: "gaps_ok gs \<Longrightarrow> gaps_ok (dropWhile P gs)"
  by (induction gs) auto

lemma gaps_ok_mem: "gaps_ok gs \<Longrightarrow> g \<in> set gs \<Longrightarrow> rstart g < rend g"
  by (auto simp: gaps_ok_def)

lemma dropWhile_pend_after:
  "pend_ok ps \<Longrightarrow> p \<in> set (dropWhile (\<lambda>p. pend p \<le> x) ps) \<Longrightarrow> x < pend p"
proof (induction ps)
  case (Cons q ps)
  show ?case
  proof (cases "pend q \<le> x")
    case False
    with Cons.prems pend_ok_mem [of ps p] show ?thesis by fastforce
  qed (use Cons in simp)
qed simp

lemma dropWhile_gap_after:
  "gaps_ok gs \<Longrightarrow> g \<in> set (dropWhile (\<lambda>g. rend g \<le> x) gs) \<Longrightarrow> x < rend g"
proof (induction gs)
  case (Cons h gs)
  show ?case
  proof (cases "rend h \<le> x")
    case False
    with Cons.prems gaps_ok_mem [of gs g] show ?thesis by fastforce
  qed (use Cons in simp)
qed simp

text \<open>What the sweep skips lies wholly before \<open>x\<close>.\<close>

lemma dropWhile_pend_cover:
  "x \<le> y \<Longrightarrow> y \<in> pcover (dropWhile (\<lambda>p. pend p \<le> x) ps) \<longleftrightarrow> y \<in> pcover ps"
proof (induction ps)
  case (Cons p ps)
  then show ?case by (cases "pend p \<le> x") auto
qed simp

lemma dropWhile_gap_mem:
  "g \<in> set gs \<Longrightarrow> g \<in> set (dropWhile (\<lambda>g. rend g \<le> x) gs) \<or> rend g \<le> x"
  by (induction gs) auto

definition overlaps :: "pending \<Rightarrow> range list \<Rightarrow> bool" where
  "overlaps p gs \<longleftrightarrow> (\<exists>g \<in> set gs. rstart g < pend p \<and> pstart p < rend g)"

lemma overlaps_dropWhile:
  assumes "x \<le> pstart q"
  shows "overlaps q (dropWhile (\<lambda>g. rend g \<le> x) gs) = overlaps q gs"
proof
  assume "overlaps q gs"
  then obtain g where g: "g \<in> set gs" "rstart g < pend q" "pstart q < rend g"
    by (auto simp: overlaps_def)
  then have "g \<in> set (dropWhile (\<lambda>g. rend g \<le> x) gs)"
    using dropWhile_gap_mem [of g gs x] assms by auto
  with g show "overlaps q (dropWhile (\<lambda>g. rend g \<le> x) gs)" by (auto simp: overlaps_def)
qed (auto simp: overlaps_def dest: set_dropWhileD)

lemma overlaps_head:
  assumes "gaps_ok (g # gs)" "pstart p < rend g"
  shows "overlaps p (g # gs) \<longleftrightarrow> rstart g < pend p"
  using assms by (fastforce simp: overlaps_def)

lemma live_loop_filter:
  "pend_ok ps \<Longrightarrow> gaps_ok gs \<Longrightarrow>
    live_loop now gs ps = filter (\<lambda>p. now < pdue p \<and> overlaps p gs) ps"
proof (induction now gs ps rule: live_loop.induct)
  case (2 now gs p ps)
  show ?case
  proof (cases "pdue p \<le> now")
    case False
    define gs' where "gs' = dropWhile (\<lambda>g. rend g \<le> pstart p) gs"
    have ok': "gaps_ok gs'" using "2.prems" by (simp add: gs'_def dropWhile_gaps_ok)
    have same: "overlaps q gs' = overlaps q gs" if "pstart p \<le> pstart q" for q
      using overlaps_dropWhile [OF that] by (simp add: gs'_def)
    have "live_loop now gs' ps = filter (\<lambda>q. now < pdue q \<and> overlaps q gs') ps"
      using "2.IH"(2-4) [OF False gs'_def] "2.prems" ok' by (cases gs') (auto split: if_splits)
    also have "\<dots> = filter (\<lambda>q. now < pdue q \<and> overlaps q gs) ps"
    proof (rule filter_cong)
      fix q assume "q \<in> set ps"
      with "2.prems" have "pstart p \<le> pstart q" by fastforce
      with same show "(now < pdue q \<and> overlaps q gs') = (now < pdue q \<and> overlaps q gs)" by simp
    qed simp
    finally have IH: "live_loop now gs' ps = filter (\<lambda>q. now < pdue q \<and> overlaps q gs) ps" .
    have hd: "overlaps p gs \<longleftrightarrow> (case gs' of [] \<Rightarrow> False | g # _ \<Rightarrow> rstart g < pend p)"
    proof (cases gs')
      case Nil
      with same [of p] show ?thesis by (simp add: overlaps_def)
    next
      case (Cons g gs'')
      have "pstart p < rend g"
        using dropWhile_gap_after [of gs g "pstart p"] "2.prems" Cons by (simp add: gs'_def)
      with ok' Cons same [of p] overlaps_head [of g gs'' p] show ?thesis by simp
    qed
    show ?thesis
      using False IH hd by (cases gs') (auto simp: Let_def gs'_def [symmetric])
  qed (use 2 in simp)
qed simp

text \<open>One wanted range: what is sent is what no live RESEND covers.\<close>

lemma carve_spec:
  assumes "carve pos en ps = (out, pos')" "pend_ok ps" "\<forall>p \<in> set ps. pos < pend p" "pos < en"
  shows "cover out \<union> {pos'..<en} = {pos..<en} - pcover ps \<and> cover out \<inter> {pos'..<en} = {} \<and>
    gaps_ok out \<and> inside pos pos' out \<and> pos \<le> pos' \<and> inside pos en out"
  using assms
proof (induction pos en ps arbitrary: out rule: carve.induct)
  case (2 pos en p ps)
  show ?case
  proof (cases "pstart p < en")
    case True
    obtain out1 where c: "carve (max pos (pend p)) en ps = (out1, pos')"
      using "2.prems"(1) True by (cases "carve (max pos (pend p)) en ps") auto
    have pp: "pos < pend p" "pstart p < pend p" using "2.prems" by auto
    then have m: "max pos (pend p) = pend p" by simp
    have out: "out = (if pstart p > pos then [Range pos (pstart p)] else []) @ out1"
      using "2.prems"(1) True c by simp
    have okps: "pend_ok ps" using "2.prems" by simp
    have after: "\<forall>q \<in> set ps. pend p \<le> pstart q \<and> pend p < pend q"
      using "2.prems" pend_ok_mem [OF okps] by fastforce
    have later: "y \<notin> pcover ps" if "y < pend p" for y
      using that after by (auto simp: pcover_def)
    show ?thesis
    proof (cases "pend p < en")
      case False
      have "carve (pend p) en ps = ([], pend p)"
        using False after by (cases ps) auto
      with c m have "out1 = []" "pos' = pend p" by auto
      with out pp False True later show ?thesis by (auto simp: mem_cover)
    next
      case inn: True
      have IH: "cover out1 \<union> {pos'..<en} = {pend p..<en} - pcover ps \<and> cover out1 \<inter> {pos'..<en} = {} \<and>
        gaps_ok out1 \<and> inside (pend p) pos' out1 \<and> pend p \<le> pos' \<and> inside (pend p) en out1"
        using "2.IH" [OF True, of out1] c m okps after inn by auto
      have split: "{pos..<en} - pcover (p # ps) = {pos..<pstart p} \<union> ({pend p..<en} - pcover ps)"
        using pp True inn later by (auto simp: not_less)
      have "cover out \<union> {pos'..<en} = {pos..<en} - pcover (p # ps)"
        using IH unfolding split out by auto
      moreover have "cover out \<inter> {pos'..<en} = {}"
        using IH pp unfolding out by (auto simp: mem_cover)
      moreover have "inside pos pos' out1" "inside pos en out1"
        using IH pp by (fastforce simp: inside_def)+
      moreover have "\<forall>h \<in> set out1. pstart p \<le> rstart h"
        using IH pp by (force simp: inside_def)
      ultimately show ?thesis
        using IH pp True unfolding out by auto
    qed
  next
    case False
    with "2.prems" have "out = []" "pos' = pos" by auto
    moreover have "{pos..<en} \<inter> pcover (p # ps) = {}"
      using False "2.prems" by (force simp: pcover_def)
    ultimately show ?thesis by auto
  qed
qed auto

text \<open>All the wanted ranges, with one forward pass over the live RESENDs.\<close>

lemma claim_loop_spec:
  assumes "pend_ok live" "gaps_ok gs"
  shows "cover (claim_loop live gs) = cover gs - pcover live \<and> gaps_ok (claim_loop live gs) \<and>
    (\<forall>r \<in> set (claim_loop live gs). \<exists>g \<in> set gs. rstart g \<le> rstart r \<and> rend r \<le> rend g)"
  using assms
proof (induction live gs rule: claim_loop.induct)
  case (2 live g gs)
  define live' where "live' = dropWhile (\<lambda>p. pend p \<le> rstart g) live"
  obtain out pos where c: "carve (rstart g) (rend g) live' = (out, pos)"
    by (cases "carve (rstart g) (rend g) live'")
  define tl where "tl = (if pos < rend g then [Range pos (rend g)] else [])"
  have ok': "pend_ok live'" using "2.prems" by (simp add: live'_def dropWhile_pend_ok)
  have g: "rstart g < rend g" "gaps_ok gs" "\<forall>h \<in> set gs. rend g \<le> rstart h"
    using "2.prems" by auto
  have IH: "cover (claim_loop live' gs) = cover gs - pcover live'" "gaps_ok (claim_loop live' gs)"
    "\<forall>r \<in> set (claim_loop live' gs). \<exists>h \<in> set gs. rstart h \<le> rstart r \<and> rend r \<le> rend h"
    using "2.IH" [OF live'_def] c ok' g by (auto simp: live'_def)
  have C: "cover out \<union> {pos..<rend g} = {rstart g..<rend g} - pcover live'" "gaps_ok out"
    "inside (rstart g) pos out" "rstart g \<le> pos" "inside (rstart g) (rend g) out"
    using carve_spec [OF c ok' _ g(1)] dropWhile_pend_after [OF "2.prems"(1)]
    by (auto simp: live'_def)
  have eq: "claim_loop live (g # gs) = out @ tl @ claim_loop live' gs"
    using c by (simp add: live'_def [symmetric] tl_def)
  have tl: "cover tl = {pos..<rend g}" "inside (rstart g) (rend g) tl" "gaps_ok tl"
    "\<forall>r \<in> set tl. rstart r = pos \<and> rend r = rend g"
    using C by (auto simp: tl_def rset_def)
  have same: "y \<in> pcover live' \<longleftrightarrow> y \<in> pcover live" if "rstart g \<le> y" for y
    using dropWhile_pend_cover [OF that] by (simp add: live'_def)
  have "rstart g \<le> y" if "y \<in> cover gs" for y
    using that g by (force simp: mem_cover)
  then have "cover gs - pcover live' = cover gs - pcover live"
    "{rstart g..<rend g} - pcover live' = {rstart g..<rend g} - pcover live"
    using same by auto
  then have "cover (claim_loop live (g # gs)) = cover (g # gs) - pcover live"
    unfolding eq using C(1) IH(1) tl(1) by (auto simp: rset_def)
  moreover have later: "\<forall>r \<in> set (claim_loop live' gs). rend g \<le> rstart r"
    using IH(3) g(3) by fastforce
  moreover have "gaps_ok (claim_loop live (g # gs))"
    unfolding eq gaps_ok_append using C tl IH(2) later by (fastforce simp: inside_def)
  moreover have "\<forall>r \<in> set (claim_loop live (g # gs)).
      \<exists>h \<in> set (g # gs). rstart h \<le> rstart r \<and> rend r \<le> rend h"
    unfolding eq using C(5) tl(2) IH(3) by (auto simp: inside_def)
  ultimately show ?case by blast
qed simp

text \<open>Sorting a list of disjoint, non-empty RESENDs by their start.\<close>

definition apart :: "pending \<Rightarrow> pending \<Rightarrow> bool" where
  "apart p q \<longleftrightarrow> pend p \<le> pstart q \<or> pend q \<le> pstart p"

lemma insort_pend_ok:
  "pend_ok ps \<Longrightarrow> pstart p < pend p \<Longrightarrow> \<forall>q \<in> set ps. apart p q \<Longrightarrow> pend_ok (insort_key pstart p ps)"
proof (induction ps)
  case (Cons q ps)
  then have "pstart q < pend q" "\<forall>r \<in> set ps. pend q \<le> pstart r \<and> pstart r < pend r"
    using pend_ok_mem by fastforce+
  with Cons show ?case by (fastforce simp: apart_def set_insort_key)
qed simp

lemma sort_pend_ok:
  "sorted_wrt apart ps \<Longrightarrow> \<forall>p \<in> set ps. pstart p < pend p \<Longrightarrow> pend_ok (sort_key pstart ps)"
  by (induction ps) (auto intro!: insort_pend_ok)

lemma pend_ok_apart: "pend_ok ps \<Longrightarrow> sorted_wrt apart ps"
  unfolding pend_ok_def by (auto elim: sorted_wrt_mono_rel [rotated] simp: apart_def)

lemma disjoint_apart:
  assumes "pstart p < pend p" "pstart q < pend q" "pset p \<inter> pset q = {}"
  shows "apart p q"
proof (rule ccontr)
  assume "\<not> apart p q"
  then have "max (pstart p) (pstart q) \<in> pset p" "max (pstart p) (pstart q) \<in> pset q"
    using assms(1,2) by (auto simp: apart_def)
  with assms(3) show False by blast
qed

section \<open>Claiming, over any source of gaps\<close>

text \<open>What the tracker needs from a reassembly: its gaps are sorted and disjoint, and cover exactly
  what it does not have.\<close>

locale gap_source =
  fixes gaps :: "'s \<Rightarrow> num \<Rightarrow> range list"
    and extent :: "'s \<Rightarrow> num"
    and ok :: "'s \<Rightarrow> bool"
    and have_bytes :: "'s \<Rightarrow> num set"
  assumes gaps_sorted: "ok s \<Longrightarrow> gaps_ok (gaps s l)"
    and gaps_cover: "ok s \<Longrightarrow> cover (gaps s l) = {0..<l} - have_bytes s"
begin

definition wanted :: "'s \<Rightarrow> range list \<Rightarrow> bool" where
  "wanted s gs \<longleftrightarrow> gaps_ok gs \<and> cover gs \<subseteq> cover (gaps s (extent s))"

lemma gaps_wanted: "ok s \<Longrightarrow> l \<le> extent s \<Longrightarrow> wanted s (gaps s l)"
  by (auto simp: wanted_def gaps_sorted gaps_cover)

text \<open>A RESEND the sweep dropped covers no missing byte, so on the wanted ranges the live ones and
  the unexpired ones agree.\<close>

lemma claim_exact:
  assumes "ok s" "pend_ok ps" "wanted s gs" "claim_core (gaps s (extent s)) gs now delay ps = (out, ps')"
  shows "cover out = cover gs - pcover (filter (\<lambda>p. now < pdue p) ps)"
    "gaps_ok out" "pend_ok ps'"
    "set ps' = {p \<in> set ps. now < pdue p \<and> overlaps p (gaps s (extent s))} \<union>
       (\<lambda>r. Pending (rstart r) (rend r) (now + delay)) ` set out"
proof -
  let ?opn = "gaps s (extent s)"
  define live where "live = filter (\<lambda>p. now < pdue p \<and> overlaps p ?opn) ps"
  have ll: "live_loop now ?opn ps = live"
    using live_loop_filter [OF assms(2) gaps_sorted [OF assms(1)]] by (simp add: live_def)
  have oklive: "pend_ok live" using assms(2) by (simp add: live_def pend_ok_filter)
  have out: "out = claim_loop live gs"
    and ps': "ps' = sort_key pstart (live @ map (\<lambda>r. Pending (rstart r) (rend r) (now + delay)) out)"
    using assms(4) by (auto simp: claim_core_def ll Let_def)
  have spec: "cover out = cover gs - pcover live" "gaps_ok out"
    using claim_loop_spec [OF oklive] assms(3) by (auto simp: out wanted_def)
  have "y \<in> pcover live" if y: "y \<in> cover gs" "y \<in> pset p" "p \<in> set ps" "now < pdue p" for y p
  proof -
    have "y \<in> cover ?opn" using assms(3) y by (auto simp: wanted_def)
    then obtain g where "g \<in> set ?opn" "rstart g \<le> y" "y < rend g" by (auto simp: mem_cover)
    moreover have "pstart p \<le> y" "y < pend p" using y by auto
    ultimately have "overlaps p ?opn" unfolding overlaps_def by (intro bexI [of _ g]) auto
    with y show ?thesis by (auto simp: live_def pcover_def)
  qed
  then have "cover gs \<inter> pcover (filter (\<lambda>p. now < pdue p) ps) \<subseteq> pcover live"
    by (auto simp: pcover_def)
  moreover have "pcover live \<subseteq> pcover (filter (\<lambda>p. now < pdue p) ps)"
    by (auto simp: live_def pcover_def)
  ultimately show "cover out = cover gs - pcover (filter (\<lambda>p. now < pdue p) ps)"
    using spec(1) by blast
  show "gaps_ok out" by (fact spec(2))
  show "set ps' = {p \<in> set ps. now < pdue p \<and> overlaps p ?opn} \<union>
       (\<lambda>r. Pending (rstart r) (rend r) (now + delay)) ` set out"
    by (auto simp: ps' live_def)
  let ?f = "\<lambda>r. Pending (rstart r) (rend r) (now + delay)"
  have ne: "\<forall>p \<in> set (live @ map ?f out). pstart p < pend p"
    using pend_ok_mem [OF oklive] gaps_ok_mem [OF spec(2)] by auto
  have cross: "apart p (?f r)" if "p \<in> set live" "r \<in> set out" for p r
  proof (rule disjoint_apart)
    have "pset (?f r) \<subseteq> cover out" using that by (auto simp: mem_cover)
    moreover have "pset p \<subseteq> pcover live" using that by (auto simp: pcover_def)
    ultimately show "pset p \<inter> pset (?f r) = {}" using spec(1) by blast
  next
    show "pstart p < pend p" using that ne by simp
    show "pstart (?f r) < pend (?f r)" using that ne by fastforce
  qed
  have "sorted_wrt apart (map ?f out)"
    using spec(2) unfolding gaps_ok_def sorted_wrt_map
    by (auto elim: sorted_wrt_mono_rel [rotated] simp: apart_def)
  then have "sorted_wrt apart (live @ map ?f out)"
    using pend_ok_apart [OF oklive] cross by (auto simp: sorted_wrt_append)
  then show "pend_ok ps'" using sort_pend_ok ne by (simp add: ps')
qed

end

interpretation asm_gaps: gap_source asm_missing asm_size asm_ok asm_cover
  by unfold_locales (simp_all add: asm_missing_spec spaced_gaps_ok)

section \<open>Suspects\<close>

definition first_suspect :: "(num, num) jsmap \<Rightarrow> num \<Rightarrow> range \<Rightarrow> num" where
  "first_suspect old now g = (case jm_get old (rstart g) of None \<Rightarrow> now | Some t \<Rightarrow> t)"

lemma detect_loop_spec:
  "detect_loop old now window gs sus lost = (sus', lost') \<Longrightarrow>
    lost' = lost @ filter (\<lambda>g. now - first_suspect old now g \<ge> window) gs \<and>
    (\<forall>x. jm_get sus' x = (if x \<in> rstart ` set gs
       then Some (case jm_get old x of None \<Rightarrow> now | Some t \<Rightarrow> t) else jm_get sus x))"
proof (induction gs arbitrary: sus lost)
  case (Cons g gs)
  let ?t = "first_suspect old now g"
  have "detect_loop old now window gs (jm_set (rstart g) ?t sus)
      (if now - ?t \<ge> window then lost @ [g] else lost) = (sus', lost')"
    using Cons.prems by (simp add: first_suspect_def Let_def)
  note IH = Cons.IH [OF this]
  show ?case
  proof (intro conjI allI)
    show "lost' = lost @ filter (\<lambda>g. now - first_suspect old now g \<ge> window) (g # gs)"
      using IH by simp
    show "jm_get sus' x = (if x \<in> rstart ` set (g # gs)
        then Some (case jm_get old x of None \<Rightarrow> now | Some t \<Rightarrow> t) else jm_get sus x)" for x
      using IH by (simp add: first_suspect_def)
  qed
qed simp

definition lost_gaps :: "repair \<Rightarrow> reassembly \<Rightarrow> num \<Rightarrow> num \<Rightarrow> num \<Rightarrow> range list" where
  "lost_gaps r a limit now window =
     filter (\<lambda>g. now - first_suspect (suspects r) now g \<ge> window) (asm_missing a limit)"

lemma gaps_ok_filter: "gaps_ok gs \<Longrightarrow> gaps_ok (filter P gs)"
  by (induction gs) auto

lemma cover_filter: "cover (filter P gs) \<subseteq> cover gs"
  by (auto simp: cover_def)

lemma lost_gaps_wanted:
  assumes "asm_ok a" "limit \<le> asm_size a"
  shows "asm_gaps.wanted a (lost_gaps r a limit now window)"
  using asm_gaps.gaps_wanted [OF assms] cover_filter gaps_ok_filter
  by (fastforce simp: asm_gaps.wanted_def lost_gaps_def)

lemma repair_detect_claim:
  assumes "repair_detect a limit now window delay r = (out, r')"
  shows "\<exists>sus. repair_claim a (lost_gaps r a limit now window) now delay (r\<lparr>suspects := sus\<rparr>) = (out, r') \<and>
    (\<forall>x. jm_get sus x = (if x \<in> rstart ` set (asm_missing a limit)
       then Some (case jm_get (suspects r) x of None \<Rightarrow> now | Some t \<Rightarrow> t) else None))"
  using assms detect_loop_spec [of "suspects r" now window "asm_missing a limit" "[]" "[]"]
  by (auto simp: repair_detect_def lost_gaps_def split: prod.splits)

lemma repair_claim_parts:
  assumes "repair_claim a gs now delay r = (out, r')"
  shows "claim_core (asm_missing a (asm_size a)) gs now delay (pendings r) = (out, pendings r')"
    "suspects r' = suspects r" "requested_count r' = requested_count r + length out"
  using assms by (auto simp: repair_claim_def split: prod.splits)

section \<open>Runs of one transfer\<close>

text \<open>One transfer's life: payloads arrive, and RESENDs go out from the early detector and from the
  stall timer, the clock never running backwards. The list \<open>sent\<close> keeps each RESEND with the time it went
  out and the time it is due.\<close>

type_synonym resend_log = "(num \<times> num \<times> range list) list"

inductive repair_reach :: "reassembly \<Rightarrow> repair \<Rightarrow> num \<Rightarrow> resend_log \<Rightarrow> bool" where
  start: "asm_ok a \<Longrightarrow> repair_reach a new_repair now []"
| arrive: "repair_reach a r now sent \<Longrightarrow> is_integer off \<Longrightarrow> asm_add off p a = Inr (n, a') \<Longrightarrow>
    repair_reach a' r now sent"
| claimed: "repair_reach a r now sent \<Longrightarrow> now \<le> now' \<Longrightarrow> gaps_ok gs \<Longrightarrow>
    cover gs \<subseteq> cover (asm_missing a (asm_size a)) \<Longrightarrow>
    repair_claim a gs now' delay r = (out, r') \<Longrightarrow>
    repair_reach a r' now' (sent @ [(now', now' + delay, out)])"
| detected: "repair_reach a r now sent \<Longrightarrow> now \<le> now' \<Longrightarrow> limit \<le> asm_size a \<Longrightarrow>
    repair_detect a limit now' window delay r = (out, r') \<Longrightarrow>
    repair_reach a r' now' (sent @ [(now', now' + delay, out)])"

text \<open>Every byte of a RESEND that is not due yet has arrived or is still recorded as pending.\<close>

definition log_held :: "reassembly \<Rightarrow> repair \<Rightarrow> num \<Rightarrow> resend_log \<Rightarrow> bool" where
  "log_held a r now sent \<longleftrightarrow> (\<forall>(t, due, rs) \<in> set sent. cover rs \<subseteq> {0..<asm_size a} \<and>
     (now < due \<longrightarrow> (\<forall>y \<in> cover rs. y \<in> asm_cover a \<or>
        (\<exists>p \<in> set (pendings r). pdue p = due \<and> y \<in> pset p))))"

definition no_storm :: "resend_log \<Rightarrow> bool" where
  "no_storm sent \<longleftrightarrow>
     sorted_wrt (\<lambda>e f. fst f < fst (snd e) \<longrightarrow> cover (snd (snd e)) \<inter> cover (snd (snd f)) = {}) sent"

definition repair_inv :: "reassembly \<Rightarrow> repair \<Rightarrow> num \<Rightarrow> resend_log \<Rightarrow> bool" where
  "repair_inv a r now sent \<longleftrightarrow> asm_ok a \<and> pend_ok (pendings r) \<and> log_held a r now sent \<and> no_storm sent"

lemma repair_inv_claim:
  assumes inv: "repair_inv a r now sent" and le: "now \<le> now'" and w: "asm_gaps.wanted a gs"
    and cl: "claim_core (asm_missing a (asm_size a)) gs now' delay (pendings r) = (out, pendings r')"
  shows "repair_inv a r' now' (sent @ [(now', now' + delay, out)])"
proof -
  let ?miss = "asm_missing a (asm_size a)"
  have ok: "asm_ok a" "pend_ok (pendings r)" and held: "log_held a r now sent" and ns: "no_storm sent"
    using inv by (auto simp: repair_inv_def)
  note C = asm_gaps.claim_exact [OF ok w cl]
  have miss: "cover ?miss = {0..<asm_size a} - asm_cover a" using asm_missing_spec [OF ok(1)] by simp
  have sub: "cover out \<subseteq> {0..<asm_size a} - asm_cover a"
    using C(1) w miss by (auto simp: asm_gaps.wanted_def)
  have keep: "y \<in> asm_cover a \<or> (\<exists>q \<in> set (pendings r'). pdue q = due \<and> y \<in> pset q)"
    if "(t, due, rs) \<in> set sent" "now' < due" "y \<in> cover rs" for t due rs y
  proof (cases "y \<in> asm_cover a")
    case False
    with that held le obtain p where p: "p \<in> set (pendings r)" "pdue p = due" "y \<in> pset p"
      and y: "y \<in> {0..<asm_size a}" by (fastforce simp: log_held_def)
    have "y \<in> cover ?miss" using y False miss by simp
    then obtain g where "g \<in> set ?miss" "rstart g \<le> y" "y < rend g" by (auto simp: mem_cover)
    moreover have "pstart p \<le> y" "y < pend p" using p by auto
    ultimately have "overlaps p ?miss" unfolding overlaps_def by (intro bexI [of _ g]) auto
    with p that C(4) show ?thesis by blast
  qed simp
  have "y \<notin> cover out" if e: "(t, due, rs) \<in> set sent" "now' < due" "y \<in> cover rs" for t due rs y
  proof
    assume "y \<in> cover out"
    moreover from this sub have "y \<notin> asm_cover a" by auto
    with held e le obtain p where "p \<in> set (pendings r)" "pdue p = due" "y \<in> pset p"
      by (fastforce simp: log_held_def)
    ultimately show False using C(1) e(2) by (auto simp: pcover_def)
  qed
  then have "no_storm (sent @ [(now', now' + delay, out)])"
    using ns by (auto simp: no_storm_def sorted_wrt_append)
  moreover
  have "\<exists>q \<in> set (pendings r'). pdue q = now' + delay \<and> y \<in> pset q" if y: "y \<in> cover out" for y
  proof -
    obtain g where "g \<in> set out" "rstart g \<le> y" "y < rend g" using y by (auto simp: mem_cover)
    with C(4) show ?thesis by (intro bexI [of _ "Pending (rstart g) (rend g) (now' + delay)"]) auto
  qed
  then have new: "log_held a r' now' [(now', now' + delay, out)]"
    using sub by (auto simp: log_held_def)
  have "log_held a r' now' sent" unfolding log_held_def
  proof (clarify, intro conjI impI ballI)
    fix t due rs assume e: "(t, due, rs) \<in> set sent"
    then show "cover rs \<subseteq> {0..<asm_size a}" using held by (auto simp: log_held_def)
    show "y \<in> asm_cover a \<or> (\<exists>p \<in> set (pendings r'). pdue p = due \<and> y \<in> pset p)"
      if "now' < due" "y \<in> cover rs" for y using keep [OF e that] .
  qed
  with new have "log_held a r' now' (sent @ [(now', now' + delay, out)])"
    by (simp add: log_held_def)
  ultimately show ?thesis using ok C(3) by (simp add: repair_inv_def)
qed

lemma repair_inv_arrive:
  assumes "repair_inv a r now sent" "is_integer off" "asm_add off p a = Inr (n, a')"
  shows "repair_inv a' r now sent"
  using assms(1) asm_add_cover [OF _ assms(3,2)] unfolding repair_inv_def log_held_def
  by fastforce

lemma repair_reach_inv: "repair_reach a r now sent \<Longrightarrow> repair_inv a r now sent"
proof (induction rule: repair_reach.induct)
  case (start a now)
  then show ?case by (simp add: repair_inv_def log_held_def no_storm_def new_repair_def)
next
  case (arrive a r now sent off p n a')
  then show ?case using repair_inv_arrive by blast
next
  case (claimed a r now sent now' gs delay out r')
  then show ?case
    by (intro repair_inv_claim [OF claimed.IH]) (auto simp: asm_gaps.wanted_def dest: repair_claim_parts)
next
  case (detected a r now sent now' limit window delay out r')
  then have "asm_ok a" by (simp add: repair_inv_def)
  then have "asm_gaps.wanted a (lost_gaps r a limit now' window)"
    using lost_gaps_wanted detected by blast
  moreover obtain sus where
    "repair_claim a (lost_gaps r a limit now' window) now' delay (r\<lparr>suspects := sus\<rparr>) = (out, r')"
    using repair_detect_claim [OF detected.hyps(4)] by blast
  ultimately show ?case
    by (intro repair_inv_claim [OF detected.IH detected.hyps(2)]) (auto dest: repair_claim_parts)
qed

section \<open>Properties\<close>

text \<open>C28: however payloads, early detection and stall recovery interleave, no byte is asked for again
  while an earlier RESEND of it is not due yet.\<close>

theorem repair_no_storm:
  assumes "repair_reach a r now sent"
  shows "\<forall>i j. i < j \<and> j < length sent \<and> fst (sent ! j) < fst (snd (sent ! i)) \<longrightarrow>
    cover (snd (snd (sent ! i))) \<inter> cover (snd (snd (sent ! j))) = {}"
  using repair_reach_inv [OF assms] by (simp add: repair_inv_def no_storm_def sorted_wrt_iff_nth_less)

definition half_asm :: reassembly where
  "half_asm = \<lparr>asm_size = 10, asm_bytes = replicate 10 0, asm_ranges = [Range 0 4], asm_received = 4\<rparr>"

lemma half_asm_ok: "asm_ok half_asm"
  using asm_sample by (simp add: half_asm_def)

lemma half_asm_simps:
  "asm_size half_asm = 10" "asm_missing half_asm l = (if l \<le> 4 then [] else [Range 4 l])"
  by (auto simp: half_asm_def asm_missing_def)

theorem repair_no_storm_witness:
  "\<exists>r. repair_reach half_asm r 3 [(0, 5, [Range 4 6]), (3, 8, [Range 6 10])] \<and>
    cover [Range 4 6] \<inter> cover [Range 6 10] = {}"
proof -
  let ?r = "\<lparr>suspects = [], pendings = [Pending 4 6 5], requested_count = 1\<rparr>"
  let ?r' = "\<lparr>suspects = [], pendings = [Pending 4 6 5, Pending 6 10 8], requested_count = 2\<rparr>"
  have "repair_claim half_asm [Range 4 6] 0 5 new_repair = ([Range 4 6], ?r)"
    by (simp add: repair_claim_def claim_core_def new_repair_def half_asm_simps)
  then have 1: "repair_reach half_asm ?r 0 [(0, 5, [Range 4 6])]"
    using repair_reach.claimed [OF repair_reach.start [OF half_asm_ok], of 0 0 "[Range 4 6]" 5]
    by (simp add: half_asm_simps rset_def)
  have "repair_claim half_asm [Range 4 10] 3 5 ?r = ([Range 6 10], ?r')"
    by (simp add: repair_claim_def claim_core_def half_asm_simps)
  then have 2: "repair_reach half_asm ?r' 3 [(0, 5, [Range 4 6]), (3, 8, [Range 6 10])]"
    using repair_reach.claimed [OF 1, of 3 "[Range 4 10]" 5] by (simp add: half_asm_simps)
  from repair_no_storm [OF this]
  have "fst ([(0::num, 5::num, [Range 4 6]), (3, 8, [Range 6 10])] ! 1) < fst (snd ([(0::num, 5::num, [Range 4 6]), (3, 8, [Range 6 10])] ! 0)) \<longrightarrow>
    cover (snd (snd ([(0::num, 5::num, [Range 4 6]), (3, 8, [Range 6 10])] ! 0))) \<inter>
    cover (snd (snd ([(0::num, 5::num, [Range 4 6]), (3, 8, [Range 6 10])] ! 1))) = {}" by force
  with 2 show ?thesis by auto
qed

text \<open>A claim sends exactly the wanted bytes no unexpired RESEND covers, as sorted disjoint
  ranges, and leaves the pending list sorted and disjoint.\<close>

theorem repair_claim_exact:
  assumes "asm_ok a" "pend_ok (pendings r)" "gaps_ok gs" "cover gs \<subseteq> cover (asm_missing a (asm_size a))"
    "repair_claim a gs now delay r = (out, r')"
  shows "cover out = cover gs - pcover (filter (\<lambda>p. now < pdue p) (pendings r)) \<and> gaps_ok out \<and>
    pend_ok (pendings r') \<and> (out \<noteq> [] \<longrightarrow> repair_requested r')"
  using asm_gaps.claim_exact [OF assms(1,2) _ repair_claim_parts(1) [OF assms(5)]]
    repair_claim_parts(3) [OF assms(5)] assms(3,4)
  by (auto simp: asm_gaps.wanted_def repair_requested_def)

theorem repair_claim_exact_witness:
  "let r = \<lparr>suspects = [], pendings = [Pending 4 6 5], requested_count = 1\<rparr>;
       res = repair_claim half_asm [Range 4 10] 3 5 r
   in fst res = [Range 6 10] \<and> pend_ok (pendings (snd res)) \<and> repair_requested (snd res) \<and>
     cover (fst res) = cover [Range 4 10] - pcover [Pending 4 6 5]"
proof -
  let ?r = "\<lparr>suspects = [], pendings = [Pending 4 6 5], requested_count = 1\<rparr>"
  let ?r' = "\<lparr>suspects = [], pendings = [Pending 4 6 5, Pending 6 10 8], requested_count = 2\<rparr>"
  have run: "repair_claim half_asm [Range 4 10] 3 5 ?r = ([Range 6 10], ?r')"
    by (simp add: repair_claim_def claim_core_def half_asm_simps)
  then show ?thesis
    using repair_claim_exact [OF half_asm_ok _ _ _ run] by (simp add: half_asm_simps)
qed

text \<open>Early detection sends only gaps below the limit that were first suspected at least the
  reordering window ago, sends all of those that no unexpired RESEND covers, and keeps the time of
  first suspicion of every gap that is still there.\<close>

theorem repair_detect_exact:
  assumes "asm_ok a" "pend_ok (pendings r)" "limit \<le> asm_size a"
    "repair_detect a limit now window delay r = (out, r')"
  shows "cover out = cover (filter (\<lambda>g. first_suspect (suspects r) now g \<le> now - window) (asm_missing a limit))
      - pcover (filter (\<lambda>p. now < pdue p) (pendings r)) \<and>
    (\<forall>g \<in> set (asm_missing a limit). jm_get (suspects r') (rstart g) = Some (first_suspect (suspects r) now g))"
proof -
  obtain sus where cl: "repair_claim a (lost_gaps r a limit now window) now delay (r\<lparr>suspects := sus\<rparr>) = (out, r')"
    and sus: "\<forall>x. jm_get sus x = (if x \<in> rstart ` set (asm_missing a limit)
       then Some (case jm_get (suspects r) x of None \<Rightarrow> now | Some t \<Rightarrow> t) else None)"
    using repair_detect_claim [OF assms(4)] by blast
  have eq: "lost_gaps r a limit now window =
      filter (\<lambda>g. first_suspect (suspects r) now g \<le> now - window) (asm_missing a limit)"
    unfolding lost_gaps_def by (rule filter_cong) auto
  note parts = repair_claim_parts [OF cl]
  have "claim_core (asm_missing a (asm_size a)) (lost_gaps r a limit now window) now delay (pendings r)
      = (out, pendings r')" using parts(1) by simp
  note C = asm_gaps.claim_exact(1) [OF assms(1,2) lost_gaps_wanted [OF assms(1,3)] this]
  have "suspects r' = sus" using parts(2) by simp
  with sus have "\<forall>g \<in> set (asm_missing a limit).
      jm_get (suspects r') (rstart g) = Some (first_suspect (suspects r) now g)"
    by (simp add: first_suspect_def)
  with C show ?thesis unfolding eq by blast
qed

theorem repair_detect_exact_witness:
  "fst (repair_detect half_asm 8 7 2 5 \<lparr>suspects = [(4, 5)], pendings = [], requested_count = 0\<rparr>) = [Range 4 8] \<and>
   fst (repair_detect half_asm 8 6 2 5 \<lparr>suspects = [(4, 5)], pendings = [], requested_count = 0\<rparr>) = [] \<and>
   cover (fst (repair_detect half_asm 8 7 2 5 \<lparr>suspects = [(4, 5)], pendings = [], requested_count = 0\<rparr>)) = {4..<8}"
proof -
  let ?r = "\<lparr>suspects = [(4, 5)], pendings = [], requested_count = 0\<rparr>"
  have a: "repair_detect half_asm 8 7 2 5 ?r =
      ([Range 4 8], \<lparr>suspects = [(4, 5)], pendings = [Pending 4 8 12], requested_count = 1\<rparr>)"
    by (simp add: repair_detect_def repair_claim_def claim_core_def half_asm_simps jm_get_def jm_set_def)
  have b: "fst (repair_detect half_asm 8 6 2 5 ?r) = []"
    by (simp add: repair_detect_def repair_claim_def claim_core_def half_asm_simps jm_get_def jm_set_def)
  have "cover [Range 4 8] = {4..<8}"
    using repair_detect_exact [OF half_asm_ok _ _ a]
    by (simp add: half_asm_simps first_suspect_def jm_get_def rset_def)
  with a b show ?thesis by simp
qed

end
