(* ===== verification/SeqTracker.thy ===== *)
theory SeqTracker
  imports Prelude
begin

text \<open>
  \<open>class SeqTracker\<close> of \<open>client/src/reassembly.ts\<close>: loss detection over the session's DATA_SEQ
  numbers. Numbers below the highest one seen are missing, claimed (a RESEND_SEQ went out),
  settled (no longer asked for) or done with. Sequence numbers are the integers the decoder
  returned; times and windows are JavaScript numbers, an infinite tail window is \<open>None\<close>.
\<close>

section \<open>State\<close>

record seq_hint =
  hint_rpc :: int
  hint_start :: num
  hint_end :: num

record miss_entry =
  miss_since :: num
  miss_hint :: "seq_hint option"

record claim_entry =
  claim_at :: num
  claim_tries :: int
  claim_hint :: "seq_hint option"

record seq_tracker =
  sq_highest :: int
  sq_last :: "seq_hint option"
  sq_missing :: "(int, miss_entry) jsmap"
  sq_claimed :: "(int, claim_entry) jsmap"
  sq_settled :: "(int, num) jsmap"

datatype seq_arrival = SeqNew | SeqReordered | SeqSpurious | SeqDuplicate

definition MAX_SETTLED :: nat where "MAX_SETTLED = 8192"

definition MAX_GAP :: int where "MAX_GAP = 4096"

definition CLAIM_TTL_MS :: num where "CLAIM_TTL_MS = 30000"

definition new_seq_tracker :: seq_tracker where
  "new_seq_tracker =
     \<lparr>sq_highest = -1, sq_last = None, sq_missing = [], sq_claimed = [], sq_settled = []\<rparr>"

section \<open>Operations\<close>

text \<open>The guess at what the missing numbers carried.\<close>

definition gap_hint :: "seq_tracker \<Rightarrow> int \<Rightarrow> seq_hint option \<Rightarrow> seq_hint option" where
  "gap_hint t sq place =
     (case (sq_last t, place) of
        (Some prev, Some w) \<Rightarrow>
          if sq - sq_highest t > 1 \<and> hint_rpc prev = hint_rpc w \<and> hint_end prev < hint_start w
          then Some \<lparr>hint_rpc = hint_rpc w, hint_start = hint_end prev, hint_end = hint_start w\<rparr>
          else None
      | _ \<Rightarrow> None)"

definition seq_arrive ::
    "int \<Rightarrow> num \<Rightarrow> seq_hint option \<Rightarrow> seq_tracker \<Rightarrow> seq_arrival \<times> seq_tracker" where
  "seq_arrive sq now place t =
     (if sq > sq_highest t then
        let m = (if sq - sq_highest t - 1 \<le> MAX_GAP
                 then fold (\<lambda>s m. jm_set s \<lparr>miss_since = now, miss_hint = gap_hint t sq place\<rparr> m)
                        [sq_highest t + 1 .. sq - 1] (sq_missing t)
                 else sq_missing t)
        in (SeqNew, t\<lparr>sq_missing := m, sq_highest := sq, sq_last := place\<rparr>)
      else if jm_get (sq_missing t) sq \<noteq> None then
        (SeqReordered, t\<lparr>sq_missing := jm_delete sq (sq_missing t)\<rparr>)
      else if jm_get (sq_claimed t) sq \<noteq> None then
        (SeqSpurious, t\<lparr>sq_claimed := jm_delete sq (sq_claimed t)\<rparr>)
      else if jm_get (sq_settled t) sq \<noteq> None then
        (SeqSpurious, t\<lparr>sq_settled := jm_delete sq (sq_settled t)\<rparr>)
      else (SeqDuplicate, t))"

text \<open>\<open>ranges\<close>: sorted, merged half-open ranges of at most \<open>maxRange\<close> numbers each.\<close>

fun ranges_loop :: "int \<Rightarrow> (int \<times> int) list \<Rightarrow> int list \<Rightarrow> (int \<times> int) list" where
  "ranges_loop mx out [] = out"
| "ranges_loop mx out (s # ss) =
     (if out \<noteq> [] \<and> snd (last out) = s \<and> snd (last out) - fst (last out) < mx
      then ranges_loop mx (butlast out @ [(fst (last out), s + 1)]) ss
      else ranges_loop mx (out @ [(s, s + 1)]) ss)"

definition seq_ranges :: "int list \<Rightarrow> int \<Rightarrow> (int \<times> int) list" where
  "seq_ranges nums mx = ranges_loop mx [] (sort nums)"

definition is_lost :: "int \<Rightarrow> num \<Rightarrow> num \<Rightarrow> num \<Rightarrow> num option \<Rightarrow> int \<Rightarrow> miss_entry \<Rightarrow> bool" where
  "is_lost highest now allowance window tail s m =
     (let age = now - miss_since m in
      of_int (highest - s) \<ge> allowance \<and> age \<ge> window \<or>
      (case tail of None \<Rightarrow> False | Some tw \<Rightarrow> age \<ge> tw))"

definition claim_lost :: "num \<Rightarrow> int \<Rightarrow> seq_tracker \<Rightarrow> seq_tracker" where
  "claim_lost now s t =
     (let hint = (case jm_get (sq_missing t) s of None \<Rightarrow> None | Some m \<Rightarrow> miss_hint m)
      in t\<lparr>sq_missing := jm_delete s (sq_missing t),
           sq_claimed := jm_set s \<lparr>claim_at = now, claim_tries = 1, claim_hint = hint\<rparr> (sq_claimed t)\<rparr>)"

definition seq_detect ::
    "num \<Rightarrow> num \<Rightarrow> num \<Rightarrow> num option \<Rightarrow> int \<Rightarrow> seq_tracker \<Rightarrow> (int \<times> int) list \<times> seq_tracker" where
  "seq_detect now allowance window tail mx t =
     (let lost = map fst (filter (\<lambda>(s, m). is_lost (sq_highest t) now allowance window tail s m)
                   (sq_missing t))
      in (seq_ranges lost mx, fold (claim_lost now) lost t))"

text \<open>\<open>repeats\<close>: the first loop asks again or settles; the iteration only touches the entry at
  hand, so it runs over the entries the map had.\<close>

fun repeats_loop ::
    "num \<Rightarrow> num \<Rightarrow> int \<Rightarrow> (seq_hint \<Rightarrow> bool) \<Rightarrow> (int \<times> claim_entry) list \<Rightarrow> int list \<Rightarrow> seq_tracker \<Rightarrow>
      int list \<times> seq_tracker" where
  "repeats_loop now delay maxTries rep [] due t = (due, t)"
| "repeats_loop now delay maxTries rep ((s, c) # cs) due t =
     (if now - claim_at c < delay then repeats_loop now delay maxTries rep cs due t
      else if claim_tries c \<ge> maxTries \<or> (case claim_hint c of None \<Rightarrow> False | Some h \<Rightarrow> rep h) then
        repeats_loop now delay maxTries rep cs due
          (t\<lparr>sq_claimed := jm_delete s (sq_claimed t), sq_settled := jm_set s now (sq_settled t)\<rparr>)
      else
        repeats_loop now delay maxTries rep cs (due @ [s])
          (t\<lparr>sq_claimed := jm_set s (c\<lparr>claim_at := now, claim_tries := claim_tries c + 1\<rparr>)
               (sq_claimed t)\<rparr>))"

fun trim_loop :: "num \<Rightarrow> (int \<times> num) list \<Rightarrow> (int, num) jsmap \<Rightarrow> (int, num) jsmap" where
  "trim_loop now [] m = m"
| "trim_loop now ((s, t) # es) m =
     (if length m \<le> MAX_SETTLED \<and> now - t \<le> CLAIM_TTL_MS then m
      else trim_loop now es (jm_delete s m))"

definition seq_repeats ::
    "num \<Rightarrow> num \<Rightarrow> int \<Rightarrow> (seq_hint \<Rightarrow> bool) \<Rightarrow> int \<Rightarrow> seq_tracker \<Rightarrow>
      (int \<times> int) list \<times> seq_tracker" where
  "seq_repeats now delay maxTries rep mx t =
     (let (due, t') = repeats_loop now delay maxTries rep (sq_claimed t) [] t
      in (seq_ranges due mx, t'\<lparr>sq_settled := trim_loop now (sq_settled t') (sq_settled t')\<rparr>))"

section \<open>Ranges of numbers\<close>

definition nums_of :: "(int \<times> int) list \<Rightarrow> int set" where
  "nums_of rs = (\<Union>(a, b) \<in> set rs. {a..<b})"

definition ranges_ok :: "int \<Rightarrow> (int \<times> int) list \<Rightarrow> bool" where
  "ranges_ok mx rs \<longleftrightarrow> sorted_wrt (\<lambda>r q. snd r \<le> fst q) rs \<and>
     (\<forall>(a, b) \<in> set rs. a < b \<and> b - a \<le> mx)"

lemma nums_of_simps [simp]:
  "nums_of [] = {}" "nums_of (rs @ qs) = nums_of rs \<union> nums_of qs" "nums_of [(a, b)] = {a..<b}"
  by (auto simp: nums_of_def)

lemma ranges_ok_snoc:
  "ranges_ok mx (rs @ [(a, b)]) \<longleftrightarrow> ranges_ok mx rs \<and> a < b \<and> b - a \<le> mx \<and> (\<forall>r \<in> set rs. snd r \<le> a)"
  by (auto simp: ranges_ok_def sorted_wrt_append)

lemma ranges_loop_spec:
  assumes "sorted ss" "distinct ss" "ranges_ok mx out" "\<forall>r \<in> set out. \<forall>s \<in> set ss. snd r \<le> s" "1 \<le> mx"
  shows "nums_of (ranges_loop mx out ss) = nums_of out \<union> set ss \<and> ranges_ok mx (ranges_loop mx out ss)"
  using assms
proof (induction mx out ss rule: ranges_loop.induct)
  case (2 mx out s ss)
  have "\<forall>s' \<in> set ss. s \<le> s' \<and> s \<noteq> s'" using "2.prems"(1,2) by auto
  then have ss: "\<forall>s' \<in> set ss. s + 1 \<le> s'" "sorted ss" "distinct ss"
    using "2.prems"(1,2) by fastforce+
  show ?case
  proof (cases "out \<noteq> [] \<and> snd (last out) = s \<and> snd (last out) - fst (last out) < mx")
    case True
    obtain pre a where out: "out = pre @ [(a, s)]"
      using True by (metis append_butlast_last_id prod.collapse)
    have ok: "ranges_ok mx (pre @ [(a, s + 1)])"
      using "2.prems"(3) True by (auto simp: out ranges_ok_snoc)
    have lim: "\<forall>r \<in> set (pre @ [(a, s + 1)]). \<forall>s' \<in> set ss. snd r \<le> s'"
      using ss(1) "2.prems"(4) by (fastforce simp: out)
    have "nums_of (pre @ [(a, s + 1)]) = insert s (nums_of out)"
      using "2.prems"(3) by (auto simp: out ranges_ok_snoc)
    with "2.IH"(1) [OF True] ok lim ss "2.prems"(5) True show ?thesis by (simp add: out)
  next
    case False
    have ok: "ranges_ok mx (out @ [(s, s + 1)])"
      using "2.prems" by (auto simp: ranges_ok_snoc)
    have lim: "\<forall>r \<in> set (out @ [(s, s + 1)]). \<forall>s' \<in> set ss. snd r \<le> s'"
      using ss(1) "2.prems"(4) by auto
    have "nums_of (out @ [(s, s + 1)]) = insert s (nums_of out)" by auto
    with "2.IH"(2) [OF False ss(2,3) ok lim "2.prems"(5)] False show ?thesis by auto
  qed
qed simp

lemma seq_ranges_spec:
  assumes "distinct nums" "1 \<le> mx"
  shows "nums_of (seq_ranges nums mx) = set nums" "ranges_ok mx (seq_ranges nums mx)"
  using ranges_loop_spec [of "sort nums" mx "[]"] assms
  by (auto simp: seq_ranges_def ranges_ok_def)

section \<open>What each operation does to the maps, key by key\<close>

lemma jm_set_fold:
  "jm_get (fold (\<lambda>s m. jm_set s v m) ks m) k = (if k \<in> set ks then Some v else jm_get m k)"
  "jm_ok m \<Longrightarrow> jm_ok (fold (\<lambda>s m. jm_set s v m) ks m)"
  by (induction ks arbitrary: m) auto

lemma jm_keys_fold: "jm_keys (fold (\<lambda>s m. jm_set s v m) ks m) = set ks \<union> jm_keys m"
  by (induction ks arbitrary: m) auto

definition maps_ok :: "seq_tracker \<Rightarrow> bool" where
  "maps_ok t \<longleftrightarrow> jm_ok (sq_missing t) \<and> jm_ok (sq_claimed t) \<and> jm_ok (sq_settled t)"

lemma claim_lost_fold:
  assumes "distinct ks"
  shows "jm_get (sq_missing (fold (claim_lost now) ks t)) k = (if k \<in> set ks then None else jm_get (sq_missing t) k)"
    "jm_get (sq_claimed (fold (claim_lost now) ks t)) k = (if k \<in> set ks
       then Some \<lparr>claim_at = now, claim_tries = 1,
         claim_hint = (case jm_get (sq_missing t) k of None \<Rightarrow> None | Some m \<Rightarrow> miss_hint m)\<rparr>
       else jm_get (sq_claimed t) k)"
    "sq_settled (fold (claim_lost now) ks t) = sq_settled t"
    "sq_highest (fold (claim_lost now) ks t) = sq_highest t"
    "maps_ok t \<Longrightarrow> maps_ok (fold (claim_lost now) ks t)"
  using assms by (induction ks arbitrary: t) (auto simp: claim_lost_def maps_ok_def Let_def)

definition lost_set :: "num \<Rightarrow> num \<Rightarrow> num \<Rightarrow> num option \<Rightarrow> seq_tracker \<Rightarrow> int set" where
  "lost_set now allowance window tail t =
     {s. \<exists>m. jm_get (sq_missing t) s = Some m \<and> is_lost (sq_highest t) now allowance window tail s m}"

lemma lost_list:
  assumes "jm_ok m"
  shows "set (map fst (filter (\<lambda>(s, v). P s v) m)) = {s. \<exists>v. jm_get m s = Some v \<and> P s v}"
    "distinct (map fst (filter (\<lambda>(s, v). P s v) m))"
  using assms jm.get_entries [OF assms] by (auto simp: jm_ok_def distinct_map_filter image_iff)

lemma seq_detect_spec:
  assumes "maps_ok t" "1 \<le> mx" "seq_detect now allowance window tail mx t = (rs, t')"
  shows "nums_of rs = lost_set now allowance window tail t" "ranges_ok mx rs"
    "jm_get (sq_missing t') k = (if k \<in> nums_of rs then None else jm_get (sq_missing t) k)"
    "jm_get (sq_claimed t') k = (if k \<in> nums_of rs
       then Some \<lparr>claim_at = now, claim_tries = 1,
         claim_hint = (case jm_get (sq_missing t) k of None \<Rightarrow> None | Some m \<Rightarrow> miss_hint m)\<rparr>
       else jm_get (sq_claimed t) k)"
    "sq_settled t' = sq_settled t" "sq_highest t' = sq_highest t" "maps_ok t'"
proof -
  let ?lost = "map fst (filter (\<lambda>(s, m). is_lost (sq_highest t) now allowance window tail s m) (sq_missing t))"
  have ok: "jm_ok (sq_missing t)" using assms(1) by (simp add: maps_ok_def)
  have l: "set ?lost = lost_set now allowance window tail t" "distinct ?lost"
    using lost_list [OF ok] by (simp_all add: lost_set_def)
  have rs: "rs = seq_ranges ?lost mx" and t': "t' = fold (claim_lost now) ?lost t"
    using assms(3) by (simp_all add: seq_detect_def Let_def)
  have n: "nums_of rs = set ?lost" using seq_ranges_spec(1) [OF l(2) assms(2)] by (simp add: rs)
  show "nums_of rs = lost_set now allowance window tail t" using n l(1) by simp
  show "ranges_ok mx rs" using seq_ranges_spec(2) [OF l(2) assms(2)] by (simp add: rs)
  show "jm_get (sq_missing t') k = (if k \<in> nums_of rs then None else jm_get (sq_missing t) k)"
    unfolding n t' by (rule claim_lost_fold(1) [OF l(2)])
  show "jm_get (sq_claimed t') k = (if k \<in> nums_of rs
       then Some \<lparr>claim_at = now, claim_tries = 1,
         claim_hint = (case jm_get (sq_missing t) k of None \<Rightarrow> None | Some m \<Rightarrow> miss_hint m)\<rparr>
       else jm_get (sq_claimed t) k)"
    unfolding n t' by (rule claim_lost_fold(2) [OF l(2)])
  show "sq_settled t' = sq_settled t" "sq_highest t' = sq_highest t" "maps_ok t'"
    unfolding t' using claim_lost_fold(3-5) [OF l(2)] assms(1) by simp_all
qed

text \<open>The three fates of a claimed number in a round of \<open>repeats\<close>.\<close>

definition waits :: "num \<Rightarrow> num \<Rightarrow> claim_entry \<Rightarrow> bool" where
  "waits now delay c \<longleftrightarrow> now - claim_at c < delay"

definition settles :: "int \<Rightarrow> (seq_hint \<Rightarrow> bool) \<Rightarrow> claim_entry \<Rightarrow> bool" where
  "settles mt rep c \<longleftrightarrow>
     claim_tries c \<ge> mt \<or> (case claim_hint c of None \<Rightarrow> False | Some h \<Rightarrow> rep h)"

definition asked_again :: "num \<Rightarrow> num \<Rightarrow> int \<Rightarrow> (seq_hint \<Rightarrow> bool) \<Rightarrow> claim_entry \<Rightarrow> bool" where
  "asked_again now delay mt rep c \<longleftrightarrow> \<not> waits now delay c \<and> \<not> settles mt rep c"

lemma repeats_loop_Cons:
  "repeats_loop now delay mt rep ((s, c) # cs) due t =
     (if waits now delay c then repeats_loop now delay mt rep cs due t
      else if settles mt rep c then repeats_loop now delay mt rep cs due
          (t\<lparr>sq_claimed := jm_delete s (sq_claimed t), sq_settled := jm_set s now (sq_settled t)\<rparr>)
      else repeats_loop now delay mt rep cs (due @ [s])
          (t\<lparr>sq_claimed := jm_set s (c\<lparr>claim_at := now, claim_tries := claim_tries c + 1\<rparr>)
               (sq_claimed t)\<rparr>))"
  by (simp only: repeats_loop.simps waits_def settles_def)

declare repeats_loop.simps(2) [simp del]

lemma repeats_loop_spec:
  assumes "repeats_loop now delay mt rep cs due t = (due', t')" "jm_ok cs"
  shows "due' = due @ map fst (filter (\<lambda>(s, c). asked_again now delay mt rep c) cs) \<and>
    jm_get (sq_claimed t') k = (case jm_get cs k of None \<Rightarrow> jm_get (sq_claimed t) k
      | Some c \<Rightarrow> if waits now delay c then jm_get (sq_claimed t) k
                  else if settles mt rep c then None
                  else Some (c\<lparr>claim_at := now, claim_tries := claim_tries c + 1\<rparr>)) \<and>
    jm_get (sq_settled t') k = (case jm_get cs k of None \<Rightarrow> jm_get (sq_settled t) k
      | Some c \<Rightarrow> if \<not> waits now delay c \<and> settles mt rep c then Some now
                  else jm_get (sq_settled t) k) \<and>
    sq_missing t' = sq_missing t \<and> sq_highest t' = sq_highest t \<and> (maps_ok t \<longrightarrow> maps_ok t')"
  using assms
proof (induction cs arbitrary: due t)
  case (Cons e cs)
  obtain s c where e: "e = (s, c)" by (cases e)
  have new: "jm_get cs s = None" "jm_ok cs" using Cons.prems(2) by (auto simp: e jm_get_keys)
  show ?case
  proof (cases "waits now delay c")
    case True
    with Cons.prems(1) Cons.IH [of due t] new show ?thesis
      by (auto simp: e repeats_loop_Cons jm_get_Cons asked_again_def)
  next
    case False
    note w = this
    show ?thesis
    proof (cases "settles mt rep c")
      case True
      let ?t = "t\<lparr>sq_claimed := jm_delete s (sq_claimed t), sq_settled := jm_set s now (sq_settled t)\<rparr>"
      from Cons.prems(1) Cons.IH [of due ?t] new w True show ?thesis
        by (auto simp: e repeats_loop_Cons jm_get_Cons asked_again_def maps_ok_def split: option.splits)
    next
      case False
      let ?t = "t\<lparr>sq_claimed := jm_set s (c\<lparr>claim_at := now, claim_tries := claim_tries c + 1\<rparr>)
               (sq_claimed t)\<rparr>"
      from Cons.prems(1) Cons.IH [of "due @ [s]" ?t] new w False show ?thesis
        by (auto simp: e repeats_loop_Cons jm_get_Cons asked_again_def maps_ok_def split: option.splits)
    qed
  qed
qed simp

text \<open>The trim drops entries from the front until the map is small enough and young at the front.\<close>

lemma trim_loop_drop:
  "jm_ok m \<Longrightarrow> \<exists>n. trim_loop now m m = drop n m \<and> (n < length m \<longrightarrow> length (drop n m) \<le> MAX_SETTLED)"
proof (induction m)
  case (Cons e m)
  obtain s u where e: "e = (s, u)" by (cases e)
  have del: "jm_delete s (e # m) = m"
    using Cons.prems by (auto simp: e jm_delete_def jm_keys_fst delete_id image_iff)
  show ?case
  proof (cases "length (e # m) \<le> MAX_SETTLED \<and> now - u \<le> CLAIM_TTL_MS")
    case True
    then show ?thesis by (intro exI [of _ 0]) (simp add: e)
  next
    case False
    obtain n where "trim_loop now m m = drop n m" "n < length m \<longrightarrow> length (drop n m) \<le> MAX_SETTLED"
      using Cons by (auto simp: e)
    moreover have "trim_loop now (e # m) (e # m) = trim_loop now m m"
      using False del by (auto simp: e)
    ultimately show ?thesis by (intro exI [of _ "Suc n"]) simp
  qed
qed simp

lemma trim_loop_spec:
  assumes "jm_ok m"
  shows "length (trim_loop now m m) \<le> MAX_SETTLED" "jm_ok (trim_loop now m m)"
    "jm_get (trim_loop now m m) k = Some v \<Longrightarrow> jm_get m k = Some v"
proof -
  obtain n where n: "trim_loop now m m = drop n m" "n < length m \<longrightarrow> length (drop n m) \<le> MAX_SETTLED"
    using trim_loop_drop [OF assms] by blast
  show "length (trim_loop now m m) \<le> MAX_SETTLED" using n by (cases "n < length m") auto
  show ok: "jm_ok (trim_loop now m m)"
    using assms by (simp add: n jm_ok_def drop_map [symmetric])
  show "jm_get m k = Some v" if "jm_get (trim_loop now m m) k = Some v"
    using that jm.get_entries [OF ok] jm.get_entries [OF assms] in_set_dropD by (fastforce simp: n)
qed

section \<open>Sessions\<close>

text \<open>The life of a tracker with a fixed limit of asks. Beside the tracker, the relation keeps what
  the tracker itself forgets: the numbers that arrived, the numbers it gave up tracking, and how
  often each number was asked for.\<close>

inductive seq_reach :: "int \<Rightarrow> seq_tracker \<Rightarrow> int set \<Rightarrow> int set \<Rightarrow> (int \<Rightarrow> int) \<Rightarrow> bool" for mt where
  start: "seq_reach mt new_seq_tracker {} {} (\<lambda>_. 0)"
| arrive: "seq_reach mt t seen gone asked \<Longrightarrow> 0 \<le> sq \<Longrightarrow> seq_arrive sq now place t = (res, t') \<Longrightarrow>
    gone' = (if sq - sq_highest t - 1 > MAX_GAP then gone \<union> {sq_highest t <..< sq} else gone) - {sq} \<Longrightarrow>
    seq_reach mt t' (insert sq seen) gone' asked"
| detect: "seq_reach mt t seen gone asked \<Longrightarrow> 1 \<le> mx \<Longrightarrow>
    seq_detect now allowance window tail mx t = (rs, t') \<Longrightarrow>
    seq_reach mt t' seen gone (\<lambda>s. if s \<in> nums_of rs then asked s + 1 else asked s)"
| repeat: "seq_reach mt t seen gone asked \<Longrightarrow> 1 \<le> mx \<Longrightarrow>
    seq_repeats now delay mt rep mx t = (rs, t') \<Longrightarrow>
    gone' = gone \<union> (jm_keys (sq_claimed t) \<union> jm_keys (sq_settled t)
      - jm_keys (sq_claimed t') - jm_keys (sq_settled t')) \<Longrightarrow>
    seq_reach mt t' seen gone' (\<lambda>s. if s \<in> nums_of rs then asked s + 1 else asked s)"

text \<open>Every number up to the highest is accounted for once.\<close>

definition one_of :: "bool \<Rightarrow> bool \<Rightarrow> bool \<Rightarrow> bool \<Rightarrow> bool \<Rightarrow> bool" where
  "one_of a b c d e \<longleftrightarrow> (a \<or> b \<or> c \<or> d \<or> e) \<and> \<not> (a \<and> (b \<or> c \<or> d \<or> e)) \<and> \<not> (b \<and> (c \<or> d \<or> e)) \<and>
     \<not> (c \<and> (d \<or> e)) \<and> \<not> (d \<and> e)"

definition parts :: "int \<Rightarrow> int set \<Rightarrow> int set \<Rightarrow> int set \<Rightarrow> int set \<Rightarrow> int set \<Rightarrow> bool" where
  "parts h S M C Z G \<longleftrightarrow> -1 \<le> h \<and> (0 \<le> h \<longrightarrow> h \<in> S) \<and>
     (\<forall>x. if 0 \<le> x \<and> x \<le> h then one_of (x \<in> S) (x \<in> M) (x \<in> C) (x \<in> Z) (x \<in> G)
          else x \<notin> S \<and> x \<notin> M \<and> x \<notin> C \<and> x \<notin> Z \<and> x \<notin> G)"

definition accounted :: "seq_tracker \<Rightarrow> int set \<Rightarrow> int set \<Rightarrow> bool" where
  "accounted t seen gone \<longleftrightarrow> parts (sq_highest t) seen (jm_keys (sq_missing t)) (jm_keys (sq_claimed t))
     (jm_keys (sq_settled t)) gone"

lemma parts_at:
  assumes "parts h S M C Z G"
  shows "0 \<le> x \<Longrightarrow> x \<le> h \<Longrightarrow> one_of (x \<in> S) (x \<in> M) (x \<in> C) (x \<in> Z) (x \<in> G)"
    "\<not> (0 \<le> x \<and> x \<le> h) \<Longrightarrow> x \<notin> S \<and> x \<notin> M \<and> x \<notin> C \<and> x \<notin> Z \<and> x \<notin> G"
  using assms unfolding parts_def by (metis, metis)

lemma parts_range:
  assumes "parts h S M C Z G" "x \<in> S \<union> M \<union> C \<union> Z \<union> G"
  shows "0 \<le> x \<and> x \<le> h"
  using parts_at(2) [OF assms(1), of x] assms(2) by blast

lemma parts_one:
  assumes "parts h S M C Z G"
  shows "x \<in> M \<Longrightarrow> x \<notin> S \<and> x \<notin> C \<and> x \<notin> Z \<and> x \<notin> G"
    "x \<in> C \<Longrightarrow> x \<notin> S \<and> x \<notin> M \<and> x \<notin> Z \<and> x \<notin> G"
    "x \<in> Z \<Longrightarrow> x \<notin> S \<and> x \<notin> M \<and> x \<notin> C \<and> x \<notin> G"
  using parts_at [OF assms, of x] unfolding one_of_def by argo+

lemma parts_new:
  assumes "parts h S M C Z G" "h < q" "0 \<le> q" "A \<union> B = {h<..<q}" "A \<inter> B = {}"
  shows "parts q (insert q S) (M \<union> A) C Z (G \<union> B)"
proof -
  have h: "-1 \<le> h" using assms(1) by (simp add: parts_def)
  have ab: "x \<in> A \<or> x \<in> B \<longleftrightarrow> h < x \<and> x < q" "\<not> (x \<in> A \<and> x \<in> B)" for x
    using assms(4,5) by auto
  have E: "if 0 \<le> x \<and> x \<le> q then one_of (x \<in> insert q S) (x \<in> M \<union> A) (x \<in> C) (x \<in> Z) (x \<in> G \<union> B)
      else x \<notin> insert q S \<and> x \<notin> M \<union> A \<and> x \<notin> C \<and> x \<notin> Z \<and> x \<notin> G \<union> B" for x
  proof (cases "0 \<le> x \<and> x \<le> h")
    case True
    then have "\<not> (x \<in> A \<or> x \<in> B)" "x \<noteq> q" "x \<le> q" using ab assms(2) by auto
    with True parts_at(1) [OF assms(1), of x] show ?thesis by (auto simp: one_of_def)
  next
    case False
    note out = parts_at(2) [OF assms(1) False]
    show ?thesis
    proof (cases "0 \<le> x \<and> x \<le> q")
      case True
      with False have "x \<in> A \<or> x \<in> B \<longleftrightarrow> x \<noteq> q" using ab by auto
      with out True ab(2) [of x] show ?thesis by (auto simp: one_of_def)
    next
      case outside: False
      then have "\<not> (x \<in> A \<or> x \<in> B)" "x \<noteq> q" using ab h assms(3) by auto
      with out outside show ?thesis by auto
    qed
  qed
  show ?thesis unfolding parts_def
    by (intro conjI allI, use assms(2,3) in simp, simp, rule E)
qed

lemma parts_old:
  assumes "parts h S M C Z G" "0 \<le> q" "q \<le> h"
  shows "parts h (insert q S) (M - {q}) (C - {q}) (Z - {q}) (G - {q})"
proof -
  have E: "if 0 \<le> x \<and> x \<le> h
      then one_of (x \<in> insert q S) (x \<in> M - {q}) (x \<in> C - {q}) (x \<in> Z - {q}) (x \<in> G - {q})
      else x \<notin> insert q S \<and> x \<notin> M - {q} \<and> x \<notin> C - {q} \<and> x \<notin> Z - {q} \<and> x \<notin> G - {q}" for x
    using parts_at [OF assms(1), of x] assms(2,3) by (cases "x = q") (auto simp: one_of_def)
  have "-1 \<le> h" "0 \<le> h \<longrightarrow> h \<in> S" using assms(1) by (simp_all add: parts_def)
  then show ?thesis unfolding parts_def by (intro conjI allI) (assumption, simp, rule E)
qed

lemma parts_move:
  assumes "parts h S M C Z G" "N \<subseteq> M"
  shows "parts h S (M - N) (C \<union> N) Z G"
proof -
  have E: "if 0 \<le> x \<and> x \<le> h then one_of (x \<in> S) (x \<in> M - N) (x \<in> C \<union> N) (x \<in> Z) (x \<in> G)
      else x \<notin> S \<and> x \<notin> M - N \<and> x \<notin> C \<union> N \<and> x \<notin> Z \<and> x \<notin> G" for x
    using parts_at [OF assms(1), of x] assms(2) by (cases "x \<in> N") (auto simp: one_of_def)
  have "-1 \<le> h" "0 \<le> h \<longrightarrow> h \<in> S" using assms(1) by (simp_all add: parts_def)
  then show ?thesis unfolding parts_def by (intro conjI allI) (assumption, simp, rule E)
qed

lemma parts_settle:
  assumes "parts h S M C Z G" "C' \<subseteq> C" "Z' \<subseteq> Z \<union> C" "C' \<inter> Z' = {}"
  shows "parts h S M C' Z' (G \<union> (C \<union> Z - C' - Z'))"
proof -
  have E: "if 0 \<le> x \<and> x \<le> h then one_of (x \<in> S) (x \<in> M) (x \<in> C') (x \<in> Z') (x \<in> G \<union> (C \<union> Z - C' - Z'))
      else x \<notin> S \<and> x \<notin> M \<and> x \<notin> C' \<and> x \<notin> Z' \<and> x \<notin> G \<union> (C \<union> Z - C' - Z')" for x
  proof -
    have "x \<in> C' \<longrightarrow> x \<in> C" "x \<in> Z' \<longrightarrow> x \<in> Z \<or> x \<in> C" "\<not> (x \<in> C' \<and> x \<in> Z')"
      using assms(2-4) by auto
    with parts_at [OF assms(1), of x] show ?thesis by (auto simp: one_of_def)
  qed
  have "-1 \<le> h" "0 \<le> h \<longrightarrow> h \<in> S" using assms(1) by (simp_all add: parts_def)
  then show ?thesis unfolding parts_def by (intro conjI allI) (assumption, simp, rule E)
qed

text \<open>How often a number was asked for, by where it is now.\<close>

definition asks_ok :: "int \<Rightarrow> seq_tracker \<Rightarrow> (int \<Rightarrow> int) \<Rightarrow> bool" where
  "asks_ok mt t asked \<longleftrightarrow>
     (\<forall>s. 0 \<le> asked s \<and> asked s \<le> max 1 mt) \<and> (\<forall>s. sq_highest t < s \<longrightarrow> asked s = 0) \<and>
     (\<forall>s \<in> jm_keys (sq_missing t). asked s = 0) \<and>
     (\<forall>s \<in> jm_keys (sq_claimed t) \<union> jm_keys (sq_settled t). 1 \<le> asked s) \<and>
     (\<forall>s c. jm_get (sq_claimed t) s = Some c \<longrightarrow> claim_tries c = asked s)"

definition seq_inv :: "int \<Rightarrow> seq_tracker \<Rightarrow> int set \<Rightarrow> int set \<Rightarrow> (int \<Rightarrow> int) \<Rightarrow> bool" where
  "seq_inv mt t seen gone asked \<longleftrightarrow> maps_ok t \<and> accounted t seen gone \<and> asks_ok mt t asked"

lemma seq_arrive_new:
  assumes "sq > sq_highest t" "seq_arrive sq now place t = (res, t')"
  shows "res = SeqNew" "sq_highest t' = sq" "sq_claimed t' = sq_claimed t" "sq_settled t' = sq_settled t"
    "jm_keys (sq_missing t') = jm_keys (sq_missing t) \<union>
       (if sq - sq_highest t - 1 \<le> MAX_GAP then {sq_highest t <..< sq} else {})"
    "maps_ok t \<Longrightarrow> maps_ok t'"
  using assms by (auto simp: seq_arrive_def Let_def jm_keys_fold jm_set_fold(2) maps_ok_def split: if_splits)

lemma seq_arrive_old:
  assumes "\<not> sq > sq_highest t" "seq_arrive sq now place t = (res, t')"
  shows "sq_highest t' = sq_highest t" "maps_ok t \<Longrightarrow> maps_ok t'"
    "res = (if sq \<in> jm_keys (sq_missing t) then SeqReordered
       else if sq \<in> jm_keys (sq_claimed t) \<union> jm_keys (sq_settled t) then SeqSpurious else SeqDuplicate)"
    "jm_keys (sq_missing t') = jm_keys (sq_missing t) - {sq}"
    "sq \<in> jm_keys (sq_missing t) \<longrightarrow> sq_claimed t' = sq_claimed t \<and> sq_settled t' = sq_settled t"
    "sq \<notin> jm_keys (sq_missing t) \<longrightarrow> jm_keys (sq_claimed t') = jm_keys (sq_claimed t) - {sq}"
    "sq \<notin> jm_keys (sq_missing t) \<union> jm_keys (sq_claimed t) \<longrightarrow>
       jm_keys (sq_settled t') = jm_keys (sq_settled t) - {sq}"
    "sq \<in> jm_keys (sq_claimed t) \<longrightarrow> sq_settled t' = sq_settled t"
    "jm_get (sq_claimed t') s = Some c \<Longrightarrow> jm_get (sq_claimed t) s = Some c"
  using assms by (auto simp: seq_arrive_def jm_get_keys maps_ok_def split: if_splits)

lemma seq_inv_arrive:
  assumes "seq_inv mt t seen gone asked" "0 \<le> sq" "seq_arrive sq now place t = (res, t')"
  shows "seq_inv mt t' (insert sq seen)
    ((if sq - sq_highest t - 1 > MAX_GAP then gone \<union> {sq_highest t <..< sq} else gone) - {sq}) asked"
proof -
  have m: "maps_ok t" and a: "accounted t seen gone" and k: "asks_ok mt t asked"
    using assms(1) by (auto simp: seq_inv_def)
  show ?thesis
  proof (cases "sq > sq_highest t")
    case True
    note n = seq_arrive_new [OF True assms(3)]
    let ?A = "if sq - sq_highest t - 1 \<le> MAX_GAP then {sq_highest t <..< sq} else {}"
    let ?B = "if sq - sq_highest t - 1 \<le> MAX_GAP then {} else {sq_highest t <..< sq}"
    have "sq \<notin> gone" using parts_range [of _ seen _ _ _ gone sq] a True by (force simp: accounted_def)
    moreover have "parts sq (insert sq seen) (jm_keys (sq_missing t) \<union> ?A) (jm_keys (sq_claimed t))
        (jm_keys (sq_settled t)) (gone \<union> ?B)"
      using a by (intro parts_new [OF _ True assms(2)]) (auto simp: accounted_def)
    ultimately have "accounted t' (insert sq seen)
        ((if sq - sq_highest t - 1 > MAX_GAP then gone \<union> {sq_highest t <..< sq} else gone) - {sq})"
      unfolding accounted_def n by (auto simp: not_less split: if_splits)
    moreover have "asks_ok mt t' asked"
      using k True unfolding asks_ok_def n by (auto split: if_splits)
    ultimately show ?thesis using n(6) m by (simp add: seq_inv_def)
  next
    case False
    note o = seq_arrive_old [OF False assms(3)]
    have g: "\<not> sq - sq_highest t - 1 > MAX_GAP" using False by (simp add: MAX_GAP_def)
    have p: "parts (sq_highest t) seen (jm_keys (sq_missing t)) (jm_keys (sq_claimed t)) (jm_keys (sq_settled t)) gone"
      using a by (simp add: accounted_def)
    have cl: "jm_keys (sq_claimed t') = jm_keys (sq_claimed t) - {sq}"
    proof (cases "sq \<in> jm_keys (sq_missing t)")
      case True
      with parts_one(1) [OF p True] o(5) show ?thesis by simp
    qed (use o(6) in simp)
    have st: "jm_keys (sq_settled t') = jm_keys (sq_settled t) - {sq}"
    proof (cases "sq \<in> jm_keys (sq_missing t)")
      case True
      with parts_one(1) [OF p True] o(5) show ?thesis by simp
    next
      case other: False
      show ?thesis
      proof (cases "sq \<in> jm_keys (sq_claimed t)")
        case True
        with parts_one(2) [OF p True] o(8) show ?thesis by simp
      qed (use other o(7) in simp)
    qed
    have "accounted t' (insert sq seen) (gone - {sq})"
      using parts_old [OF p assms(2)] False unfolding accounted_def o(1,4) cl st by simp
    moreover have "asks_ok mt t' asked"
      using k o(9) unfolding asks_ok_def o(1,4) cl st by blast
    ultimately show ?thesis using o(2) m g by (simp add: seq_inv_def)
  qed
qed

lemma seq_inv_detect:
  assumes "seq_inv mt t seen gone asked" "1 \<le> mx" "seq_detect now allowance window tail mx t = (rs, t')"
  shows "seq_inv mt t' seen gone (\<lambda>s. if s \<in> nums_of rs then asked s + 1 else asked s)"
proof -
  have m: "maps_ok t" and a: "accounted t seen gone" and k: "asks_ok mt t asked"
    using assms(1) by (auto simp: seq_inv_def)
  note d = seq_detect_spec [OF m assms(2,3)]
  have sub: "nums_of rs \<subseteq> jm_keys (sq_missing t)"
    unfolding d(1) lost_set_def by (auto simp: jm_get_Some_keys)
  have keys: "jm_keys (sq_missing t') = jm_keys (sq_missing t) - nums_of rs"
    "jm_keys (sq_claimed t') = jm_keys (sq_claimed t) \<union> nums_of rs"
    using d(3,4) by (auto simp: jm_keys_def)
  have "accounted t' seen gone"
    using a sub parts_move unfolding accounted_def keys d(5,6) by blast
  moreover have "nums_of rs \<subseteq> {0..sq_highest t}" "\<forall>s \<in> nums_of rs. asked s = 0"
    using sub k parts_range [OF a [unfolded accounted_def]] by (auto simp: asks_ok_def)
  then have "asks_ok mt t' (\<lambda>s. if s \<in> nums_of rs then asked s + 1 else asked s)"
    using k sub unfolding asks_ok_def keys d(5,6) by (auto simp: d(4) split: if_splits)
  ultimately show ?thesis using d(7) by (simp add: seq_inv_def)
qed

lemma seq_repeats_spec:
  assumes "maps_ok t" "1 \<le> mx" "seq_repeats now delay mt rep mx t = (rs, t')"
  shows "nums_of rs = {s. \<exists>c. jm_get (sq_claimed t) s = Some c \<and> asked_again now delay mt rep c}"
    "ranges_ok mx rs"
    "jm_get (sq_claimed t') k = (case jm_get (sq_claimed t) k of None \<Rightarrow> None
      | Some c \<Rightarrow> if waits now delay c then Some c
                  else if settles mt rep c then None
                  else Some (c\<lparr>claim_at := now, claim_tries := claim_tries c + 1\<rparr>))"
    "jm_keys (sq_settled t') \<subseteq> jm_keys (sq_settled t) \<union>
       {s. \<exists>c. jm_get (sq_claimed t) s = Some c \<and> \<not> waits now delay c \<and> settles mt rep c}"
    "length (sq_settled t') \<le> MAX_SETTLED"
    "sq_missing t' = sq_missing t" "sq_highest t' = sq_highest t" "maps_ok t'"
proof -
  obtain due u where run: "repeats_loop now delay mt rep (sq_claimed t) [] t = (due, u)"
    by (cases "repeats_loop now delay mt rep (sq_claimed t) [] t")
  have ok: "jm_ok (sq_claimed t)" using assms(1) by (simp add: maps_ok_def)
  note R = repeats_loop_spec [OF run ok]
  have rs: "rs = seq_ranges due mx" and t': "t' = u\<lparr>sq_settled := trim_loop now (sq_settled u) (sq_settled u)\<rparr>"
    using assms(3) by (simp_all add: seq_repeats_def run)
  have due: "due = map fst (filter (\<lambda>(s, c). asked_again now delay mt rep c) (sq_claimed t))"
    using R by simp
  have mu: "maps_ok u" using R assms(1) by blast
  then have oku: "jm_ok (sq_settled u)" by (simp add: maps_ok_def)
  have l: "set due = {s. \<exists>c. jm_get (sq_claimed t) s = Some c \<and> asked_again now delay mt rep c}" "distinct due"
    using lost_list [OF ok, of "\<lambda>_. asked_again now delay mt rep"] by (simp_all add: due)
  show "nums_of rs = {s. \<exists>c. jm_get (sq_claimed t) s = Some c \<and> asked_again now delay mt rep c}"
    using seq_ranges_spec(1) [OF l(2) assms(2)] l(1) by (simp add: rs)
  show "ranges_ok mx rs" using seq_ranges_spec(2) [OF l(2) assms(2)] by (simp add: rs)
  show "jm_get (sq_claimed t') k = (case jm_get (sq_claimed t) k of None \<Rightarrow> None
      | Some c \<Rightarrow> if waits now delay c then Some c
                  else if settles mt rep c then None
                  else Some (c\<lparr>claim_at := now, claim_tries := claim_tries c + 1\<rparr>))"
    using R by (auto simp: t' split: option.splits)
  show "length (sq_settled t') \<le> MAX_SETTLED" using trim_loop_spec(1) [OF oku] by (simp add: t')
  show "sq_missing t' = sq_missing t" "sq_highest t' = sq_highest t" using R by (simp_all add: t')
  show "maps_ok t'" using mu trim_loop_spec(2) [OF oku] by (simp add: maps_ok_def t')
  have "jm_keys (sq_settled t') \<subseteq> jm_keys (sq_settled u)"
    using trim_loop_spec(3) [OF oku] by (force simp: jm_keys_def t')
  also have "\<dots> \<subseteq> jm_keys (sq_settled t) \<union>
       {s. \<exists>c. jm_get (sq_claimed t) s = Some c \<and> \<not> waits now delay c \<and> settles mt rep c}"
  proof
    fix s assume "s \<in> jm_keys (sq_settled u)"
    with repeats_loop_spec [OF run ok, of s] show "s \<in> jm_keys (sq_settled t) \<union>
       {s. \<exists>c. jm_get (sq_claimed t) s = Some c \<and> \<not> waits now delay c \<and> settles mt rep c}"
      by (auto simp: jm_keys_def split: option.splits if_splits)
  qed
  finally show "jm_keys (sq_settled t') \<subseteq> jm_keys (sq_settled t) \<union>
       {s. \<exists>c. jm_get (sq_claimed t) s = Some c \<and> \<not> waits now delay c \<and> settles mt rep c}" .
qed

lemma seq_inv_repeat:
  assumes "seq_inv mt t seen gone asked" "1 \<le> mx" "seq_repeats now delay mt rep mx t = (rs, t')"
  shows "seq_inv mt t' seen (gone \<union> (jm_keys (sq_claimed t) \<union> jm_keys (sq_settled t)
      - jm_keys (sq_claimed t') - jm_keys (sq_settled t')))
    (\<lambda>s. if s \<in> nums_of rs then asked s + 1 else asked s)"
proof -
  have m: "maps_ok t" and a: "accounted t seen gone" and k: "asks_ok mt t asked"
    using assms(1) by (auto simp: seq_inv_def)
  note r = seq_repeats_spec [OF m assms(2,3)]
  have claimed: "jm_keys (sq_claimed t') = {s. \<exists>c. jm_get (sq_claimed t) s = Some c \<and>
      (waits now delay c \<or> \<not> settles mt rep c)}"
    using r(3) by (auto simp: jm_keys_def split: option.splits if_splits)
  have sub: "jm_keys (sq_claimed t') \<subseteq> jm_keys (sq_claimed t)"
    "jm_keys (sq_settled t') \<subseteq> jm_keys (sq_settled t) \<union> jm_keys (sq_claimed t)"
    "jm_keys (sq_claimed t') \<inter> jm_keys (sq_settled t') = {}"
  proof -
    show "jm_keys (sq_claimed t') \<subseteq> jm_keys (sq_claimed t)"
      unfolding claimed by (auto simp: jm_get_Some_keys)
    show "jm_keys (sq_settled t') \<subseteq> jm_keys (sq_settled t) \<union> jm_keys (sq_claimed t)"
      using r(4) by (auto simp: jm_get_Some_keys)
    have "jm_keys (sq_claimed t) \<inter> jm_keys (sq_settled t) = {}"
      using parts_one(3) a by (fastforce simp: accounted_def)
    then show "jm_keys (sq_claimed t') \<inter> jm_keys (sq_settled t') = {}"
      using r(4) unfolding claimed by (fastforce dest: jm_get_Some_keys)
  qed
  have "accounted t' seen (gone \<union> (jm_keys (sq_claimed t) \<union> jm_keys (sq_settled t)
      - jm_keys (sq_claimed t') - jm_keys (sq_settled t')))"
    using a parts_settle [OF _ sub] unfolding accounted_def r(6,7) by blast
  moreover have "asks_ok mt t' (\<lambda>s. if s \<in> nums_of rs then asked s + 1 else asked s)"
  proof -
    have cl: "s \<in> {0..sq_highest t} \<and> s \<notin> jm_keys (sq_missing t) \<and> asked s < mt"
      if "s \<in> nums_of rs" for s
    proof -
      from that r(1) obtain c where c: "jm_get (sq_claimed t) s = Some c" "asked_again now delay mt rep c"
        by auto
      then have "claim_tries c < mt" by (simp add: asked_again_def settles_def)
      moreover have "claim_tries c = asked s" using k c by (simp add: asks_ok_def)
      ultimately show ?thesis
        using jm_get_Some_keys [OF c(1)] parts_range [OF a [unfolded accounted_def]]
          parts_one(2) [OF a [unfolded accounted_def]] by simp
    qed
    moreover have "claim_tries c = (if s \<in> nums_of rs then asked s + 1 else asked s)"
      if "jm_get (sq_claimed t') s = Some c" for s c
      using that r(3) [of s] r(1) k
      by (auto simp: asks_ok_def asked_again_def split: option.splits if_splits)
    moreover have old: "0 \<le> asked s" "asked s \<le> max 1 mt" "sq_highest t < s \<Longrightarrow> asked s = 0"
      "s \<in> jm_keys (sq_missing t) \<Longrightarrow> asked s = 0" for s
      using k by (auto simp: asks_ok_def)
    have "asked s + 1 \<le> max 1 mt" if "s \<in> nums_of rs" for s using cl [OF that] by linarith
    moreover have "1 \<le> asked s" if "s \<in> jm_keys (sq_claimed t') \<union> jm_keys (sq_settled t')" for s
      using k that sub unfolding asks_ok_def by blast
    ultimately show ?thesis
      unfolding asks_ok_def r(6,7) using cl old by fastforce
  qed
  ultimately show ?thesis using r(8) by (simp add: seq_inv_def)
qed

lemma seq_reach_inv: "seq_reach mt t seen gone asked \<Longrightarrow> seq_inv mt t seen gone asked"
proof (induction rule: seq_reach.induct)
  case start
  then show ?case
    by (simp add: seq_inv_def new_seq_tracker_def maps_ok_def accounted_def parts_def one_of_def asks_ok_def)
qed (auto simp: seq_inv_arrive seq_inv_detect seq_inv_repeat)

section \<open>Properties\<close>

text \<open>C29: an arriving number is reported new when every earlier arrival was lower, duplicate exactly
  when it arrived before or the tracker gave it up (a jump past \<open>MAX_GAP\<close>, a forgotten claim),
  reordered when it was missing and never asked for, spurious when it had been asked for.\<close>

theorem seq_arrival_classified:
  assumes "seq_reach mt t seen gone asked" "0 \<le> sq" "seq_arrive sq now place t = (res, t')"
  shows "res = (if \<forall>s \<in> seen. s < sq then SeqNew
    else if sq \<in> seen \<or> sq \<in> gone then SeqDuplicate
    else if asked sq = 0 then SeqReordered else SeqSpurious)"
proof -
  have a: "parts (sq_highest t) seen (jm_keys (sq_missing t)) (jm_keys (sq_claimed t)) (jm_keys (sq_settled t)) gone"
    and k: "asks_ok mt t asked"
    using seq_reach_inv [OF assms(1)] by (auto simp: seq_inv_def accounted_def)
  have top: "(\<forall>s \<in> seen. s < sq) \<longleftrightarrow> sq_highest t < sq"
  proof
    assume "\<forall>s \<in> seen. s < sq"
    moreover have "0 \<le> sq_highest t \<longrightarrow> sq_highest t \<in> seen" using a unfolding parts_def by blast
    ultimately show "sq_highest t < sq" using assms(2) by fastforce
  next
    assume lt: "sq_highest t < sq"
    show "\<forall>s \<in> seen. s < sq"
    proof
      fix s assume "s \<in> seen"
      with parts_range [OF a, of s] lt show "s < sq" by simp
    qed
  qed
  show ?thesis
  proof (cases "sq_highest t < sq")
    case True
    then show ?thesis using seq_arrive_new(1) [OF True assms(3)] top by simp
  next
    case False
    have one: "one_of (sq \<in> seen) (sq \<in> jm_keys (sq_missing t)) (sq \<in> jm_keys (sq_claimed t))
        (sq \<in> jm_keys (sq_settled t)) (sq \<in> gone)"
      using parts_at(1) [OF a assms(2)] False by simp
    have m0: "asked sq = 0" if "sq \<in> jm_keys (sq_missing t)"
      using that k unfolding asks_ok_def by blast
    have "1 \<le> asked sq" if "sq \<in> jm_keys (sq_claimed t) \<union> jm_keys (sq_settled t)"
      using that k unfolding asks_ok_def by blast
    then have "sq \<in> jm_keys (sq_claimed t) \<union> jm_keys (sq_settled t) \<longrightarrow> asked sq \<noteq> 0" by fastforce
    with m0 have "sq \<in> jm_keys (sq_missing t) \<longrightarrow> asked sq = 0"
      "sq \<in> jm_keys (sq_claimed t) \<union> jm_keys (sq_settled t) \<longrightarrow> asked sq \<noteq> 0" by blast+
    with one have "(if sq \<in> jm_keys (sq_missing t) then SeqReordered
        else if sq \<in> jm_keys (sq_claimed t) \<union> jm_keys (sq_settled t) then SeqSpurious else SeqDuplicate) =
      (if sq \<in> seen \<or> sq \<in> gone then SeqDuplicate else if asked sq = 0 then SeqReordered else SeqSpurious)"
      unfolding one_of_def by (simp split: if_splits) blast
    then show ?thesis unfolding top if_not_P [OF False] seq_arrive_old(3) [OF False assms(3)] .
  qed
qed

theorem seq_arrival_classified_witness:
  "\<exists>t. seq_reach 3 t {0, 3} {} (\<lambda>_. 0) \<and> fst (seq_arrive 1 7 None t) = SeqReordered \<and>
    fst (seq_arrive 3 7 None t) = SeqDuplicate"
proof -
  let ?m = "\<lparr>miss_since = 5, miss_hint = None\<rparr>"
  let ?u = "\<lparr>sq_highest = 0, sq_last = None, sq_missing = [], sq_claimed = [], sq_settled = []\<rparr>"
  let ?t = "\<lparr>sq_highest = 3, sq_last = None, sq_missing = [(1, ?m), (2, ?m)], sq_claimed = [], sq_settled = []\<rparr>"
  have "seq_arrive 0 4 None new_seq_tracker = (SeqNew, ?u)"
    by (simp add: seq_arrive_def new_seq_tracker_def MAX_GAP_def upto.simps [of 0 "-1"])
  then have 0: "seq_reach 3 ?u {0} {} (\<lambda>_. 0)"
    using seq_reach.arrive [OF seq_reach.start, of 0 4 None] by (simp add: MAX_GAP_def new_seq_tracker_def)
  have up: "[1..2] = [1, 2 :: int]" by (simp add: upto.simps)
  have "seq_arrive 3 5 None ?u = (SeqNew, ?t)"
    by (simp add: seq_arrive_def MAX_GAP_def gap_hint_def up jm_set_def)
  then have t: "seq_reach 3 ?t {0, 3} {} (\<lambda>_. 0)"
    using seq_reach.arrive [OF 0, of 3 5 None] by (simp add: MAX_GAP_def insert_commute)
  have "fst (seq_arrive 1 7 None ?t) = SeqReordered" "fst (seq_arrive 3 7 None ?t) = SeqDuplicate"
    using seq_arrival_classified [OF t, of 1 7 None] seq_arrival_classified [OF t, of 3 7 None]
    by (auto simp: prod_eq_iff)
  with t show ?thesis by blast
qed

text \<open>C34: detection reports, as sorted disjoint ranges of at most \<open>maxRange\<close> numbers, exactly the
  missing numbers that \<open>allowance\<close> later numbers have passed and the window has aged, or that are
  older than the tail window; they become claimed with one try and the others stay missing.\<close>

theorem seq_detect_exact:
  assumes "seq_reach mt t seen gone asked" "1 \<le> mx"
    "seq_detect now allowance window tail mx t = (rs, t')"
  shows "nums_of rs = {s. \<exists>m. jm_get (sq_missing t) s = Some m \<and>
      (of_int (sq_highest t - s) \<ge> allowance \<and> now - miss_since m \<ge> window \<or>
       (\<exists>tw. tail = Some tw \<and> now - miss_since m \<ge> tw))} \<and>
    ranges_ok mx rs \<and> jm_keys (sq_missing t') = jm_keys (sq_missing t) - nums_of rs \<and>
    (\<forall>s \<in> nums_of rs. \<exists>c. jm_get (sq_claimed t') s = Some c \<and> claim_tries c = 1 \<and> claim_at c = now)"
proof -
  have m: "maps_ok t" using seq_reach_inv [OF assms(1)] by (simp add: seq_inv_def)
  note d = seq_detect_spec [OF m assms(2,3)]
  have "jm_keys (sq_missing t') = jm_keys (sq_missing t) - nums_of rs"
    using d(3) by (auto simp: jm_keys_def)
  moreover have "nums_of rs = {s. \<exists>m. jm_get (sq_missing t) s = Some m \<and>
      (of_int (sq_highest t - s) \<ge> allowance \<and> now - miss_since m \<ge> window \<or>
       (\<exists>tw. tail = Some tw \<and> now - miss_since m \<ge> tw))}"
    unfolding d(1) lost_set_def by (auto simp: is_lost_def Let_def split: option.splits)
  ultimately show ?thesis using d(2,4) by simp
qed

text \<open>C35: a round of repeats asks again, in ranges of at most \<open>maxRange\<close>, exactly for the claimed
  numbers whose last ask is at least the delay old, that were asked fewer than \<open>maxTries\<close> times and
  whose guessed bytes have not arrived; over a whole session no number is asked for more than
  \<open>maxTries\<close> times (once, if that is less), and at most \<open>MAX_SETTLED\<close> numbers are remembered as settled.\<close>

theorem seq_repeats_exact:
  assumes "seq_reach mt t seen gone asked" "1 \<le> mx" "seq_repeats now delay mt rep mx t = (rs, t')"
  shows "nums_of rs = {s. \<exists>c. jm_get (sq_claimed t) s = Some c \<and> now - claim_at c \<ge> delay \<and>
      claim_tries c < mt \<and> (\<forall>h. claim_hint c = Some h \<longrightarrow> \<not> rep h)} \<and>
    ranges_ok mx rs \<and> length (sq_settled t') \<le> MAX_SETTLED \<and>
    (\<forall>s \<in> nums_of rs. 1 \<le> asked s \<and> asked s < mt) \<and> (\<forall>s. asked s \<le> max 1 mt)"
proof -
  have m: "maps_ok t" and k: "asks_ok mt t asked"
    using seq_reach_inv [OF assms(1)] by (auto simp: seq_inv_def)
  note r = seq_repeats_spec [OF m assms(2,3)]
  have e: "nums_of rs = {s. \<exists>c. jm_get (sq_claimed t) s = Some c \<and> now - claim_at c \<ge> delay \<and>
      claim_tries c < mt \<and> (\<forall>h. claim_hint c = Some h \<longrightarrow> \<not> rep h)}"
    unfolding r(1) by (auto simp: asked_again_def waits_def settles_def split: option.splits)
  moreover have "1 \<le> asked s \<and> asked s < mt" if "s \<in> nums_of rs" for s
    using that k unfolding e asks_ok_def by (auto dest: jm_get_Some_keys)
  ultimately show ?thesis using r(2,5) k by (simp add: asks_ok_def)
qed

definition sample_tracker :: seq_tracker where
  "sample_tracker = \<lparr>sq_highest = 2, sq_last = None,
     sq_missing = [(0, \<lparr>miss_since = 5, miss_hint = None\<rparr>), (1, \<lparr>miss_since = 5, miss_hint = None\<rparr>)],
     sq_claimed = [], sq_settled = []\<rparr>"

definition claimed_tracker :: seq_tracker where
  "claimed_tracker = \<lparr>sq_highest = 2, sq_last = None,
     sq_missing = [(1, \<lparr>miss_since = 5, miss_hint = None\<rparr>)],
     sq_claimed = [(0, \<lparr>claim_at = 9, claim_tries = 1, claim_hint = None\<rparr>)], sq_settled = []\<rparr>"

lemma sample_reach: "seq_reach 3 sample_tracker {2} {} (\<lambda>_. 0)"
proof -
  have up: "[0..1] = [0, 1 :: int]" by (simp add: upto.simps)
  have "seq_arrive 2 5 None new_seq_tracker = (SeqNew, sample_tracker)"
    by (simp add: seq_arrive_def new_seq_tracker_def sample_tracker_def MAX_GAP_def gap_hint_def up jm_set_def)
  then show ?thesis
    using seq_reach.arrive [OF seq_reach.start, of 2 5 None] by (simp add: MAX_GAP_def new_seq_tracker_def)
qed

lemma sample_detect:
  "seq_detect 9 2 4 None 8 sample_tracker = ([(0, 1)], claimed_tracker)"
  by (simp add: seq_detect_def sample_tracker_def claimed_tracker_def is_lost_def Let_def seq_ranges_def
      claim_lost_def jm_get_def jm_set_def jm_delete_def)

theorem seq_detect_exact_witness:
  "seq_detect 9 2 4 None 8 sample_tracker = ([(0, 1)], claimed_tracker) \<and>
   jm_keys (sq_missing claimed_tracker) = jm_keys (sq_missing sample_tracker) - nums_of [(0, 1)]"
  using seq_detect_exact [OF sample_reach _ sample_detect] sample_detect by simp

theorem seq_repeats_exact_witness:
  "\<exists>asked t'. seq_reach 3 claimed_tracker {2} {} asked \<and>
     seq_repeats 20 5 3 (\<lambda>_. False) 8 claimed_tracker = ([(0, 1)], t') \<and> 1 \<le> asked 0 \<and> asked 0 < 3"
proof -
  let ?t = "claimed_tracker\<lparr>sq_claimed := [(0, \<lparr>claim_at = 20, claim_tries = 2, claim_hint = None\<rparr>)]\<rparr>"
  have run: "seq_repeats 20 5 3 (\<lambda>_. False) 8 claimed_tracker = ([(0, 1)], ?t)"
    by (simp add: seq_repeats_def claimed_tracker_def repeats_loop_Cons waits_def settles_def
        seq_ranges_def jm_set_def)
  have c: "seq_reach 3 claimed_tracker {2} {} (\<lambda>s. if s \<in> nums_of [(0, 1)] then 0 + 1 else 0)"
    using seq_reach.detect [OF sample_reach _ sample_detect] by simp
  have "0 \<in> nums_of [(0, 1)]" by simp
  with seq_repeats_exact [OF c _ run] c run show ?thesis by (intro exI conjI) auto
qed

end
