(* ===== verification/JsValue.thy ===== *)
theory JsValue
  imports Wire
begin

text \<open>
  Values of type \<open>unknown\<close>: what \<open>JSON.parse\<close> or a message event can hand the client. An object is
  its list of entries, in the order \<open>Object.entries\<close> gives them. \<open>JNotFinite\<close> stands for NaN and the
  two infinities, which arithmetic on page data could produce.
\<close>

datatype jsval =
    JUndefined
  | JNull
  | JBool bool
  | JNum num
  | JNotFinite
  | JStr jsstring
  | JArr "jsval list"
  | JObj "(jsstring \<times> jsval) list"

text \<open>\<open>typeof v !== "object" || v === null\<close>: arrays are objects.\<close>

fun is_object :: "jsval \<Rightarrow> bool" where
  "is_object (JArr _) = True"
| "is_object (JObj _) = True"
| "is_object _ = False"

text \<open>Reading a property whose name is not an array index.\<close>

fun get_prop :: "jsval \<Rightarrow> jsstring \<Rightarrow> jsval" where
  "get_prop (JObj es) k = (case map_of es k of None \<Rightarrow> JUndefined | Some v \<Rightarrow> v)"
| "get_prop _ k = JUndefined"

definition startsWith :: "'a list \<Rightarrow> 'a list \<Rightarrow> bool" where
  "startsWith s p \<longleftrightarrow> take (length p) s = p"

lemma startsWith_iff: "startsWith s p \<longleftrightarrow> (\<exists>r. s = p @ r)"
proof
  assume "startsWith s p"
  then have "s = p @ drop (length p) s" unfolding startsWith_def by (metis append_take_drop_id)
  then show "\<exists>r. s = p @ r" by blast
qed (auto simp: startsWith_def)

lemma startsWith_length: "startsWith s p \<Longrightarrow> length p \<le> length s"
  by (auto simp: startsWith_iff)

lemma startsWith_same: "startsWith s p \<Longrightarrow> startsWith s q \<Longrightarrow> length p = length q \<Longrightarrow> p = q"
  by (simp add: startsWith_def)

end
