(* ===== verification/Priority.thy ===== *)
theory Priority
  imports JsValue
begin

text \<open>
  \<open>client/src/priority.ts\<close>: the scheduling classes, the default class of a request destination,
  and the page's path-prefix rules, of which the longest matching one decides.
\<close>

section \<open>Classes\<close>

datatype priority_class = Critical | Normal | Background

definition CLASSES :: "priority_class list" where
  "CLASSES = [Critical, Normal, Background]"

fun classRank :: "priority_class \<Rightarrow> nat" where
  "classRank Critical = 0"
| "classRank Normal = 1"
| "classRank Background = 2"

definition DEFAULT_CLASS :: priority_class where
  "DEFAULT_CLASS = Normal"

text \<open>The list order is the priority order, so the classes are ordered by their rank.\<close>

instantiation priority_class :: linorder
begin

definition less_eq_priority_class :: "priority_class \<Rightarrow> priority_class \<Rightarrow> bool" where
  "c \<le> d \<longleftrightarrow> classRank c \<le> classRank d"

definition less_priority_class :: "priority_class \<Rightarrow> priority_class \<Rightarrow> bool" where
  "c < d \<longleftrightarrow> classRank c < classRank d"

instance
proof
  fix c d :: priority_class
  show "c \<le> d \<Longrightarrow> d \<le> c \<Longrightarrow> c = d"
    by (cases c; cases d) (auto simp: less_eq_priority_class_def)
qed (auto simp: less_eq_priority_class_def less_priority_class_def)

end

lemma classRank_index: "CLASSES ! classRank c = c" "classRank c < length CLASSES"
  by (cases c; simp add: CLASSES_def)+

lemma classRank_inj: "classRank c = classRank d \<longleftrightarrow> c = d"
  by (cases c; cases d) auto

fun class_name :: "priority_class \<Rightarrow> jsstring" where
  "class_name Critical = js ''critical''"
| "class_name Normal = js ''normal''"
| "class_name Background = js ''background''"

text \<open>\<open>CLASSES.includes(cls)\<close>, and the class a name stands for.\<close>

definition class_of_name :: "jsstring \<Rightarrow> priority_class option" where
  "class_of_name s = find (\<lambda>c. class_name c = s) CLASSES"

definition classForDestination :: "jsstring \<Rightarrow> priority_class" where
  "classForDestination d =
     (if d \<in> set [js ''style'', js ''script'', js ''font''] then Critical
      else if d \<in> set [js ''image'', js ''video'', js ''audio'', js ''track''] then Background
      else DEFAULT_CLASS)"

section \<open>The page's rules\<close>

type_synonym class_map = "(jsstring \<times> priority_class) list"

definition slash :: jschar where "slash = 0x2F"

definition class_rule :: "jsstring \<times> jsval \<Rightarrow> (jsstring \<times> priority_class) option" where
  "class_rule e =
     (if \<not> startsWith (fst e) [slash] then None
      else case snd e of
             JStr s \<Rightarrow> map_option (Pair (fst e)) (class_of_name s)
           | _ \<Rightarrow> None)"

definition classMap :: "jsval \<Rightarrow> class_map" where
  "classMap raw =
     (case raw of
        JObj es \<Rightarrow> sort_key (\<lambda>r. - int (length (fst r))) (List.map_filter class_rule es)
      | _ \<Rightarrow> [])"

fun classFor :: "jsstring \<Rightarrow> jsstring \<Rightarrow> class_map \<Rightarrow> priority_class" where
  "classFor path dest [] = classForDestination dest"
| "classFor path dest ((pre, cls) # rs) = (if startsWith path pre then cls else classFor path dest rs)"

section \<open>Longest prefix\<close>

lemma classFor_first:
  "classFor path dest rs = (case find (\<lambda>r. startsWith path (fst r)) rs of
     None \<Rightarrow> classForDestination dest | Some r \<Rightarrow> snd r)"
  by (induction rs) auto

text \<open>In a list sorted by falling prefix length the first match is a longest one.\<close>

lemma find_longest:
  assumes "sorted (map (\<lambda>r. - int (length (fst r))) rs)" "find (\<lambda>r. startsWith path (fst r)) rs = Some r"
  shows "r \<in> set rs \<and> startsWith path (fst r) \<and>
    (\<forall>q \<in> set rs. startsWith path (fst q) \<longrightarrow> length (fst q) \<le> length (fst r))"
  using assms by (induction rs) (auto split: if_splits)

lemma class_rule_some:
  "class_rule e = Some (pre, cls) \<longleftrightarrow>
    fst e = pre \<and> startsWith pre [slash] \<and> (\<exists>s. snd e = JStr s \<and> class_of_name s = Some cls)"
  by (cases "snd e") (auto simp: class_rule_def)

lemma map_filter_rules:
  "(pre, cls) \<in> set (List.map_filter class_rule es) \<longleftrightarrow>
    (\<exists>s. (pre, JStr s) \<in> set es \<and> startsWith pre [slash] \<and> class_of_name s = Some cls)"
proof -
  have "(pre, cls) \<in> set (List.map_filter class_rule es) \<longleftrightarrow> (\<exists>e \<in> set es. class_rule e = Some (pre, cls))"
    by (force simp: List.map_filter_def image_iff)
  also have "\<dots> \<longleftrightarrow> (\<exists>s. (pre, JStr s) \<in> set es \<and> startsWith pre [slash] \<and> class_of_name s = Some cls)"
    unfolding class_rule_some by (metis fst_conv snd_conv prod.collapse)
  finally show ?thesis .
qed

lemma classMap_rules:
  "(pre, cls) \<in> set (classMap (JObj es)) \<longleftrightarrow>
    (\<exists>s. (pre, JStr s) \<in> set es \<and> startsWith pre [slash] \<and> class_of_name s = Some cls)"
  by (simp add: classMap_def map_filter_rules)

lemma classMap_sorted: "sorted (map (\<lambda>r. - int (length (fst r))) (classMap raw))"
  by (cases raw) (auto simp: classMap_def)

lemma class_of_name_some: "class_of_name s = Some c \<longleftrightarrow> s = class_name c"
proof -
  have ne: "js ''critical'' \<noteq> js ''normal''" "js ''critical'' \<noteq> js ''background''"
    "js ''normal'' \<noteq> js ''background''"
    by (simp_all add: js_def)
  show ?thesis
    using ne by (cases c) (auto simp: class_of_name_def CLASSES_def)
qed

section \<open>Properties\<close>

text \<open>A valid rule of the object that applies to a path.\<close>

definition rule_applies :: "(jsstring \<times> jsval) list \<Rightarrow> jsstring \<Rightarrow> jsstring \<Rightarrow> priority_class \<Rightarrow> bool" where
  "rule_applies es path pre c \<longleftrightarrow>
     (pre, JStr (class_name c)) \<in> set es \<and> startsWith pre [slash] \<and> startsWith path pre"

lemma rule_applies_map:
  "rule_applies es path pre c \<longleftrightarrow> (pre, c) \<in> set (classMap (JObj es)) \<and> startsWith path pre"
  by (auto simp: classMap_rules class_of_name_some rule_applies_def)

text \<open>C36: a request takes the class of the longest prefix of its path among the page's valid rules,
  whatever their order and whatever else the object holds; with no matching rule it takes the
  class of its destination.\<close>

theorem classFor_longest_prefix:
  assumes "distinct (map fst es)"
  shows "(if \<exists>pre c. rule_applies es path pre c
    then \<exists>pre c. rule_applies es path pre c \<and> classFor path dest (classMap (JObj es)) = c \<and>
      (\<forall>pre' c'. rule_applies es path pre' c' \<longrightarrow> length pre' < length pre \<or> pre' = pre \<and> c' = c)
    else classFor path dest (classMap (JObj es)) = classForDestination dest)"
proof (cases "find (\<lambda>r. startsWith path (fst r)) (classMap (JObj es))")
  case None
  then have "\<not> rule_applies es path pre c" for pre c
    by (auto simp: find_None_iff rule_applies_map)
  with None show ?thesis by (simp add: classFor_first)
next
  case (Some r)
  obtain p d where r: "r = (p, d)" by (cases r)
  have best: "rule_applies es path p d"
    "\<forall>q \<in> set (classMap (JObj es)). startsWith path (fst q) \<longrightarrow> length (fst q) \<le> length p"
    using find_longest [OF classMap_sorted Some] by (auto simp: r rule_applies_map)
  have "length pre < length p \<or> pre = p \<and> c = d" if a: "rule_applies es path pre c" for pre c
  proof (cases "length pre = length p")
    case True
    then have "pre = p" using a best(1) startsWith_same unfolding rule_applies_def by blast
    moreover from this have "class_name c = class_name d"
      using a best(1) assms unfolding rule_applies_def by (auto dest: eq_key_imp_eq_value)
    then have "c = d" using class_of_name_some [of "class_name d"] by (metis option.inject)
    ultimately show ?thesis by simp
  next
    case False
    have "length pre \<le> length p" using a best(2) by (force simp: rule_applies_map)
    with False show ?thesis by simp
  qed
  then have "\<exists>pre c. rule_applies es path pre c \<and> classFor path dest (classMap (JObj es)) = c \<and>
      (\<forall>pre' c'. rule_applies es path pre' c' \<longrightarrow> length pre' < length pre \<or> pre' = pre \<and> c' = c)"
    using best(1) Some by (intro exI [of _ p] exI [of _ d]) (simp add: classFor_first r)
  then show ?thesis by auto
qed

theorem classFor_longest_prefix_witness:
  "let es = [(js ''/a/'', JStr (js ''background'')), (js ''x'', JStr (js ''critical'')),
       (js ''/a/hero'', JStr (js ''critical'')), (js ''/b'', JNum 3)]
   in classFor (js ''/a/hero.png'') (js ''image'') (classMap (JObj es)) = Critical \<and>
     classFor (js ''/c'') (js ''font'') (classMap (JObj es)) = classForDestination (js ''font'')"
proof -
  let ?es = "[(js ''/a/'', JStr (js ''background'')), (js ''x'', JStr (js ''critical'')),
       (js ''/a/hero'', JStr (js ''critical'')), (js ''/b'', JNum 3)]"
  have d: "distinct (map fst ?es)" by (simp add: js_def)
  have no: "\<not> rule_applies ?es (js ''/c'') pre c" for pre c
    by (auto simp: rule_applies_def startsWith_def js_def slash_def)
  have hero: "rule_applies ?es (js ''/a/hero.png'') (js ''/a/hero'') Critical"
    by (simp add: rule_applies_def startsWith_def js_def slash_def)
  obtain pre c where pc: "rule_applies ?es (js ''/a/hero.png'') pre c"
    "classFor (js ''/a/hero.png'') (js ''image'') (classMap (JObj ?es)) = c"
    "length (js ''/a/hero'') < length pre \<or> js ''/a/hero'' = pre \<and> Critical = c"
    using classFor_longest_prefix [OF d, of "js ''/a/hero.png''" "js ''image''"] hero by (auto split: if_splits)
  have "pre \<in> {js ''/a/'', js ''x'', js ''/a/hero'', js ''/b''}"
    using pc(1) by (auto simp: rule_applies_def)
  then have "length pre \<le> length (js ''/a/hero'')" by (auto simp: js_def)
  with pc have "classFor (js ''/a/hero.png'') (js ''image'') (classMap (JObj ?es)) = Critical" by auto
  moreover have "classFor (js ''/c'') (js ''font'') (classMap (JObj ?es)) = classForDestination (js ''font'')"
    using classFor_longest_prefix [OF d, of "js ''/c''" "js ''font''"] no by simp
  ultimately show ?thesis by simp
qed

end
