(* ===== verification/Scheduler.thy ===== *)
theory Scheduler
  imports Priority
begin

text \<open>
  \<open>class SrptScheduler\<close> of \<open>client/src/scheduler.ts\<close>: the receiver-driven grant scheduler. It keeps
  at most \<open>budget\<close> bytes granted but not received over all transfers, and spends free budget on the
  most urgent class first, then on the transfer with the fewest bytes left, then in arrival order.
\<close>

section \<open>State\<close>

record sched_entry =
  e_size :: num
  e_granted :: num
  e_received :: num
  e_paused :: bool
  e_seq :: nat
  e_cls :: priority_class

record grant_decision =
  d_rpc :: int
  d_max :: num
  d_priority :: nat

record grant_trace =
  tr_decision :: grant_decision
  tr_remaining :: num
  tr_others :: "num list"

record scheduler =
  sc_rpcs :: "(int, sched_entry) jsmap"
  sc_seq :: nat
  sc_min_increment :: num
  sc_trace :: "grant_trace list option"
  sc_budget :: num
  sc_limited :: bool

definition MIN_INCREMENT_BUDGET_SHARE :: num where
  "MIN_INCREMENT_BUDGET_SHARE = 4"

definition new_scheduler :: "num \<Rightarrow> num \<Rightarrow> grant_trace list option \<Rightarrow> scheduler" where
  "new_scheduler budget minInc tr =
     \<lparr>sc_rpcs = [], sc_seq = 0, sc_min_increment = minInc, sc_trace = tr, sc_budget = budget,
      sc_limited = False\<rparr>"

section \<open>Operations\<close>

definition sched_set_budget :: "num \<Rightarrow> scheduler \<Rightarrow> scheduler" where
  "sched_set_budget b s = s\<lparr>sc_budget := b\<rparr>"

definition sched_add :: "int \<Rightarrow> num \<Rightarrow> num \<Rightarrow> num \<Rightarrow> priority_class \<Rightarrow> scheduler \<Rightarrow> scheduler" where
  "sched_add rpc sz granted received cls s =
     s\<lparr>sc_rpcs := jm_set rpc \<lparr>e_size = sz, e_granted = min granted sz, e_received = received,
          e_paused = False, e_seq = sc_seq s, e_cls = cls\<rparr> (sc_rpcs s),
       sc_seq := sc_seq s + 1\<rparr>"

definition sched_remove :: "int \<Rightarrow> scheduler \<Rightarrow> scheduler" where
  "sched_remove rpc s = s\<lparr>sc_rpcs := jm_delete rpc (sc_rpcs s)\<rparr>"

text \<open>Entries are mutable objects in the source; here the changed entry is put back.\<close>

definition sched_modify :: "int \<Rightarrow> (sched_entry \<Rightarrow> sched_entry) \<Rightarrow> scheduler \<Rightarrow> scheduler" where
  "sched_modify rpc f s =
     (case jm_get (sc_rpcs s) rpc of None \<Rightarrow> s | Some e \<Rightarrow> s\<lparr>sc_rpcs := jm_set rpc (f e) (sc_rpcs s)\<rparr>)"

definition sched_on_data :: "int \<Rightarrow> num \<Rightarrow> scheduler \<Rightarrow> scheduler" where
  "sched_on_data rpc bytes = sched_modify rpc (\<lambda>e. e\<lparr>e_received := e_received e + bytes\<rparr>)"

definition sched_set_paused :: "int \<Rightarrow> bool \<Rightarrow> scheduler \<Rightarrow> scheduler" where
  "sched_set_paused rpc b = sched_modify rpc (\<lambda>e. e\<lparr>e_paused := b\<rparr>)"

definition sched_granted :: "int \<Rightarrow> scheduler \<Rightarrow> num option" where
  "sched_granted rpc s = map_option e_granted (jm_get (sc_rpcs s) rpc)"

definition in_flight :: "sched_entry \<Rightarrow> num" where
  "in_flight e = max 0 (e_granted e - e_received e)"

definition sched_outstanding :: "scheduler \<Rightarrow> num" where
  "sched_outstanding s = sum_list (map (\<lambda>r. in_flight (snd r)) (sc_rpcs s))"

text \<open>The comparator of \<open>sort\<close>: class, then bytes left, then arrival.\<close>

definition srpt_key :: "sched_entry \<Rightarrow> nat \<times> num \<times> nat" where
  "srpt_key e = (classRank (e_cls e), e_size e - e_received e, e_seq e)"

definition wants :: "sched_entry \<Rightarrow> bool" where
  "wants e \<longleftrightarrow> e_granted e < e_size e \<and> \<not> e_paused e"

definition candidates :: "scheduler \<Rightarrow> (int \<times> sched_entry) list" where
  "candidates s = sort_key (\<lambda>r. srpt_key (snd r)) (filter (\<lambda>r. wants (snd r)) (sc_rpcs s))"

definition effective_increment :: "scheduler \<Rightarrow> num" where
  "effective_increment s =
     min (sc_min_increment s) (max 1 (of_int \<lfloor>sc_budget s / MIN_INCREMENT_BUDGET_SHARE\<rfloor>))"

text \<open>The loop over the candidates. Those before the current one have been granted to already;
  \<open>dn\<close> holds them with their new grants, for the trace and for the closing test.\<close>

record grant_run =
  g_avail :: num
  g_done :: "(int \<times> sched_entry) list"
  g_out :: "grant_decision list"
  g_trace :: "grant_trace list"
  g_limited :: bool

definition grant_step :: "int \<Rightarrow> sched_entry \<Rightarrow> nat \<Rightarrow> (int \<times> sched_entry) list \<Rightarrow> grant_run \<Rightarrow> grant_run" where
  "grant_step rpc e rank todo g =
     (let target = min (e_size e) (e_granted e + g_avail g);
          d = \<lparr>d_rpc = rpc, d_max = target, d_priority = min rank 7\<rparr>;
          tr = \<lparr>tr_decision = d, tr_remaining = e_size e - e_received e,
                tr_others = map (\<lambda>r. e_size (snd r) - e_received (snd r))
                  (filter (\<lambda>r. fst r \<noteq> rpc \<and> e_granted (snd r) < e_size (snd r)) (g_done g @ todo))\<rparr>
      in g\<lparr>g_avail := g_avail g - (target - e_granted e),
           g_done := g_done g @ [(rpc, e\<lparr>e_granted := target\<rparr>)],
           g_out := g_out g @ [d], g_trace := g_trace g @ [tr]\<rparr>)"

fun grants_loop :: "num \<Rightarrow> num \<Rightarrow> nat \<Rightarrow> (int \<times> sched_entry) list \<Rightarrow> grant_run \<Rightarrow> grant_run" where
  "grants_loop mi outst rank [] g = g"
| "grants_loop mi outst rank ((rpc, e) # todo) g =
     (if g_avail g \<le> 0 then g\<lparr>g_done := g_done g @ (rpc, e) # todo\<rparr>
      else
        let target = min (e_size e) (e_granted e + g_avail g);
            stalled = (outst = 0 \<and> g_out g = [])
        in if target - e_granted e < mi \<and> target < e_size e \<and> \<not> stalled
           then g\<lparr>g_done := g_done g @ (rpc, e) # todo, g_limited := True\<rparr>
           else grants_loop mi outst (rank + 1) todo (grant_step rpc e rank todo g))"

definition sched_grants :: "num \<Rightarrow> scheduler \<Rightarrow> grant_decision list \<times> scheduler" where
  "sched_grants reserved s =
     (let outst = sched_outstanding s;
          avail = sc_budget s - reserved - outst;
          mi = effective_increment s;
          cands = candidates s;
          limited = (cands \<noteq> [] \<and> avail < mi)
      in if avail \<le> 0 then ([], s\<lparr>sc_limited := limited\<rparr>)
         else
           let g = grants_loop mi outst 0 cands
                     \<lparr>g_avail = avail, g_done = [], g_out = [], g_trace = [], g_limited = limited\<rparr>
           in (g_out g,
               s\<lparr>sc_rpcs := fold (\<lambda>(rpc, e). jm_set rpc e) (g_done g) (sc_rpcs s),
                 sc_trace := map_option (\<lambda>t. t @ g_trace g) (sc_trace s),
                 sc_limited := g_limited g \<or>
                   (g_avail g \<le> 0 \<and> list_ex (\<lambda>r. e_granted (snd r) < e_size (snd r)) (g_done g))\<rparr>))"

section \<open>One round of grants\<close>

type_synonym entries = "(int \<times> sched_entry) list"

text \<open>What a round may do to an entry: raise its grant, at most to the size.\<close>

definition raised :: "int \<times> sched_entry \<Rightarrow> int \<times> sched_entry \<Rightarrow> bool" where
  "raised c n \<longleftrightarrow> fst n = fst c \<and> (\<exists>t. snd n = (snd c)\<lparr>e_granted := t\<rparr> \<and>
     e_granted (snd c) \<le> t \<and> t \<le> max (e_granted (snd c)) (e_size (snd c)))"

text \<open>Nobody later in the order got anything unless everybody earlier is fully granted.\<close>

fun full_before :: "entries \<Rightarrow> entries \<Rightarrow> bool" where
  "full_before (c # cs) (n # ns) \<longleftrightarrow>
     (cs \<noteq> ns \<longrightarrow> e_granted (snd n) = e_size (snd n)) \<and> full_before cs ns"
| "full_before _ _ \<longleftrightarrow> True"

fun decisions_of :: "nat \<Rightarrow> entries \<Rightarrow> entries \<Rightarrow> grant_decision list" where
  "decisions_of k (c # cs) (n # ns) =
     (if n = c then [] else \<lparr>d_rpc = fst n, d_max = e_granted (snd n), d_priority = min k 7\<rparr>
        # decisions_of (k + 1) cs ns)"
| "decisions_of k _ _ = []"

definition total_granted :: "entries \<Rightarrow> num" where
  "total_granted rs = sum_list (map (\<lambda>r. e_granted (snd r)) rs)"

lemma total_granted_simps [simp]:
  "total_granted [] = 0" "total_granted (r # rs) = e_granted (snd r) + total_granted rs"
  by (simp_all add: total_granted_def)

lemma raised_refl [simp]: "raised c c"
  by (auto simp: raised_def intro: exI [of _ "e_granted (snd c)"])

lemma raised_all_refl [simp]: "list_all2 raised cs cs"
  by (simp add: list_all2_refl)

lemma full_before_refl [simp]: "full_before cs cs"
  by (induction cs) auto

lemma decisions_of_refl [simp]: "decisions_of k cs cs = []"
  by (cases cs) auto

definition unfinished :: "int \<times> sched_entry \<Rightarrow> bool" where
  "unfinished r \<longleftrightarrow> e_granted (snd r) < e_size (snd r)"

lemma grants_loop_spec:
  assumes "\<forall>c \<in> set cs. wants (snd c)" "g' = grants_loop mi outst rank cs g"
  shows "\<exists>ns. g_done g' = g_done g @ ns \<and> list_all2 raised cs ns \<and> full_before cs ns \<and>
    g_out g' = g_out g @ decisions_of rank cs ns \<and>
    (0 \<le> g_avail g \<longrightarrow> 0 \<le> g_avail g' \<and> total_granted ns - total_granted cs = g_avail g - g_avail g') \<and>
    (g_limited g \<longrightarrow> g_limited g') \<and>
    (list_ex unfinished ns \<longrightarrow> g_limited g' \<or> g_avail g' \<le> 0) \<and>
    (cs \<noteq> [] \<and> 0 < g_avail g \<and> (mi \<le> g_avail g \<or> outst = 0 \<and> g_out g = []) \<longrightarrow> ns \<noteq> cs) \<and>
    (ns \<noteq> cs \<longrightarrow> \<not> unfinished (hd ns) \<or> g_avail g' \<le> 0)"
  using assms
proof (induction mi outst rank cs g arbitrary: g' rule: grants_loop.induct)
  case (1 mi outst rank g)
  then show ?case by (intro exI [of _ "[]"]) simp
next
  case (2 mi outst rank rpc e todo g)
  have w: "e_granted e < e_size e" "\<forall>c \<in> set todo. wants (snd c)"
    using "2.prems"(1) by (auto simp: wants_def)
  show ?case
  proof (cases "g_avail g \<le> 0")
    case True
    then have "g' = g\<lparr>g_done := g_done g @ (rpc, e) # todo\<rparr>" using "2.prems"(2) by simp
    with True show ?thesis by (intro exI [of _ "(rpc, e) # todo"]) simp
  next
    case pos: False
    define t where "t = min (e_size e) (e_granted e + g_avail g)"
    define stalled where "stalled = (outst = 0 \<and> g_out g = [])"
    have t: "e_granted e < t" "t \<le> e_size e" "t - e_granted e \<le> g_avail g"
      using pos w by (auto simp: t_def)
    show ?thesis
    proof (cases "t - e_granted e < mi \<and> t < e_size e \<and> \<not> stalled")
      case True
      then have g': "g' = g\<lparr>g_done := g_done g @ (rpc, e) # todo, g_limited := True\<rparr>"
        using "2.prems"(2) pos by (simp add: Let_def t_def stalled_def)
      have "t = e_granted e + g_avail g" using True by (auto simp: t_def min_def split: if_splits)
      with True have "\<not> mi \<le> g_avail g" by simp
      with True g' show ?thesis by (intro exI [of _ "(rpc, e) # todo"]) (auto simp: stalled_def)
    next
      case False
      let ?g = "grant_step rpc e rank todo g"
      have g': "g' = grants_loop mi outst (rank + 1) todo ?g"
        unfolding "2.prems"(2) grants_loop.simps Let_def t_def [symmetric] stalled_def [symmetric]
          if_not_P [OF pos] if_not_P [OF False] ..
      have step: "g_avail ?g = g_avail g - (t - e_granted e)"
        "g_done ?g = g_done g @ [(rpc, e\<lparr>e_granted := t\<rparr>)]"
        "g_out ?g = g_out g @ [\<lparr>d_rpc = rpc, d_max = t, d_priority = min rank 7\<rparr>]"
        "g_limited ?g = g_limited g"
        by (simp_all add: grant_step_def Let_def t_def)
      obtain ns where ns: "g_done g' = g_done ?g @ ns" "list_all2 raised todo ns" "full_before todo ns"
        "g_out g' = g_out ?g @ decisions_of (rank + 1) todo ns"
        "0 \<le> g_avail ?g \<longrightarrow> 0 \<le> g_avail g' \<and> total_granted ns - total_granted todo = g_avail ?g - g_avail g'"
        "g_limited ?g \<longrightarrow> g_limited g'"
        "list_ex unfinished ns \<longrightarrow> g_limited g' \<or> g_avail g' \<le> 0"
        using "2.IH" [OF pos t_def stalled_def False w(2) g'] by blast
      let ?n = "(rpc, e\<lparr>e_granted := t\<rparr>)"
      have ch: "?n \<noteq> (rpc, e)" using t(1) by (metis prod.inject sched_entry.select_convs(2) sched_entry.update_convs(2) sched_entry.surjective order_less_irrefl)
      have part: "t < e_size e \<Longrightarrow> g_avail ?g = 0"
        unfolding step by (auto simp: t_def min_def split: if_splits)
      have idle: "ns = todo \<and> g_avail g' = 0" if "g_avail ?g = 0"
      proof -
        have "g' = ?g\<lparr>g_done := g_done ?g @ todo\<rparr>"
          unfolding g' using that by (cases todo; cases "hd todo") auto
        with ns(1) that show ?thesis by simp
      qed
      have "raised (rpc, e) ?n" using t by (auto simp: raised_def)
      moreover have "todo \<noteq> ns \<longrightarrow> t = e_size e" using part idle t(2) by force
      moreover have "unfinished ?n \<longrightarrow> g_avail g' \<le> 0" using part idle by (simp add: unfinished_def)
      moreover have "0 \<le> g_avail ?g" using t(3) by (simp add: step)
      ultimately show ?thesis
        using ns ch step(1,4) by (intro exI [of _ "?n # ns"]) (auto simp: step(2,3))
    qed
  qed
qed

section \<open>Writing the round back\<close>

lemma map_of_fold_set:
  "distinct (map fst ns) \<Longrightarrow>
    jm_get (fold (\<lambda>(k, v). jm_set k v) ns m) k = (case map_of ns k of Some v \<Rightarrow> Some v | None \<Rightarrow> jm_get m k)"
proof (induction ns arbitrary: m)
  case (Cons n ns)
  obtain a b where n: "n = (a, b)" by (cases n)
  have "map_of ns a = None" using Cons.prems by (simp add: n map_of_eq_None_iff)
  with Cons show ?case by (cases "k = a") (simp_all add: n split: option.split)
qed simp

lemma fold_set_ok: "jm_ok m \<Longrightarrow> jm_ok (fold (\<lambda>(k, v). jm_set k v) ns m)"
  by (induction ns arbitrary: m) auto

lemma fold_set_total:
  assumes "jm_ok m" "list_all2 (\<lambda>c n. fst n = fst c) cs ns" "distinct (map fst cs)" "set cs \<subseteq> set m"
  shows "sum_list (map (\<lambda>r. f (snd r)) (fold (\<lambda>(k, v). jm_set k v) ns m)) =
    sum_list (map (\<lambda>r. f (snd r)) m) - sum_list (map (\<lambda>r. f (snd r)) cs)
      + (sum_list (map (\<lambda>r. f (snd r)) ns) :: num)"
  using assms
proof (induction cs arbitrary: ns m)
  case (Cons c cs)
  obtain k u where c: "c = (k, u)" by (cases c)
  obtain v ns' where ns: "ns = (k, v) # ns'" and l: "list_all2 (\<lambda>c n. fst n = fst c) cs ns'"
    using Cons.prems(2) by (auto simp: c list_all2_Cons1)
  have get: "jm_get m k = Some u"
    using Cons.prems(4) jm.get_entries [OF Cons.prems(1), of k u] by (simp add: c)
  have "x \<in> set (jm_set k v m)" if "x \<in> set cs" for x
  proof -
    obtain k' u' where x: "x = (k', u')" by (cases x)
    have "k' \<noteq> k" using Cons.prems(3) that by (force simp: c x)
    moreover have "jm_get m k' = Some u'"
      using that Cons.prems(4) jm.get_entries [OF Cons.prems(1), of k' u'] by (auto simp: x)
    ultimately have "jm_get (jm_set k v m) k' = Some u'" by simp
    then show ?thesis using jm.get_entries [OF jm.put_ok [OF Cons.prems(1)]] by (simp only: x)
  qed
  then have "sum_list (map (\<lambda>r. f (snd r)) (fold (\<lambda>(k, v). jm_set k v) ns' (jm_set k v m))) =
    sum_list (map (\<lambda>r. f (snd r)) (jm_set k v m)) - sum_list (map (\<lambda>r. f (snd r)) cs)
      + sum_list (map (\<lambda>r. f (snd r)) ns')"
    using Cons.prems l by (intro Cons.IH) (auto simp: c)
  then show ?case
    using jm.total_put_present [OF Cons.prems(1) get, of f v] by (simp add: ns c)
qed simp

section \<open>The invariant\<close>

text \<open>No grant goes past the size, nothing is received in negative amounts, and the arrival numbers
  tell the transfers apart.\<close>

definition entry_ok :: "sched_entry \<Rightarrow> bool" where
  "entry_ok e \<longleftrightarrow> e_granted e \<le> e_size e \<and> 0 \<le> e_received e"

definition sched_ok :: "scheduler \<Rightarrow> bool" where
  "sched_ok s \<longleftrightarrow> jm_ok (sc_rpcs s) \<and> (\<forall>r \<in> set (sc_rpcs s). entry_ok (snd r) \<and> e_seq (snd r) < sc_seq s) \<and>
     distinct (map (\<lambda>r. e_seq (snd r)) (sc_rpcs s))"

lemma candidates_set: "set (candidates s) = {r \<in> set (sc_rpcs s). wants (snd r)}"
  by (auto simp: candidates_def)

lemma wants_candidates: "\<forall>c \<in> set (candidates s). wants (snd c)"
  by (auto simp: candidates_set)

lemma candidates_distinct: "jm_ok (sc_rpcs s) \<Longrightarrow> distinct (map fst (candidates s))"
proof -
  assume "jm_ok (sc_rpcs s)"
  then have d: "distinct (map fst (filter (\<lambda>r. wants (snd r)) (sc_rpcs s)))"
    by (simp add: jm_ok_def distinct_map_filter)
  then show ?thesis by (simp add: candidates_def distinct_map)
qed

lemma candidates_sorted: "sorted (map (\<lambda>r. srpt_key (snd r)) (candidates s))"
  by (simp add: candidates_def)

lemma raised_fst: "list_all2 raised cs ns \<Longrightarrow> list_all2 (\<lambda>c n. fst n = fst c) cs ns \<and> map fst ns = map fst cs"
  by (induction rule: list_all2_induct) (auto simp: raised_def)

lemma raised_in_flight:
  "list_all2 raised cs ns \<Longrightarrow>
    sum_list (map (\<lambda>r. in_flight (snd r)) ns) - sum_list (map (\<lambda>r. in_flight (snd r)) cs)
      \<le> total_granted ns - total_granted cs"
proof (induction rule: list_all2_induct)
  case (Cons c cs n ns)
  then have "in_flight (snd n) - in_flight (snd c) \<le> e_granted (snd n) - e_granted (snd c)"
    by (auto simp: raised_def in_flight_def max_def)
  with Cons show ?case by simp
qed simp

text \<open>One round, described through the candidates before (\<open>cs\<close>) and after (\<open>ns\<close>).\<close>

lemma sched_grants_spec:
  assumes "jm_ok (sc_rpcs s)" "sched_grants reserved s = (out, s')"
  defines "cs \<equiv> candidates s" and "free \<equiv> sc_budget s - reserved - sched_outstanding s"
  obtains ns where "list_all2 raised cs ns" "full_before cs ns" "out = decisions_of 0 cs ns"
    "sc_rpcs s' = fold (\<lambda>(k, v). jm_set k v) ns (sc_rpcs s)"
    "0 \<le> total_granted ns - total_granted cs" "total_granted ns - total_granted cs \<le> max 0 free"
    "0 < free \<Longrightarrow> list_ex unfinished ns \<Longrightarrow> sc_limited s'"
    "cs \<noteq> [] \<Longrightarrow> 0 < free \<Longrightarrow> effective_increment s \<le> free \<or> sched_outstanding s = 0 \<Longrightarrow> ns \<noteq> cs"
    "sc_limited s' \<or> cs = [] \<or> effective_increment s \<le> free"
    "ns \<noteq> cs \<Longrightarrow> \<not> unfinished (hd ns) \<or> total_granted ns - total_granted cs = free"
    "sc_seq s' = sc_seq s" "sc_budget s' = sc_budget s" "sc_min_increment s' = sc_min_increment s"
proof (cases "free \<le> 0")
  case True
  have same: "fold (\<lambda>(k, v). jm_set k v) cs (sc_rpcs s) = sc_rpcs s"
    if "set cs \<subseteq> set (sc_rpcs s)" for cs
    using that
  proof (induction cs)
    case (Cons c cs)
    then have "jm_set (fst c) (snd c) (sc_rpcs s) = sc_rpcs s"
      using jm.put_idle [OF assms(1)] jm.get_entries [OF assms(1)] by simp
    with Cons show ?case by (simp add: case_prod_beta)
  qed simp
  have "out = []" "s' = s\<lparr>sc_limited := (cs \<noteq> [] \<and> free < effective_increment s)\<rparr>"
    using assms(2) True by (auto simp: sched_grants_def Let_def free_def cs_def)
  with True same [of cs] show ?thesis
    by (intro that [of cs]) (auto simp: cs_def candidates_set)
next
  case False
  let ?g0 = "\<lparr>g_avail = free, g_done = [], g_out = [], g_trace = [],
      g_limited = (cs \<noteq> [] \<and> free < effective_increment s)\<rparr>"
  define g where "g = grants_loop (effective_increment s) (sched_outstanding s) 0 cs ?g0"
  have out: "out = g_out g" and s': "s' = s\<lparr>sc_rpcs := fold (\<lambda>(k, v). jm_set k v) (g_done g) (sc_rpcs s),
      sc_trace := map_option (\<lambda>t. t @ g_trace g) (sc_trace s),
      sc_limited := g_limited g \<or> (g_avail g \<le> 0 \<and> list_ex (\<lambda>r. e_granted (snd r) < e_size (snd r)) (g_done g))\<rparr>"
    using assms(2) False by (auto simp: sched_grants_def Let_def free_def cs_def g_def)
  have "\<forall>c \<in> set cs. wants (snd c)" by (auto simp: cs_def candidates_set)
  from grants_loop_spec [OF this g_def] False obtain ns where
    "g_done g = ns" "list_all2 raised cs ns" "full_before cs ns" "g_out g = decisions_of 0 cs ns"
    "0 \<le> g_avail g \<and> total_granted ns - total_granted cs = free - g_avail g"
    "cs \<noteq> [] \<and> free < effective_increment s \<longrightarrow> g_limited g"
    "list_ex unfinished ns \<longrightarrow> g_limited g \<or> g_avail g \<le> 0"
    "cs \<noteq> [] \<and> (effective_increment s \<le> free \<or> sched_outstanding s = 0) \<longrightarrow> ns \<noteq> cs"
    "ns \<noteq> cs \<longrightarrow> \<not> unfinished (hd ns) \<or> g_avail g \<le> 0"
    by auto
  moreover have "0 \<le> total_granted ns - total_granted cs"
    using \<open>list_all2 raised cs ns\<close> by (induction rule: list_all2_induct) (auto simp: raised_def)
  ultimately show ?thesis
    by (intro that [of ns]) (auto simp: s' out unfinished_def [abs_def])
qed

text \<open>The decisions are the changed entries, in order.\<close>

lemma decisions_of_changed:
  assumes "list_all2 raised cs ns" "full_before cs ns" "\<forall>c \<in> set cs. wants (snd c)"
  shows "d \<in> set (decisions_of k cs ns) \<longleftrightarrow> (\<exists>i < length cs. ns ! i \<noteq> cs ! i \<and>
    d = \<lparr>d_rpc = fst (ns ! i), d_max = e_granted (snd (ns ! i)), d_priority = min (k + i) 7\<rparr>)"
    (is "_ \<longleftrightarrow> (\<exists>i < length cs. ?P k cs ns i)")
  using assms
proof (induction cs arbitrary: ns k)
  case (Cons c cs)
  obtain n ns' where ns: "ns = n # ns'" and r: "raised c n" "list_all2 raised cs ns'"
    using Cons.prems(1) by (auto simp: list_all2_Cons1)
  have fb: "cs \<noteq> ns' \<longrightarrow> e_granted (snd n) = e_size (snd n)" "full_before cs ns'"
    using Cons.prems(2) by (simp_all add: ns)
  show ?case
  proof (cases "n = c")
    case True
    then have "cs = ns'" using fb(1) Cons.prems(3) by (auto simp: wants_def)
    with True show ?thesis by (simp add: ns)
  next
    case False
    have "(\<exists>i < length (c # cs). ?P k (c # cs) ns i) \<longleftrightarrow> ?P k (c # cs) ns 0 \<or> (\<exists>i < length cs. ?P (k + 1) cs ns' i)"
      by (auto simp: ns less_Suc_eq_0_disj)
    with False Cons.IH [OF r(2) fb(2), of "k + 1"] Cons.prems(3) show ?thesis by (simp add: ns)
  qed
qed simp

lemma full_before_nth:
  "full_before cs ns \<Longrightarrow> length cs = length ns \<Longrightarrow> i < j \<Longrightarrow> j < length cs \<Longrightarrow> ns ! j \<noteq> cs ! j \<Longrightarrow>
    e_granted (snd (ns ! i)) = e_size (snd (ns ! i))"
proof (induction cs ns arbitrary: i j rule: full_before.induct)
  case (1 c cs n ns)
  then obtain j' where j: "j = Suc j'" by (cases j) auto
  with 1 have "cs \<noteq> ns" by auto
  with 1 j show ?case by (cases i) auto
qed auto

text \<open>The round, entry by entry.\<close>

lemma sched_grants_entry:
  assumes "jm_ok (sc_rpcs s)" "sched_grants reserved s = (out, s')" "jm_get (sc_rpcs s) k = Some e"
  shows "\<exists>t. jm_get (sc_rpcs s') k = Some (e\<lparr>e_granted := t\<rparr>) \<and>
    (if \<exists>d \<in> set out. d_rpc d = k then wants e \<and> e_granted e < t \<and> t \<le> e_size e else t = e_granted e) \<and>
    (\<forall>d \<in> set out. d_rpc d = k \<longrightarrow> d_max d = t \<and> d_priority d \<le> 7)"
proof -
  let ?cs = "candidates s"
  obtain ns where ns: "list_all2 raised ?cs ns" "full_before ?cs ns" "out = decisions_of 0 ?cs ns"
    "sc_rpcs s' = fold (\<lambda>(k, v). jm_set k v) ns (sc_rpcs s)"
    using sched_grants_spec [OF assms(1,2)] by metis
  have w: "\<forall>c \<in> set ?cs. wants (snd c)" by (auto simp: candidates_set)
  have keys: "map fst ns = map fst ?cs" "length ns = length ?cs" "distinct (map fst ns)"
    using raised_fst [OF ns(1)] candidates_distinct [OF assms(1)] list_all2_lengthD [OF ns(1)] by auto
  have fst_nth: "fst (ns ! i) = fst (?cs ! i)" if "i < length ?cs" for i
    using that keys(1,2) by (metis nth_map)
  note dec = decisions_of_changed [OF ns(1,2) w]
  have get: "jm_get (sc_rpcs s') k = (case map_of ns k of Some v \<Rightarrow> Some v | None \<Rightarrow> Some e)"
    using map_of_fold_set [OF keys(3)] assms(3) by (simp add: ns(4) split: option.split)
  show ?thesis
  proof (cases "k \<in> fst ` set ?cs")
    case True
    then obtain i where i: "i < length ?cs" "fst (?cs ! i) = k" by (auto simp: in_set_conv_nth)
    have "?cs ! i \<in> set (sc_rpcs s)" using i(1) candidates_set nth_mem by fastforce
    then have ci: "?cs ! i = (k, e)" 
    proof -
      obtain e' where e': "?cs ! i = (k, e')" using i(2) by (cases "?cs ! i") simp
      with \<open>?cs ! i \<in> set (sc_rpcs s)\<close> have "jm_get (sc_rpcs s) k = Some e'"
        using jm.get_entries [OF assms(1)] by simp
      with assms(3) e' show ?thesis by simp
    qed
    obtain t where t: "snd (ns ! i) = e\<lparr>e_granted := t\<rparr>" "e_granted e \<le> t" "t \<le> max (e_granted e) (e_size e)"
      using list_all2_nthD [OF ns(1) i(1)] ci by (auto simp: raised_def)
    have we: "wants e" using w i(1) ci nth_mem by fastforce
    have ni: "ns ! i = (k, e\<lparr>e_granted := t\<rparr>)" using t(1) fst_nth [OF i(1)] i(2) by (simp add: prod_eq_iff)
    have mp: "map_of ns k = Some (e\<lparr>e_granted := t\<rparr>)"
      using keys(2,3) i(1) ni by (metis map_of_eq_Some_iff nth_mem)
    have only: "j = i" if "j < length ?cs" "fst (ns ! j) = k" for j
      using that i keys(2,3) ni by (metis distinct_conv_nth fst_conv length_map nth_map)
    have ch: "ns ! i \<noteq> ?cs ! i \<longleftrightarrow> t \<noteq> e_granted e"
      unfolding ni ci by (cases e) simp
    have "(\<exists>d \<in> set out. d_rpc d = k) \<longleftrightarrow> t \<noteq> e_granted e"
    proof
      assume "\<exists>d \<in> set out. d_rpc d = k"
      then obtain j where "j < length ?cs" "ns ! j \<noteq> ?cs ! j" "fst (ns ! j) = k"
        by (auto simp: ns(3) dec)
      with only ch show "t \<noteq> e_granted e" by blast
    next
      assume "t \<noteq> e_granted e"
      with ch i(1) have "\<lparr>d_rpc = fst (ns ! i), d_max = e_granted (snd (ns ! i)), d_priority = min (0 + i) 7\<rparr> \<in> set out"
        unfolding ns(3) dec by blast
      then show "\<exists>d \<in> set out. d_rpc d = k" using ni by force
    qed
    moreover have "d_max d = t \<and> d_priority d \<le> 7" if d: "d \<in> set out" "d_rpc d = k" for d
    proof -
      obtain j where j: "j < length ?cs" "d = \<lparr>d_rpc = fst (ns ! j), d_max = e_granted (snd (ns ! j)), d_priority = min (0 + j) 7\<rparr>"
        using d(1) unfolding ns(3) dec by blast
      with only d(2) have "j = i" by simp
      with j(2) ni show ?thesis by simp
    qed
    moreover have "wants e \<and> e_granted e < t \<and> t \<le> e_size e" if "t \<noteq> e_granted e"
      using that t(2,3) we by (auto simp: wants_def)
    ultimately show ?thesis using get mp by (intro exI [of _ t]) auto
  next
    case False
    then have "map_of ns k = None" by (metis keys(1) map_of_eq_None_iff image_set)
    moreover have "\<not> (\<exists>d \<in> set out. d_rpc d = k)"
      using False fst_nth by (fastforce simp: ns(3) dec)
    ultimately show ?thesis using get by (intro exI [of _ "e_granted e"]) auto
  qed
qed

section \<open>Reachable schedulers\<close>

text \<open>Any sequence of the operations the session uses.\<close>

inductive sched_reach :: "scheduler \<Rightarrow> bool" where
  new: "sched_reach (new_scheduler budget minInc tr)"
| set_budget: "sched_reach s \<Longrightarrow> sched_reach (sched_set_budget b s)"
| add: "sched_reach s \<Longrightarrow> 0 \<le> received \<Longrightarrow> sched_reach (sched_add rpc sz granted received cls s)"
| remove: "sched_reach s \<Longrightarrow> sched_reach (sched_remove rpc s)"
| on_data: "sched_reach s \<Longrightarrow> 0 \<le> bytes \<Longrightarrow> sched_reach (sched_on_data rpc bytes s)"
| set_paused: "sched_reach s \<Longrightarrow> sched_reach (sched_set_paused rpc b s)"
| grants: "sched_reach s \<Longrightarrow> sched_grants reserved s = (out, s') \<Longrightarrow> sched_reach s'"

inductive_cases sched_reachE: "sched_reach s"

text \<open>The invariant, through the map's lookups.\<close>

lemma sched_ok_get:
  "sched_ok s \<longleftrightarrow> jm_ok (sc_rpcs s) \<and>
    (\<forall>k e. jm_get (sc_rpcs s) k = Some e \<longrightarrow> entry_ok e \<and> e_seq e < sc_seq s) \<and>
    (\<forall>k k' e e'. jm_get (sc_rpcs s) k = Some e \<and> jm_get (sc_rpcs s) k' = Some e' \<and> e_seq e = e_seq e'
       \<longrightarrow> k = k')"
proof (cases "jm_ok (sc_rpcs s)")
  case True
  have mem: "(k, e) \<in> set (sc_rpcs s) \<longleftrightarrow> jm_get (sc_rpcs s) k = Some e" for k e
    using jm.get_entries [OF True] by simp
  have all: "(\<forall>r \<in> set (sc_rpcs s). P r) \<longleftrightarrow> (\<forall>k e. jm_get (sc_rpcs s) k = Some e \<longrightarrow> P (k, e))" for P
    by (auto simp: mem [symmetric])
  have d: "distinct (map (\<lambda>r. e_seq (snd r)) (sc_rpcs s)) \<longleftrightarrow> inj_on (\<lambda>r. e_seq (snd r)) (set (sc_rpcs s))"
    using True by (simp add: distinct_map jm_ok_def)
  also have "\<dots> \<longleftrightarrow> (\<forall>k k' e e'. jm_get (sc_rpcs s) k = Some e \<and> jm_get (sc_rpcs s) k' = Some e' \<and>
      e_seq e = e_seq e' \<longrightarrow> k = k')"
    unfolding inj_on_def all by (auto; metis option.inject)
  finally show ?thesis
    unfolding sched_ok_def all using True by simp
qed (simp add: sched_ok_def)

lemma sched_modify_ok:
  assumes "sched_ok s" "\<And>e. entry_ok e \<Longrightarrow> entry_ok (f e) \<and> e_seq (f e) = e_seq e"
  shows "sched_ok (sched_modify rpc f s)"
proof (cases "jm_get (sc_rpcs s) rpc")
  case (Some e)
  then show ?thesis using assms unfolding sched_ok_get by (auto simp: sched_modify_def split: if_splits)
qed (use assms in \<open>simp add: sched_modify_def\<close>)

lemma sched_grants_ok:
  assumes "sched_ok s" "sched_grants reserved s = (out, s')"
  shows "sched_ok s'"
proof -
  have ok: "jm_ok (sc_rpcs s)" using assms(1) by (simp add: sched_ok_def)
  obtain ns where ns: "list_all2 raised (candidates s) ns"
    "sc_rpcs s' = fold (\<lambda>(k, v). jm_set k v) ns (sc_rpcs s)" "sc_seq s' = sc_seq s"
    using sched_grants_spec [OF ok assms(2)] by metis
  have keys: "distinct (map fst ns)" "set (map fst ns) \<subseteq> jm_keys (sc_rpcs s)"
    using raised_fst [OF ns(1)] candidates_distinct [OF ok] by (auto simp: candidates_set jm_keys_fst)
  have ok': "jm_ok (sc_rpcs s')" using ok by (simp add: ns(2) fold_set_ok)
  have prior: "\<exists>e t. jm_get (sc_rpcs s) k = Some e \<and> e' = e\<lparr>e_granted := t\<rparr> \<and> (t \<le> e_size e \<or> t = e_granted e)"
    if g: "jm_get (sc_rpcs s') k = Some e'" for k e'
  proof -
    have "jm_get (sc_rpcs s) k \<noteq> None"
    proof
      assume n: "jm_get (sc_rpcs s) k = None"
      then have "map_of ns k = None" using keys(2) by (auto simp: map_of_eq_None_iff jm_get_keys)
      with n g show False using map_of_fold_set [OF keys(1)] by (simp add: ns(2))
    qed
    then obtain e where e: "jm_get (sc_rpcs s) k = Some e" by blast
    obtain t where t: "jm_get (sc_rpcs s') k = Some (e\<lparr>e_granted := t\<rparr>)" "t \<le> e_size e \<or> t = e_granted e"
      using sched_grants_entry [OF ok assms(2) e] by (metis (full_types))
    with g e show ?thesis by (intro exI [of _ e] exI [of _ t]) simp
  qed
  show ?thesis
    unfolding sched_ok_get
  proof (intro conjI allI impI, goal_cases)
    case 1
    show ?case by (fact ok')
  next
    case (2 k e')
    with prior [OF 2] assms(1) show ?case by (auto simp: sched_ok_get entry_ok_def)
  next
    case (3 k e')
    with prior [OF 3] assms(1) show ?case by (auto simp: sched_ok_get ns(3))
  next
    case (4 k k' e e')
    with prior [of k e] prior [of k' e'] assms(1) show ?case by (auto simp: sched_ok_get)
  qed
qed

lemma sched_reach_ok: "sched_reach s \<Longrightarrow> sched_ok s"
proof (induction rule: sched_reach.induct)
  case (add s received rpc sz granted cls)
  then show ?case unfolding sched_ok_get
    by (auto simp: sched_add_def entry_ok_def split: if_splits; fastforce)
next
  case (remove s rpc)
  then show ?case unfolding sched_ok_get by (auto simp: sched_remove_def split: if_splits)
next
  case (on_data s bytes rpc)
  then show ?case unfolding sched_on_data_def by (intro sched_modify_ok) (auto simp: entry_ok_def)
next
  case (set_paused s rpc b)
  then show ?case unfolding sched_set_paused_def by (intro sched_modify_ok) (auto simp: entry_ok_def)
qed (auto simp: sched_grants_ok, simp_all add: sched_ok_def new_scheduler_def sched_set_budget_def)

text \<open>The bytes a round puts in flight.\<close>

lemma grants_within:
  assumes ok: "jm_ok (sc_rpcs s)" and g: "sched_grants reserved s = (out, s')"
  shows "sched_outstanding s' \<le> max (sched_outstanding s) (sc_budget s - reserved)"
    "out \<noteq> [] \<Longrightarrow> sched_outstanding s' + reserved \<le> sc_budget s"
proof -
  obtain ns where ns: "list_all2 raised (candidates s) ns" "out = decisions_of 0 (candidates s) ns"
    "sc_rpcs s' = fold (\<lambda>(k, v). jm_set k v) ns (sc_rpcs s)"
    "total_granted ns - total_granted (candidates s) \<le> max 0 (sc_budget s - reserved - sched_outstanding s)"
    using sched_grants_spec [OF ok g] by metis
  have "sched_outstanding s' = sched_outstanding s - sum_list (map (\<lambda>r. in_flight (snd r)) (candidates s))
      + sum_list (map (\<lambda>r. in_flight (snd r)) ns)"
    unfolding sched_outstanding_def ns(3) using raised_fst [OF ns(1)] candidates_distinct [OF ok]
    by (intro fold_set_total [OF ok]) (auto simp: candidates_set)
  with raised_in_flight [OF ns(1)] ns(4)
  have le: "sched_outstanding s' \<le> sched_outstanding s + max 0 (sc_budget s - reserved - sched_outstanding s)"
    by linarith
  have "0 < sc_budget s - reserved - sched_outstanding s" if "out \<noteq> []"
    using that g by (auto simp: sched_grants_def Let_def not_le [symmetric] split: if_splits)
  with le show "sched_outstanding s' \<le> max (sched_outstanding s) (sc_budget s - reserved)"
    "out \<noteq> [] \<Longrightarrow> sched_outstanding s' + reserved \<le> sc_budget s"
    by (auto simp: max_def split: if_splits)
qed

section \<open>Properties\<close>

text \<open>C25: the grants of a round never push the bytes in flight past the budget: with the bytes
  reserved for requests of unknown size they stay within it whenever anything is granted, and a
  budget that shrank below what is out only stops new grants.\<close>

theorem sched_budget_safe:
  assumes "sched_reach s" "sched_grants reserved s = (out, s')"
  shows "sched_outstanding s' \<le> max (sched_outstanding s) (sc_budget s - reserved) \<and>
    (out \<noteq> [] \<longrightarrow> sched_outstanding s' + reserved \<le> sc_budget s)"
  using grants_within [OF _ assms(2)] sched_reach_ok [OF assms(1)] by (auto simp: sched_ok_def)

definition sched_sample :: scheduler where
  "sched_sample = sched_add 8 300 0 0 Normal (sched_add 7 1000 0 0 Normal (new_scheduler 400 10 None))"

lemma sched_sample_reach: "sched_reach sched_sample"
  unfolding sched_sample_def by (intro sched_reach.intros) simp_all

definition sched_entry7 :: sched_entry where
  "sched_entry7 = \<lparr>e_size = 1000, e_granted = 0, e_received = 0, e_paused = False, e_seq = 0, e_cls = Normal\<rparr>"

definition sched_entry8 :: sched_entry where
  "sched_entry8 = \<lparr>e_size = 300, e_granted = 0, e_received = 0, e_paused = False, e_seq = 1, e_cls = Normal\<rparr>"

lemma sched_sample_grants:
  "sched_grants 0 sched_sample =
    ([\<lparr>d_rpc = 8, d_max = 300, d_priority = 0\<rparr>, \<lparr>d_rpc = 7, d_max = 100, d_priority = 1\<rparr>],
     sched_sample\<lparr>sc_rpcs := [(7, sched_entry7\<lparr>e_granted := 100\<rparr>), (8, sched_entry8\<lparr>e_granted := 300\<rparr>)],
       sc_limited := True\<rparr>)"
  by (simp add: sched_grants_def sched_sample_def sched_add_def new_scheduler_def sched_outstanding_def
      in_flight_def candidates_def wants_def srpt_key_def effective_increment_def Let_def grant_step_def
      MIN_INCREMENT_BUDGET_SHARE_def jm_set_def sched_entry7_def sched_entry8_def)

theorem sched_budget_safe_witness:
  "\<exists>out s'. sched_grants 0 sched_sample = (out, s') \<and> length out = 2 \<and> sched_outstanding s' + 0 \<le> 400"
proof -
  have "sc_budget sched_sample = 400" by (simp add: sched_sample_def sched_add_def new_scheduler_def)
  with sched_budget_safe [OF sched_sample_reach sched_sample_grants] sched_sample_grants
  show ?thesis by (intro exI conjI) auto
qed

text \<open>A round only raises grants, and never past a transfer's size. Its decisions are exactly the
  transfers whose grant rose, each with its new grant; a paused, finished or unknown transfer gets
  nothing, and nothing else about any transfer changes.\<close>

theorem sched_grants_exact:
  assumes "sched_reach s" "sched_grants reserved s = (out, s')"
  shows "case jm_get (sc_rpcs s) k of
      None \<Rightarrow> jm_get (sc_rpcs s') k = None \<and> (\<forall>d \<in> set out. d_rpc d \<noteq> k)
    | Some e \<Rightarrow> \<exists>t. jm_get (sc_rpcs s') k = Some (e\<lparr>e_granted := t\<rparr>) \<and>
        (if \<exists>d \<in> set out. d_rpc d = k
         then e_granted e < t \<and> t \<le> e_size e \<and> \<not> e_paused e else t = e_granted e) \<and>
        (\<forall>d \<in> set out. d_rpc d = k \<longrightarrow> d_max d = t \<and> d_priority d \<le> 7)"
proof (cases "jm_get (sc_rpcs s) k")
  case (Some e)
  have ok: "jm_ok (sc_rpcs s)" using sched_reach_ok [OF assms(1)] by (simp add: sched_ok_def)
  from sched_grants_entry [OF ok assms(2) Some] Some show ?thesis by (auto simp: wants_def split: if_splits)
next
  case None
  have ok: "jm_ok (sc_rpcs s)" using sched_reach_ok [OF assms(1)] by (simp add: sched_ok_def)
  obtain ns where ns: "list_all2 raised (candidates s) ns" "full_before (candidates s) ns"
    "out = decisions_of 0 (candidates s) ns" "sc_rpcs s' = fold (\<lambda>(k, v). jm_set k v) ns (sc_rpcs s)"
    using sched_grants_spec [OF ok assms(2)] by metis
  have keys: "map fst ns = map fst (candidates s)" "distinct (map fst ns)" "length ns = length (candidates s)"
    using raised_fst [OF ns(1)] candidates_distinct [OF ok] list_all2_lengthD [OF ns(1)] by auto
  have "k \<notin> jm_keys (sc_rpcs s)" using None by (simp add: jm_get_keys)
  then have k: "k \<notin> set (map fst ns)" unfolding keys(1) by (auto simp: candidates_set jm_keys_fst)
  then have "map_of ns k = None" by (simp add: map_of_eq_None_iff)
  then have "jm_get (sc_rpcs s') k = None" using map_of_fold_set [OF keys(2)] None by (simp add: ns(4))
  moreover have "d_rpc d \<noteq> k" if d: "d \<in> set out" for d
  proof -
    obtain i where "i < length ns" "d_rpc d = fst (ns ! i)"
      using d unfolding ns(3) decisions_of_changed [OF ns(1,2) wants_candidates] keys(3) by auto
    with k show ?thesis by (metis image_eqI nth_mem set_map)
  qed
  ultimately show ?thesis using None by simp
qed

theorem sched_grants_exact_witness:
  "\<exists>out s'. sched_grants 0 sched_sample = (out, s') \<and> jm_get (sc_rpcs s') 9 = None \<and>
    jm_get (sc_rpcs s') 7 = Some (sched_entry7\<lparr>e_granted := 100\<rparr>)"
  using sched_grants_exact [OF sched_sample_reach sched_sample_grants, of 9] sched_sample_grants
  by (simp add: sched_sample_def sched_add_def new_scheduler_def sched_entry7_def jm_get_Cons)

text \<open>C32: strict order: a transfer gets a grant only when every transfer ahead of it (a more urgent
  class, or the same class and fewer bytes left, or as many and earlier) that still wants bytes is
  granted in full.\<close>

theorem sched_strict_srpt:
  assumes "sched_reach s" "sched_grants reserved s = (out, s')" "d \<in> set out"
    "jm_get (sc_rpcs s) (d_rpc d) = Some e" "jm_get (sc_rpcs s) k = Some f" "wants f" "srpt_key f < srpt_key e"
  shows "\<exists>f'. jm_get (sc_rpcs s') k = Some f' \<and> e_granted f' = e_size f"
proof -
  let ?cs = "candidates s"
  have ok: "jm_ok (sc_rpcs s)" using sched_reach_ok [OF assms(1)] by (simp add: sched_ok_def)
  obtain ns where ns: "list_all2 raised ?cs ns" "full_before ?cs ns"
    "out = decisions_of 0 ?cs ns" "sc_rpcs s' = fold (\<lambda>(k, v). jm_set k v) ns (sc_rpcs s)"
    using sched_grants_spec [OF ok assms(2)] by metis
  have keys: "distinct (map fst ns)" "length ?cs = length ns"
    using raised_fst [OF ns(1)] candidates_distinct [OF ok] list_all2_lengthD [OF ns(1)] by auto
  obtain j where j: "j < length ?cs" "ns ! j \<noteq> ?cs ! j" "d_rpc d = fst (ns ! j)"
    using assms(3) unfolding ns(3) decisions_of_changed [OF ns(1,2) wants_candidates] by auto
  have mem: "?cs ! j \<in> set (sc_rpcs s)" using j(1) nth_mem [OF j(1)] by (simp add: candidates_set)
  have "fst (ns ! j) = fst (?cs ! j)" using list_all2_nthD [OF ns(1) j(1)] by (simp add: raised_def)
  then have "jm_get (sc_rpcs s) (d_rpc d) = Some (snd (?cs ! j))"
    using mem jm.get_entries [OF ok] by (simp add: j(3))
  with assms(4) have e: "snd (?cs ! j) = e" by simp
  have "(k, f) \<in> set ?cs" using assms(5,6) jm.get_entries [OF ok] by (simp add: candidates_set)
  then obtain i where i: "i < length ?cs" "?cs ! i = (k, f)" by (auto simp: in_set_conv_nth)
  have "i < j"
  proof (rule ccontr)
    assume "\<not> i < j"
    then have "map (\<lambda>r. srpt_key (snd r)) ?cs ! j \<le> map (\<lambda>r. srpt_key (snd r)) ?cs ! i"
      using i(1) j(1) by (intro sorted_nth_mono [OF candidates_sorted]) auto
    with i j(1) e assms(7) show False by simp
  qed
  from full_before_nth [OF ns(2) keys(2) this j(1,2)]
  have full: "e_granted (snd (ns ! i)) = e_size (snd (ns ! i))" .
  have r: "raised (k, f) (ns ! i)" using list_all2_nthD [OF ns(1) i(1)] i(2) by simp
  then have "ns ! i = (k, snd (ns ! i))" "e_size (snd (ns ! i)) = e_size f"
    by (auto simp: raised_def prod_eq_iff)
  moreover from this have "map_of ns k = Some (snd (ns ! i))"
    using i(1) keys by (metis map_of_eq_Some_iff nth_mem)
  ultimately show ?thesis
    using full map_of_fold_set [OF keys(1), of "sc_rpcs s" k] by (simp add: ns(4))
qed

theorem sched_strict_srpt_witness:
  "\<exists>out s'. sched_grants 0 sched_sample = (out, s') \<and> srpt_key sched_entry8 < srpt_key sched_entry7 \<and>
    (\<exists>f'. jm_get (sc_rpcs s') 8 = Some f' \<and> e_granted f' = 300)"
proof -
  have e: "jm_get (sc_rpcs sched_sample) 7 = Some sched_entry7" "jm_get (sc_rpcs sched_sample) 8 = Some sched_entry8"
    by (simp_all add: sched_sample_def sched_add_def new_scheduler_def sched_entry7_def sched_entry8_def)
  have lt: "srpt_key sched_entry8 < srpt_key sched_entry7" "wants sched_entry8" "e_size sched_entry8 = 300"
    by (simp_all add: srpt_key_def sched_entry7_def sched_entry8_def wants_def)
  show ?thesis
    using sched_strict_srpt [OF sched_sample_reach sched_sample_grants, of "\<lparr>d_rpc = 7, d_max = 100, d_priority = 1\<rparr>"]
      e lt sched_sample_grants by fastforce
qed

text \<open>C33: no deadlock: with nothing in flight, any free budget at all and any transfer that wants bytes
  lead to a grant, whatever \<open>minIncrement\<close> a page has set. With bytes in flight, a quarter of the budget
  free (at least one byte) is enough.\<close>

theorem sched_no_deadlock:
  assumes "sched_reach s" "sched_grants reserved s = (out, s')"
    "jm_get (sc_rpcs s) k = Some e" "wants e" "sched_outstanding s + reserved < sc_budget s"
    "sched_outstanding s = 0 \<or> max 1 (sc_budget s / 4) \<le> sc_budget s - reserved - sched_outstanding s"
  shows "out \<noteq> []"
proof -
  have ok: "jm_ok (sc_rpcs s)" using sched_reach_ok [OF assms(1)] by (simp add: sched_ok_def)
  obtain ns where ns: "list_all2 raised (candidates s) ns" "out = decisions_of 0 (candidates s) ns"
    "full_before (candidates s) ns"
    "candidates s \<noteq> [] \<Longrightarrow> 0 < sc_budget s - reserved - sched_outstanding s \<Longrightarrow>
      effective_increment s \<le> sc_budget s - reserved - sched_outstanding s \<or> sched_outstanding s = 0 \<Longrightarrow>
      ns \<noteq> candidates s"
    using sched_grants_spec [OF ok assms(2)] by metis
  have "of_int \<lfloor>sc_budget s / 4\<rfloor> \<le> sc_budget s / 4" by (rule of_int_floor_le)
  then have "effective_increment s \<le> max 1 (sc_budget s / 4)"
    by (auto simp: effective_increment_def MIN_INCREMENT_BUDGET_SHARE_def min_def max_def)
  moreover have "(k, e) \<in> set (candidates s)"
    using assms(3,4) jm.get_entries [OF ok] by (simp add: candidates_set)
  ultimately have "ns \<noteq> candidates s" using ns(4) assms(5,6) by force
  then obtain i where i: "i < length (candidates s)" "ns ! i \<noteq> candidates s ! i"
    using list_all2_lengthD [OF ns(1)] by (metis nth_equalityI)
  then show ?thesis
    using decisions_of_changed [OF ns(1,3) wants_candidates] unfolding ns(2) by (metis empty_iff empty_set)
qed

theorem sched_no_deadlock_witness:
  "fst (sched_grants 0 (sched_add 7 1000000 0 0 Normal (new_scheduler 131072 1000000 None))) \<noteq> []"
proof -
  let ?s = "sched_add 7 1000000 0 0 Normal (new_scheduler 131072 1000000 None)"
  have r: "sched_reach ?s" by (intro sched_reach.intros) simp
  have o: "sched_outstanding ?s = 0" "sc_budget ?s = 131072"
    by (simp_all add: sched_outstanding_def sched_add_def new_scheduler_def jm_set_def in_flight_def)
  have g: "jm_get (sc_rpcs ?s) 7 = Some \<lparr>e_size = 1000000, e_granted = 0, e_received = 0, e_paused = False,
      e_seq = 0, e_cls = Normal\<rparr>"
    by (simp add: sched_add_def new_scheduler_def)
  show ?thesis
    by (rule sched_no_deadlock [OF r surjective_pairing g]) (simp_all add: o wants_def)
qed

text \<open>\<open>budgetLimited\<close> is set whenever a round with budget to spend leaves a transfer wanting more.\<close>

theorem sched_limited_complete:
  assumes "sched_reach s" "sched_grants reserved s = (out, s')"
    "jm_get (sc_rpcs s') k = Some e" "wants e" "sched_outstanding s + reserved < sc_budget s"
  shows "sc_limited s'"
proof -
  have ok: "jm_ok (sc_rpcs s)" using sched_reach_ok [OF assms(1)] by (simp add: sched_ok_def)
  obtain ns where ns: "list_all2 raised (candidates s) ns"
    "sc_rpcs s' = fold (\<lambda>(k, v). jm_set k v) ns (sc_rpcs s)"
    "0 < sc_budget s - reserved - sched_outstanding s \<Longrightarrow> list_ex unfinished ns \<Longrightarrow> sc_limited s'"
    using sched_grants_spec [OF ok assms(2)] by metis
  have keys: "map fst ns = map fst (candidates s)" "distinct (map fst ns)"
    using raised_fst [OF ns(1)] candidates_distinct [OF ok] by auto
  have "map_of ns k = Some e"
  proof (cases "map_of ns k")
    case None
    then have k: "k \<notin> set (map fst (candidates s))" unfolding keys(1) [symmetric] by (simp add: map_of_eq_None_iff)
    have "jm_get (sc_rpcs s) k = Some e"
      using assms(3) None map_of_fold_set [OF keys(2), of "sc_rpcs s" k] by (simp add: ns(2))
    then have "(k, e) \<in> set (candidates s)"
      using assms(4) jm.get_entries [OF ok] by (simp add: candidates_set)
    with k show ?thesis by force
  next
    case (Some e')
    then show ?thesis using assms(3) map_of_fold_set [OF keys(2), of "sc_rpcs s" k] by (simp add: ns(2))
  qed
  then have "list_ex unfinished ns"
    using assms(4) map_of_SomeD
    unfolding list_ex_iff unfinished_def wants_def by (intro bexI [of _ "(k, e)"]) auto
  with ns(3) assms(5) show ?thesis by simp
qed

theorem sched_limited_complete_witness:
  "\<exists>out s'. sched_grants 0 sched_sample = (out, s') \<and> sc_limited s'"
proof -
  have w: "wants (sched_entry7\<lparr>e_granted := 100\<rparr>)" by (simp add: wants_def sched_entry7_def)
  have o: "sched_outstanding sched_sample = 0" "sc_budget sched_sample = 400"
    by (simp_all add: sched_sample_def sched_outstanding_def sched_add_def new_scheduler_def jm_set_def in_flight_def)
  show ?thesis
    using sched_limited_complete [OF sched_sample_reach sched_sample_grants _ w, of 7] o sched_sample_grants
    by (intro exI conjI) (auto simp: jm_get_Cons)
qed

text \<open>The converse fails: with little budget free, \<open>budgetLimited\<close> stays set by the opening test
  although the round grants every transfer in full and none is left wanting more.\<close>

theorem sched_limited_spurious:
  "let s = sched_add 2 10 0 0 Normal (sched_add 1 1000 950 0 Normal (new_scheduler 1000 1024 None));
       s1 = snd (sched_grants 0 (sched_set_paused 1 True s))
   in sched_reach (sched_set_paused 1 True s) \<and> sc_limited s1 \<and>
      list_all (\<lambda>r. \<not> wants (snd r)) (sc_rpcs s1) \<and> sched_outstanding s1 < sc_budget s1"
proof -
  let ?s = "sched_add 2 10 0 0 Normal (sched_add 1 1000 950 0 Normal (new_scheduler 1000 1024 None))"
  have "sched_reach (sched_set_paused 1 True ?s)" by (intro sched_reach.intros) simp_all
  then show ?thesis
    by (simp add: Let_def sched_set_paused_def sched_modify_def sched_grants_def sched_add_def new_scheduler_def
        sched_outstanding_def in_flight_def candidates_def wants_def srpt_key_def effective_increment_def
        grant_step_def MIN_INCREMENT_BUDGET_SHARE_def jm_set_def jm_get_Cons)
qed

section \<open>Every transfer finishes\<close>

text \<open>A network that loses nothing: after each round all granted bytes arrive.\<close>

definition deliver_all :: "scheduler \<Rightarrow> scheduler" where
  "deliver_all s = s\<lparr>sc_rpcs := map (\<lambda>(k, e). (k, e\<lparr>e_received := max (e_received e) (e_granted e)\<rparr>)) (sc_rpcs s)\<rparr>"

definition transfer_round :: "scheduler \<Rightarrow> scheduler" where
  "transfer_round s = deliver_all (snd (sched_grants 0 s))"

definition bytes_left :: "scheduler \<Rightarrow> num" where
  "bytes_left s = sum_list (map (\<lambda>r. e_size (snd r) - e_granted (snd r)) (sc_rpcs s))"

definition unfinished_count :: "scheduler \<Rightarrow> nat" where
  "unfinished_count s = length (filter unfinished (sc_rpcs s))"

text \<open>What the rounds keep: nothing is paused, and nothing is in flight when a round starts.\<close>

definition calm :: "scheduler \<Rightarrow> bool" where
  "calm s \<longleftrightarrow> jm_ok (sc_rpcs s) \<and> 0 < sc_budget s \<and> (\<forall>r \<in> set (sc_rpcs s).
     \<not> e_paused (snd r) \<and> e_granted (snd r) \<le> e_received (snd r) \<and> e_received (snd r) \<le> e_size (snd r))"

lemma calm_outstanding: "calm s \<Longrightarrow> sched_outstanding s = 0"
proof -
  assume "calm s"
  then have "map (\<lambda>r. in_flight (snd r)) (sc_rpcs s) = map (\<lambda>r. 0) (sc_rpcs s)"
    by (auto simp: calm_def in_flight_def)
  then show ?thesis by (simp only: sched_outstanding_def sum_list_0)
qed

lemma unfinished_count_sum:
  "of_nat (length (filter unfinished rs)) = sum_list (map (\<lambda>r. if unfinished r then 1 else 0 :: num) rs)"
  by (induction rs) auto

lemma deliver_all_simps:
  "jm_ok (sc_rpcs (deliver_all s)) = jm_ok (sc_rpcs s)" "sc_budget (deliver_all s) = sc_budget s"
  "bytes_left (deliver_all s) = bytes_left s" "unfinished_count (deliver_all s) = unfinished_count s"
  by (simp_all add: deliver_all_def jm_ok_def bytes_left_def unfinished_count_def case_prod_beta comp_def
      filter_map unfinished_def [abs_def])

lemma calm_round_entries:
  assumes "calm s" "sched_grants 0 s = (out, s')" "r \<in> set (sc_rpcs s')"
  shows "\<not> e_paused (snd r) \<and> e_granted (snd r) \<le> e_size (snd r) \<and> e_received (snd r) \<le> e_size (snd r)"
proof -
  have ok: "jm_ok (sc_rpcs s)" using assms(1) by (simp add: calm_def)
  obtain ns where ns: "list_all2 raised (candidates s) ns"
    "sc_rpcs s' = fold (\<lambda>(k, v). jm_set k v) ns (sc_rpcs s)"
    using sched_grants_spec [OF ok assms(2)] by metis
  have ok': "jm_ok (sc_rpcs s')" using ok by (simp add: ns(2) fold_set_ok)
  obtain k e' where r: "r = (k, e')" by (cases r)
  then have g: "jm_get (sc_rpcs s') k = Some e'" using assms(3) jm.get_entries [OF ok'] by simp
  have keys: "distinct (map fst ns)" "set (map fst ns) \<subseteq> jm_keys (sc_rpcs s)"
    using raised_fst [OF ns(1)] candidates_distinct [OF ok] by (auto simp: candidates_set jm_keys_fst)
  have "jm_get (sc_rpcs s) k \<noteq> None"
  proof
    assume n: "jm_get (sc_rpcs s) k = None"
    then have "map_of ns k = None" using keys(2) by (auto simp: map_of_eq_None_iff jm_get_keys)
    with n g show False using map_of_fold_set [OF keys(1)] by (simp add: ns(2))
  qed
  then obtain e where e: "jm_get (sc_rpcs s) k = Some e" by blast
  then have "(k, e) \<in> set (sc_rpcs s)" using jm.get_entries [OF ok] by simp
  with assms(1) have b: "\<not> e_paused e \<and> e_granted e \<le> e_received e \<and> e_received e \<le> e_size e"
    by (force simp: calm_def)
  obtain t where "jm_get (sc_rpcs s') k = Some (e\<lparr>e_granted := t\<rparr>)" "t \<le> e_size e \<or> t = e_granted e"
    using sched_grants_entry [OF ok assms(2) e] by (metis (full_types))
  with g b show ?thesis by (auto simp: r)
qed

lemma finished_head:
  assumes "list_all2 raised cs ns" "\<forall>c \<in> set cs. unfinished c" "ns \<noteq> cs" "\<not> unfinished (hd ns)"
  shows "length (filter unfinished ns) < length (filter unfinished cs)"
proof -
  obtain n ns' where ns: "ns = n # ns'" using assms(1,3) by (cases ns) auto
  have "length (filter unfinished ns) \<le> length ns'" using assms(4) by (simp add: ns)
  moreover have "filter unfinished cs = cs" using assms(2) by simp
  ultimately show ?thesis using list_all2_lengthD [OF assms(1)] ns by simp
qed

lemma raised_unfinished_le:
  "list_all2 raised cs ns \<Longrightarrow> length (filter unfinished ns) \<le> length (filter unfinished cs)"
  by (induction rule: list_all2_induct) (auto simp: raised_def unfinished_def)

lemma transfer_round_spec:
  assumes "calm s"
  shows "calm (transfer_round s)" "sc_budget (transfer_round s) = sc_budget s"
    "unfinished_count s \<noteq> 0 \<Longrightarrow> unfinished_count (transfer_round s) \<le> unfinished_count s \<and>
      bytes_left (transfer_round s) \<le> bytes_left s \<and>
      (unfinished_count (transfer_round s) < unfinished_count s \<or>
       bytes_left (transfer_round s) = bytes_left s - sc_budget s)"
proof -
  obtain out s' where g: "sched_grants 0 s = (out, s')" by (cases "sched_grants 0 s")
  then have tr: "transfer_round s = deliver_all s'" by (simp add: transfer_round_def)
  have ok: "jm_ok (sc_rpcs s)" using assms by (simp add: calm_def)
  let ?cs = "candidates s"
  obtain ns where ns: "list_all2 raised ?cs ns" "sc_rpcs s' = fold (\<lambda>(k, v). jm_set k v) ns (sc_rpcs s)"
    "0 \<le> total_granted ns - total_granted ?cs"
    "?cs \<noteq> [] \<Longrightarrow> 0 < sc_budget s \<Longrightarrow> ns \<noteq> ?cs"
    "ns \<noteq> ?cs \<Longrightarrow> \<not> unfinished (hd ns) \<or> total_granted ns - total_granted ?cs = sc_budget s"
    "sc_budget s' = sc_budget s"
    using sched_grants_spec [OF ok g] calm_outstanding [OF assms] by (metis diff_zero)
  show "sc_budget (transfer_round s) = sc_budget s" by (simp add: tr deliver_all_simps ns(6))
  have "jm_ok (sc_rpcs s')" using ok by (simp add: ns(2) fold_set_ok)
  then show "calm (transfer_round s)"
    unfolding calm_def tr deliver_all_simps using calm_round_entries [OF assms g] assms
    by (auto simp: deliver_all_def ns(6) calm_def)
  have total: "sum_list (map (\<lambda>r. f (snd r)) (sc_rpcs s')) = sum_list (map (\<lambda>r. f (snd r)) (sc_rpcs s))
      - sum_list (map (\<lambda>r. f (snd r)) ?cs) + sum_list (map (\<lambda>r. f (snd r)) ns)" for f :: "sched_entry \<Rightarrow> num"
    unfolding ns(2) using raised_fst [OF ns(1)] candidates_distinct [OF ok]
    by (intro fold_set_total [OF ok]) (auto simp: candidates_set)
  have sizes: "sum_list (map (\<lambda>r. e_size (snd r)) ns) = sum_list (map (\<lambda>r. e_size (snd r)) ?cs)"
    using ns(1) by (induction rule: list_all2_induct) (auto simp: raised_def)
  have split: "sum_list (map (\<lambda>r. e_size (snd r) - e_granted (snd r)) rs)
      = sum_list (map (\<lambda>r. e_size (snd r)) rs) - total_granted rs" for rs
    by (induction rs) auto
  have left: "bytes_left s' = bytes_left s - (total_granted ns - total_granted ?cs)"
    using total [of "\<lambda>e. e_size e - e_granted e"] unfolding bytes_left_def split sizes by simp
  have "of_nat (unfinished_count s') + of_nat (length (filter unfinished ?cs)) =
      of_nat (unfinished_count s) + (of_nat (length (filter unfinished ns)) :: num)"
    using total [of "\<lambda>e. if e_granted e < e_size e then 1 else 0"]
    unfolding unfinished_count_def unfinished_count_sum unfinished_def by simp
  then have cnt: "unfinished_count s' + length (filter unfinished ?cs) = unfinished_count s + length (filter unfinished ns)"
    by (metis of_nat_add of_nat_eq_iff)
  show "unfinished_count (transfer_round s) \<le> unfinished_count s \<and>
      bytes_left (transfer_round s) \<le> bytes_left s \<and>
      (unfinished_count (transfer_round s) < unfinished_count s \<or>
       bytes_left (transfer_round s) = bytes_left s - sc_budget s)" if un: "unfinished_count s \<noteq> 0"
  proof -
    have "\<forall>c \<in> set ?cs. unfinished c" by (auto simp: candidates_set wants_def unfinished_def)
    have "filter unfinished (sc_rpcs s) \<noteq> []" using un by (auto simp: unfinished_count_def)
    then obtain r where "r \<in> set (sc_rpcs s)" "unfinished r" by (auto simp: filter_empty_conv)
    then have "r \<in> set ?cs" using assms by (auto simp: candidates_set wants_def unfinished_def calm_def)
    then have "?cs \<noteq> []" by auto
    with ns(4) assms have "ns \<noteq> ?cs" by (simp add: calm_def)
    with ns(5) finished_head [OF ns(1) \<open>\<forall>c \<in> set ?cs. unfinished c\<close>]
    have "length (filter unfinished ns) < length (filter unfinished ?cs) \<or>
        total_granted ns - total_granted ?cs = sc_budget s" by blast
    with cnt left raised_unfinished_le [OF ns(1)] ns(3) show ?thesis
      unfolding tr deliver_all_simps by linarith
  qed
qed

text \<open>Each round finishes a transfer or spends a whole budget.\<close>

lemma rounds_finish:
  assumes "calm s" "unfinished_count s + nat \<lceil>bytes_left s / sc_budget s\<rceil> \<le> n"
  shows "unfinished_count ((transfer_round ^^ n) s) = 0 \<and> calm ((transfer_round ^^ n) s)"
  using assms
proof (induction n arbitrary: s)
  case (Suc n)
  let ?s = "transfer_round s"
  note r = transfer_round_spec [OF Suc.prems(1)]
  have b: "0 < sc_budget s" using Suc.prems(1) by (simp add: calm_def)
  have nn: "0 \<le> bytes_left t" if "calm t" for t
    using that unfolding bytes_left_def calm_def by (intro sum_list_map_nonneg_on) fastforce
  show ?case
  proof (cases "unfinished_count s = 0")
    case True
    have fin: "unfinished_count ((transfer_round ^^ m) t) = 0 \<and> calm ((transfer_round ^^ m) t)"
      if "calm t" "unfinished_count t = 0" for m t
      using that
    proof (induction m arbitrary: t)
      case (Suc m)
      have "candidates t = []"
        using Suc.prems(2) by (auto simp: unfinished_count_def filter_empty_conv candidates_def wants_def unfinished_def)
      then have "sc_rpcs (snd (sched_grants 0 t)) = sc_rpcs t"
        by (simp add: sched_grants_def Let_def)
      then have "unfinished_count (transfer_round t) = 0"
        using Suc.prems(2) by (simp add: transfer_round_def deliver_all_simps) (simp add: unfinished_count_def)
      with Suc.IH [OF transfer_round_spec(1) [OF Suc.prems(1)]] show ?case
        by (simp add: funpow_swap1 del: funpow.simps) (simp add: funpow_swap1)
    qed simp
    from fin [OF Suc.prems(1) True] show ?thesis .
  next
    case False
    note d = r(3) [OF False]
    have "unfinished_count ?s + nat \<lceil>bytes_left ?s / sc_budget ?s\<rceil> \<le> n"
    proof (cases "unfinished_count ?s < unfinished_count s")
      case True
      have "bytes_left ?s / sc_budget s \<le> bytes_left s / sc_budget s"
        using d b by (simp add: divide_right_mono)
      then have "\<lceil>bytes_left ?s / sc_budget s\<rceil> \<le> \<lceil>bytes_left s / sc_budget s\<rceil>" by (rule ceiling_mono)
      with True Suc.prems(2) show ?thesis unfolding r(2) by linarith
    next
      case less: False
      then have eq: "bytes_left ?s = bytes_left s - sc_budget s" using d by simp
      then have "bytes_left ?s / sc_budget s = bytes_left s / sc_budget s - 1"
        using b by (simp add: diff_divide_distrib)
      then have "\<lceil>bytes_left ?s / sc_budget s\<rceil> = \<lceil>bytes_left s / sc_budget s\<rceil> - 1" by simp
      moreover have "0 \<le> bytes_left ?s / sc_budget s" using nn [OF r(1)] b by simp
      then have "0 \<le> \<lceil>bytes_left ?s / sc_budget s\<rceil>" using ceiling_mono by fastforce
      ultimately show ?thesis using Suc.prems(2) d unfolding r(2) by linarith
    qed
    from Suc.IH [OF r(1) this] show ?thesis by (simp add: funpow_swap1)
  qed
qed (simp add: unfinished_count_def)

text \<open>C27: liveness: with nothing paused and a positive budget, when every granted byte arrives before the
  next round, all transfers are granted and received in full, after at most one round per transfer
  and one per budget's worth of bytes left.\<close>

theorem sched_all_finish:
  assumes "sched_reach s" "0 < sc_budget s"
    "\<forall>r \<in> set (sc_rpcs s). \<not> e_paused (snd r) \<and> e_granted (snd r) \<le> e_received (snd r) \<and>
       e_received (snd r) \<le> e_size (snd r)"
    "length (sc_rpcs s) + nat \<lceil>bytes_left s / sc_budget s\<rceil> \<le> n"
  shows "\<forall>r \<in> set (sc_rpcs ((transfer_round ^^ n) s)).
    e_granted (snd r) = e_size (snd r) \<and> e_received (snd r) = e_size (snd r)"
proof -
  have "calm s" using assms sched_reach_ok [OF assms(1)] by (simp add: calm_def sched_ok_def)
  moreover have "unfinished_count s \<le> length (sc_rpcs s)" by (simp add: unfinished_count_def)
  ultimately have f: "unfinished_count ((transfer_round ^^ n) s) = 0" "calm ((transfer_round ^^ n) s)"
    using rounds_finish [of s n] assms(4) by auto
  show ?thesis
  proof
    fix r assume r: "r \<in> set (sc_rpcs ((transfer_round ^^ n) s))"
    with f(1) have "\<not> unfinished r" by (auto simp: unfinished_count_def filter_empty_conv)
    with f(2) r show "e_granted (snd r) = e_size (snd r) \<and> e_received (snd r) = e_size (snd r)"
      by (fastforce simp: calm_def unfinished_def)
  qed
qed

theorem sched_all_finish_witness:
  "list_all (\<lambda>r. e_received (snd r) = e_size (snd r)) (sc_rpcs ((transfer_round ^^ 6) sched_sample))"
proof -
  have f: "sc_budget sched_sample = 400" "length (sc_rpcs sched_sample) = 2" "bytes_left sched_sample = 1300"
    "\<forall>r \<in> set (sc_rpcs sched_sample). \<not> e_paused (snd r) \<and> e_granted (snd r) \<le> e_received (snd r) \<and>
       e_received (snd r) \<le> e_size (snd r)"
    by (simp_all add: sched_sample_def sched_add_def new_scheduler_def jm_set_def bytes_left_def)
  have "\<lceil>1300 / 400 :: num\<rceil> = 4" by (simp add: ceiling_eq_iff)
  then show ?thesis using sched_all_finish [OF sched_sample_reach _ f(4), of 6] f by (simp add: list_all_iff)
qed

end
