(* ===== verification/Budget.thy ===== *)
theory Budget
  imports Prelude
begin

text \<open>
  \<open>class BudgetController\<close> of \<open>client/src/budget.ts\<close>: the grant budget from the measured
  bandwidth-delay product. Times are milliseconds, rates bytes per millisecond, both exact. Before
  the first sample the minimal RTT and the interval start are \<open>None\<close>, the source's \<open>null\<close>.
\<close>

section \<open>State and operations\<close>

definition DEFAULT_K :: num where "DEFAULT_K = 2"

definition DEFAULT_LOSS_FACTOR :: num where "DEFAULT_LOSS_FACTOR = 85 / 100"

definition RATE_WINDOW_ROUNDS :: int where "RATE_WINDOW_ROUNDS = 10"

definition MIN_RTT_WINDOW_MS :: num where "MIN_RTT_WINDOW_MS = 10000"

definition MIN_INTERVAL_MS :: num where "MIN_INTERVAL_MS = 4"

record rate_sample =
  rs_round :: int
  rs_rate :: num

record budget_ctl =
  bc_floor :: num
  bc_cap :: num
  bc_k :: num
  bc_loss_factor :: num
  bc_min_rtt :: "num option"
  bc_min_rtt_at :: num
  bc_samples :: "rate_sample list"
  bc_round :: int
  bc_interval_start :: "num option"
  bc_interval_bytes :: num
  bc_interval_limited :: bool
  bc_hold_until :: num
  bc_current :: num

definition or_default :: "'a option \<Rightarrow> 'a \<Rightarrow> 'a" where
  "or_default x d = (case x of None \<Rightarrow> d | Some v \<Rightarrow> v)"

definition new_budget :: "num \<Rightarrow> num \<Rightarrow> num option \<Rightarrow> num option \<Rightarrow> budget_ctl" where
  "new_budget fl cap k lf =
     \<lparr>bc_floor = fl, bc_cap = max fl cap, bc_k = or_default k DEFAULT_K,
      bc_loss_factor = or_default lf DEFAULT_LOSS_FACTOR, bc_min_rtt = None, bc_min_rtt_at = 0,
      bc_samples = [], bc_round = 0, bc_interval_start = None, bc_interval_bytes = 0,
      bc_interval_limited = False, bc_hold_until = 0, bc_current = fl\<rparr>"

text \<open>\<open>get maxRate\<close> folds \<open>Math.max\<close> from 0.\<close>

definition bc_max_rate :: "budget_ctl \<Rightarrow> num" where
  "bc_max_rate b = fold (\<lambda>s m. max m (rs_rate s)) (bc_samples b) 0"

definition bc_bdp :: "budget_ctl \<Rightarrow> num" where
  "bc_bdp b = (case bc_min_rtt b of None \<Rightarrow> 0 | Some r \<Rightarrow> bc_max_rate b * r)"

definition on_rtt_sample :: "num \<Rightarrow> num \<Rightarrow> budget_ctl \<Rightarrow> budget_ctl" where
  "on_rtt_sample rtt now b =
     (if (case bc_min_rtt b of None \<Rightarrow> True | Some m \<Rightarrow> rtt \<le> m) \<or> now - bc_min_rtt_at b > MIN_RTT_WINDOW_MS
      then b\<lparr>bc_min_rtt := Some rtt, bc_min_rtt_at := now\<rparr> else b)"

definition note_limited :: "budget_ctl \<Rightarrow> budget_ctl" where
  "note_limited b = b\<lparr>bc_interval_limited := True\<rparr>"

definition bc_update :: "num \<Rightarrow> budget_ctl \<Rightarrow> budget_ctl" where
  "bc_update now b =
     (let target = min (bc_cap b) (max (bc_floor b) (of_int \<lfloor>bc_k b * bc_bdp b\<rfloor>))
      in b\<lparr>bc_current := (if now < bc_hold_until b then min (bc_current b) target else target)\<rparr>)"

definition on_delivered :: "num \<Rightarrow> num \<Rightarrow> budget_ctl \<Rightarrow> budget_ctl" where
  "on_delivered bytes now b =
     (case bc_interval_start b of
        None \<Rightarrow> b\<lparr>bc_interval_start := Some now\<rparr>
      | Some st \<Rightarrow>
          let b1 = b\<lparr>bc_interval_bytes := bc_interval_bytes b + bytes\<rparr>;
              elapsed = now - st
          in if elapsed < max MIN_INTERVAL_MS (or_default (bc_min_rtt b) 0) then b1
             else
               let rate = bc_interval_bytes b1 / elapsed;
                   b2 = b1\<lparr>bc_round := bc_round b1 + 1\<rparr>;
                   b3 = b2\<lparr>bc_samples := filter (\<lambda>s. bc_round b2 - rs_round s < RATE_WINDOW_ROUNDS) (bc_samples b2)\<rparr>;
                   b4 = (if bc_interval_limited b3 \<or> rate > bc_max_rate b3
                         then b3\<lparr>bc_samples := bc_samples b3 @ [\<lparr>rs_round = bc_round b3, rs_rate = rate\<rparr>]\<rparr>
                         else b3)
               in bc_update now (b4\<lparr>bc_interval_start := Some now, bc_interval_bytes := 0,
                    bc_interval_limited := False\<rparr>))"

definition bc_on_loss :: "num \<Rightarrow> budget_ctl \<Rightarrow> budget_ctl" where
  "bc_on_loss now b =
     b\<lparr>bc_current := max (bc_floor b) (of_int \<lfloor>bc_current b * bc_loss_factor b\<rfloor>),
       bc_hold_until := now + or_default (bc_min_rtt b) 0\<rparr>"

section \<open>Events\<close>

datatype budget_ev = Rtt num num | Limited | Delivered num num | Loss num

fun budget_event :: "budget_ev \<Rightarrow> budget_ctl \<Rightarrow> budget_ctl" where
  "budget_event (Rtt rtt now) b = on_rtt_sample rtt now b"
| "budget_event Limited b = note_limited b"
| "budget_event (Delivered bytes now) b = on_delivered bytes now b"
| "budget_event (Loss now) b = bc_on_loss now b"

definition budget_run :: "budget_ev list \<Rightarrow> budget_ctl \<Rightarrow> budget_ctl" where
  "budget_run evs b = fold budget_event evs b"

text \<open>What the configuration must give for the bounds: a floor that is not negative, a loss factor in
  \<open>[0, 1]\<close>.\<close>

definition config_ok :: "budget_ctl \<Rightarrow> bool" where
  "config_ok b \<longleftrightarrow> 0 \<le> bc_floor b \<and> bc_floor b \<le> bc_cap b \<and> 0 \<le> bc_loss_factor b \<and> bc_loss_factor b \<le> 1"

definition budget_inv :: "budget_ctl \<Rightarrow> bool" where
  "budget_inv b \<longleftrightarrow> config_ok b \<and> bc_floor b \<le> bc_current b \<and> bc_current b \<le> bc_cap b"

text \<open>The rate window: rounds rise, and all lie in the last \<open>RATE_WINDOW_ROUNDS\<close>.\<close>

definition window_ok :: "budget_ctl \<Rightarrow> bool" where
  "window_ok b \<longleftrightarrow> sorted_wrt (\<lambda>s s'. rs_round s < rs_round s') (bc_samples b) \<and>
     (\<forall>s \<in> set (bc_samples b). bc_round b - RATE_WINDOW_ROUNDS < rs_round s \<and> rs_round s \<le> bc_round b)"

lemma fold_max_ge: "m \<le> fold (\<lambda>s m. max m (rs_rate s)) ss m"
proof (induction ss arbitrary: m)
  case (Cons s ss)
  have "max m (rs_rate s) \<le> fold (\<lambda>s m. max m (rs_rate s)) ss (max m (rs_rate s))" by (rule Cons.IH)
  then show ?case by simp
qed simp

lemma fold_max_mem: "s \<in> set ss \<Longrightarrow> rs_rate s \<le> fold (\<lambda>s m. max m (rs_rate s)) ss m"
proof (induction ss arbitrary: m)
  case (Cons x ss)
  then show ?case using fold_max_ge [of "max m (rs_rate x)" ss] by auto
qed simp

lemma fold_max_le: "(\<forall>s \<in> set ss. rs_rate s \<le> M) \<Longrightarrow> m \<le> M \<Longrightarrow> fold (\<lambda>s m. max m (rs_rate s)) ss m \<le> M"
  by (induction ss arbitrary: m) auto

lemma max_rate_spec:
  "0 \<le> bc_max_rate b" "s \<in> set (bc_samples b) \<Longrightarrow> rs_rate s \<le> bc_max_rate b"
  "0 \<le> M \<Longrightarrow> (\<forall>s \<in> set (bc_samples b). rs_rate s \<le> M) \<Longrightarrow> bc_max_rate b \<le> M"
  unfolding bc_max_rate_def by (rule fold_max_ge, erule fold_max_mem, rule fold_max_le)

lemma bc_update_sels [simp]:
  "bc_floor (bc_update now b) = bc_floor b" "bc_cap (bc_update now b) = bc_cap b"
  "bc_loss_factor (bc_update now b) = bc_loss_factor b" "bc_hold_until (bc_update now b) = bc_hold_until b"
  "bc_samples (bc_update now b) = bc_samples b" "bc_round (bc_update now b) = bc_round b"
  "bc_k (bc_update now b) = bc_k b" "bc_min_rtt (bc_update now b) = bc_min_rtt b"
  by (simp_all add: bc_update_def Let_def)

text \<open>The end of an interval, in one step.\<close>

definition interval_rate :: "num \<Rightarrow> num \<Rightarrow> budget_ctl \<Rightarrow> num" where
  "interval_rate bytes now b =
     (bc_interval_bytes b + bytes) / (now - or_default (bc_interval_start b) 0)"

definition interval_ends :: "num \<Rightarrow> budget_ctl \<Rightarrow> bool" where
  "interval_ends now b \<longleftrightarrow> (\<exists>st. bc_interval_start b = Some st \<and>
     now - st \<ge> max MIN_INTERVAL_MS (or_default (bc_min_rtt b) 0))"

definition next_samples :: "num \<Rightarrow> num \<Rightarrow> budget_ctl \<Rightarrow> rate_sample list" where
  "next_samples bytes now b =
     (let old = filter (\<lambda>s. bc_round b + 1 - rs_round s < RATE_WINDOW_ROUNDS) (bc_samples b)
      in if bc_interval_limited b \<or> interval_rate bytes now b > fold (\<lambda>s m. max m (rs_rate s)) old 0
         then old @ [\<lparr>rs_round = bc_round b + 1, rs_rate = interval_rate bytes now b\<rparr>] else old)"

lemma on_delivered_ends:
  assumes "interval_ends now b"
  shows "on_delivered bytes now b = bc_update now (b\<lparr>bc_round := bc_round b + 1,
    bc_samples := next_samples bytes now b, bc_interval_start := Some now, bc_interval_bytes := 0,
    bc_interval_limited := False\<rparr>)"
  using assms
  by (auto simp: on_delivered_def interval_ends_def next_samples_def interval_rate_def or_default_def
      bc_max_rate_def Let_def)

lemma on_delivered_open:
  assumes "\<not> interval_ends now b"
  shows "\<exists>st n. on_delivered bytes now b = b\<lparr>bc_interval_start := st, bc_interval_bytes := n\<rparr>"
proof (cases "bc_interval_start b")
  case None
  then show ?thesis by (intro exI [of _ "Some now"] exI [of _ "bc_interval_bytes b"]) (simp add: on_delivered_def)
next
  case (Some st)
  then show ?thesis using assms
    by (intro exI [of _ "Some st"] exI [of _ "bc_interval_bytes b + bytes"])
       (auto simp: on_delivered_def interval_ends_def Let_def)
qed

lemma bc_update_current:
  assumes "bc_floor b \<le> bc_cap b" "bc_floor b \<le> bc_current b" "bc_current b \<le> bc_cap b"
  shows "bc_floor b \<le> bc_current (bc_update now b)" "bc_current (bc_update now b) \<le> bc_cap b"
  using assms by (auto simp: bc_update_def Let_def)

lemma loss_shrinks:
  assumes "budget_inv b"
  shows "max (bc_floor b) (of_int \<lfloor>bc_current b * bc_loss_factor b\<rfloor>) \<le> bc_current b"
proof -
  have "bc_current b * bc_loss_factor b \<le> bc_current b * 1"
    using assms by (intro mult_left_mono) (auto simp: budget_inv_def config_ok_def)
  then have "of_int \<lfloor>bc_current b * bc_loss_factor b\<rfloor> \<le> bc_current b"
    by (metis mult.right_neutral of_int_floor_le order_trans)
  with assms show ?thesis by (simp add: budget_inv_def)
qed

lemma budget_event_config:
  "bc_floor (budget_event ev b) = bc_floor b \<and> bc_cap (budget_event ev b) = bc_cap b \<and>
    bc_loss_factor (budget_event ev b) = bc_loss_factor b \<and> bc_k (budget_event ev b) = bc_k b"
proof (cases ev)
  case (Delivered bytes now)
  then show ?thesis
    using on_delivered_ends [of now b bytes] on_delivered_open [of now b bytes]
    by (cases "interval_ends now b") auto
qed (auto simp: on_rtt_sample_def note_limited_def bc_on_loss_def)

lemma budget_event_inv: "budget_inv b \<Longrightarrow> budget_inv (budget_event ev b)"
proof (cases ev)
  case (Delivered bytes now)
  assume inv: "budget_inv b"
  show ?thesis
  proof (cases "interval_ends now b")
    case True
    then show ?thesis
      using inv bc_update_current [of "b\<lparr>bc_round := bc_round b + 1,
        bc_samples := next_samples bytes now b, bc_interval_start := Some now, bc_interval_bytes := 0,
        bc_interval_limited := False\<rparr>" now]
      by (simp add: Delivered on_delivered_ends budget_inv_def config_ok_def)
  next
    case False
    then show ?thesis using inv on_delivered_open [of now b bytes]
      by (auto simp: Delivered budget_inv_def config_ok_def)
  qed
next
  case (Loss now)
  assume inv: "budget_inv b"
  then show ?thesis using loss_shrinks [OF inv]
    by (auto simp: Loss bc_on_loss_def budget_inv_def config_ok_def)
qed (auto simp: on_rtt_sample_def note_limited_def budget_inv_def config_ok_def)

lemma next_samples_window:
  assumes "window_ok b"
  shows "sorted_wrt (\<lambda>s s'. rs_round s < rs_round s') (next_samples bytes now b)"
    "\<forall>s \<in> set (next_samples bytes now b). bc_round b + 1 - RATE_WINDOW_ROUNDS < rs_round s \<and> rs_round s \<le> bc_round b + 1"
proof -
  let ?old = "filter (\<lambda>s. bc_round b + 1 - rs_round s < RATE_WINDOW_ROUNDS) (bc_samples b)"
  let ?new = "\<lparr>rs_round = bc_round b + 1, rs_rate = interval_rate bytes now b\<rparr>"
  have cases: "next_samples bytes now b = ?old @ [?new] \<or> next_samples bytes now b = ?old"
    by (auto simp: next_samples_def Let_def)
  have s: "sorted_wrt (\<lambda>s s'. rs_round s < rs_round s') ?old"
    using assms by (auto simp: window_ok_def intro: sorted_wrt_filter)
  have r: "bc_round b + 1 - RATE_WINDOW_ROUNDS < rs_round x \<and> rs_round x \<le> bc_round b" if "x \<in> set ?old" for x
  proof -
    from that have "bc_round b + 1 - rs_round x < RATE_WINDOW_ROUNDS" "x \<in> set (bc_samples b)" by auto
    with assms show ?thesis by (auto simp: window_ok_def)
  qed
  have r': "rs_round x < bc_round b + 1" if "x \<in> set ?old" for x using r [OF that] by simp
  from cases show "sorted_wrt (\<lambda>s s'. rs_round s < rs_round s') (next_samples bytes now b)"
  proof
    assume "next_samples bytes now b = ?old @ [?new]"
    then show ?thesis using s r' by (simp only: sorted_wrt_append) simp
  qed (use s in simp)
  from cases show "\<forall>s \<in> set (next_samples bytes now b). bc_round b + 1 - RATE_WINDOW_ROUNDS < rs_round s \<and> rs_round s \<le> bc_round b + 1"
  proof
    assume e: "next_samples bytes now b = ?old @ [?new]"
    show ?thesis
    proof
      fix x assume "x \<in> set (next_samples bytes now b)"
      then have "x = ?new \<or> x \<in> set ?old" unfolding e by auto
      then show "bc_round b + 1 - RATE_WINDOW_ROUNDS < rs_round x \<and> rs_round x \<le> bc_round b + 1"
        using r [of x] by (auto simp: RATE_WINDOW_ROUNDS_def)
    qed
  next
    assume e: "next_samples bytes now b = ?old"
    show ?thesis
    proof
      fix x assume "x \<in> set (next_samples bytes now b)"
      then have "x \<in> set ?old" unfolding e .
      from r [OF this] show "bc_round b + 1 - RATE_WINDOW_ROUNDS < rs_round x \<and> rs_round x \<le> bc_round b + 1"
        by simp
    qed
  qed
qed

lemma budget_event_window: "window_ok b \<Longrightarrow> window_ok (budget_event ev b)"
proof (cases ev)
  case (Delivered bytes now)
  assume w: "window_ok b"
  show ?thesis
  proof (cases "interval_ends now b")
    case True
    then show ?thesis using next_samples_window [OF w, of bytes now]
      by (simp add: Delivered on_delivered_ends window_ok_def)
  next
    case False
    then show ?thesis using w on_delivered_open [of now b bytes] by (auto simp: Delivered window_ok_def)
  qed
qed (auto simp: on_rtt_sample_def note_limited_def bc_on_loss_def window_ok_def)

lemma sorted_rounds_length:
  "sorted_wrt (\<lambda>s s'. rs_round s < rs_round s') ss \<Longrightarrow> \<forall>s \<in> set ss. lo < rs_round s \<and> rs_round s \<le> hi \<Longrightarrow>
    lo \<le> hi \<Longrightarrow> int (length ss) \<le> hi - lo"
proof (induction ss arbitrary: lo)
  case (Cons s ss)
  then have "int (length ss) \<le> hi - rs_round s" by (intro Cons.IH) auto
  with Cons.prems show ?case by simp
qed simp

lemma budget_run_induct:
  assumes "P b" "\<And>b ev. P b \<Longrightarrow> P (budget_event ev b)"
  shows "P (budget_run evs b)"
  unfolding budget_run_def using assms by (induction evs arbitrary: b) auto

lemma new_budget_inv:
  "0 \<le> fl \<Longrightarrow> 0 \<le> or_default lf DEFAULT_LOSS_FACTOR \<Longrightarrow> or_default lf DEFAULT_LOSS_FACTOR \<le> 1 \<Longrightarrow>
    budget_inv (new_budget fl cap k lf) \<and> window_ok (new_budget fl cap k lf)"
  by (simp add: new_budget_def budget_inv_def config_ok_def window_ok_def)

section \<open>Properties\<close>

text \<open>C37: whatever is measured, and in whatever order, the budget stays between the floor and the cap
  (or the floor, when the cap is below it).\<close>

theorem budget_bounded:
  assumes "0 \<le> fl" "0 \<le> or_default lf DEFAULT_LOSS_FACTOR" "or_default lf DEFAULT_LOSS_FACTOR \<le> 1"
  shows "fl \<le> bc_current (budget_run evs (new_budget fl cap k lf)) \<and>
    bc_current (budget_run evs (new_budget fl cap k lf)) \<le> max fl cap"
proof -
  let ?b = "new_budget fl cap k lf"
  have "budget_inv (budget_run evs ?b) \<and> bc_floor (budget_run evs ?b) = fl \<and> bc_cap (budget_run evs ?b) = max fl cap"
  proof (rule budget_run_induct)
    show "budget_inv ?b \<and> bc_floor ?b = fl \<and> bc_cap ?b = max fl cap"
      using new_budget_inv [OF assms] by (simp add: new_budget_def)
  qed (simp add: budget_event_inv budget_event_config)
  then show ?thesis by (simp add: budget_inv_def)
qed

theorem budget_bounded_witness:
  "bc_current (budget_run [Rtt 50 0, Delivered 1000 0, Limited, Delivered 1000000 60, Loss 61]
     (new_budget 131072 4194304 None None)) \<le> 4194304 \<and>
   0 \<le> or_default None DEFAULT_LOSS_FACTOR"
  using budget_bounded [of 131072 None "[Rtt 50 0, Delivered 1000 0, Limited, Delivered 1000000 60, Loss 61]" 4194304 None]
  by (simp add: or_default_def DEFAULT_LOSS_FACTOR_def)

text \<open>The rate window holds at most one sample for each of the last ten delivery rounds.\<close>

theorem budget_window_bounded:
  "length (bc_samples (budget_run evs (new_budget fl cap k lf))) \<le> 10 \<and>
   (\<forall>s \<in> set (bc_samples (budget_run evs (new_budget fl cap k lf))).
      bc_round (budget_run evs (new_budget fl cap k lf)) - 10 < rs_round s)"
proof -
  let ?b = "budget_run evs (new_budget fl cap k lf)"
  have w: "window_ok ?b"
    by (rule budget_run_induct [of window_ok]) (simp_all add: budget_event_window, simp add: window_ok_def new_budget_def)
  then have "int (length (bc_samples ?b)) \<le> bc_round ?b - (bc_round ?b - 10)"
    by (intro sorted_rounds_length) (auto simp: window_ok_def RATE_WINDOW_ROUNDS_def)
  with w show ?thesis by (auto simp: window_ok_def RATE_WINDOW_ROUNDS_def)
qed

theorem budget_window_bounded_witness:
  "length (bc_samples (budget_run [Delivered 0 0, Delivered 100 5, Delivered 100 10] (new_budget 10 100 None None))) \<le> 10 \<and>
   list_all (\<lambda>s. bc_round (budget_run [Delivered 0 0, Delivered 100 5, Delivered 100 10] (new_budget 10 100 None None)) - 10 < rs_round s)
     (bc_samples (budget_run [Delivered 0 0, Delivered 100 5, Delivered 100 10] (new_budget 10 100 None None)))"
  unfolding list_all_iff by (rule budget_window_bounded)

text \<open>The time of an event, and events before a deadline with no further loss.\<close>

fun before_deadline :: "num \<Rightarrow> budget_ev \<Rightarrow> bool" where
  "before_deadline t (Rtt rtt now) \<longleftrightarrow> now < t"
| "before_deadline t Limited \<longleftrightarrow> True"
| "before_deadline t (Delivered bytes now) \<longleftrightarrow> now < t"
| "before_deadline t (Loss now) \<longleftrightarrow> False"

lemma held_event:
  assumes "before_deadline (bc_hold_until b) ev"
  shows "bc_current (budget_event ev b) \<le> bc_current b \<and> bc_hold_until (budget_event ev b) = bc_hold_until b"
proof (cases ev)
  case (Delivered bytes now)
  then have "now < bc_hold_until b" using assms by simp
  then show ?thesis
    using on_delivered_ends [of now b bytes] on_delivered_open [of now b bytes]
    by (cases "interval_ends now b") (auto simp: Delivered bc_update_def Let_def)
qed (use assms in \<open>auto simp: on_rtt_sample_def note_limited_def\<close>)

text \<open>After a loss the budget does not grow for one minimal round trip.\<close>

theorem budget_held_after_loss:
  assumes "budget_inv b" "\<forall>ev \<in> set evs. before_deadline (now + or_default (bc_min_rtt b) 0) ev"
  shows "bc_current (budget_run evs (bc_on_loss now b)) \<le> bc_current (bc_on_loss now b) \<and>
    bc_current (bc_on_loss now b) \<le> bc_current b"
proof -
  have "bc_current (fold budget_event evs c) \<le> bc_current c"
    if "\<forall>ev \<in> set evs. before_deadline (bc_hold_until c) ev" for c
    using that
  proof (induction evs arbitrary: c)
    case (Cons ev evs)
    then have e: "bc_current (budget_event ev c) \<le> bc_current c"
      "bc_hold_until (budget_event ev c) = bc_hold_until c" using held_event by auto
    with Cons have "bc_current (fold budget_event evs (budget_event ev c)) \<le> bc_current (budget_event ev c)"
      by (intro Cons.IH) simp
    with e show ?case by simp
  qed simp
  from this [of "bc_on_loss now b"] assms loss_shrinks [OF assms(1)] show ?thesis
    by (simp add: budget_run_def bc_on_loss_def)
qed

definition busy_budget :: budget_ctl where
  "busy_budget = \<lparr>bc_floor = 100, bc_cap = 1000, bc_k = 2, bc_loss_factor = 85 / 100, bc_min_rtt = Some 20,
     bc_min_rtt_at = 0, bc_samples = [\<lparr>rs_round = 1, rs_rate = 20\<rparr>], bc_round = 1,
     bc_interval_start = Some 40, bc_interval_bytes = 0, bc_interval_limited = True,
     bc_hold_until = 0, bc_current = 800\<rparr>"

theorem budget_held_after_loss_witness:
  "bc_current (budget_run [Delivered 5000 69] (bc_on_loss 50 busy_budget)) \<le> bc_current (bc_on_loss 50 busy_budget) \<and>
   bc_current (bc_on_loss 50 busy_budget) = 680"
proof -
  have "budget_inv busy_budget" by (simp add: busy_budget_def budget_inv_def config_ok_def)
  from budget_held_after_loss [OF this, of "[Delivered 5000 69]" 50]
  show ?thesis by (simp add: busy_budget_def or_default_def bc_on_loss_def)
qed

text \<open>C38: while the budget is the limit it follows delivery: an interval that ends with no hold in force
  leaves a budget of at least \<open>k\<close> times the bytes it delivered per minimal round trip, up to the
  cap. With \<open>k = 2\<close> an interval of one round trip that delivered the whole budget doubles it.\<close>

theorem budget_follows_delivery:
  assumes "interval_ends now b" "bc_interval_limited b" "bc_hold_until b \<le> now" "0 \<le> bc_k b"
    "bc_min_rtt b = Some r" "0 \<le> r"
  shows "min (bc_cap b) (of_int \<lfloor>bc_k b * (interval_rate bytes now b * r)\<rfloor>) \<le> bc_current (on_delivered bytes now b)"
proof -
  let ?b = "b\<lparr>bc_round := bc_round b + 1, bc_samples := next_samples bytes now b,
    bc_interval_start := Some now, bc_interval_bytes := 0, bc_interval_limited := False\<rparr>"
  have "\<lparr>rs_round = bc_round b + 1, rs_rate = interval_rate bytes now b\<rparr> \<in> set (bc_samples ?b)"
    using assms(2) by (simp add: next_samples_def Let_def)
  from max_rate_spec(2) [OF this] have "interval_rate bytes now b \<le> bc_max_rate ?b" by simp
  then have "bc_k b * (interval_rate bytes now b * r) \<le> bc_k b * (bc_max_rate ?b * r)"
    using assms(4,6) by (intro mult_left_mono mult_right_mono)
  then have "\<lfloor>bc_k b * (interval_rate bytes now b * r)\<rfloor> \<le> \<lfloor>bc_k b * bc_bdp ?b\<rfloor>"
    using assms(5) by (intro floor_mono) (simp add: bc_bdp_def)
  moreover have "bc_current (on_delivered bytes now b) =
      min (bc_cap b) (max (bc_floor b) (of_int \<lfloor>bc_k b * bc_bdp ?b\<rfloor>))"
    unfolding on_delivered_ends [OF assms(1)] using assms(3) by (simp add: bc_update_def Let_def)
  ultimately show ?thesis by (auto simp: min_def max_def)
qed

theorem budget_follows_delivery_witness:
  "400 \<le> bc_current (on_delivered 200 60 (busy_budget\<lparr>bc_current := 200\<rparr>)) \<and>
   interval_ends 60 (busy_budget\<lparr>bc_current := 200\<rparr>)"
proof -
  let ?b = "busy_budget\<lparr>bc_current := 200\<rparr>"
  have e: "interval_ends 60 ?b" by (simp add: interval_ends_def busy_budget_def or_default_def MIN_INTERVAL_MS_def)
  have "interval_rate 200 60 ?b = 10" by (simp add: interval_rate_def busy_budget_def or_default_def)
  with budget_follows_delivery [OF e, of 20 200] e show ?thesis by (simp add: busy_budget_def)
qed

end
