(* ===== verification/Session.thy ===== *)
theory Session
  imports Repair SeqTracker Scheduler Budget
begin

text \<open>
  The state of \<open>class Http4Client\<close> (\<open>client/src/transport.ts\<close>): the options, the transfers, the
  statistics, and the timing rules that read the state without changing it. What leaves the client
  (datagrams written, promises settled, stream chunks) is a log of effects.

  The browser is outside: a clock value and the stream controllers' \<open>desiredSize\<close> come with each
  event (\<open>env\<close>), and rpc ids are arguments. An event reads the clock once.
\<close>

section \<open>Errors and effects\<close>

datatype http4_reason =
    ClientClosed | SessionClosed | AssetIdTooLong | TotalSizeChanged | NoProgress | ServerSaid num

datatype js_error =
    Http4Error http4_reason "num option"
  | ReassemblyRangeError
  | WireError wire_error

text \<open>\<open>err instanceof Http4Error\<close>, then the code.\<close>

fun httpStatusFor :: "js_error \<Rightarrow> num" where
  "httpStatusFor (Http4Error r code) =
     (if code = Some NOT_FOUND then 404
      else if code = Some BAD_REQUEST then 400
      else if code = Some UNKNOWN_RPC then 503
      else 502)"
| "httpStatusFor _ = 502"

type_synonym headers = "(jsstring, jsstring) jsmap"

datatype effect =
    Write "byte list"
  | Resolve int "byte list" headers
  | ResolveStream int num headers
  | RejectWith int js_error
  | Enqueue int "byte list"
  | StreamClose int
  | StreamError int js_error
  | CloseSession

section \<open>Constants\<close>

definition DEFAULT_BUDGET_FLOOR :: num where "DEFAULT_BUDGET_FLOOR = 128 * 1024"
definition DEFAULT_BUDGET_CAP :: num where "DEFAULT_BUDGET_CAP = 16 * 1024 * 1024"
definition DEFAULT_BUDGET_K :: num where "DEFAULT_BUDGET_K = 2"
definition MIN_INITIAL_GRANT :: num where "MIN_INITIAL_GRANT = 4096"
definition MAX_INITIAL_GRANT :: num where "MAX_INITIAL_GRANT = 64 * 1024"
definition DEFAULT_MIN_INCREMENT :: num where "DEFAULT_MIN_INCREMENT = 16 * 1024"
definition DEFAULT_RTO_FLOOR_MS :: num where "DEFAULT_RTO_FLOOR_MS = 20"
definition INITIAL_RTO_MS :: num where "INITIAL_RTO_MS = 100"
definition MAX_INITIAL_RTO_MS :: num where "MAX_INITIAL_RTO_MS = 1000"
definition DEFAULT_MAX_RECOVERIES :: num where "DEFAULT_MAX_RECOVERIES = 10"
definition MAX_RTO_MS :: num where "MAX_RTO_MS = 2000"
definition MAX_RESEND_RANGES :: nat where "MAX_RESEND_RANGES = 16"
definition DEFAULT_REORDER_PACKETS :: num where "DEFAULT_REORDER_PACKETS = 3"
definition DEFAULT_PAYLOAD :: num where "DEFAULT_PAYLOAD = 1183"
definition MIN_REORDER_WINDOW_MS :: num where "MIN_REORDER_WINDOW_MS = 1"
definition MAX_REORDER_STEPS :: num where "MAX_REORDER_STEPS = 16"
definition DETECT_INTERVAL_MS :: num where "DETECT_INTERVAL_MS = 1"
definition MIN_REPAIR_DELAY_MS :: num where "MIN_REPAIR_DELAY_MS = 2"
definition SERVER_SEND_QUEUE_PACKETS :: num where "SERVER_SEND_QUEUE_PACKETS = 32"
definition MAX_DRAIN_MS :: num where "MAX_DRAIN_MS = 10000"
definition HELLO_REPEATS :: nat where "HELLO_REPEATS = 3"
definition SEQ_RESEND_TRIES :: int where "SEQ_RESEND_TRIES = 3"
definition DEFAULT_STREAM_HIGH_WATER_MARK :: num where "DEFAULT_STREAM_HIGH_WATER_MARK = 1024 * 1024"
definition STREAM_CHUNK :: num where "STREAM_CHUNK = 64 * 1024"

section \<open>State\<close>

record client_options =
  op_budget :: "num option"
  op_budgetFloor :: "num option"
  op_budgetCap :: "num option"
  op_budgetK :: "num option"
  op_minIncrement :: "num option"
  op_initialGrant :: "num option"
  op_rtoFloorMs :: "num option"
  op_maxRecoveries :: "num option"
  op_earlyResend :: "bool option"
  op_reorderPackets :: "num option"
  op_sessionSeq :: "bool option"
  op_streamHighWaterMark :: "num option"
  op_trace :: "grant_trace list option"
  op_dropOutgoing :: "(packet \<Rightarrow> bool) option"

record settings_echo =
  set_minIncrement :: num
  set_budgetFloor :: num
  set_budgetCap :: num
  set_budgetK :: num
  set_initialGrant :: "num option"

record client_stats =
  packetsIn :: nat
  malformedIn :: nat
  dataBytesIn :: num
  duplicateBytesIn :: num
  grantsSent :: nat
  reqsSent :: nat
  reqRetransmits :: nat
  resendsSent :: nat
  earlyResends :: nat
  tailProbes :: nat
  spuriousRepairs :: nat
  reorderWindowMs :: num
  hellosSent :: nat
  seqNegotiated :: bool
  dataSeqIn :: nat
  seqLost :: num
  seqResendsSent :: nat
  metaIn :: nat
  streamPauses :: nat
  recoveries_stat :: nat
  droppedOutgoing :: nat
  srttMs :: "num option"
  rtoMs :: num
  budget_stat :: num
  bdpBytes :: num
  minRttMs :: "num option"
  budgetMin :: num
  grantsAtFloor :: nat
  settings :: settings_echo

record stream_state =
  st_emitted :: num
  st_paused :: bool
  st_closed :: bool

record transfer =
  tr_rpc :: int
  tr_assetId :: jsstring
  tr_cls :: priority_class
  tr_initialGrant :: num
  tr_asm :: "reassembly option"
  tr_repair :: "repair option"
  tr_lastDetect :: "num option"
  tr_tailProbed :: bool
  tr_headers :: "headers option"
  tr_replied :: bool
  tr_stream :: "stream_state option"
  tr_settled :: bool
  tr_reqSentAt :: num
  tr_reqRetransmitted :: bool
  tr_baseRto :: num
  tr_ceiling :: num
  tr_probe :: "(num \<times> num) option"
  tr_lastProgress :: num
  tr_recoveries :: nat

text \<open>A time that starts at \<open>-Infinity\<close> is \<open>None\<close>. \<open>cl_queueLimit\<close> is the datagram queue's
  \<open>incomingHighWaterMark\<close>, \<open>None\<close> when it is infinite. \<open>cl_reading\<close> holds until \<open>readLoop\<close> leaves its
  loop.\<close>

record client =
  cl_maxDatagramSize :: num
  cl_stats :: client_stats
  cl_transfers :: "(int, transfer) jsmap"
  cl_sched :: scheduler
  cl_budget :: budget_ctl
  cl_fixedInitialGrant :: "num option"
  cl_rtoFloor :: num
  cl_maxRecoveries :: num
  cl_dropOutgoing :: "(packet \<Rightarrow> bool) option"
  cl_earlyResend :: bool
  cl_reorderPackets :: num
  cl_sessionSeq :: bool
  cl_streamHighWaterMark :: num
  cl_seq :: seq_tracker
  cl_lastSeqDetect :: "num option"
  cl_payloadSeen :: num
  cl_reorderSteps :: num
  cl_lastSpuriousAt :: "num option"
  cl_lastLossBackoffAt :: "num option"
  cl_srtt :: "num option"
  cl_rttvar :: num
  cl_initialRto :: num
  cl_lastBackoffAt :: "num option"
  cl_ticker :: bool
  cl_closed :: bool
  cl_sessionClosed :: bool
  cl_reading :: bool
  cl_queueLimit :: "num option"
  cl_log :: "effect list"

record env =
  ev_now :: num
  ev_desired :: "int \<Rightarrow> num"

text \<open>\<open>now - t >= d\<close> for a time that may be \<open>-Infinity\<close>.\<close>

definition since :: "num \<Rightarrow> num option \<Rightarrow> num \<Rightarrow> bool" where
  "since now t d \<longleftrightarrow> (case t of None \<Rightarrow> True | Some u \<Rightarrow> now - u \<ge> d)"

text \<open>\<open>this.payloadSeen || DEFAULT_PAYLOAD\<close>.\<close>

definition payload_guess :: "client \<Rightarrow> num" where
  "payload_guess c = (if cl_payloadSeen c = 0 then DEFAULT_PAYLOAD else cl_payloadSeen c)"

definition isOpen :: "client \<Rightarrow> bool" where
  "isOpen c \<longleftrightarrow> \<not> cl_closed c \<and> \<not> cl_sessionClosed c"

section \<open>Timing rules\<close>

definition rto :: "client \<Rightarrow> num" where
  "rto c = (case cl_srtt c of
      None \<Rightarrow> max (cl_rtoFloor c)
        (case bc_min_rtt (cl_budget c) of
           None \<Rightarrow> cl_initialRto c
         | Some m \<Rightarrow> min MAX_INITIAL_RTO_MS (3 * m))
    | Some srtt \<Rightarrow> min MAX_RTO_MS (max (cl_rtoFloor c) (srtt + 4 * cl_rttvar c)))"

definition reorderWindow :: "client \<Rightarrow> num" where
  "reorderWindow c =
     (let rtt = (case bc_min_rtt (cl_budget c) of None \<Rightarrow> cl_srtt c | Some m \<Rightarrow> Some m);
          quarter = max MIN_REORDER_WINDOW_MS (or_default rtt 0 / 4)
      in min (quarter * cl_reorderSteps c) (max quarter (or_default (cl_srtt c) quarter)))"

text \<open>\<open>this.srtt ?? this.budget.minRttMs ?? d\<close>.\<close>

definition rtt_or :: "num \<Rightarrow> client \<Rightarrow> num" where
  "rtt_or d c = or_default (cl_srtt c) (or_default (bc_min_rtt (cl_budget c)) d)"

definition repairDelay :: "client \<Rightarrow> num" where
  "repairDelay c =
     (let rtt = rtt_or (rto c) c;
          rate = bc_max_rate (cl_budget c);
          queued = SERVER_SEND_QUEUE_PACKETS * payload_guess c;
          drain = (if rate > 0 then queued / rate else rto c)
      in min MAX_RTO_MS (max MIN_REPAIR_DELAY_MS (15 / 10 * rtt + drain)))"

definition drainMs :: "client \<Rightarrow> num" where
  "drainMs c =
     (let rate = bc_max_rate (cl_budget c)
      in if rate > 0 then min MAX_DRAIN_MS (sched_outstanding (cl_sched c) / rate) else 0)"

section \<open>Budget readings\<close>

definition reserved :: "client \<Rightarrow> num" where
  "reserved c = sum_list (map (\<lambda>r. if tr_asm (snd r) = None then tr_initialGrant (snd r) else 0) (cl_transfers c))"

definition nextInitialGrant :: "client \<Rightarrow> num" where
  "nextInitialGrant c =
     (case cl_fixedInitialGrant c of
        Some g \<Rightarrow> g
      | None \<Rightarrow>
          let want = min MAX_INITIAL_GRANT (max MIN_INITIAL_GRANT (of_int \<lfloor>bc_bdp (cl_budget c)\<rfloor>));
              free = bc_current (cl_budget c) - sched_outstanding (cl_sched c) - reserved c
          in max MIN_INITIAL_GRANT (min want free))"

text \<open>\<open>syncQueueLimit\<close>: only ever raises the limit. A datagram that holds no payload makes the
  quotient infinite.\<close>

definition syncQueueLimit :: "client \<Rightarrow> client" where
  "syncQueueLimit c =
     (case cl_queueLimit c of
        None \<Rightarrow> c
      | Some old \<Rightarrow>
          if maxPayload (cl_maxDatagramSize c) = 0 then
            if bc_current (cl_budget c) = 0 then c else c\<lparr>cl_queueLimit := None\<rparr>
          else let want = 2 * of_int \<lceil>bc_current (cl_budget c) / maxPayload (cl_maxDatagramSize c)\<rceil>
               in if want > old then c\<lparr>cl_queueLimit := Some want\<rparr> else c)"

section \<open>State changes that send nothing\<close>

definition upd_stats :: "(client_stats \<Rightarrow> client_stats) \<Rightarrow> client \<Rightarrow> client" where
  "upd_stats f c = c\<lparr>cl_stats := f (cl_stats c)\<rparr>"

definition emit :: "effect \<Rightarrow> client \<Rightarrow> client" where
  "emit x c = c\<lparr>cl_log := cl_log c @ [x]\<rparr>"

definition put_transfer :: "transfer \<Rightarrow> client \<Rightarrow> client" where
  "put_transfer t c = c\<lparr>cl_transfers := jm_set (tr_rpc t) t (cl_transfers c)\<rparr>"

definition sampleRtt :: "num \<Rightarrow> num \<Rightarrow> client \<Rightarrow> client" where
  "sampleRtt now r c =
     (let c1 = c\<lparr>cl_budget := on_rtt_sample r now (cl_budget c)\<rparr>;
          c2 = upd_stats (\<lambda>st. st\<lparr>minRttMs := bc_min_rtt (cl_budget c1)\<rparr>) c1;
          c3 = (case cl_srtt c2 of
                  None \<Rightarrow> c2\<lparr>cl_srtt := Some r, cl_rttvar := r / 2\<rparr>
                | Some srtt \<Rightarrow> c2\<lparr>cl_rttvar := 75 / 100 * cl_rttvar c2 + 25 / 100 * \<bar>srtt - r\<bar>,
                    cl_srtt := Some (875 / 1000 * srtt + 125 / 1000 * r)\<rparr>)
      in upd_stats (\<lambda>st. st\<lparr>srttMs := cl_srtt c3, rtoMs := rto c3\<rparr>) c3)"

definition noteSpurious :: "num \<Rightarrow> client \<Rightarrow> client" where
  "noteSpurious now c =
     (let c1 = upd_stats (\<lambda>st. st\<lparr>spuriousRepairs := spuriousRepairs st + 1\<rparr>) c
      in if \<not> since now (cl_lastSpuriousAt c1) (or_default (cl_srtt c1) MIN_REORDER_WINDOW_MS) then c1
         else let c2 = c1\<lparr>cl_lastSpuriousAt := Some now,
                    cl_reorderSteps := min MAX_REORDER_STEPS (cl_reorderSteps c1 * 2)\<rparr>
              in upd_stats (\<lambda>st. st\<lparr>reorderWindowMs := reorderWindow c2\<rparr>) c2)"

definition lossBackoff :: "num \<Rightarrow> client \<Rightarrow> client" where
  "lossBackoff now c =
     (if \<not> since now (cl_lastLossBackoffAt c) (max MIN_REORDER_WINDOW_MS (rtt_or 0 c)) then c
      else let c1 = c\<lparr>cl_lastLossBackoffAt := Some now, cl_budget := bc_on_loss now (cl_budget c)\<rparr>
           in upd_stats (\<lambda>st. st\<lparr>reorderWindowMs := reorderWindow c1\<rparr>) c1)"

text \<open>\<open>maybeStart\<close> and \<open>flushStream\<close> return the changed transfer; the caller keeps it in the map or
  drops it.\<close>

definition maybeStart :: "transfer \<Rightarrow> client \<Rightarrow> transfer \<times> client" where
  "maybeStart t c =
     (case (tr_stream t, tr_asm t, tr_headers t) of
        (Some st, Some a, Some h) \<Rightarrow>
          if tr_settled t then (t, c)
          else (t\<lparr>tr_settled := True\<rparr>, emit (ResolveStream (tr_rpc t) (asm_size a) h) c)
      | _ \<Rightarrow> (t, c))"

text \<open>\<open>t.asm.bytes.subarray(st.emitted, to)\<close>.\<close>

definition body_slice :: "reassembly \<Rightarrow> num \<Rightarrow> num \<Rightarrow> byte list" where
  "body_slice a i j = subarray (asm_bytes a) (nat \<lfloor>i\<rfloor>) (nat \<lfloor>j\<rfloor>)"

definition flush_chunk :: "transfer \<Rightarrow> stream_state \<Rightarrow> reassembly \<Rightarrow> client \<Rightarrow> stream_state \<times> client" where
  "flush_chunk t st a c =
     (let upto = asm_contiguous a;
          pending = upto - st_emitted st
      in if pending > 0 \<and> (st_emitted st = 0 \<or> pending \<ge> STREAM_CHUNK \<or> asm_complete a)
         then (st\<lparr>st_emitted := upto\<rparr>, emit (Enqueue (tr_rpc t) (body_slice a (st_emitted st) upto)) c)
         else (st, c))"

definition flushStream :: "env \<Rightarrow> transfer \<Rightarrow> client \<Rightarrow> transfer \<times> client" where
  "flushStream e t c =
     (case (tr_stream t, tr_asm t) of
        (Some st, Some a) \<Rightarrow>
          if st_closed st then (t, c)
          else
            let (st1, c1) = flush_chunk t st a c
            in if ev_desired e (tr_rpc t) \<le> 0 \<and> \<not> st_paused st1
               then (t\<lparr>tr_stream := Some (st1\<lparr>st_paused := True\<rparr>)\<rparr>,
                     upd_stats (\<lambda>s. s\<lparr>streamPauses := streamPauses s + 1\<rparr>)
                       (c1\<lparr>cl_sched := sched_set_paused (tr_rpc t) True (cl_sched c1)\<rparr>))
               else (t\<lparr>tr_stream := Some st1\<rparr>, c1)
      | _ \<Rightarrow> (t, c))"

end
