(* ===== verification/Transport.thy ===== *)
theory Transport
  imports Session Codec
begin

text \<open>
  The operations of \<open>class Http4Client\<close> (\<open>client/src/transport.ts\<close>) that can send. \<open>send\<close> encodes the
  packet, and \<open>encode\<close> throws on one that breaks a rule of the wire format, so these operations are
  actions: they return a value or a thrown error, together with the state they have reached by then.

  A transfer is an object shared by the operations at work on it; here they look it up in the map and
  put it back, and those that take it out of the map first (\<open>finish\<close>) hold it as a value.
\<close>

section \<open>Actions\<close>

type_synonym 'a act = "client \<Rightarrow> (js_error + 'a) \<times> client"

definition retA :: "'a \<Rightarrow> 'a act" where
  "retA x c = (Inr x, c)"

definition throwA :: "js_error \<Rightarrow> 'a act" where
  "throwA e c = (Inl e, c)"

definition bindA :: "'a act \<Rightarrow> ('a \<Rightarrow> 'b act) \<Rightarrow> 'b act" where
  "bindA m f c = (case m c of (Inl e, c') \<Rightarrow> (Inl e, c') | (Inr x, c') \<Rightarrow> f x c')"

definition thenA :: "unit act \<Rightarrow> 'b act \<Rightarrow> 'b act" where
  "thenA m n = bindA m (\<lambda>_. n)"

definition doA :: "(client \<Rightarrow> client) \<Rightarrow> unit act" where
  "doA f c = (Inr (), f c)"

text \<open>\<open>readA f\<close> runs the action \<open>f\<close> chooses from the current state.\<close>

definition readA :: "(client \<Rightarrow> 'a act) \<Rightarrow> 'a act" where
  "readA f c = f c c"

definition whenA :: "bool \<Rightarrow> unit act \<Rightarrow> unit act" where
  "whenA b m = (if b then m else retA ())"

fun eachA :: "('a \<Rightarrow> unit act) \<Rightarrow> 'a list \<Rightarrow> unit act" where
  "eachA f [] = retA ()"
| "eachA f (x # xs) = thenA (f x) (eachA f xs)"

definition catchA :: "unit act \<Rightarrow> (js_error \<Rightarrow> unit act) \<Rightarrow> unit act" where
  "catchA m h c = (case m c of (Inl e, c') \<Rightarrow> h e c' | (Inr x, c') \<Rightarrow> (Inr x, c'))"

text \<open>The transfer a step works on, if it is still there.\<close>

definition with_transfer :: "int \<Rightarrow> (transfer \<Rightarrow> unit act) \<Rightarrow> unit act" where
  "with_transfer rpc f = readA (\<lambda>c. case jm_get (cl_transfers c) rpc of None \<Rightarrow> retA () | Some t \<Rightarrow> f t)"

section \<open>Sending\<close>

definition send :: "packet \<Rightarrow> unit act" where
  "send p = readA (\<lambda>c.
     if (case cl_dropOutgoing c of None \<Rightarrow> False | Some d \<Rightarrow> d p)
     then doA (upd_stats (\<lambda>s. s\<lparr>droppedOutgoing := droppedOutgoing s + 1\<rparr>))
     else case encode p of
            Inl e \<Rightarrow> throwA (WireError e)
          | Inr b \<Rightarrow> doA (emit (Write b)))"

definition sendHello :: "unit act" where
  "sendHello = readA (\<lambda>c.
     if \<not> cl_sessionSeq c \<or> seqNegotiated (cl_stats c) \<or> hellosSent (cl_stats c) > HELLO_REPEATS then retA ()
     else thenA (doA (upd_stats (\<lambda>s. s\<lparr>hellosSent := hellosSent s + 1\<rparr>)))
            (send (Hello 0 CAP_SESSION_SEQ)))"

definition sendResendSeq :: "int \<times> int \<Rightarrow> unit act" where
  "sendResendSeq r =
     thenA (doA (upd_stats (\<lambda>s. s\<lparr>seqResendsSent := seqResendsSent s + 1, resendsSent := resendsSent s + 1\<rparr>)))
       (send (ResendSeq 0 (of_int (fst r)) (of_int (snd r))))"

section \<open>Grants\<close>

definition grant_one :: "env \<Rightarrow> bool \<Rightarrow> grant_decision \<Rightarrow> unit act" where
  "grant_one e atFloor g =
     thenA (doA (upd_stats (\<lambda>s. s\<lparr>grantsSent := grantsSent s + 1,
              grantsAtFloor := (if atFloor then grantsAtFloor s + 1 else grantsAtFloor s)\<rparr>)))
    (thenA (with_transfer (d_rpc g) (\<lambda>t. doA (put_transfer
              (t\<lparr>tr_probe := (case tr_probe t of None \<Rightarrow> Some (tr_ceiling t, ev_now e) | Some q \<Rightarrow> Some q),
                 tr_ceiling := d_max g\<rparr>))))
       (send (Grant (d_rpc g) (d_max g) (of_nat (d_priority g)))))"

text \<open>What \<open>pumpGrants\<close> does before the grants go out, and the decisions.\<close>

definition pump_prepare :: "client \<Rightarrow> client" where
  "pump_prepare c =
     (let b = bc_current (cl_budget c);
          c1 = upd_stats (\<lambda>s. s\<lparr>budgetMin := (if budgetMin s = 0 then b else min (budgetMin s) b)\<rparr>) c
      in syncQueueLimit (c1\<lparr>cl_sched := sched_set_budget b (cl_sched c1)\<rparr>))"

definition pump_after :: "client \<Rightarrow> client" where
  "pump_after c =
     (let c1 = (if sc_limited (cl_sched c) then c\<lparr>cl_budget := note_limited (cl_budget c)\<rparr> else c)
      in upd_stats (\<lambda>s. s\<lparr>budget_stat := bc_current (cl_budget c1),
           bdpBytes := of_int \<lfloor>bc_bdp (cl_budget c1) + 1 / 2\<rfloor>\<rparr>) c1)"

definition pumpGrants :: "env \<Rightarrow> unit act" where
  "pumpGrants e = readA (\<lambda>c0.
     let atFloor = (bc_current (cl_budget c0) \<le> bc_floor (cl_budget c0)) in
     thenA (doA pump_prepare)
    (readA (\<lambda>c.
       let (ds, sch) = sched_grants (reserved c) (cl_sched c) in
       thenA (doA (\<lambda>c. c\<lparr>cl_sched := sch\<rparr>))
      (thenA (eachA (grant_one e atFloor) ds)
         (doA pump_after)))))"

section \<open>The end of a transfer\<close>

definition drop_transfer :: "env \<Rightarrow> int \<Rightarrow> unit act" where
  "drop_transfer e rpc =
     thenA (doA (\<lambda>c. c\<lparr>cl_transfers := jm_delete rpc (cl_transfers c), cl_sched := sched_remove rpc (cl_sched c)\<rparr>))
       (pumpGrants e)"

text \<open>\<open>finish\<close> up to its last call. \<open>err\<close> is \<open>None\<close> for a completed transfer.\<close>

definition close_stream :: "js_error option \<Rightarrow> transfer \<Rightarrow> client \<Rightarrow> client" where
  "close_stream err t c =
     (case tr_stream t of
        None \<Rightarrow> c
      | Some st \<Rightarrow>
          if st_closed st then c
          else emit (case err of Some x \<Rightarrow> StreamError (tr_rpc t) x | None \<Rightarrow> StreamClose (tr_rpc t)) c)"

definition settle_transfer :: "js_error option \<Rightarrow> transfer \<Rightarrow> client \<Rightarrow> client" where
  "settle_transfer err t c =
     (if tr_settled t then c
      else case err of
             Some x \<Rightarrow> emit (RejectWith (tr_rpc t) x) c
           | None \<Rightarrow>
               (case (tr_asm t, tr_headers t) of
                  (Some a, Some h) \<Rightarrow>
                    (case tr_stream t of
                       Some st \<Rightarrow> emit (ResolveStream (tr_rpc t) (asm_size a) h) c
                     | None \<Rightarrow> emit (Resolve (tr_rpc t) (asm_bytes a) h) c)
                | _ \<Rightarrow> c))"

definition finish_core :: "env \<Rightarrow> transfer \<Rightarrow> js_error option \<Rightarrow> client \<Rightarrow> client" where
  "finish_core e t err c =
     (let c1 = c\<lparr>cl_transfers := jm_delete (tr_rpc t) (cl_transfers c),
                 cl_sched := sched_remove (tr_rpc t) (cl_sched c)\<rparr>;
          (t2, c2) = (if err = None then flushStream e t c1 else (t, c1))
      in settle_transfer err t2 (close_stream err t2 c2))"

definition finish :: "env \<Rightarrow> transfer \<Rightarrow> js_error option \<Rightarrow> unit act" where
  "finish e t err = thenA (doA (finish_core e t err)) (pumpGrants e)"

definition failAll :: "env \<Rightarrow> js_error \<Rightarrow> unit act" where
  "failAll e err = readA (\<lambda>c.
     thenA (eachA (\<lambda>rpc. with_transfer rpc (\<lambda>t. finish e t (Some err))) (map fst (cl_transfers c)))
       (doA (\<lambda>c. c\<lparr>cl_ticker := False\<rparr>)))"

section \<open>Loss detection\<close>

definition send_resend :: "int \<Rightarrow> (client_stats \<Rightarrow> client_stats) \<Rightarrow> range \<Rightarrow> unit act" where
  "send_resend rpc f g = thenA (doA (upd_stats f)) (send (Resend rpc (rstart g) (rend g)))"

definition detectLoss :: "env \<Rightarrow> int \<Rightarrow> unit act" where
  "detectLoss e rpc = with_transfer rpc (\<lambda>t0. readA (\<lambda>c.
     let t = t0\<lparr>tr_lastDetect := Some (ev_now e)\<rparr> in
     thenA (doA (put_transfer t))
       (case (tr_asm t, tr_repair t) of
          (Some a, Some rp) \<Rightarrow>
            if \<not> cl_earlyResend c \<or> seqNegotiated (cl_stats c) then retA ()
            else
              let frontier = asm_frontier a;
                  granted = or_default (sched_granted rpc (cl_sched c)) (asm_size a);
                  limit = (if frontier < granted then frontier - cl_reorderPackets c * payload_guess c else frontier)
              in if limit \<le> 0 then retA ()
                 else
                   let (lost, rp') = repair_detect a limit (ev_now e) (reorderWindow c) (repairDelay c) rp
                   in thenA (doA (put_transfer (t\<lparr>tr_repair := Some rp'\<rparr>)))
                        (eachA (send_resend rpc (\<lambda>s. s\<lparr>resendsSent := resendsSent s + 1,
                            earlyResends := earlyResends s + 1\<rparr>)) lost)
        | _ \<Rightarrow> retA ())))"

definition repaired :: "client \<Rightarrow> seq_hint \<Rightarrow> bool" where
  "repaired c h =
     (case jm_get (cl_transfers c) (hint_rpc h) of
        None \<Rightarrow> True
      | Some t \<Rightarrow>
          (case tr_asm t of
             None \<Rightarrow> False
           | Some a \<Rightarrow> list_all (\<lambda>g. rend g \<le> hint_start h) (asm_missing a (min (hint_end h) (asm_size a)))))"

definition detectSeqLoss :: "env \<Rightarrow> unit act" where
  "detectSeqLoss e =
     thenA (doA (\<lambda>c. c\<lparr>cl_lastSeqDetect := Some (ev_now e)\<rparr>))
    (readA (\<lambda>c. if \<not> cl_earlyResend c then retA ()
       else
         let window = reorderWindow c;
             tl = window + rtt_or (rto c) c;
             (rs, sq) = seq_detect (ev_now e) (cl_reorderPackets c) window (Some tl) 1024 (cl_seq c)
         in thenA (doA (\<lambda>c. c\<lparr>cl_seq := sq\<rparr>))
           (thenA (eachA (\<lambda>r.
                thenA (doA (upd_stats (\<lambda>s. s\<lparr>seqLost := seqLost s + of_int (snd r - fst r)\<rparr>)))
               (thenA (sendResendSeq r)
                  (doA (upd_stats (\<lambda>s. s\<lparr>earlyResends := earlyResends s + 1\<rparr>))))) rs)
              (readA (\<lambda>c.
                 let again = 2 * repairDelay c;
                     (rs, sq) = seq_repeats (ev_now e) again SEQ_RESEND_TRIES (repaired c) 1024 (cl_seq c)
                 in thenA (doA (\<lambda>c. c\<lparr>cl_seq := sq\<rparr>)) (eachA sendResendSeq rs))))))"

section \<open>The stall timer\<close>

text \<open>\<open>recover\<close> after its guard: the state it leaves before it sends anything.\<close>

definition recover_prepare :: "env \<Rightarrow> transfer \<Rightarrow> client \<Rightarrow> client" where
  "recover_prepare e t c =
     (let now = ev_now e;
          c1 = lossBackoff now (upd_stats (\<lambda>s. s\<lparr>recoveries_stat := recoveries_stat s + 1\<rparr>) c);
          c2 = (if cl_srtt c1 = None \<and> since now (cl_lastBackoffAt c1) (cl_initialRto c1)
                then c1\<lparr>cl_initialRto := min MAX_INITIAL_RTO_MS (cl_initialRto c1 * 2), cl_lastBackoffAt := Some now\<rparr>
                else c1)
      in put_transfer (t\<lparr>tr_probe := None, tr_lastProgress := now\<rparr>) c2)"

text \<open>The ranges to ask for: real gaps, and the first and last packet of the tail.\<close>

definition recover_gaps :: "client \<Rightarrow> reassembly \<Rightarrow> num \<Rightarrow> range list" where
  "recover_gaps c a granted =
     (let frontier = asm_frontier a;
          gaps = take MAX_RESEND_RANGES (asm_missing a (min frontier granted))
      in if frontier < granted then
           let p = payload_guess c;
               fst_r = Range frontier (min granted (frontier + p));
               last_r = Range (max (rend fst_r) (granted - p)) granted
           in gaps @ [fst_r] @ (if rstart last_r < rend last_r then [last_r] else [])
         else gaps)"

text \<open>The rest of \<open>recover\<close>: what goes out again.\<close>

definition recover_again :: "env \<Rightarrow> int \<Rightarrow> num \<Rightarrow> unit act" where
  "recover_again e rpc granted =
     thenA (with_transfer rpc (\<lambda>t.
          whenA (tr_asm t = None \<or> tr_headers t = None)
           (thenA (doA (put_transfer (t\<lparr>tr_reqRetransmitted := True\<rparr>)))
           (thenA (doA (upd_stats (\<lambda>s. s\<lparr>reqRetransmits := reqRetransmits s + 1\<rparr>)))
              (send (Req rpc (tr_initialGrant t) (tr_assetId t)))))))
         (with_transfer rpc (\<lambda>t.
            case (tr_asm t, tr_repair t) of
              (Some a, Some rp) \<Rightarrow>
                thenA (whenA (granted > tr_initialGrant t) (send (Grant rpc granted 0)))
               (readA (\<lambda>c.
                  let (out, rp') = repair_claim a (recover_gaps c a granted) (ev_now e) (repairDelay c) rp
                  in thenA (doA (put_transfer (t\<lparr>tr_repair := Some rp'\<rparr>)))
                       (eachA (send_resend rpc (\<lambda>s. s\<lparr>resendsSent := resendsSent s + 1\<rparr>)) out)))
            | _ \<Rightarrow> retA ()))"

definition recover :: "env \<Rightarrow> int \<Rightarrow> num \<Rightarrow> unit act" where
  "recover e rpc granted = with_transfer rpc (\<lambda>t0. readA (\<lambda>c0.
     let t1 = t0\<lparr>tr_recoveries := tr_recoveries t0 + 1\<rparr> in
     if of_nat (tr_recoveries t1) > cl_maxRecoveries c0 then
       finish e t1 (Some (Http4Error NoProgress None))
     else thenA (doA (recover_prepare e t1)) (recover_again e rpc granted)))"

text \<open>The tail loss probe of one tick.\<close>

definition tail_probe :: "env \<Rightarrow> int \<Rightarrow> num \<Rightarrow> unit act" where
  "tail_probe e rpc granted = with_transfer rpc (\<lambda>t. readA (\<lambda>c.
     case (tr_asm t, tr_repair t, cl_srtt c) of
       (Some a, Some rp, Some srtt) \<Rightarrow>
         if \<not> cl_earlyResend c \<or> tr_tailProbed t then retA ()
         else
           let pto = max MIN_REPAIR_DELAY_MS (2 * srtt) + drainMs c
           in if asm_frontier a < granted \<and> ev_now e - tr_lastProgress t \<ge> pto then
                let last_r = Range (max (asm_frontier a) (granted - payload_guess c)) granted;
                    (out, rp') = repair_claim a [last_r] (ev_now e) (repairDelay c) rp
                in thenA (doA (put_transfer (t\<lparr>tr_tailProbed := True, tr_repair := Some rp'\<rparr>)))
                     (eachA (send_resend rpc (\<lambda>s. s\<lparr>resendsSent := resendsSent s + 1,
                         tailProbes := tailProbes s + 1\<rparr>)) out)
              else retA ()
     | _ \<Rightarrow> retA ()))"

definition granted_now :: "client \<Rightarrow> transfer \<Rightarrow> num" where
  "granted_now c t = (if tr_asm t = None then 0 else or_default (sched_granted (tr_rpc t) (cl_sched c)) 0)"

text \<open>Nothing is outstanding, or the reader is behind: not a stall.\<close>

definition waiting :: "client \<Rightarrow> transfer \<Rightarrow> bool" where
  "waiting c t \<longleftrightarrow>
     (case tr_asm t of None \<Rightarrow> False | Some a \<Rightarrow> tr_headers t \<noteq> None \<and> asm_received a \<ge> granted_now c t) \<or>
     (case tr_stream t of None \<Rightarrow> False | Some st \<Rightarrow> st_paused st)"

definition stall_timeout :: "client \<Rightarrow> transfer \<Rightarrow> num" where
  "stall_timeout c t =
     (let base = (if cl_srtt c = None then min (tr_baseRto t) (rto c) else rto c)
      in max (min MAX_RTO_MS (base * 2 ^ tr_recoveries t)) (drainMs c))"

definition tick_transfer :: "env \<Rightarrow> int \<Rightarrow> unit act" where
  "tick_transfer e rpc = with_transfer rpc (\<lambda>t0.
     thenA (whenA (tr_asm t0 \<noteq> None) (detectLoss e rpc))
       (with_transfer rpc (\<lambda>t. readA (\<lambda>c.
          let granted = granted_now c t in
          if waiting c t then doA (put_transfer (t\<lparr>tr_lastProgress := ev_now e\<rparr>))
          else
            thenA (tail_probe e rpc granted)
              (with_transfer rpc (\<lambda>t. readA (\<lambda>c.
                 whenA (ev_now e - tr_lastProgress t \<ge> stall_timeout c t) (recover e rpc granted))))))))"

definition tick :: "env \<Rightarrow> unit act" where
  "tick e = readA (\<lambda>c.
     thenA (whenA (seqNegotiated (cl_stats c)) (detectSeqLoss e))
    (readA (\<lambda>c.
       thenA (eachA (tick_transfer e) (map fst (cl_transfers c)))
         (doA (\<lambda>c. if cl_transfers c = [] then c\<lparr>cl_ticker := False\<rparr> else c)))))"

end
