(* ===== verification/Client.thy ===== *)
theory Client
  imports Transport
begin

text \<open>
  The life of a session (\<open>client/src/transport.ts\<close>): the constructor, a request, what each kind of
  datagram does, the read loop, the stream callbacks and the two ways a session ends. \<open>client_step\<close>
  puts the entry points together: everything the browser or the page can call.
\<close>

section \<open>The constructor\<close>

definition chosen_floor :: "client_options \<Rightarrow> num" where
  "chosen_floor op = or_default (op_budget op) (or_default (op_budgetFloor op) DEFAULT_BUDGET_FLOOR)"

definition chosen_cap :: "client_options \<Rightarrow> num" where
  "chosen_cap op = or_default (op_budget op) (or_default (op_budgetCap op) DEFAULT_BUDGET_CAP)"

definition chosen_increment :: "client_options \<Rightarrow> num" where
  "chosen_increment op = or_default (op_minIncrement op) DEFAULT_MIN_INCREMENT"

definition new_stats :: "client_options \<Rightarrow> num \<Rightarrow> num \<Rightarrow> client_stats" where
  "new_stats op t b =
     \<lparr>packetsIn = 0, malformedIn = 0, dataBytesIn = 0, duplicateBytesIn = 0, grantsSent = 0, reqsSent = 0,
      reqRetransmits = 0, resendsSent = 0, earlyResends = 0, tailProbes = 0, spuriousRepairs = 0,
      reorderWindowMs = 0, hellosSent = 0, seqNegotiated = False, dataSeqIn = 0, seqLost = 0,
      seqResendsSent = 0, metaIn = 0, streamPauses = 0, recoveries_stat = 0, droppedOutgoing = 0,
      srttMs = None, rtoMs = t, budget_stat = b, bdpBytes = 0, minRttMs = None, budgetMin = 0,
      grantsAtFloor = 0,
      settings = \<lparr>set_minIncrement = chosen_increment op, set_budgetFloor = chosen_floor op,
        set_budgetCap = chosen_cap op, set_budgetK = or_default (op_budgetK op) DEFAULT_BUDGET_K,
        set_initialGrant = op_initialGrant op\<rparr>\<rparr>"

text \<open>The flds, with the datagram limit and the queue limit the session reports.\<close>

definition fresh_client :: "client_options \<Rightarrow> num \<Rightarrow> num option \<Rightarrow> client" where
  "fresh_client op limit queue =
     (let b = new_budget (chosen_floor op) (chosen_cap op) (op_budgetK op) None
      in \<lparr>cl_maxDatagramSize = limit, cl_stats = new_stats op 0 (bc_current b), cl_transfers = [],
          cl_sched = new_scheduler (bc_current b) (chosen_increment op) (op_trace op), cl_budget = b,
          cl_fixedInitialGrant = op_initialGrant op,
          cl_rtoFloor = or_default (op_rtoFloorMs op) DEFAULT_RTO_FLOOR_MS,
          cl_maxRecoveries = or_default (op_maxRecoveries op) DEFAULT_MAX_RECOVERIES,
          cl_dropOutgoing = op_dropOutgoing op, cl_earlyResend = or_default (op_earlyResend op) True,
          cl_reorderPackets = or_default (op_reorderPackets op) DEFAULT_REORDER_PACKETS,
          cl_sessionSeq = or_default (op_sessionSeq op) True,
          cl_streamHighWaterMark = or_default (op_streamHighWaterMark op) DEFAULT_STREAM_HIGH_WATER_MARK,
          cl_seq = new_seq_tracker, cl_lastSeqDetect = None, cl_payloadSeen = 0, cl_reorderSteps = 1,
          cl_lastSpuriousAt = None, cl_lastLossBackoffAt = None, cl_srtt = None, cl_rttvar = 0,
          cl_initialRto = INITIAL_RTO_MS, cl_lastBackoffAt = None, cl_ticker = False, cl_closed = False,
          cl_sessionClosed = False, cl_reading = True, cl_queueLimit = queue, cl_log = []\<rparr>)"

definition new_client :: "client_options \<Rightarrow> num \<Rightarrow> num option \<Rightarrow> (js_error + unit) \<times> client" where
  "new_client op limit queue =
     (let c1 = syncQueueLimit (fresh_client op limit queue);
          c2 = c1\<lparr>cl_stats := new_stats op (rto c1) (bc_current (cl_budget c1))\<rparr>
      in sendHello (upd_stats (\<lambda>s. s\<lparr>reorderWindowMs := reorderWindow c2\<rparr>) c2))"

section \<open>A request\<close>

definition new_transfer :: "num \<Rightarrow> int \<Rightarrow> jsstring \<Rightarrow> bool \<Rightarrow> priority_class \<Rightarrow> num \<Rightarrow> client \<Rightarrow> transfer" where
  "new_transfer now rpc aid streaming cls g c =
     \<lparr>tr_rpc = rpc, tr_assetId = aid, tr_cls = cls, tr_initialGrant = g, tr_asm = None, tr_repair = None,
      tr_lastDetect = None, tr_tailProbed = False, tr_headers = None, tr_replied = False,
      tr_stream = (if streaming then Some \<lparr>st_emitted = 0, st_paused = False, st_closed = False\<rparr> else None),
      tr_settled = False, tr_reqSentAt = now, tr_reqRetransmitted = False, tr_baseRto = rto c,
      tr_ceiling = g, tr_probe = None, tr_lastProgress = now, tr_recoveries = 0\<rparr>"

text \<open>\<open>rpc\<close> is what \<open>newRpcId\<close> draws; it also names the promise. An exception inside the executor of
  \<open>new Promise\<close> rejects it, one before it leaves \<open>start\<close>.\<close>

definition start_request :: "env \<Rightarrow> int \<Rightarrow> jsstring \<Rightarrow> bool \<Rightarrow> priority_class \<Rightarrow> unit act" where
  "start_request e rpc aid streaming cls = readA (\<lambda>c.
     if \<not> isOpen c then
       doA (emit (RejectWith rpc (Http4Error (if cl_closed c then ClientClosed else SessionClosed) None)))
     else
       let g = nextInitialGrant c;
           req = Req rpc g aid
       in case encode req of
            Inl x \<Rightarrow> throwA (WireError x)
          | Inr b \<Rightarrow>
              if len b > cl_maxDatagramSize c then doA (emit (RejectWith rpc (Http4Error AssetIdTooLong None)))
              else catchA
                (thenA (doA (\<lambda>c. put_transfer (new_transfer (ev_now e) rpc aid streaming cls g c) c))
                (thenA (doA (\<lambda>c. c\<lparr>cl_ticker := True\<rparr>))
                (thenA (doA (upd_stats (\<lambda>s. s\<lparr>reqsSent := reqsSent s + 1\<rparr>)))
                (thenA sendHello (send req)))))
                (\<lambda>x. doA (emit (RejectWith rpc x))))"

section \<open>Datagrams\<close>

text \<open>A numbered DATA counts before its transfer is looked up.\<close>

definition seq_arrived :: "env \<Rightarrow> int \<Rightarrow> num \<Rightarrow> num \<Rightarrow> byte list \<Rightarrow> client \<Rightarrow> client" where
  "seq_arrived e rpc off sq p c =
     (let c1 = upd_stats (\<lambda>s. s\<lparr>dataSeqIn := dataSeqIn s + 1, seqNegotiated := True\<rparr>) c;
          place = \<lparr>hint_rpc = rpc, hint_start = off, hint_end = off + len p\<rparr>;
          (res, sq') = seq_arrive \<lfloor>sq\<rfloor> (ev_now e) (Some place) (cl_seq c1);
          c2 = c1\<lparr>cl_seq := sq'\<rparr>
      in if res = SeqSpurious then noteSpurious (ev_now e) c2 else c2)"

definition note_reply :: "env \<Rightarrow> int \<Rightarrow> unit act" where
  "note_reply e rpc = with_transfer rpc (\<lambda>t.
     whenA (\<not> tr_replied t)
      (thenA (doA (put_transfer (t\<lparr>tr_replied := True\<rparr>)))
        (whenA (\<not> tr_reqRetransmitted t) (doA (sampleRtt (ev_now e) (ev_now e - tr_reqSentAt t))))))"

definition start_body :: "transfer \<Rightarrow> client \<Rightarrow> client" where
  "start_body t c = (let (t1, c1) = maybeStart t c in put_transfer t1 c1)"

text \<open>\<open>Object.fromEntries\<close>, for the field names META allows: none looks like an array index.\<close>

definition headers_of :: "meta_fields \<Rightarrow> headers" where
  "headers_of flds = fold (\<lambda>(k, v). jm_set k v) flds []"

definition handle_meta :: "env \<Rightarrow> int \<Rightarrow> meta_fields \<Rightarrow> unit act" where
  "handle_meta e rpc flds =
     thenA (doA (upd_stats (\<lambda>s. s\<lparr>metaIn := metaIn s + 1\<rparr>)))
      (with_transfer rpc (\<lambda>t.
         if tr_headers t \<noteq> None then retA ()
         else
           thenA (doA (start_body (t\<lparr>tr_headers := Some (headers_of flds),
                        tr_lastProgress := ev_now e, tr_recoveries := 0\<rparr>)))
            (with_transfer rpc (\<lambda>t.
               whenA (case tr_asm t of None \<Rightarrow> False | Some a \<Rightarrow> asm_complete a) (finish e t None)))))"

text \<open>The first DATA reveals the size.\<close>

definition open_body :: "num \<Rightarrow> transfer \<Rightarrow> client \<Rightarrow> client" where
  "open_body tot t c =
     put_transfer (t\<lparr>tr_asm := Some (new_reassembly tot), tr_repair := Some new_repair\<rparr>)
       (c\<lparr>cl_sched := sched_add (tr_rpc t) tot (tr_initialGrant t) 0 (tr_cls t) (cl_sched c)\<rparr>)"

text \<open>What a payload that fits changes, up to \<open>maybeStart\<close>: \<open>a\<close> is the reassembly with it added.\<close>

definition probe_hit :: "env \<Rightarrow> num \<Rightarrow> transfer \<Rightarrow> client \<Rightarrow> transfer \<times> client" where
  "probe_hit e top_off t c =
     (case tr_probe t of
        Some (from_off, sent_at) \<Rightarrow>
          if top_off > from_off then
            let c1 = c\<lparr>cl_budget := on_rtt_sample (ev_now e - sent_at) (ev_now e) (cl_budget c)\<rparr>
            in (t\<lparr>tr_probe := None\<rparr>, upd_stats (\<lambda>s. s\<lparr>minRttMs := bc_min_rtt (cl_budget c1)\<rparr>) c1)
          else (t, c)
      | None \<Rightarrow> (t, c))"

definition progress :: "env \<Rightarrow> num \<Rightarrow> transfer \<Rightarrow> client \<Rightarrow> transfer \<times> client" where
  "progress e fresh t c =
     (if fresh > 0 then
        (t\<lparr>tr_lastProgress := ev_now e, tr_recoveries := 0, tr_tailProbed := False\<rparr>,
         c\<lparr>cl_budget := on_delivered fresh (ev_now e) (cl_budget c)\<rparr>)
      else (t, c))"

definition count_payload :: "env \<Rightarrow> num \<Rightarrow> byte list \<Rightarrow> bool \<Rightarrow> client \<Rightarrow> client" where
  "count_payload e fresh p asked c =
     (let c1 = upd_stats (\<lambda>s. s\<lparr>dataBytesIn := dataBytesIn s + len p,
                 duplicateBytesIn := duplicateBytesIn s + (len p - fresh)\<rparr>) c;
          c2 = c1\<lparr>cl_payloadSeen := max (cl_payloadSeen c1) (len p)\<rparr>
      in if fresh < len p \<and> asked then noteSpurious (ev_now e) c2 else c2)"

definition data_arrived ::
    "env \<Rightarrow> num \<Rightarrow> byte list \<Rightarrow> num \<Rightarrow> reassembly \<Rightarrow> repair \<Rightarrow> transfer \<Rightarrow> client \<Rightarrow> client" where
  "data_arrived e off p fresh a rp t c =
     (let c1 = count_payload e fresh p (repair_requested rp) c;
          c2 = c1\<lparr>cl_sched := sched_on_data (tr_rpc t) fresh (cl_sched c1)\<rparr>;
          (t3, c3) = probe_hit e (off + len p) (t\<lparr>tr_asm := Some a\<rparr>) c2;
          (t4, c4) = progress e fresh t3 c3;
          (t5, c5) = maybeStart t4 c4;
          (t6, c6) = flushStream e t5 c5
      in put_transfer t6 c6)"

definition take_payload :: "env \<Rightarrow> int \<Rightarrow> num \<Rightarrow> byte list \<Rightarrow> unit act" where
  "take_payload e rpc off p = with_transfer rpc (\<lambda>t.
     case (tr_asm t, tr_repair t) of
       (Some a, Some rp) \<Rightarrow>
         (case asm_add off p a of
            Inl _ \<Rightarrow> finish e t (Some ReassemblyRangeError)
          | Inr (fresh, a') \<Rightarrow>
              thenA (doA (data_arrived e off p fresh a' rp t))
               (with_transfer rpc (\<lambda>t.
                  if (case tr_asm t of None \<Rightarrow> False | Some a \<Rightarrow> asm_complete a) \<and> tr_headers t \<noteq> None
                  then finish e t None
                  else whenA (since (ev_now e) (tr_lastDetect t) DETECT_INTERVAL_MS) (detectLoss e rpc))))
     | _ \<Rightarrow> retA ())"

definition handle_data :: "env \<Rightarrow> int \<Rightarrow> num \<Rightarrow> num \<Rightarrow> byte list \<Rightarrow> unit act" where
  "handle_data e rpc tot off p = with_transfer rpc (\<lambda>t.
     case tr_asm t of
       None \<Rightarrow> thenA (doA (open_body tot t)) (take_payload e rpc off p)
     | Some a \<Rightarrow>
         if tot \<noteq> asm_size a then finish e t (Some (Http4Error TotalSizeChanged None))
         else take_payload e rpc off p)"

definition deliver :: "env \<Rightarrow> packet \<Rightarrow> unit act" where
  "deliver e p = with_transfer (rpcId p) (\<lambda>t.
     case p of
       Meta rpc flds \<Rightarrow> thenA (note_reply e rpc) (handle_meta e rpc flds)
     | Data rpc tot off pl \<Rightarrow> thenA (note_reply e rpc) (handle_data e rpc tot off pl)
     | ErrorPacket rpc code \<Rightarrow> finish e t (Some (Http4Error (ServerSaid code) (Some code)))
     | _ \<Rightarrow> doA (upd_stats (\<lambda>s. s\<lparr>malformedIn := malformedIn s + 1\<rparr>)))"

definition handle :: "env \<Rightarrow> packet \<Rightarrow> unit act" where
  "handle e p =
     (case p of
        DataSeq rpc tot off sq pl \<Rightarrow>
          thenA (doA (seq_arrived e rpc off sq pl))
         (thenA (readA (\<lambda>c. whenA (since (ev_now e) (cl_lastSeqDetect c) DETECT_INTERVAL_MS) (detectSeqLoss e)))
            (deliver e (Data rpc tot off pl)))
      | _ \<Rightarrow> deliver e p)"

text \<open>One turn of \<open>readLoop\<close>. An error ends the loop.\<close>

definition read_one :: "env \<Rightarrow> byte list \<Rightarrow> unit act" where
  "read_one e b =
     thenA (doA (upd_stats (\<lambda>s. s\<lparr>packetsIn := packetsIn s + 1\<rparr>)))
      (case decode b of
         Inl (MalformedPacketError r) \<Rightarrow> doA (upd_stats (\<lambda>s. s\<lparr>malformedIn := malformedIn s + 1\<rparr>))
       | Inl RangeErr \<Rightarrow> throwA (WireError RangeErr)
       | Inr p \<Rightarrow> thenA (handle e p) (pumpGrants e))"

definition receive :: "env \<Rightarrow> byte list \<Rightarrow> unit act" where
  "receive e b = readA (\<lambda>c.
     whenA (cl_reading c)
      (catchA (read_one e b)
        (\<lambda>x. thenA (doA (\<lambda>c. c\<lparr>cl_reading := False\<rparr>)) (failAll e x))))"

section \<open>The stream callbacks and the end of the session\<close>

definition stream_pull :: "env \<Rightarrow> int \<Rightarrow> unit act" where
  "stream_pull e rpc = with_transfer rpc (\<lambda>t.
     case tr_stream t of
       None \<Rightarrow> retA ()
     | Some st \<Rightarrow>
         whenA (st_paused st)
          (thenA (doA (put_transfer (t\<lparr>tr_stream := Some (st\<lparr>st_paused := False\<rparr>)\<rparr>)))
          (thenA (doA (\<lambda>c. c\<lparr>cl_sched := sched_set_paused rpc False (cl_sched c)\<rparr>))
             (pumpGrants e))))"

text \<open>\<open>cancel\<close> marks the stream closed and drops its transfer, which nothing refers to any more.\<close>

definition stream_cancel :: "env \<Rightarrow> int \<Rightarrow> unit act" where
  "stream_cancel e rpc = drop_transfer e rpc"

definition close_client :: "unit act" where
  "close_client = doA (\<lambda>c. emit CloseSession (c\<lparr>cl_closed := True\<rparr>))"

definition session_end :: "env \<Rightarrow> unit act" where
  "session_end e =
     thenA (doA (\<lambda>c. c\<lparr>cl_sessionClosed := True\<rparr>)) (failAll e (Http4Error SessionClosed None))"

section \<open>Events\<close>

datatype client_ev =
    Start int jsstring bool priority_class
  | Datagram "byte list"
  | Tick
  | Pull int
  | Cancel int
  | Close
  | SessionEnd

fun client_step :: "env \<Rightarrow> client_ev \<Rightarrow> unit act" where
  "client_step e (Start rpc aid streaming cls) = start_request e rpc aid streaming cls"
| "client_step e (Datagram b) = receive e b"
| "client_step e Tick = readA (\<lambda>c. whenA (cl_ticker c) (tick e))"
| "client_step e (Pull rpc) = stream_pull e rpc"
| "client_step e (Cancel rpc) = stream_cancel e rpc"
| "client_step e Close = close_client"
| "client_step e SessionEnd = session_end e"

text \<open>A whole session. An error that leaves an entry point is the page's to see; the client goes on.\<close>

fun client_run :: "(env \<times> client_ev) list \<Rightarrow> client \<Rightarrow> client" where
  "client_run [] c = c"
| "client_run ((e, ev) # evs) c = client_run evs (snd (client_step e ev c))"

end
