(* ===== verification/Frame.thy ===== *)
theory Frame
  imports Client
begin

text \<open>
  Two ways to reason about the client's actions. \<open>hold\<close> is a triple with a postcondition for a normal
  return and one for a thrown error. \<open>quiet\<close> is a frame property: what the caller of a request can
  observe (\<open>core\<close>) is left as it was. Granting, loss detection, probing and retransmission are quiet.
\<close>

section \<open>Triples\<close>

named_theorems holds \<open>rules for triples\<close>

definition hold :: "(client \<Rightarrow> bool) \<Rightarrow> unit act \<Rightarrow> (client \<Rightarrow> bool) \<Rightarrow> (client \<Rightarrow> bool) \<Rightarrow> bool" where
  "hold P m Q X \<longleftrightarrow> (\<forall>c. P c \<longrightarrow> (case m c of (Inl e, c') \<Rightarrow> X c' | (Inr x, c') \<Rightarrow> Q c'))"

lemma hold_ret [holds]: "(\<And>c. P c \<Longrightarrow> Q c) \<Longrightarrow> hold P (retA ()) Q X"
  by (simp add: hold_def retA_def)

lemma hold_throw [holds]: "(\<And>c. P c \<Longrightarrow> X c) \<Longrightarrow> hold P (throwA e) Q X"
  by (simp add: hold_def throwA_def)

lemma hold_do [holds]: "(\<And>c. P c \<Longrightarrow> Q (f c)) \<Longrightarrow> hold P (doA f) Q X"
  by (simp add: hold_def doA_def)

lemma hold_then: "hold P m R X \<Longrightarrow> hold R n Q X \<Longrightarrow> hold P (thenA m n) Q X"
  by (fastforce simp: hold_def thenA_def bindA_def split: prod.splits sum.splits)

lemma hold_read [holds]: "(\<And>d. hold (\<lambda>c. c = d \<and> P d) (f d) Q X) \<Longrightarrow> hold P (readA f) Q X"
  by (simp add: hold_def readA_def)

lemma hold_when [holds]:
  "(b \<Longrightarrow> hold P m Q X) \<Longrightarrow> (\<And>c. \<not> b \<Longrightarrow> P c \<Longrightarrow> Q c) \<Longrightarrow> hold P (whenA b m) Q X"
  by (simp add: hold_def whenA_def retA_def)

lemma hold_each: "(\<And>x. x \<in> set xs \<Longrightarrow> hold P (f x) P X) \<Longrightarrow> hold P (eachA f xs) P X"
proof (induction xs)
  case (Cons x xs)
  then show ?case by (simp add: hold_then [where R = P])
qed (simp add: hold_ret)

lemma hold_catch: "hold P m Q Y \<Longrightarrow> (\<And>e. hold Y (h e) Q X) \<Longrightarrow> hold P (catchA m h) Q X"
  by (fastforce simp: hold_def catchA_def split: prod.splits sum.splits)

lemma hold_transfer:
  "(\<And>c. P c \<Longrightarrow> jm_get (cl_transfers c) rpc = None \<Longrightarrow> Q c) \<Longrightarrow>
    (\<And>t. hold (\<lambda>c. P c \<and> jm_get (cl_transfers c) rpc = Some t) (f t) Q X) \<Longrightarrow>
    hold P (with_transfer rpc f) Q X"
  by (auto simp: hold_def with_transfer_def readA_def retA_def split: option.splits)

lemma hold_pre: "hold P' m Q X \<Longrightarrow> (\<And>c. P c \<Longrightarrow> P' c) \<Longrightarrow> hold P m Q X"
  by (simp add: hold_def)

lemma hold_post: "hold P m Q' X' \<Longrightarrow> (\<And>c. Q' c \<Longrightarrow> Q c) \<Longrightarrow> (\<And>c. X' c \<Longrightarrow> X c) \<Longrightarrow> hold P m Q X"
  by (fastforce simp: hold_def split: prod.splits sum.splits)

lemma hold_send:
  "(\<And>c. P c \<Longrightarrow> Q (upd_stats (\<lambda>s. s\<lparr>droppedOutgoing := droppedOutgoing s + 1\<rparr>) c)) \<Longrightarrow>
    (\<And>c b. P c \<Longrightarrow> encode p = Inr b \<Longrightarrow> Q (emit (Write b) c)) \<Longrightarrow>
    (\<And>c e. P c \<Longrightarrow> encode p = Inl e \<Longrightarrow> X c) \<Longrightarrow> hold P (send p) Q X"
  by (auto simp: hold_def send_def readA_def doA_def throwA_def split: sum.splits)

lemma hold_state: "hold P m Q X \<Longrightarrow> P c \<Longrightarrow> (\<And>c. Q c \<Longrightarrow> R c) \<Longrightarrow> (\<And>c. X c \<Longrightarrow> R c) \<Longrightarrow> R (snd (m c))"
  unfolding hold_def by (cases "m c", cases "fst (m c)") force+

text \<open>Every thrown error is ruled out by an exceptional postcondition that nothing meets.\<close>

lemma hold_no_throw: "hold P m Q (\<lambda>_. False) \<Longrightarrow> P c \<Longrightarrow> fst (m c) = Inr () \<and> Q (snd (m c))"
  unfolding hold_def by (cases "m c", cases "fst (m c)") force+

text \<open>An action that keeps an invariant. When an action throws, it leaves \<open>X\<close>.\<close>

named_theorems upholds \<open>actions that keep an invariant\<close>

definition upholding :: "(client \<Rightarrow> bool) \<Rightarrow> (client \<Rightarrow> bool) \<Rightarrow> unit act \<Rightarrow> bool" where
  "upholding I X m \<longleftrightarrow> hold I m I X"

lemma upholding_ret [upholds]: "upholding I X (retA ())"
  unfolding upholding_def by (intro hold_ret)

lemma upholding_do [upholds]: "(\<And>c. I c \<Longrightarrow> I (f c)) \<Longrightarrow> upholding I X (doA f)"
  unfolding upholding_def by (intro hold_do)

lemma upholding_then [upholds]: "upholding I X m \<Longrightarrow> upholding I X n \<Longrightarrow> upholding I X (thenA m n)"
  unfolding upholding_def by (rule hold_then)

lemma upholding_read [upholds]: "(\<And>d. I d \<Longrightarrow> upholding I X (f d)) \<Longrightarrow> upholding I X (readA f)"
  by (fastforce simp: upholding_def hold_def readA_def)

lemma upholding_when [upholds]: "(b \<Longrightarrow> upholding I X m) \<Longrightarrow> upholding I X (whenA b m)"
  by (simp add: whenA_def upholding_ret)

lemma upholding_each [upholds]: "(\<And>x. x \<in> set xs \<Longrightarrow> upholding I X (f x)) \<Longrightarrow> upholding I X (eachA f xs)"
  unfolding upholding_def by (rule hold_each)

lemma upholding_if [upholds]:
  "(b \<Longrightarrow> upholding I X m) \<Longrightarrow> (\<not> b \<Longrightarrow> upholding I X n) \<Longrightarrow> upholding I X (if b then m else n)"
  by simp

lemma upholding_option [upholds]:
  "(z = None \<Longrightarrow> upholding I X m) \<Longrightarrow> (\<And>x. z = Some x \<Longrightarrow> upholding I X (f x)) \<Longrightarrow>
    upholding I X (case z of None \<Rightarrow> m | Some x \<Rightarrow> f x)"
  by (cases z) simp_all

lemma upholding_state: "upholding I I m \<Longrightarrow> I c \<Longrightarrow> I (snd (m c))"
  unfolding upholding_def by (rule hold_state)

section \<open>Frames\<close>

fun is_write :: "effect \<Rightarrow> bool" where
  "is_write (Write b) = True"
| "is_write _ = False"

lemma map_core_get: "map_of (map (\<lambda>(k, t). (k, f t)) m) k = map_option f (map_of m k)"
  by (induction m) auto

lemma map_core_update:
  "map (\<lambda>(k, t). (k, f t)) (AList.update k v m) = AList.update k (f v) (map (\<lambda>(k, t). (k, f t)) m)"
  by (induction m) auto

text \<open>Each transfer is filed under its own id.\<close>

definition keyed :: "client \<Rightarrow> bool" where
  "keyed c \<longleftrightarrow> (\<forall>rpc t. jm_get (cl_transfers c) rpc = Some t \<longrightarrow> tr_rpc t = rpc)"

lemma keyed_get: "keyed c \<Longrightarrow> jm_get (cl_transfers c) rpc = Some t \<Longrightarrow> tr_rpc t = rpc"
  by (simp add: keyed_def)

lemma readA_const [simp]: "readA (\<lambda>_. m) = m"
  by (simp add: readA_def fun_eq_iff)

lemma thenA_ret [simp]: "thenA m (retA ()) = m"
  by (auto simp: thenA_def bindA_def retA_def fun_eq_iff split: prod.split sum.split)

named_theorems quiets \<open>actions a caller cannot observe\<close>

named_theorems holdings \<open>rules for an action that holds a transfer\<close>

lemma hold_if_on [holdings]:
  "hold P m Q X \<Longrightarrow> hold P n Q X \<Longrightarrow> hold P (if b then m else n) Q X"
  by simp

lemma hold_option_on [holdings]:
  "hold P m Q X \<Longrightarrow> (\<And>x. hold P (f x) Q X) \<Longrightarrow> hold P (case z of None \<Rightarrow> m | Some x \<Rightarrow> f x) Q X"
  by (cases z) simp_all

text \<open>What the client keeps about its transfers is not touched by the timing rules.\<close>

lemma transfers_timing [simp]:
  "cl_transfers (sampleRtt now r c) = cl_transfers c" "cl_transfers (noteSpurious now c) = cl_transfers c"
  "cl_transfers (lossBackoff now c) = cl_transfers c" "cl_transfers (upd_stats f c) = cl_transfers c"
  "cl_transfers (emit x c) = cl_transfers c" "cl_transfers (syncQueueLimit c) = cl_transfers c"
  by (simp_all add: sampleRtt_def noteSpurious_def lossBackoff_def upd_stats_def emit_def syncQueueLimit_def
      Let_def split: option.split)

lemma finish_core_transfers: "cl_transfers (finish_core e t err c) = jm_delete (tr_rpc t) (cl_transfers c)"
proof -
  have f: "cl_transfers (snd (flushStream e t d)) = cl_transfers d" for d
    by (auto simp: flushStream_def flush_chunk_def Let_def split: option.split)
  have "cl_transfers (close_stream err t' d) = cl_transfers d" "cl_transfers (settle_transfer err t' d) = cl_transfers d"
    for t' d by (auto simp: close_stream_def settle_transfer_def split: option.split)
  then show ?thesis using f by (simp add: finish_core_def Let_def split_def)
qed

text \<open>A view of a transfer that does not see the bookkeeping of granting and loss detection. Whatever
  such a view shows, an action is quiet if it leaves the view of every transfer and the log, datagrams
  apart, as they were.\<close>

locale transfer_view =
  fixes view :: "transfer \<Rightarrow> 'v" and rpc_of :: "'v \<Rightarrow> int"
  assumes rpc: "rpc_of (view t) = tr_rpc t"
    and no_repair: "view (t\<lparr>tr_repair := r\<rparr>) = view t"
    and no_detect: "view (t\<lparr>tr_lastDetect := d\<rparr>) = view t"
    and no_tail_probe: "view (t\<lparr>tr_tailProbed := b\<rparr>) = view t"
    and no_ceiling: "view (t\<lparr>tr_ceiling := x\<rparr>) = view t"
    and no_probe: "view (t\<lparr>tr_probe := p\<rparr>) = view t"
    and no_progress: "view (t\<lparr>tr_lastProgress := x\<rparr>) = view t"
begin

lemmas ignores = no_repair no_detect no_tail_probe no_ceiling no_probe no_progress

lemma same_rpc: "view t = view t' \<Longrightarrow> tr_rpc t = tr_rpc t'"
  using rpc by metis

definition core :: "client \<Rightarrow> (int \<times> 'v) list \<times> effect list" where
  "core c = (map (\<lambda>(k, t). (k, view t)) (cl_transfers c), filter (\<lambda>x. \<not> is_write x) (cl_log c))"

definition steady :: "(int \<times> 'v) list \<times> effect list \<Rightarrow> client \<Rightarrow> bool" where
  "steady k c \<longleftrightarrow> keyed c \<and> core c = k"

definition quiet :: "unit act \<Rightarrow> bool" where
  "quiet m \<longleftrightarrow> (\<forall>k. hold (steady k) m (steady k) (steady k))"

lemma core_get: "jm_get (fst (core c)) rpc = map_option view (jm_get (cl_transfers c) rpc)"
  by (simp add: core_def jm_get_def map_core_get)

lemma keyed_core: "keyed c \<longleftrightarrow> (\<forall>rpc v. jm_get (fst (core c)) rpc = Some v \<longrightarrow> rpc_of v = rpc)"
  unfolding keyed_def core_get map_option_eq_Some by (metis rpc)

lemma keyed_cong: "core c = core d \<Longrightarrow> keyed c = keyed d"
  by (simp add: keyed_core)

lemma core_put:
  assumes "keyed c" "jm_get (cl_transfers c) rpc = Some t" "view t' = view t"
  shows "core (put_transfer t' c) = core c"
proof -
  have "tr_rpc t' = rpc" using assms keyed_get same_rpc by metis
  moreover have "map_of (map (\<lambda>(k, t). (k, view t)) (cl_transfers c)) rpc = Some (view t')"
    using assms by (simp add: map_core_get jm_get_def)
  ultimately show ?thesis
    by (simp add: core_def put_transfer_def jm_set_def map_core_update update_triv)
qed

text \<open>Changes that do not reach a transfer or the log.\<close>

lemma core_rest [simp]:
  "core (c\<lparr>cl_stats := v1\<rparr>) = core c" "core (c\<lparr>cl_sched := v2\<rparr>) = core c"
  "core (c\<lparr>cl_budget := v3\<rparr>) = core c" "core (c\<lparr>cl_seq := v4\<rparr>) = core c"
  "core (c\<lparr>cl_lastSeqDetect := v5\<rparr>) = core c" "core (c\<lparr>cl_payloadSeen := v6\<rparr>) = core c"
  "core (c\<lparr>cl_reorderSteps := v7\<rparr>) = core c" "core (c\<lparr>cl_lastSpuriousAt := v8\<rparr>) = core c"
  "core (c\<lparr>cl_lastLossBackoffAt := v9\<rparr>) = core c" "core (c\<lparr>cl_srtt := v10\<rparr>) = core c"
  "core (c\<lparr>cl_rttvar := v11\<rparr>) = core c" "core (c\<lparr>cl_initialRto := v12\<rparr>) = core c"
  "core (c\<lparr>cl_lastBackoffAt := v13\<rparr>) = core c" "core (c\<lparr>cl_ticker := v14\<rparr>) = core c"
  "core (c\<lparr>cl_closed := v15\<rparr>) = core c" "core (c\<lparr>cl_sessionClosed := v16\<rparr>) = core c"
  "core (c\<lparr>cl_reading := v17\<rparr>) = core c" "core (c\<lparr>cl_queueLimit := v18\<rparr>) = core c"
  "core (upd_stats f c) = core c" "core (emit (Write b) c) = core c"
  by (simp_all add: core_def upd_stats_def emit_def)

lemma core_timing [simp]:
  "core (sampleRtt now r c) = core c" "core (noteSpurious now c) = core c" "core (lossBackoff now c) = core c"
  "core (syncQueueLimit c) = core c" "core (pump_prepare c) = core c" "core (pump_after c) = core c"
  by (simp_all add: sampleRtt_def noteSpurious_def lossBackoff_def syncQueueLimit_def pump_prepare_def
      pump_after_def Let_def split: option.split)

lemma quietI: "(\<And>k. hold (steady k) m (steady k) (steady k)) \<Longrightarrow> quiet m"
  unfolding quiet_def by blast

lemma quietD: "quiet m \<Longrightarrow> hold (steady k) m (steady k) (steady k)"
  unfolding quiet_def by blast

lemma quiet_core:
  assumes "quiet m" "keyed c"
  shows "core (snd (m c)) = core c"
  by (rule hold_state [where R = "\<lambda>d. core d = core c", OF quietD [OF assms(1), of "core c"]])
     (simp_all add: steady_def assms(2))

lemma steady_keep: "steady k c \<Longrightarrow> core d = core c \<Longrightarrow> steady k d"
  by (simp add: steady_def keyed_core)

lemma steady_put:
  "steady k c \<Longrightarrow> jm_get (cl_transfers c) rpc = Some t \<Longrightarrow> view t' = view t \<Longrightarrow> steady k (put_transfer t' c)"
  using core_put steady_keep unfolding steady_def by metis

text \<open>Each rule leaves at most a precondition that entails \<open>steady\<close>.\<close>

lemma quiet_ret [quiets]: "quiet (retA ())"
  by (intro quietI hold_ret)

lemma quiet_throw [quiets]: "quiet (throwA e)"
  by (intro quietI hold_throw)

lemma quiet_do [quiets]: "(\<And>c. core (f c) = core c) \<Longrightarrow> quiet (doA f)"
  by (intro quietI hold_do) (blast intro: steady_keep)

lemma quiet_then [quiets]: "quiet m \<Longrightarrow> quiet n \<Longrightarrow> quiet (thenA m n)"
  unfolding quiet_def by (blast intro: hold_then)

lemma quiet_read [quiets]: "(\<And>d. quiet (f d)) \<Longrightarrow> quiet (readA f)"
  unfolding quiet_def by (blast intro: hold_read hold_pre)

lemma quiet_when [quiets]: "quiet m \<Longrightarrow> quiet (whenA b m)"
  by (simp add: whenA_def quiet_ret)

lemma quiet_each [quiets]: "(\<And>x. quiet (f x)) \<Longrightarrow> quiet (eachA f xs)"
  unfolding quiet_def by (blast intro: hold_each)

lemma quiet_if [quiets]: "quiet m \<Longrightarrow> quiet n \<Longrightarrow> quiet (if b then m else n)"
  by simp

lemma quiet_option [quiets]: "quiet m \<Longrightarrow> (\<And>x. quiet (f x)) \<Longrightarrow> quiet (case z of None \<Rightarrow> m | Some x \<Rightarrow> f x)"
  by (cases z) simp_all

lemma quiet_transfer [quiets]: "(\<And>t. quiet (f t)) \<Longrightarrow> quiet (with_transfer rpc f)"
  unfolding quiet_def by (blast intro: hold_transfer hold_pre)

lemma quiet_send [quiets]: "quiet (send p)"
  by (intro quietI hold_send) (auto elim: steady_keep)

text \<open>The transfer just looked up goes back with changes a caller cannot observe.\<close>

lemma quiet_put:
  assumes "\<And>t d. quiet (g t d)" "\<And>t d. view (f t d) = view t"
  shows "quiet (with_transfer rpc (\<lambda>t. readA (\<lambda>d. thenA (doA (put_transfer (f t d))) (g t d))))"
proof (rule quietI, rule hold_transfer)
  fix k t
  show "hold (\<lambda>c. steady k c \<and> jm_get (cl_transfers c) rpc = Some t)
      (readA (\<lambda>d. thenA (doA (put_transfer (f t d))) (g t d))) (steady k) (steady k)"
    by (rule hold_read, rule hold_then [OF hold_do [where Q = "steady k"]])
       (auto intro: steady_put assms(2) quietD assms(1))
qed simp

lemmas quiet_put_plain [quiets] = quiet_put [where f = "\<lambda>t d. f t" and g = "\<lambda>t d. g t" for f g, simplified]

lemmas quiet_put_only [quiets] =
  quiet_put [where f = "\<lambda>t d. f t" and g = "\<lambda>t d. retA ()" for f, simplified, OF quiet_ret]

lemma quiet_hello [quiets]: "quiet sendHello"
  unfolding sendHello_def by (intro quiets) simp

lemma quiet_resend_seq [quiets]: "quiet (sendResendSeq r)"
  unfolding sendResendSeq_def by (intro quiets) simp

lemma quiet_resend [quiets]: "quiet (send_resend rpc f g)"
  unfolding send_resend_def by (intro quiets) simp

lemma quiet_grant [quiets]: "quiet (grant_one e b g)"
  unfolding grant_one_def by (intro quiets) (simp_all add: ignores)

lemma quiet_pump [quiets]: "quiet (pumpGrants e)"
  unfolding pumpGrants_def Let_def split_def by (intro quiets) simp_all

text \<open>Two changes in a row to the transfer at hand.\<close>

abbreviation holding :: "(int \<times> 'v) list \<times> effect list \<Rightarrow> int \<Rightarrow> transfer \<Rightarrow> client \<Rightarrow> bool" where
  "holding k rpc t c \<equiv> steady k c \<and> jm_get (cl_transfers c) rpc = Some t"

lemma holding_put: "holding k rpc t c \<Longrightarrow> view t' = view t \<Longrightarrow> holding k rpc t' (put_transfer t' c)"
proof
  assume h: "holding k rpc t c" and c: "view t' = view t"
  then show "steady k (put_transfer t' c)" by (blast intro: steady_put)
  have "tr_rpc t' = rpc" using h c keyed_get same_rpc unfolding steady_def by metis
  then show "jm_get (cl_transfers (put_transfer t' c)) rpc = Some t'" by (simp add: put_transfer_def)
qed

lemma hold_put [holdings]:
  assumes "view t' = view t" "hold (holding k rpc t') n (steady k) (steady k)"
  shows "hold (holding k rpc t) (thenA (doA (put_transfer t')) n) (steady k) (steady k)"
  by (rule hold_then [OF hold_do [where Q = "holding k rpc t'"] assms(2)], rule holding_put [OF _ assms(1)])

lemma hold_read_on [holdings]:
  "(\<And>d. hold (holding k rpc t) (f d) Q X) \<Longrightarrow> hold (holding k rpc t) (readA f) Q X"
  by (rule hold_read, rule hold_pre [where P' = "holding k rpc t"]) simp_all

lemma hold_quiet: "quiet m \<Longrightarrow> hold (holding k rpc t) m (steady k) (steady k)"
  by (rule hold_pre [OF quietD]) simp_all

lemma hold_ret_on [holdings]: "hold (holding k rpc t) (retA ()) (steady k) (steady k)"
  by (rule hold_ret) simp

lemma quiet_holding_own:
  assumes "\<And>k t. tr_rpc t = rpc \<Longrightarrow> hold (holding k rpc t) (f t) (steady k) (steady k)"
  shows "quiet (with_transfer rpc f)"
proof (intro quietI hold_transfer)
  fix k t
  show "hold (holding k rpc t) (f t) (steady k) (steady k)"
  proof (cases "tr_rpc t = rpc")
    case True
    then show ?thesis by (rule assms)
  next
    case False
    then show ?thesis using keyed_get by (auto simp: hold_def steady_def)
  qed
qed

lemma quiet_holding:
  "(\<And>k t. hold (holding k rpc t) (f t) (steady k) (steady k)) \<Longrightarrow> quiet (with_transfer rpc f)"
  by (rule quiet_holding_own)

lemma quiet_detect [quiets]: "quiet (detectLoss e rpc)"
  unfolding detectLoss_def Let_def split_def prod.case
  by (intro quiet_holding holdings hold_quiet quiets) (simp_all add: ignores)

lemma quiet_probe [quiets]: "quiet (tail_probe e rpc g)"
  unfolding tail_probe_def Let_def split_def prod.case
  by (intro quiet_holding holdings hold_quiet quiets) (simp_all add: ignores)

lemma quiet_detect_seq [quiets]: "quiet (detectSeqLoss e)"
  unfolding detectSeqLoss_def Let_def split_def by (intro quiets) simp_all

lemma holding_keep:
  "holding k rpc t c \<Longrightarrow> core d = core c \<Longrightarrow> cl_transfers d = cl_transfers c \<Longrightarrow> holding k rpc t d"
  by (simp add: steady_def keyed_core)

lemma hold_send_on: "hold (holding k rpc t) (send p) (holding k rpc t) (steady k)"
  by (rule hold_send) (auto elim: holding_keep simp: steady_def keyed_core)

lemma hold_then_on: "hold P m (holding k rpc t) (steady k) \<Longrightarrow> hold (holding k rpc t) n (steady k) (steady k) \<Longrightarrow>
    hold P (thenA m n) (steady k) (steady k)"
  by (rule hold_then)

end

section \<open>What a caller can observe\<close>

definition core_of :: "transfer \<Rightarrow> transfer" where
  "core_of t = t\<lparr>tr_repair := None, tr_lastDetect := None, tr_tailProbed := False, tr_replied := False,
     tr_stream := map_option (\<lambda>st. st\<lparr>st_paused := False\<rparr>) (tr_stream t), tr_reqRetransmitted := False,
     tr_ceiling := 0, tr_probe := None, tr_lastProgress := 0, tr_recoveries := 0\<rparr>"

lemma core_of_rpc [simp]: "tr_rpc (core_of t) = tr_rpc t"
  by (simp add: core_of_def)

interpretation caller: transfer_view core_of tr_rpc
  by unfold_locales (simp_all add: core_of_def)

abbreviation core where "core \<equiv> caller.core"
abbreviation steady where "steady \<equiv> caller.steady"
abbreviation quiet where "quiet \<equiv> caller.quiet"
abbreviation holding where "holding \<equiv> caller.holding"

lemma quiet_note_reply [quiets]: "quiet (note_reply e rpc)"
  unfolding note_reply_def
proof (rule caller.quiet_holding)
  fix k t
  show "hold (holding k rpc t)
     (whenA (\<not> tr_replied t) (thenA (doA (put_transfer (t\<lparr>tr_replied := True\<rparr>)))
       (whenA (\<not> tr_reqRetransmitted t) (doA (sampleRtt (ev_now e) (ev_now e - tr_reqSentAt t))))))
     (steady k) (steady k)"
    unfolding whenA_def by (intro holdings caller.hold_quiet quiets) (simp_all add: core_of_def)
qed

lemma holding_prepare:
  assumes "holding k rpc t c"
  shows "steady k (recover_prepare e (t\<lparr>tr_recoveries := n\<rparr>) c)"
proof -
  let ?d = "lossBackoff (ev_now e) (upd_stats (\<lambda>s. s\<lparr>recoveries_stat := recoveries_stat s + 1\<rparr>) c)"
  let ?d' = "if cl_srtt ?d = None \<and> since (ev_now e) (cl_lastBackoffAt ?d) (cl_initialRto ?d)
    then ?d\<lparr>cl_initialRto := min MAX_INITIAL_RTO_MS (cl_initialRto ?d * 2), cl_lastBackoffAt := Some (ev_now e)\<rparr>
    else ?d"
  have "holding k rpc t ?d'" by (rule caller.holding_keep [OF assms]) simp_all
  then have "holding k rpc (t\<lparr>tr_recoveries := n, tr_probe := None, tr_lastProgress := ev_now e\<rparr>)
      (put_transfer (t\<lparr>tr_recoveries := n, tr_probe := None, tr_lastProgress := ev_now e\<rparr>) ?d')"
    by (rule caller.holding_put) (simp add: core_of_def)
  then show ?thesis unfolding recover_prepare_def Let_def by (rule conjunct1)
qed

lemma send_cases: "send p c = (Inl e, d) \<Longrightarrow> d = c"
  by (auto simp: send_def readA_def doA_def throwA_def split: if_splits sum.splits)

lemma quiet_again [quiets]: "quiet (recover_again e rpc granted)"
  unfolding recover_again_def
proof (rule caller.quiet_then; rule caller.quiet_holding)
  fix k t
  show "hold (holding k rpc t) (whenA (tr_asm t = None \<or> tr_headers t = None)
           (thenA (doA (put_transfer (t\<lparr>tr_reqRetransmitted := True\<rparr>)))
           (thenA (doA (upd_stats (\<lambda>s. s\<lparr>reqRetransmits := reqRetransmits s + 1\<rparr>)))
              (send (Req rpc (tr_initialGrant t) (tr_assetId t)))))) (steady k) (steady k)"
    unfolding whenA_def by (intro holdings caller.hold_quiet quiets) (simp_all add: core_of_def)
next
  fix k t
  have g: "hold (holding k rpc t) (whenA (granted > tr_initialGrant t) (send (Grant rpc granted 0)))
      (holding k rpc t) (steady k)"
    by (rule hold_when) (auto intro: caller.hold_send_on)
  show "hold (holding k rpc t) (case (tr_asm t, tr_repair t) of
              (Some a, Some rp) \<Rightarrow>
                thenA (whenA (granted > tr_initialGrant t) (send (Grant rpc granted 0)))
               (readA (\<lambda>c.
                  let (out, rp') = repair_claim a (recover_gaps c a granted) (ev_now e) (repairDelay c) rp
                  in thenA (doA (put_transfer (t\<lparr>tr_repair := Some rp'\<rparr>)))
                       (eachA (send_resend rpc (\<lambda>s. s\<lparr>resendsSent := resendsSent s + 1\<rparr>)) out)))
            | _ \<Rightarrow> retA ()) (steady k) (steady k)"
    unfolding Let_def split_def prod.case
    by (intro holdings caller.hold_then_on [OF g] caller.hold_quiet quiets) (simp_all add: core_of_def)
qed

end
