(* ===== verification/Runs.thy ===== *)
theory Runs
  imports Client Codec
begin

text \<open>
  Running the session symbolically: rewrite rules that step through the actions of
  \<open>client/src/transport.ts\<close>, and a few concrete sessions that witness the properties of the others.
\<close>

section \<open>Stepping through actions\<close>

named_theorems runs \<open>one step of a run\<close>

text \<open>What an action does next is not simplified before its state is known.\<close>

lemma run_congs:
  "c = c' \<Longrightarrow> readA f c = readA f c'" "c = c' \<Longrightarrow> thenA m n c = thenA m n c'" "c = c' \<Longrightarrow> doA g c = doA g c'"
  "xs = xs' \<Longrightarrow> c = c' \<Longrightarrow> eachA h xs c = eachA h xs' c'" "b = b' \<Longrightarrow> c = c' \<Longrightarrow> whenA b m c = whenA b' m c'"
  "c = c' \<Longrightarrow> catchA m l c = catchA m l c'" "c = c' \<Longrightarrow> with_transfer rpc w c = with_transfer rpc w c'"
  by simp_all

lemma run_acts [runs]:
  "retA x c = (Inr x, c)" "doA f c = (Inr (), f c)" "throwA e c = (Inl e, c)" "readA g c = g c c"
  "thenA m n c = (case m c of (Inl e, c') \<Rightarrow> (Inl e, c') | (Inr x, c') \<Rightarrow> n c')"
  "whenA b k c = (if b then k c else (Inr (), c))"
  "eachA h [] c = (Inr (), c)"
  "eachA h (y # ys) c = (case h y c of (Inl e, c') \<Rightarrow> (Inl e, c') | (Inr x, c') \<Rightarrow> eachA h ys c')"
  "catchA k l c = (case k c of (Inl e, c') \<Rightarrow> l e c' | (Inr x, c') \<Rightarrow> (Inr x, c'))"
  "with_transfer rpc w c = (case jm_get (cl_transfers c) rpc of None \<Rightarrow> (Inr (), c) | Some t \<Rightarrow> w t c)"
  by (simp_all add: retA_def doA_def throwA_def readA_def thenA_def bindA_def whenA_def catchA_def
      with_transfer_def split: option.split)

lemmas run_operations [runs] = send_def [THEN fun_cong] sendHello_def [THEN fun_cong] pumpGrants_def [THEN fun_cong]
  grant_one_def [THEN fun_cong] start_request_def [THEN fun_cong] receive_def [THEN fun_cong]
  read_one_def [THEN fun_cong] handle_def deliver_def [THEN fun_cong] note_reply_def [THEN fun_cong]
  handle_meta_def [THEN fun_cong] handle_data_def [THEN fun_cong] take_payload_def [THEN fun_cong]
  finish_def [THEN fun_cong] failAll_def [THEN fun_cong] detectLoss_def [THEN fun_cong]

lemmas run_constants [runs] = DEFAULT_BUDGET_FLOOR_def DEFAULT_BUDGET_CAP_def DEFAULT_MIN_INCREMENT_def
  DEFAULT_RTO_FLOOR_MS_def INITIAL_RTO_MS_def DEFAULT_K_def DEFAULT_BUDGET_K_def MIN_INITIAL_GRANT_def
  MAX_INITIAL_GRANT_def DEFAULT_REORDER_PACKETS_def DEFAULT_STREAM_HIGH_WATER_MARK_def MAX_RTO_MS_def
  DEFAULT_MAX_RECOVERIES_def MIN_REORDER_WINDOW_MS_def HELLO_REPEATS_def DEFAULT_LOSS_FACTOR_def
  MAX_INITIAL_RTO_MS_def MIN_INCREMENT_BUDGET_SHARE_def DETECT_INTERVAL_MS_def STREAM_CHUNK_def

lemmas run_state [runs] = new_client_def fresh_client_def new_stats_def chosen_floor_def chosen_cap_def
  chosen_increment_def or_default_def new_budget_def new_scheduler_def syncQueueLimit_def upd_stats_def emit_def
  put_transfer_def rto_def reorderWindow_def isOpen_def nextInitialGrant_def new_transfer_def reserved_def
  bc_bdp_def bc_max_rate_def new_seq_tracker_def sampleRtt_def on_rtt_sample_def headers_of_def start_body_def
  maybeStart_def open_body_def data_arrived_def count_payload_def probe_hit_def progress_def flushStream_def
  flush_chunk_def body_slice_def on_delivered_def since_def finish_core_def close_stream_def settle_transfer_def
  pump_prepare_def pump_after_def note_limited_def Let_def

lemmas run_scheduler [runs] = sched_outstanding_def sched_add_def sched_on_data_def sched_modify_def
  sched_remove_def sched_set_budget_def sched_set_paused_def sched_grants_def sched_granted_def candidates_def
  effective_increment_def in_flight_def wants_def grant_step_def jm_get_Cons jm_set_def jm_delete_def

lemmas run_body [runs] = new_reassembly_def new_repair_def asm_add_def write_at_def asm_complete_def
  asm_contiguous_def asm_frontier_def asm_missing_def repair_requested_def repair_detect_def repair_claim_def
  claim_core_def subarray_def

text \<open>A packet that obeys the format is sent as its layout.\<close>

lemma run_encode [runs]: "wf_packet p \<Longrightarrow> encode p = Inr (packet_bytes p)"
  by (simp add: encode_iff)

lemmas run_packets [runs] = wf_packet_def u32_def u8_def

section \<open>Sample sessions\<close>

definition plain_options :: client_options where
  "plain_options = \<lparr>op_budget = None, op_budgetFloor = None, op_budgetCap = None, op_budgetK = None,
     op_minIncrement = None, op_initialGrant = None, op_rtoFloorMs = None, op_maxRecoveries = None,
     op_earlyResend = None, op_reorderPackets = None, op_sessionSeq = None, op_streamHighWaterMark = None,
     op_trace = None, op_dropOutgoing = None\<rparr>"

text \<open>Readers have room, or their queues are full.\<close>

definition roomy :: "num \<Rightarrow> env" where "roomy n = \<lparr>ev_now = n, ev_desired = (\<lambda>_. 1)\<rparr>"
definition full :: "num \<Rightarrow> env" where "full n = \<lparr>ev_now = n, ev_desired = (\<lambda>_. 0)\<rparr>"

definition meta7 :: "byte list" where "meta7 = [0x06, 0,0,0,0,0,0,0,7, 0]"
definition data7 :: "byte list" where "data7 = [0x02, 0,0,0,0,0,0,0,7, 0,0,0,2, 0,0,0,0, 10, 20]"
definition four7 :: "byte list" where "four7 = [0x02, 0,0,0,0,0,0,0,7, 0,0,0,4, 0,0,0,0, 10, 20]"

lemma sample_datagrams [runs]:
  "decode meta7 = Inr (Meta 7 [])" "decode data7 = Inr (Data 7 2 0 [10, 20])" "decode four7 = Inr (Data 7 4 0 [10, 20])"
  by (simp_all add: meta7_def data7_def four7_def decode_def get_uint_def decode_meta_def decode_data_def be_get_def
      checkDataBounds_def subarray_def checkMeta_def)

lemma sample_id [runs]:
  "utf8_encode [97] = [97]" "\<not> is_lead 97" "\<not> is_trail 97" "length (packet_bytes (Req rpc g [97])) = 16"
  by (simp_all add: utf8_encode_def utf8_of_def byte_of_def is_lead_def is_trail_def packet_bytes_def nput_def)

definition sample_session :: "bool \<Rightarrow> (env \<times> client_ev) list" where
  "sample_session streaming = [(roomy 0, Start 7 [97] streaming Normal), (roomy 5, Datagram meta7), (roomy 6, Datagram data7)]"

definition lost_meta_session :: "(env \<times> client_ev) list" where
  "lost_meta_session = [(full 0, Start 7 [97] True Normal), (full 6, Datagram data7)]"

definition sample_client :: client where
  "sample_client = snd (new_client plain_options 1200 None)"

lemma sample_run_log:
  "cl_log (client_run (sample_session False) sample_client) =
     [Write (packet_bytes (Hello 0 1)), Write (packet_bytes (Hello 0 1)), Write (packet_bytes (Req 7 4096 [97])),
      Resolve 7 [10, 20] []]"
  by (simp add: sample_session_def sample_client_def plain_options_def roomy_def runs cong: run_congs)

lemma sample_stream_log:
  "cl_log (client_run (sample_session True) sample_client) =
     [Write (packet_bytes (Hello 0 1)), Write (packet_bytes (Hello 0 1)), Write (packet_bytes (Req 7 4096 [97])),
      ResolveStream 7 2 [], Enqueue 7 [10, 20], StreamClose 7]"
  by (simp add: sample_session_def sample_client_def plain_options_def roomy_def runs cong: run_congs)

lemma lost_meta_state:
  "cl_transfers (client_run lost_meta_session sample_client) =
     [(7, \<lparr>tr_rpc = 7, tr_assetId = [97], tr_cls = Normal, tr_initialGrant = 4096,
        tr_asm = Some \<lparr>asm_size = 2, asm_bytes = [10, 20], asm_ranges = [Range 0 2], asm_received = 2\<rparr>,
        tr_repair = Some new_repair, tr_lastDetect = Some 6, tr_tailProbed = False, tr_headers = None,
        tr_replied = True, tr_stream = Some \<lparr>st_emitted = 2, st_paused = True, st_closed = False\<rparr>,
        tr_settled = False, tr_reqSentAt = 0, tr_reqRetransmitted = False, tr_baseRto = 100,
        tr_ceiling = 4096, tr_probe = None, tr_lastProgress = 6, tr_recoveries = 0\<rparr>)]"
  by (simp add: lost_meta_session_def sample_client_def plain_options_def full_def runs cong: run_congs)

end
