(* ===== verification/Delivery.thy ===== *)
theory Delivery
  imports Frame JsValue Runs
begin

text \<open>
  What a caller of the session gets (\<open>client/src/transport.ts\<close>). \<open>A rpc\<close> is the asset the server holds
  for a request and \<open>H rpc\<close> its metadata; the server may lose, repeat, reorder and delay datagrams and
  report errors, but DATA and META that arrive are pieces of these. Under that assumption every answer
  carries the asset, and every stream carries a prefix of it and closes only at its end, over any sequence of
  events.
\<close>

section \<open>The log of one request\<close>

fun about :: "int \<Rightarrow> effect \<Rightarrow> bool" where
  "about rpc (Write b) = False"
| "about rpc (Resolve r b h) = (r = rpc)"
| "about rpc (ResolveStream r n h) = (r = rpc)"
| "about rpc (RejectWith r x) = (r = rpc)"
| "about rpc (Enqueue r b) = (r = rpc)"
| "about rpc (StreamClose r) = (r = rpc)"
| "about rpc (StreamError r x) = (r = rpc)"
| "about rpc CloseSession = False"

fun chunk_of :: "effect \<Rightarrow> byte list" where
  "chunk_of (Enqueue r b) = b"
| "chunk_of _ = []"

fun is_answer :: "effect \<Rightarrow> bool" where
  "is_answer (Resolve r b h) = True"
| "is_answer (ResolveStream r n h) = True"
| "is_answer (RejectWith r x) = True"
| "is_answer _ = False"

fun is_end :: "effect \<Rightarrow> bool" where
  "is_end (StreamClose r) = True"
| "is_end (StreamError r x) = True"
| "is_end _ = False"

definition log_of :: "int \<Rightarrow> client \<Rightarrow> effect list" where
  "log_of rpc c = filter (about rpc) (cl_log c)"

definition chunks :: "effect list \<Rightarrow> byte list" where
  "chunks lg = concat (map chunk_of lg)"

definition answers :: "effect list \<Rightarrow> effect list" where
  "answers lg = filter is_answer lg"

definition endings :: "effect list \<Rightarrow> effect list" where
  "endings lg = filter is_end lg"

lemma log_parts [simp]:
  "chunks [] = []" "chunks (lg @ lg') = chunks lg @ chunks lg'" "chunks [x] = chunk_of x"
  "answers [] = []" "answers (lg @ lg') = answers lg @ answers lg'" "answers [x] = (if is_answer x then [x] else [])"
  "endings [] = []" "endings (lg @ lg') = endings lg @ endings lg'" "endings [x] = (if is_end x then [x] else [])"
  by (simp_all add: chunks_def answers_def endings_def)

lemma log_of_emit: "log_of rpc (emit x c) = (if about rpc x then log_of rpc c @ [x] else log_of rpc c)"
  by (simp add: log_of_def emit_def)

lemma log_of_core: "log_of rpc c = filter (about rpc) (snd (core c))"
proof -
  have "about rpc x \<and> \<not> is_write x \<longleftrightarrow> about rpc x" for x by (cases x) auto
  then show ?thesis by (simp add: log_of_def caller.core_def conj_commute cong: conj_cong)
qed

section \<open>The invariant\<close>

fun true_effect :: "(int \<Rightarrow> byte list) \<Rightarrow> (int \<Rightarrow> headers) \<Rightarrow> effect \<Rightarrow> bool" where
  "true_effect A H (Resolve r b h) = (b = A r \<and> h = H r)"
| "true_effect A H (ResolveStream r n h) = (n = len (A r) \<and> h = H r)"
| "true_effect A H _ = True"

text \<open>What may stand in the log about a request, at any time.\<close>

definition honest :: "(int \<Rightarrow> byte list) \<Rightarrow> (int \<Rightarrow> headers) \<Rightarrow> int \<Rightarrow> effect list \<Rightarrow> bool" where
  "honest A H rpc lg \<longleftrightarrow> list_all (true_effect A H) lg \<and> length (answers lg) \<le> 1 \<and> length (endings lg) \<le> 1 \<and>
     startsWith (A rpc) (chunks lg) \<and> (StreamClose rpc \<in> set lg \<longrightarrow> chunks lg = A rpc)"

text \<open>A request still in progress.\<close>

definition stream_ok :: "transfer \<Rightarrow> effect list \<Rightarrow> bool" where
  "stream_ok t lg \<longleftrightarrow>
     (case tr_stream t of
        None \<Rightarrow> chunks lg = []
      | Some st \<Rightarrow> \<not> st_closed st \<and> st_emitted st = len (chunks lg) \<and>
          st_emitted st \<le> (case tr_asm t of None \<Rightarrow> 0 | Some a \<Rightarrow> asm_contiguous a))"

definition live_ok :: "(int \<Rightarrow> byte list) \<Rightarrow> (int \<Rightarrow> headers) \<Rightarrow> int \<Rightarrow> transfer \<Rightarrow> effect list \<Rightarrow> bool" where
  "live_ok A H rpc t lg \<longleftrightarrow> tr_rpc t = rpc \<and> honest A H rpc lg \<and> endings lg = [] \<and>
     (tr_settled t \<longleftrightarrow> answers lg \<noteq> []) \<and> stream_ok t lg \<and>
     (\<forall>a. tr_asm t = Some a \<longrightarrow> asm_holds (A rpc) a) \<and> (\<forall>h. tr_headers t = Some h \<longrightarrow> h = H rpc)"

definition slot_ok :: "(int \<Rightarrow> byte list) \<Rightarrow> (int \<Rightarrow> headers) \<Rightarrow> int \<Rightarrow> transfer option \<Rightarrow> effect list \<Rightarrow> bool" where
  "slot_ok A H rpc s lg = (case s of None \<Rightarrow> honest A H rpc lg | Some t \<Rightarrow> live_ok A H rpc t lg)"

definition delivery :: "(int \<Rightarrow> byte list) \<Rightarrow> (int \<Rightarrow> headers) \<Rightarrow> int set \<Rightarrow> client \<Rightarrow> bool" where
  "delivery A H used c \<longleftrightarrow>
     (\<forall>rpc. slot_ok A H rpc (jm_get (cl_transfers c) rpc) (log_of rpc c)) \<and>
     (\<forall>rpc. rpc \<notin> used \<longrightarrow> jm_get (cl_transfers c) rpc = None \<and> log_of rpc c = [])"

lemma slot_ok_simps [simp]:
  "slot_ok A H rpc None lg = honest A H rpc lg" "slot_ok A H rpc (Some t) lg = live_ok A H rpc t lg"
  by (simp_all add: slot_ok_def)

lemma live_ok_core: "live_ok A H rpc (core_of t) lg = live_ok A H rpc t lg"
  by (auto simp: live_ok_def stream_ok_def core_of_def split: option.splits)

lemma slot_ok_core: "slot_ok A H rpc (map_option core_of s) lg = slot_ok A H rpc s lg"
  by (cases s) (simp_all add: live_ok_core)

lemma delivery_core:
  assumes "core c = core d"
  shows "delivery A H used c = delivery A H used d"
proof -
  have l: "log_of rpc c = log_of rpc d" for rpc using assms by (simp add: log_of_core)
  have g: "map_option core_of (jm_get (cl_transfers c) rpc) = map_option core_of (jm_get (cl_transfers d) rpc)" for rpc
    using assms by (metis caller.core_get)
  have "slot_ok A H rpc (jm_get (cl_transfers c) rpc) (log_of rpc c)
      = slot_ok A H rpc (jm_get (cl_transfers d) rpc) (log_of rpc d)" for rpc
    using slot_ok_core g l by metis
  moreover have "jm_get (cl_transfers c) rpc = None \<longleftrightarrow> jm_get (cl_transfers d) rpc = None" for rpc
    using g by (metis option.map_disc_iff)
  ultimately show ?thesis using l by (simp add: delivery_def)
qed

lemma delivery_get: "delivery A H used c \<Longrightarrow> jm_get (cl_transfers c) rpc = Some t \<Longrightarrow>
    rpc \<in> used \<and> live_ok A H rpc t (log_of rpc c)"
  unfolding delivery_def by (metis slot_ok_simps(2) option.distinct(1))

lemma delivery_keyed: "delivery A H used c \<Longrightarrow> keyed c"
  unfolding keyed_def using delivery_get live_ok_def by blast

lemma quiet_delivery: "quiet m \<Longrightarrow> hold (delivery A H used) m (delivery A H used) (delivery A H used)"
  unfolding hold_def
proof (intro allI impI)
  fix c assume q: "quiet m" and d: "delivery A H used c"
  then have "core (snd (m c)) = core c" using caller.quiet_core delivery_keyed by blast
  then have "delivery A H used (snd (m c))" using d delivery_core by blast
  then show "case m c of (Inl e, c') \<Rightarrow> delivery A H used c' | (Inr x, c') \<Rightarrow> delivery A H used c'"
    by (auto split: prod.split sum.split)
qed

text \<open>The two ways one request's part of the state changes.\<close>

lemma delivery_set:
  assumes "delivery A H used c" "rpc \<in> used'" "used \<subseteq> used'" "\<And>r. r \<noteq> rpc \<Longrightarrow> log_of r d = log_of r c"
    "cl_transfers d = jm_set rpc t (cl_transfers c)" "live_ok A H rpc t (log_of rpc d)"
  shows "delivery A H used' d"
  unfolding delivery_def
proof (intro conjI allI impI)
  fix r
  show "slot_ok A H r (jm_get (cl_transfers d) r) (log_of r d)"
    using assms by (cases "r = rpc") (simp_all add: delivery_def)
  assume "r \<notin> used'"
  then have "r \<noteq> rpc" "r \<notin> used" using assms by auto
  then show "jm_get (cl_transfers d) r = None" "log_of r d = []" using assms by (simp_all add: delivery_def)
qed

lemma delivery_delete:
  assumes "delivery A H used c" "rpc \<in> used'" "used \<subseteq> used'" "\<And>r. r \<noteq> rpc \<Longrightarrow> log_of r d = log_of r c"
    "cl_transfers d = jm_delete rpc (cl_transfers c)" "honest A H rpc (log_of rpc d)"
  shows "delivery A H used' d"
  unfolding delivery_def
proof (intro conjI allI impI)
  fix r
  show "slot_ok A H r (jm_get (cl_transfers d) r) (log_of r d)"
    using assms by (cases "r = rpc") (simp_all add: delivery_def)
  assume "r \<notin> used'"
  then have "r \<noteq> rpc" "r \<notin> used" using assms by auto
  then show "jm_get (cl_transfers d) r = None" "log_of r d = []" using assms by (simp_all add: delivery_def)
qed

section \<open>One more entry in the log\<close>

lemma no_ending: "endings lg = [] \<Longrightarrow> StreamClose rpc \<notin> set lg"
  by (auto simp: endings_def filter_empty_conv)

lemma honest_Nil [simp]: "honest A H rpc []"
  by (simp add: honest_def startsWith_def)

lemma honest_answer:
  "honest A H rpc lg \<Longrightarrow> answers lg = [] \<Longrightarrow> is_answer x \<Longrightarrow> true_effect A H x \<Longrightarrow> honest A H rpc (lg @ [x])"
  by (cases x) (auto simp: honest_def)

lemma honest_error: "honest A H rpc lg \<Longrightarrow> endings lg = [] \<Longrightarrow> honest A H rpc (lg @ [StreamError rpc x])"
  by (auto simp: honest_def)

lemma honest_close:
  "honest A H rpc lg \<Longrightarrow> endings lg = [] \<Longrightarrow> chunks lg = A rpc \<Longrightarrow> honest A H rpc (lg @ [StreamClose rpc])"
  by (auto simp: honest_def)

lemma honest_chunk:
  "honest A H rpc lg \<Longrightarrow> endings lg = [] \<Longrightarrow> startsWith (A rpc) (chunks lg @ b) \<Longrightarrow>
    honest A H rpc (lg @ [Enqueue rpc b])"
  using no_ending [of lg rpc] by (auto simp: honest_def)

section \<open>Streaming the gap-free prefix\<close>

lemma contiguous_nat:
  assumes "asm_holds B a"
  obtains k where "asm_contiguous a = of_nat k" "k \<le> length B" "take k (asm_bytes a) = take k B"
    "asm_complete a \<longrightarrow> k = length B"
proof -
  have ok: "asm_ok a" "asm_size a = len B" using assms by (auto simp: asm_holds_def)
  note c = asm_contiguous_spec [OF ok(1)]
  obtain k where k: "asm_contiguous a = of_nat k"
    using c by (metis is_integerE nonneg_int_cases of_int_0_le_iff of_int_of_nat_eq)
  moreover have "k \<le> length B" using c ok k by simp
  moreover have "take k (asm_bytes a) = take k B" using asm_holds_prefix [OF assms] k by simp
  moreover have "asm_complete a \<longrightarrow> k = length B"
    using c asm_complete_cover [OF ok(1)] ok(2) k \<open>k \<le> length B\<close> by fastforce
  ultimately show ?thesis using that by blast
qed

lemma contiguous_mono:
  assumes "asm_ok a" "asm_ok a'" "asm_cover a \<subseteq> asm_cover a'"
  shows "asm_contiguous a \<le> asm_contiguous a'"
proof (rule ccontr)
  assume "\<not> ?thesis"
  then have "asm_contiguous a' \<in> {0..<asm_contiguous a}" using asm_contiguous_spec [OF assms(2)] by auto
  then show False using asm_contiguous_spec [OF assms(1)] asm_contiguous_spec [OF assms(2)] assms(3) by blast
qed

lemma flush_chunk_spec:
  assumes h: "asm_holds B a" and p: "startsWith B p" and st: "st_emitted st = len p" "st_emitted st \<le> asm_contiguous a"
    and f: "flush_chunk t st a c = (st', c')"
  obtains b where "startsWith B (p @ b)" "asm_complete a \<longrightarrow> p @ b = B" "len (p @ b) \<le> asm_contiguous a"
    "st_emitted st' = len (p @ b)" "st_closed st' = st_closed st" "st_paused st' = st_paused st"
    "c' = c \<and> b = [] \<or> c' = emit (Enqueue (tr_rpc t) b) c"
proof -
  obtain k where k: "asm_contiguous a = of_nat k" "k \<le> length B" "take k (asm_bytes a) = take k B"
    "asm_complete a \<longrightarrow> k = length B" using contiguous_nat [OF h] .
  have le: "length p \<le> k" using st k by simp
  have pB: "p = take (length p) B" using p by (simp add: startsWith_def)
  show ?thesis
  proof (cases "asm_contiguous a - st_emitted st > 0 \<and>
      (st_emitted st = 0 \<or> asm_contiguous a - st_emitted st \<ge> STREAM_CHUNK \<or> asm_complete a)")
    case False
    then have eq: "st' = st" "c' = c" using f unfolding flush_chunk_def Let_def by (metis prod.inject)+
    have "asm_complete a \<longrightarrow> p = B"
    proof
      assume full: "asm_complete a"
      then have "\<not> asm_contiguous a - st_emitted st > 0"
        using False by blast
      then show "p = B" using k full st pB by simp
    qed
    then show ?thesis using that [of "[]"] eq p st le k by simp
  next
    case True
    let ?b = "body_slice a (st_emitted st) (asm_contiguous a)"
    have eq: "st' = st\<lparr>st_emitted := asm_contiguous a\<rparr>" "c' = emit (Enqueue (tr_rpc t) ?b) c"
      using f True unfolding flush_chunk_def Let_def by (metis prod.inject)+
    have "?b = take (k - length p) (drop (length p) (asm_bytes a))"
      by (simp add: body_slice_def subarray_def st k)
    also have "\<dots> = drop (length p) (take k B)" using k by (simp add: drop_take [symmetric])
    finally have b: "p @ ?b = take k B" using le pB by (metis append_take_drop_id min.absorb1 take_take)
    have "length (p @ ?b) = k" unfolding b using k(2) by simp
    then have n: "len (p @ ?b) = asm_contiguous a" by (simp only: k(1))
    have full: "asm_complete a \<longrightarrow> p @ ?b = B" unfolding b using k(4) by simp
    have s: "startsWith B (p @ ?b)" unfolding b using k(2) by (simp add: startsWith_def min_def)
    show ?thesis by (rule that [OF s full]) (simp_all add: n eq del: length_append)
  qed
qed

text \<open>An operation on one transfer that keeps its part of the invariant and leaves the others alone.\<close>

definition carries ::
    "(int \<Rightarrow> byte list) \<Rightarrow> (int \<Rightarrow> headers) \<Rightarrow> int \<Rightarrow> transfer \<Rightarrow> client \<Rightarrow> transfer \<times> client \<Rightarrow> bool" where
  "carries A H rpc t c r \<longleftrightarrow> live_ok A H rpc (fst r) (log_of rpc (snd r)) \<and>
     cl_transfers (snd r) = cl_transfers c \<and> (\<forall>q. q \<noteq> rpc \<longrightarrow> log_of q (snd r) = log_of q c) \<and>
     tr_asm (fst r) = tr_asm t \<and> tr_headers (fst r) = tr_headers t \<and>
     (tr_stream (fst r) = None \<longleftrightarrow> tr_stream t = None)"

lemma log_of_rest [simp]: "log_of r (upd_stats f c) = log_of r c" "log_of r (c\<lparr>cl_sched := s\<rparr>) = log_of r c"
  "log_of r (c\<lparr>cl_budget := b\<rparr>) = log_of r c" "log_of r (c\<lparr>cl_payloadSeen := x\<rparr>) = log_of r c"
  "log_of r (c\<lparr>cl_transfers := m\<rparr>) = log_of r c" "log_of r (c\<lparr>cl_ticker := v\<rparr>) = log_of r c"
  "log_of r (put_transfer t c) = log_of r c" "log_of r (noteSpurious now c) = log_of r c"
  by (simp_all add: log_of_def upd_stats_def put_transfer_def noteSpurious_def Let_def)

lemma maybeStart_carries:
  assumes "live_ok A H rpc t (log_of rpc c)"
  shows "carries A H rpc t c (maybeStart t c)"
proof (cases "maybeStart t c = (t, c)")
  case True
  then show ?thesis using assms by (simp add: carries_def)
next
  case False
  then obtain st a h where s: "tr_stream t = Some st" "tr_asm t = Some a" "tr_headers t = Some h" "\<not> tr_settled t"
    and eq: "maybeStart t c = (t\<lparr>tr_settled := True\<rparr>, emit (ResolveStream (tr_rpc t) (asm_size a) h) c)"
    by (auto simp: maybeStart_def split: option.splits if_splits)
  have "asm_size a = len (A rpc)" "h = H rpc" "answers (log_of rpc c) = []" "tr_rpc t = rpc"
    using assms s by (auto simp: live_ok_def asm_holds_def)
  then show ?thesis using assms s honest_answer [of A H rpc "log_of rpc c" "ResolveStream rpc (len (A rpc)) (H rpc)"]
    by (auto simp: eq carries_def live_ok_def log_of_emit stream_ok_def)
qed

lemma flushStream_carries:
  assumes live: "live_ok A H rpc t (log_of rpc c)"
  shows "carries A H rpc t c (flushStream e t c) \<and>
    (\<forall>a. tr_asm t = Some a \<and> asm_complete a \<and> tr_stream t \<noteq> None \<longrightarrow>
      chunks (log_of rpc (snd (flushStream e t c))) = A rpc)"
proof (cases "tr_stream t = None \<or> tr_asm t = None")
  case True
  then have "flushStream e t c = (t, c)" by (auto simp: flushStream_def split: option.splits)
  then show ?thesis using live True by (auto simp: carries_def)
next
  case False
  then obtain st a where s: "tr_stream t = Some st" "tr_asm t = Some a" by auto
  have h: "asm_holds (A rpc) a" "\<not> st_closed st" "st_emitted st = len (chunks (log_of rpc c))"
    "st_emitted st \<le> asm_contiguous a" "startsWith (A rpc) (chunks (log_of rpc c))" "endings (log_of rpc c) = []"
    "tr_rpc t = rpc" "honest A H rpc (log_of rpc c)"
    using live s by (auto simp: live_ok_def stream_ok_def honest_def)
  obtain st1 c1 where f: "flush_chunk t st a c = (st1, c1)" by (cases "flush_chunk t st a c")
  obtain b where b: "startsWith (A rpc) (chunks (log_of rpc c) @ b)"
    "asm_complete a \<longrightarrow> chunks (log_of rpc c) @ b = A rpc"
    "len (chunks (log_of rpc c) @ b) \<le> asm_contiguous a" "st_emitted st1 = len (chunks (log_of rpc c) @ b)"
    "st_closed st1 = st_closed st" "st_paused st1 = st_paused st" "c1 = c \<and> b = [] \<or> c1 = emit (Enqueue (tr_rpc t) b) c"
    using flush_chunk_spec [OF h(1,5,3,4) f] .
  have lg: "log_of rpc c1 = log_of rpc c \<and> b = [] \<or> log_of rpc c1 = log_of rpc c @ [Enqueue rpc b]"
    "cl_transfers c1 = cl_transfers c" "\<forall>q. q \<noteq> rpc \<longrightarrow> log_of q c1 = log_of q c"
    using b(7) h(7) by (auto simp: log_of_emit)
  have ch: "chunks (log_of rpc c1) = chunks (log_of rpc c) @ b" "honest A H rpc (log_of rpc c1)"
    "endings (log_of rpc c1) = []" "answers (log_of rpc c1) = answers (log_of rpc c)"
    using lg(1) honest_chunk [OF h(8,6) b(1)] h(6,8) by auto
  have k: "live_ok A H rpc (t\<lparr>tr_stream := Some (st1\<lparr>st_paused := z\<rparr>)\<rparr>) (log_of rpc c1)" for z
    using live s h(2) b(3,4,5) ch by (auto simp: live_ok_def stream_ok_def)
  have k': "live_ok A H rpc (t\<lparr>tr_stream := Some st1\<rparr>) (log_of rpc c1)" using k [of "st_paused st1"] by simp
  show ?thesis using s h(2) f k [of True] k' lg(2,3) ch(1) b(2)
    by (simp add: flushStream_def carries_def)
qed

section \<open>The end of a request\<close>

lemma settle_honest:
  assumes "honest A H rpc (log_of rpc c)" "tr_settled t \<longleftrightarrow> answers (log_of rpc c) \<noteq> []" "tr_rpc t = rpc"
    "err = None \<Longrightarrow> \<exists>a h. tr_asm t = Some a \<and> asm_complete a \<and> asm_holds (A rpc) a \<and> tr_headers t = Some h \<and> h = H rpc"
  shows "honest A H rpc (log_of rpc (settle_transfer err t c)) \<and> cl_transfers (settle_transfer err t c) = cl_transfers c \<and>
    (\<forall>q. q \<noteq> rpc \<longrightarrow> log_of q (settle_transfer err t c) = log_of q c)"
proof (cases "tr_settled t")
  case False
  then have a: "answers (log_of rpc c) = []" using assms(2) by simp
  have "honest A H rpc (log_of rpc c @ [x])" if "is_answer x" "true_effect A H x" for x
    using honest_answer [OF assms(1) a that] .
  then show ?thesis using False assms(3,4) asm_holds_complete
    by (cases err) (auto simp: settle_transfer_def log_of_emit asm_holds_def split: option.split)
qed (simp add: settle_transfer_def assms)

lemma finish_core_delivery:
  assumes d: "delivery A H used c" and used: "rpc \<in> used" and live: "live_ok A H rpc t (log_of rpc c)"
    and ready: "err = None \<Longrightarrow> \<exists>a h. tr_asm t = Some a \<and> asm_complete a \<and> tr_headers t = Some h"
  shows "delivery A H used (finish_core e t err c)"
proof -
  have rpc: "tr_rpc t = rpc" using live by (simp add: live_ok_def)
  define c1 where "c1 = c\<lparr>cl_transfers := jm_delete rpc (cl_transfers c), cl_sched := sched_remove rpc (cl_sched c)\<rparr>"
  have l1: "log_of q c1 = log_of q c" for q by (simp add: c1_def log_of_def)
  define r where "r = (if err = None then flushStream e t c1 else (t, c1))"
  have live1: "live_ok A H rpc t (log_of rpc c1)" using live by (simp add: l1)
  have r: "carries A H rpc t c1 r" and full: "err = None \<Longrightarrow> tr_stream t \<noteq> None \<Longrightarrow> chunks (log_of rpc (snd r)) = A rpc"
    using flushStream_carries [OF live1, of e] live1 ready by (auto simp: r_def carries_def)
  define t2 where "t2 = fst r"
  define c2 where "c2 = snd r"
  have v: "live_ok A H rpc t2 (log_of rpc c2)" "cl_transfers c2 = cl_transfers c1"
    "\<forall>q. q \<noteq> rpc \<longrightarrow> log_of q c2 = log_of q c1" "tr_asm t2 = tr_asm t" "tr_headers t2 = tr_headers t"
    "tr_stream t2 = None \<longleftrightarrow> tr_stream t = None"
    using r by (simp_all add: carries_def t2_def c2_def)
  have v2: "honest A H rpc (log_of rpc c2)" "endings (log_of rpc c2) = []" "tr_rpc t2 = rpc"
    "tr_settled t2 \<longleftrightarrow> answers (log_of rpc c2) \<noteq> []" "\<forall>a. tr_asm t2 = Some a \<longrightarrow> asm_holds (A rpc) a"
    "\<forall>h. tr_headers t2 = Some h \<longrightarrow> h = H rpc"
    using v(1) by (simp_all add: live_ok_def)
  define c3 where "c3 = close_stream err t2 c2"
  have c3: "honest A H rpc (log_of rpc c3)" "answers (log_of rpc c3) = answers (log_of rpc c2)"
    "cl_transfers c3 = cl_transfers c2" "\<forall>q. q \<noteq> rpc \<longrightarrow> log_of q c3 = log_of q c2"
    using v2 full v(6) honest_error [OF v2(1,2)] honest_close [OF v2(1,2)]
    by (auto simp: c3_def close_stream_def log_of_emit c2_def split: option.split)
  have "honest A H rpc (log_of rpc (settle_transfer err t2 c3)) \<and>
      cl_transfers (settle_transfer err t2 c3) = cl_transfers c3 \<and>
      (\<forall>q. q \<noteq> rpc \<longrightarrow> log_of q (settle_transfer err t2 c3) = log_of q c3)"
    using settle_honest [OF c3(1), of t2 err] v2 c3(2) v(4,5) ready by auto
  moreover have "finish_core e t err c = settle_transfer err t2 c3"
    by (simp add: finish_core_def Let_def rpc c3_def t2_def c2_def r_def c1_def split_def)
  ultimately show ?thesis using v(2,3) c3(3,4) l1
    by (intro delivery_delete [OF d used order.refl]) (simp_all add: c1_def)
qed

section \<open>Every step keeps the promise\<close>

text \<open>What the server may send: DATA of the asset and META with its fields, whatever else.\<close>

definition truthful_packet :: "(int \<Rightarrow> byte list) \<Rightarrow> (int \<Rightarrow> headers) \<Rightarrow> packet \<Rightarrow> bool" where
  "truthful_packet A H p =
     (case p of
        Data rpc tot off b \<Rightarrow> tot = len (A rpc) \<and> payload_of (A rpc) off b
      | DataSeq rpc tot off sq b \<Rightarrow> tot = len (A rpc) \<and> payload_of (A rpc) off b
      | Meta rpc flds \<Rightarrow> headers_of flds = H rpc
      | _ \<Rightarrow> True)"

fun truthful :: "(int \<Rightarrow> byte list) \<Rightarrow> (int \<Rightarrow> headers) \<Rightarrow> client_ev \<Rightarrow> bool" where
  "truthful A H (Datagram b) = (case decode b of Inr p \<Rightarrow> truthful_packet A H p | Inl e \<Rightarrow> True)"
| "truthful A H _ = True"

abbreviation delivers where
  "delivers A H used P m \<equiv> hold P m (delivery A H used) (delivery A H used)"

lemma delivers_quiet: "quiet m \<Longrightarrow> (\<And>c. P c \<Longrightarrow> delivery A H used c) \<Longrightarrow> delivers A H used P m"
  using hold_pre [OF quiet_delivery] by blast

text \<open>A step that holds the transfer \<open>t\<close> knows this much.\<close>

definition working :: "(int \<Rightarrow> byte list) \<Rightarrow> (int \<Rightarrow> headers) \<Rightarrow> int set \<Rightarrow> int \<Rightarrow> transfer \<Rightarrow> client \<Rightarrow> bool" where
  "working A H used rpc t c \<longleftrightarrow> delivery A H used c \<and> rpc \<in> used \<and> live_ok A H rpc t (log_of rpc c) \<and>
     jm_get (cl_transfers c) rpc = Some t"

lemma workingI: "delivery A H used c \<Longrightarrow> jm_get (cl_transfers c) rpc = Some t \<Longrightarrow> working A H used rpc t c"
  using delivery_get by (simp add: working_def)

lemma workingD: "working A H used rpc t c \<Longrightarrow> delivery A H used c"
  by (simp add: working_def)

lemma delivers_transfer:
  "(\<And>t. delivers A H used (working A H used rpc t) (f t)) \<Longrightarrow>
    delivers A H used (delivery A H used) (with_transfer rpc f)"
proof (rule hold_transfer)
  fix t assume "\<And>t. delivers A H used (working A H used rpc t) (f t)"
  then show "delivers A H used (\<lambda>c. delivery A H used c \<and> jm_get (cl_transfers c) rpc = Some t) (f t)"
    by (rule hold_pre) (simp add: workingI)
qed simp

lemma delivers_read: "(\<And>d. delivers A H used P (f d)) \<Longrightarrow> delivers A H used P (readA f)"
  by (rule hold_read, rule hold_pre [where P' = P]) simp_all

lemma delivers_each: "(\<And>x. delivers A H used (delivery A H used) (f x)) \<Longrightarrow>
    delivers A H used (delivery A H used) (eachA f xs)"
  by (rule hold_each)

lemma delivers_then: "delivers A H used P m \<Longrightarrow> delivers A H used (delivery A H used) n \<Longrightarrow> delivers A H used P (thenA m n)"
  by (rule hold_then)

lemma live_ok_same: "core_of t = core_of t' \<Longrightarrow> live_ok A H rpc t lg = live_ok A H rpc t' lg"
  using live_ok_core by metis

lemma delivers_finish:
  assumes "\<And>c. P c \<Longrightarrow> working A H used rpc t c" "core_of t' = core_of t"
    "err = None \<Longrightarrow> \<exists>a h. tr_asm t = Some a \<and> asm_complete a \<and> tr_headers t = Some h"
  shows "delivers A H used P (finish e t' err)"
  unfolding finish_def
proof (rule delivers_then [OF hold_do delivers_quiet [OF caller.quiet_pump]])
  fix c assume "P c"
  then have w: "working A H used rpc t c" using assms(1) by blast
  have "tr_asm t' = tr_asm t" "tr_headers t' = tr_headers t"
    using assms(2) by (auto simp: core_of_def dest!: arg_cong [where f = tr_asm] arg_cong [where f = tr_headers])
      (metis (no_types) core_of_def assms(2) transfer.select_convs transfer.surjective transfer.update_convs)+
  then show "delivery A H used (finish_core e t' err c)"
    using w assms(3) live_ok_same [OF assms(2)] finish_core_delivery [of A H used c rpc t' err e]
    unfolding working_def by metis
qed simp

lemma delivers_drop: "delivers A H used (delivery A H used) (drop_transfer e rpc)"
  unfolding drop_transfer_def
proof (rule delivers_then [OF hold_do delivers_quiet [OF caller.quiet_pump]])
  fix c assume d: "delivery A H used c"
  have "honest A H rpc (log_of rpc c)"
    using d by (cases "jm_get (cl_transfers c) rpc") (auto simp: delivery_def live_ok_def dest!: spec [of _ rpc])
  then show "delivery A H used (c\<lparr>cl_transfers := jm_delete rpc (cl_transfers c), cl_sched := sched_remove rpc (cl_sched c)\<rparr>)"
    using d by (auto simp: delivery_def)
qed

lemma delivers_put:
  assumes "working A H used rpc t c" "carries A H rpc t' d r" "cl_transfers d = cl_transfers c"
    "\<And>q. q \<noteq> rpc \<Longrightarrow> log_of q d = log_of q c"
  shows "delivery A H used (put_transfer (fst r) (snd r))"
proof (rule delivery_set)
  show "delivery A H used c" "rpc \<in> used" using assms(1) by (auto simp: working_def)
  have "tr_rpc (fst r) = rpc" using assms(2) by (simp add: carries_def live_ok_def)
  then show "cl_transfers (put_transfer (fst r) (snd r)) = jm_set rpc (fst r) (cl_transfers c)"
    using assms(2,3) by (simp add: put_transfer_def carries_def)
qed (use assms in \<open>auto simp: carries_def\<close>)

lemma working_holding: "working A H used rpc t c \<Longrightarrow> holding (core c) rpc t c"
  unfolding working_def caller.steady_def using delivery_keyed by blast

lemma working_core:
  assumes "working A H used rpc t c" "core d = core c"
  shows "delivery A H used d"
  using assms workingD delivery_core by blast

lemma delivers_recover: "delivers A H used (delivery A H used) (recover e rpc granted)"
  unfolding recover_def Let_def
proof (rule delivers_transfer, rule delivers_read, rule hold_if_on)
  fix t
  let ?P = "working A H used rpc t" and ?t = "t\<lparr>tr_recoveries := tr_recoveries t + 1\<rparr>"
  show "delivers A H used ?P (finish e ?t (Some (Http4Error NoProgress None)))"
    by (rule delivers_finish [where t = t]) (simp_all add: core_of_def)
  show "delivers A H used ?P (thenA (doA (recover_prepare e ?t)) (recover_again e rpc granted))"
  proof (rule delivers_then [OF hold_do delivers_quiet [OF quiet_again]])
    fix c assume w: "working A H used rpc t c"
    then have "core (recover_prepare e ?t c) = core c"
      using holding_prepare [OF working_holding] by (simp add: caller.steady_def)
    then show "delivery A H used (recover_prepare e ?t c)" by (rule working_core [OF w])
  qed simp
qed

lemma delivers_fail: "delivers A H used (delivery A H used) (with_transfer rpc (\<lambda>t. finish e t (Some x)))"
  by (rule delivers_transfer) (rule delivers_finish, simp_all)

lemma delivers_fail_all: "delivers A H used (delivery A H used) (failAll e x)"
  unfolding failAll_def
  by (intro delivers_read delivers_then delivers_each delivers_fail delivers_quiet [OF caller.quiet_do]) simp_all

lemma delivers_wait:
  "delivers A H used (working A H used rpc t) (doA (put_transfer (t\<lparr>tr_lastProgress := n\<rparr>)))"
proof (rule hold_do)
  fix c assume w: "working A H used rpc t c"
  then have "core (put_transfer (t\<lparr>tr_lastProgress := n\<rparr>) c) = core c"
    using caller.holding_put [OF working_holding, of A H used rpc t c "t\<lparr>tr_lastProgress := n\<rparr>"]
    by (simp add: caller.steady_def core_of_def)
  then show "delivery A H used (put_transfer (t\<lparr>tr_lastProgress := n\<rparr>) c)" by (rule working_core [OF w])
qed

lemma delivers_stall:
  "delivers A H used (delivery A H used) (with_transfer rpc (\<lambda>t. readA (\<lambda>c. whenA (b t c) (recover e rpc g))))"
  by (intro delivers_transfer delivers_read hold_when hold_pre [OF delivers_recover]) (auto dest: workingD)

lemma delivers_tick_transfer: "delivers A H used (delivery A H used) (tick_transfer e rpc)"
  unfolding tick_transfer_def Let_def
  by (intro delivers_transfer delivers_then delivers_read hold_if_on delivers_wait delivers_stall
      delivers_quiet [OF caller.quiet_when [OF caller.quiet_detect]] delivers_quiet [OF caller.quiet_probe]) (auto dest: workingD)

lemma delivers_tick: "delivers A H used (delivery A H used) (tick e)"
  unfolding tick_def
  by (intro delivers_read delivers_then delivers_each delivers_tick_transfer
      delivers_quiet [OF caller.quiet_when [OF caller.quiet_detect_seq]] delivers_quiet [OF caller.quiet_do]) simp_all

section \<open>Datagrams\<close>

lemma put_fst_snd: "(let (t', c') = r in put_transfer t' c') = put_transfer (fst r) (snd r)"
  by (simp add: split_def)

lemma delivers_meta:
  assumes "headers_of flds = H rpc"
  shows "delivers A H used (delivery A H used) (handle_meta e rpc flds)"
  unfolding handle_meta_def
proof (rule delivers_then [OF delivers_quiet [OF caller.quiet_do]], simp, assumption, rule delivers_transfer, rule hold_if_on)
  fix t :: transfer
  let ?t = "t\<lparr>tr_headers := Some (headers_of flds), tr_lastProgress := ev_now e, tr_recoveries := 0\<rparr>"
  let ?Q = "\<lambda>c. delivery A H used c \<and> (\<forall>u. jm_get (cl_transfers c) rpc = Some u \<longrightarrow> tr_headers u \<noteq> None)"
  show "delivers A H used (working A H used rpc t) (retA ())"
    by (rule hold_ret) (rule workingD)
  show "delivers A H used (working A H used rpc t)
     (thenA (doA (start_body ?t)) (with_transfer rpc (\<lambda>t.
        whenA (case tr_asm t of None \<Rightarrow> False | Some a \<Rightarrow> asm_complete a) (finish e t None))))"
  proof (rule hold_then [OF hold_do [where Q = ?Q]])
    fix c assume w: "working A H used rpc t c"
    then have "live_ok A H rpc ?t (log_of rpc c)"
      using assms by (simp add: working_def live_ok_def stream_ok_def cong: option.case_cong)
    then have k: "carries A H rpc ?t c (maybeStart ?t c)" by (rule maybeStart_carries)
    then have "tr_rpc (fst (maybeStart ?t c)) = rpc" "tr_headers (fst (maybeStart ?t c)) \<noteq> None"
      by (simp_all add: carries_def live_ok_def)
    then show "?Q (start_body ?t c)" using delivers_put [OF w k]
      by (simp add: start_body_def put_fst_snd) (simp add: put_transfer_def)
  next
    show "delivers A H used ?Q (with_transfer rpc (\<lambda>t.
        whenA (case tr_asm t of None \<Rightarrow> False | Some a \<Rightarrow> asm_complete a) (finish e t None)))"
    proof (rule hold_transfer)
      fix u
      show "delivers A H used (\<lambda>c. ?Q c \<and> jm_get (cl_transfers c) rpc = Some u)
         (whenA (case tr_asm u of None \<Rightarrow> False | Some a \<Rightarrow> asm_complete a) (finish e u None))"
      proof (cases "tr_headers u")
        case (Some h)
        then show ?thesis
          by (intro hold_when delivers_finish [where t = u]) (auto intro: workingI split: option.splits)
      qed (auto simp: hold_def)
    qed simp
  qed
qed

lemma probe_progress_core:
  "core_of (fst (progress e fresh (fst (probe_hit e n t c)) (snd (probe_hit e n t c)))) = core_of t"
  "cl_transfers (snd (progress e fresh t c)) = cl_transfers c" "log_of q (snd (progress e fresh t c)) = log_of q c"
  "cl_transfers (snd (probe_hit e n t c)) = cl_transfers c" "log_of q (snd (probe_hit e n t c)) = log_of q c"
  by (auto simp: progress_def probe_hit_def core_of_def Let_def split: option.split)

lemma count_payload_core:
  "cl_transfers (count_payload e fresh p b c) = cl_transfers c" "log_of q (count_payload e fresh p b c) = log_of q c"
  by (simp_all add: count_payload_def Let_def)

lemma carries_trans:
  "carries A H rpc t c r \<Longrightarrow> carries A H rpc (fst r) (snd r) r' \<Longrightarrow> carries A H rpc t c r'"
  by (auto simp: carries_def)

lemma data_arrived_delivery:
  assumes w: "working A H used rpc t c" and a: "tr_asm t = Some a" "asm_add off p a = Inr (fresh, a')"
    and p: "payload_of (A rpc) off p"
  shows "delivery A H used (data_arrived e off p fresh a' rp t c)"
proof -
  have live: "live_ok A H rpc t (log_of rpc c)" using w by (simp add: working_def)
  have h: "asm_holds (A rpc) a" using live a by (simp add: live_ok_def)
  then have h': "asm_holds (A rpc) a'" using asm_add_holds p a(2) by blast
  have "asm_contiguous a \<le> asm_contiguous a'"
    using contiguous_mono [of a a'] asm_add_cover [of a off p fresh a'] h h' a(2) p
    by (auto simp: asm_holds_def payload_of_def)
  then have live': "live_ok A H rpc (t\<lparr>tr_asm := Some a'\<rparr>) (log_of rpc c)"
    using live h' a(1) by (auto simp: live_ok_def stream_ok_def split: option.splits)
  define c2 where "c2 = count_payload e fresh p (repair_requested rp) c
    \<lparr>cl_sched := sched_on_data (tr_rpc t) fresh (cl_sched (count_payload e fresh p (repair_requested rp) c))\<rparr>"
  define r3 where "r3 = probe_hit e (off + len p) (t\<lparr>tr_asm := Some a'\<rparr>) c2"
  define r4 where "r4 = progress e fresh (fst r3) (snd r3)"
  have c2: "cl_transfers c2 = cl_transfers c" "log_of q c2 = log_of q c" for q
    by (simp_all add: c2_def count_payload_core)
  have r4: "cl_transfers (snd r4) = cl_transfers c" "log_of q (snd r4) = log_of q c"
    "core_of (fst r4) = core_of (t\<lparr>tr_asm := Some a'\<rparr>)" for q
    unfolding r4_def r3_def by (simp_all add: probe_progress_core c2)
  have "live_ok A H rpc (fst r4) (log_of rpc (snd r4))" using live' live_ok_same [OF r4(3)] r4(2) by simp
  then have "carries A H rpc (fst r4) (snd r4) (maybeStart (fst r4) (snd r4))" by (rule maybeStart_carries)
  moreover from this have "carries A H rpc (fst (maybeStart (fst r4) (snd r4))) (snd (maybeStart (fst r4) (snd r4)))
      (flushStream e (fst (maybeStart (fst r4) (snd r4))) (snd (maybeStart (fst r4) (snd r4))))"
    using flushStream_carries unfolding carries_def by blast
  ultimately have k: "carries A H rpc (fst r4) (snd r4)
      (flushStream e (fst (maybeStart (fst r4) (snd r4))) (snd (maybeStart (fst r4) (snd r4))))"
    by (rule carries_trans)
  have "data_arrived e off p fresh a' rp t c =
      put_transfer (fst (flushStream e (fst (maybeStart (fst r4) (snd r4))) (snd (maybeStart (fst r4) (snd r4)))))
        (snd (flushStream e (fst (maybeStart (fst r4) (snd r4))) (snd (maybeStart (fst r4) (snd r4)))))"
    unfolding data_arrived_def Let_def split_def c2_def r3_def r4_def ..
  then show ?thesis using delivers_put [OF w k] r4 by simp
qed

lemma delivers_payload:
  assumes "payload_of (A rpc) off p"
  shows "delivers A H used (delivery A H used) (take_payload e rpc off p)"
  unfolding take_payload_def
proof (rule delivers_transfer)
  fix t
  have after: "delivers A H used (delivery A H used) (with_transfer rpc (\<lambda>t.
      if (case tr_asm t of None \<Rightarrow> False | Some a \<Rightarrow> asm_complete a) \<and> tr_headers t \<noteq> None
      then finish e t None
      else whenA (since (ev_now e) (tr_lastDetect t) DETECT_INTERVAL_MS) (detectLoss e rpc)))"
  proof (rule delivers_transfer)
    fix t
    have q: "delivers A H used (working A H used rpc t)
        (whenA (since (ev_now e) (tr_lastDetect t) DETECT_INTERVAL_MS) (detectLoss e rpc))"
      by (rule delivers_quiet [OF caller.quiet_when [OF caller.quiet_detect]]) (rule workingD)
    have "delivers A H used (working A H used rpc t) (finish e t None)"
      if "(case tr_asm t of None \<Rightarrow> False | Some a \<Rightarrow> asm_complete a) \<and> tr_headers t \<noteq> None"
      using that by (intro delivers_finish [where t = t]) (auto split: option.splits)
    then show "delivers A H used (working A H used rpc t)
        (if (case tr_asm t of None \<Rightarrow> False | Some a \<Rightarrow> asm_complete a) \<and> tr_headers t \<noteq> None
         then finish e t None
         else whenA (since (ev_now e) (tr_lastDetect t) DETECT_INTERVAL_MS) (detectLoss e rpc))"
      using q by simp
  qed
  have stop: "delivers A H used (working A H used rpc t) (retA ())" by (rule hold_ret) (rule workingD)
  have bad: "delivers A H used (working A H used rpc t) (finish e t (Some ReassemblyRangeError))"
    by (rule delivers_finish [where t = t]) simp_all
  have good: "delivers A H used (working A H used rpc t) (doA (data_arrived e off p fresh a' rp t))"
    if "tr_asm t = Some a" "asm_add off p a = Inr (fresh, a')" for a a' fresh rp
    by (rule hold_do, rule data_arrived_delivery [where a = a and A = A and rpc = rpc]) (simp_all add: that assms)
  show "delivers A H used (working A H used rpc t)
     (case (tr_asm t, tr_repair t) of
       (Some a, Some rp) \<Rightarrow>
         (case asm_add off p a of
            Inl _ \<Rightarrow> finish e t (Some ReassemblyRangeError)
          | Inr (fresh, a') \<Rightarrow>
              thenA (doA (data_arrived e off p fresh a' rp t))
               (with_transfer rpc (\<lambda>t.
                  if (case tr_asm t of None \<Rightarrow> False | Some a \<Rightarrow> asm_complete a) \<and> tr_headers t \<noteq> None
                  then finish e t None
                  else whenA (since (ev_now e) (tr_lastDetect t) DETECT_INTERVAL_MS) (detectLoss e rpc))))
     | _ \<Rightarrow> retA ())"
  proof (cases "tr_asm t")
    case (Some a)
    then show ?thesis
      by (cases "tr_repair t"; cases "asm_add off p a") (auto simp del: not_None_eq intro: stop bad delivers_then [OF good after])
  qed (simp add: stop)
qed

lemma delivers_data:
  assumes "tot = len (A rpc)" "payload_of (A rpc) off p"
  shows "delivers A H used (delivery A H used) (handle_data e rpc tot off p)"
  unfolding handle_data_def
proof (rule delivers_transfer)
  fix t
  have opens: "delivers A H used (working A H used rpc t) (doA (open_body tot t))" if n: "tr_asm t = None"
  proof (rule hold_do)
    fix c assume w: "working A H used rpc t c"
    let ?t = "t\<lparr>tr_asm := Some (new_reassembly tot), tr_repair := Some new_repair\<rparr>"
    let ?d = "c\<lparr>cl_sched := sched_add (tr_rpc t) tot (tr_initialGrant t) 0 (tr_cls t) (cl_sched c)\<rparr>"
    have "live_ok A H rpc ?t (log_of rpc ?d)"
      using w n assms asm_holds_new [of "A rpc"]
      by (auto simp: working_def live_ok_def stream_ok_def asm_contiguous_def new_reassembly_def split: option.splits)
    then have "carries A H rpc ?t ?d (?t, ?d)" by (simp add: carries_def)
    from delivers_put [OF w this] show "delivery A H used (open_body tot t c)" by (simp add: open_body_def)
  qed
  have changed: "delivers A H used (working A H used rpc t) (finish e t (Some (Http4Error TotalSizeChanged None)))"
    by (rule delivers_finish [where t = t]) simp_all
  have rest: "delivers A H used (working A H used rpc t) (take_payload e rpc off p)"
    by (rule hold_pre [OF delivers_payload]) (simp_all add: workingD assms)
  show "delivers A H used (working A H used rpc t)
     (case tr_asm t of
       None \<Rightarrow> thenA (doA (open_body tot t)) (take_payload e rpc off p)
     | Some a \<Rightarrow>
         if tot \<noteq> asm_size a then finish e t (Some (Http4Error TotalSizeChanged None))
         else take_payload e rpc off p)"
    using changed rest delivers_then [OF opens delivers_payload] assms(2) by (cases "tr_asm t") auto
qed

lemma delivers_deliver:
  assumes "truthful_packet A H p"
  shows "delivers A H used (delivery A H used) (deliver e p)"
  unfolding deliver_def
proof (rule delivers_transfer)
  fix t
  let ?m = "case p of
       Meta rpc flds \<Rightarrow> thenA (note_reply e rpc) (handle_meta e rpc flds)
     | Data rpc tot off pl \<Rightarrow> thenA (note_reply e rpc) (handle_data e rpc tot off pl)
     | ErrorPacket rpc code \<Rightarrow> finish e t (Some (Http4Error (ServerSaid code) (Some code)))
     | _ \<Rightarrow> doA (upd_stats (\<lambda>s. s\<lparr>malformedIn := malformedIn s + 1\<rparr>))"
  note replied = delivers_then [OF delivers_quiet [OF quiet_note_reply]]
  have err: "delivers A H used (working A H used (rpcId p) t) (finish e t (Some x))" for x
    by (rule delivers_finish [where t = t]) simp_all
  have other: "delivers A H used (working A H used (rpcId p) t) (doA (upd_stats f))" for f
    by (rule delivers_quiet [OF caller.quiet_do]) (simp_all add: workingD)
  show "delivers A H used (working A H used (rpcId p) t) ?m"
  proof (cases p)
    case (Data rpc tot off b)
    then show ?thesis using assms delivers_data [of tot A rpc off b]
      by (auto simp: truthful_packet_def intro!: replied dest: workingD)
  next
    case (Meta rpc flds)
    then show ?thesis using assms delivers_meta [of flds H rpc]
      by (auto simp: truthful_packet_def intro!: replied dest: workingD)
  qed (use err other in simp_all)
qed

lemma quiet_arrived [quiets]: "quiet (doA (seq_arrived e rpc off sq p))"
  by (rule caller.quiet_do) (simp add: seq_arrived_def Let_def split_def)

lemma delivers_handle:
  assumes "truthful_packet A H p"
  shows "delivers A H used (delivery A H used) (handle e p)"
proof (cases p)
  case (DataSeq rpc tot off sq b)
  have "quiet (readA (\<lambda>c. whenA (since (ev_now e) (cl_lastSeqDetect c) DETECT_INTERVAL_MS) (detectSeqLoss e)))"
    by (intro quiets)
  moreover have "truthful_packet A H (Data rpc tot off b)"
    using assms DataSeq by (simp add: truthful_packet_def)
  ultimately show ?thesis unfolding handle_def DataSeq packet.case
    by (intro delivers_then delivers_quiet [OF quiet_arrived] delivers_deliver) (simp_all add: delivers_quiet)
qed (use assms delivers_deliver in \<open>simp_all add: handle_def\<close>)

lemma delivers_receive:
  assumes "truthful A H (Datagram b)"
  shows "delivers A H used (delivery A H used) (receive e b)"
proof -
  have one: "delivers A H used (delivery A H used) (read_one e b)"
  proof (cases "decode b")
    case (Inl x)
    then show ?thesis unfolding read_one_def Inl sum.case
      by (cases x) (auto intro!: delivers_quiet quiets)
  next
    case (Inr p)
    then have "truthful_packet A H p" using assms by simp
    then show ?thesis unfolding read_one_def Inr sum.case
      by (intro delivers_then delivers_handle delivers_quiet [OF caller.quiet_do] delivers_quiet [OF caller.quiet_pump]) simp_all
  qed
  have "delivers A H used (delivery A H used)
      (thenA (doA (\<lambda>c. c\<lparr>cl_reading := False\<rparr>)) (failAll e x))" for x
    by (intro delivers_then delivers_fail_all delivers_quiet [OF caller.quiet_do]) simp_all
  then show ?thesis unfolding receive_def
    by (intro delivers_read hold_when hold_catch [OF one]) auto
qed

lemma quiet_pull [quiets]: "quiet (stream_pull e rpc)"
  unfolding stream_pull_def
proof (rule caller.quiet_holding)
  fix k t
  show "hold (holding k rpc t) (case tr_stream t of
       None \<Rightarrow> retA ()
     | Some st \<Rightarrow>
         whenA (st_paused st)
          (thenA (doA (put_transfer (t\<lparr>tr_stream := Some (st\<lparr>st_paused := False\<rparr>)\<rparr>)))
          (thenA (doA (\<lambda>c. c\<lparr>cl_sched := sched_set_paused rpc False (cl_sched c)\<rparr>))
             (pumpGrants e)))) (steady k) (steady k)"
  proof (cases "tr_stream t")
    case (Some st)
    show ?thesis unfolding Some option.case whenA_def
      by (intro holdings caller.hold_quiet quiets) (simp_all add: core_of_def Some)
  qed (simp add: caller.hold_ret_on)
qed

lemma delivery_honest: "delivery A H used c \<Longrightarrow> honest A H rpc (log_of rpc c)"
  unfolding delivery_def by (metis live_ok_def slot_ok_def not_None_eq option.simps(4,5))

text \<open>A request brings a fresh id into use.\<close>

lemma delivery_grow:
  assumes "delivery A H used c" "used \<subseteq> used'"
  shows "delivery A H used' c"
  using assms by (auto simp: delivery_def)

lemma delivery_reject:
  assumes "delivery A H used c" "rpc \<notin> used"
  shows "delivery A H (insert rpc used) (emit (RejectWith rpc x) c)"
proof -
  have n: "jm_get (cl_transfers c) rpc = None" "log_of rpc c = []" using assms by (simp_all add: delivery_def)
  have "slot_ok A H q (jm_get (cl_transfers c) q) (log_of q (emit (RejectWith rpc x) c))" for q
    using assms n by (cases "q = rpc") (auto simp: delivery_def log_of_emit honest_def startsWith_def)
  then show ?thesis using assms by (auto simp: delivery_def log_of_emit)
qed

lemma delivery_open:
  assumes "delivery A H used c" "rpc \<notin> used"
  shows "delivery A H (insert rpc used) (put_transfer (new_transfer now rpc aid streaming cls g c') c)"
proof (rule delivery_set [OF assms(1), of rpc])
  have "log_of rpc c = []" using assms by (simp add: delivery_def)
  then show "live_ok A H rpc (new_transfer now rpc aid streaming cls g c')
      (log_of rpc (put_transfer (new_transfer now rpc aid streaming cls g c') c))"
    by (simp add: live_ok_def new_transfer_def stream_ok_def)
qed (auto simp: put_transfer_def new_transfer_def)

lemma hello_no_throw: "hold P sendHello (\<lambda>_. True) (\<lambda>_. False)"
proof -
  have "encode (Hello 0 CAP_SESSION_SEQ) = Inr (packet_bytes (Hello 0 CAP_SESSION_SEQ))"
    by (simp add: encode_iff wf_packet_def u32_def)
  then show ?thesis unfolding sendHello_def
    by (intro hold_read hold_if_on hold_ret hold_then [OF hold_do hold_send]) simp_all
qed

lemma hold_conj: "hold P m Q (\<lambda>_. False) \<Longrightarrow> hold P m Q' X \<Longrightarrow> hold P m Q' (\<lambda>_. False)"
  by (fastforce simp: hold_def split: prod.splits sum.splits)

text \<open>Nothing throws once the transfer is in the table: the REQ has been encoded before.\<close>

lemma hold_start:
  assumes reject: "\<And>c x. P c \<Longrightarrow> Q (emit (RejectWith rpc x) c)"
    and make: "\<And>c now g c'. P c \<Longrightarrow> Q (put_transfer (new_transfer now rpc aid streaming cls g c') c)"
    and none: "\<And>c. P c \<Longrightarrow> Q c"
    and still: "\<And>m. quiet m \<Longrightarrow> hold Q m Q Q"
  shows "hold P (start_request e rpc aid streaming cls) Q Q"
  unfolding start_request_def Let_def
proof (rule hold_read, rule hold_if_on)
  fix d :: client
  show "hold (\<lambda>c. c = d \<and> P d)
      (doA (emit (RejectWith rpc (Http4Error (if cl_closed d then ClientClosed else SessionClosed) None)))) Q Q"
    by (rule hold_do) (simp add: reject)
  let ?g = "nextInitialGrant d"
  let ?body = "thenA (doA (\<lambda>c. put_transfer (new_transfer (ev_now e) rpc aid streaming cls ?g c) c))
                (thenA (doA (\<lambda>c. c\<lparr>cl_ticker := True\<rparr>))
                (thenA (doA (upd_stats (\<lambda>s. s\<lparr>reqsSent := reqsSent s + 1\<rparr>)))
                (thenA sendHello (send (Req rpc ?g aid)))))"
  show "hold (\<lambda>c. c = d \<and> P d) (case encode (Req rpc ?g aid) of
            Inl x \<Rightarrow> throwA (WireError x)
          | Inr b \<Rightarrow>
              if len b > cl_maxDatagramSize d then doA (emit (RejectWith rpc (Http4Error AssetIdTooLong None)))
              else catchA ?body (\<lambda>x. doA (emit (RejectWith rpc x)))) Q Q"
  proof (cases "encode (Req rpc ?g aid)")
    case (Inl x)
    then show ?thesis by (auto intro!: hold_throw none)
  next
    case (Inr b)
    have quietly: "hold Q m Q (\<lambda>_. False)" if "quiet m" "hold (\<lambda>_. True) m (\<lambda>_. True) (\<lambda>_. False)" for m
      by (rule hold_conj [OF hold_pre [OF that(2)] still [OF that(1)]]) simp
    have "hold (\<lambda>_. True) (send (Req rpc ?g aid)) (\<lambda>_. True) (\<lambda>_. False)"
      by (rule hold_send) (simp_all add: Inr)
    then have "hold (\<lambda>c. c = d \<and> P d) ?body Q (\<lambda>_. False)"
      by (intro hold_then [OF hold_do [where Q = Q]] hold_then [OF quietly [OF caller.quiet_do]] hold_then [OF quietly [OF caller.quiet_hello hello_no_throw]]
          quietly [OF caller.quiet_send]) (auto simp: make intro: hold_do)
    then have "hold (\<lambda>c. c = d \<and> P d) (catchA ?body (\<lambda>x. doA (emit (RejectWith rpc x)))) Q Q"
      by (rule hold_catch) (simp add: hold_def)
    then show ?thesis by (auto simp: Inr intro!: hold_do reject)
  qed
qed

lemma delivers_start:
  assumes "rpc \<notin> used"
  shows "delivers A H (insert rpc used) (delivery A H used) (start_request e rpc aid streaming cls)"
proof (rule hold_start)
  fix c now g c' x
  assume d: "delivery A H used c"
  show "delivery A H (insert rpc used) (emit (RejectWith rpc x) c)"
    by (rule delivery_reject [OF d assms])
  show "delivery A H (insert rpc used) (put_transfer (new_transfer now rpc aid streaming cls g c') c)"
    by (rule delivery_open [OF d assms])
  show "delivery A H (insert rpc used) c"
    by (rule delivery_grow [OF d]) blast
qed (rule quiet_delivery)

section \<open>Whole sessions\<close>

fun starts :: "client_ev \<Rightarrow> int set" where
  "starts (Start rpc aid streaming cls) = {rpc}"
| "starts _ = {}"

lemma delivers_step:
  assumes "truthful A H ev" "starts ev \<inter> used = {}"
  shows "delivers A H (starts ev \<union> used) (delivery A H used) (client_step e ev)"
proof (cases ev)
  case Close
  have "core (emit CloseSession (c\<lparr>cl_closed := True\<rparr>)) = (fst (core c), snd (core c) @ [CloseSession])" for c
    by (simp add: caller.core_def emit_def)
  then have l: "log_of q (emit CloseSession (c\<lparr>cl_closed := True\<rparr>)) = log_of q c" for q c
    by (simp add: log_of_core)
  show ?thesis unfolding Close client_step.simps close_client_def
    by (rule hold_do) (auto simp: delivery_def l)
next
  case SessionEnd
  then show ?thesis
    by (simp add: session_end_def) (intro delivers_then delivers_quiet [OF caller.quiet_do] delivers_fail_all, simp_all)
next
  case Tick
  then show ?thesis by (auto intro!: delivers_read hold_when delivers_tick)
next
  case (Pull rpc)
  then show ?thesis using quiet_delivery [OF quiet_pull] by simp
next
  case (Datagram b)
  then show ?thesis using delivers_receive assms(1) by simp
next
  case (Cancel rpc)
  then show ?thesis using delivers_drop by (simp add: stream_cancel_def)
next
  case (Start rpc aid streaming cls)
  then show ?thesis using delivers_start assms(2) by simp
qed

text \<open>The ids a run draws: none twice.\<close>

fun fresh_ids :: "int set \<Rightarrow> client_ev list \<Rightarrow> bool" where
  "fresh_ids used [] = True"
| "fresh_ids used (ev # evs) = (starts ev \<inter> used = {} \<and> fresh_ids (starts ev \<union> used) evs)"

lemma delivery_run:
  "delivery A H used c \<Longrightarrow> list_all (truthful A H) (map snd evs) \<Longrightarrow> fresh_ids used (map snd evs) \<Longrightarrow>
    \<exists>used'. delivery A H used' (client_run evs c)"
proof (induction evs arbitrary: used c)
  case (Cons x evs)
  obtain e ev where x: "x = (e, ev)" by (cases x)
  have "delivery A H (starts ev \<union> used) (snd (client_step e ev c))"
    by (rule hold_state [OF delivers_step, of A H ev used c]) (use Cons.prems x in auto)
  then show ?case using Cons x by simp
qed auto

lemma delivery_new: "delivery A H {} (snd (new_client op n queue))"
proof -
  define d where "d = fresh_client op n queue"
  have "core d = ([], [])" by (simp add: d_def fresh_client_def caller.core_def Let_def)
  then have "delivery A H {} d \<longleftrightarrow> delivery A H {} (fresh_client op n queue)" "keyed d"
    by (simp_all add: d_def keyed_def fresh_client_def Let_def)
  have d: "delivery A H {} d"
    by (simp add: d_def delivery_def fresh_client_def Let_def log_of_def)
  define d' where "d' = upd_stats (\<lambda>s. s\<lparr>reorderWindowMs := reorderWindow (syncQueueLimit d
     \<lparr>cl_stats := new_stats op (rto (syncQueueLimit d)) (bc_current (cl_budget (syncQueueLimit d)))\<rparr>)\<rparr>)
     (syncQueueLimit d\<lparr>cl_stats := new_stats op (rto (syncQueueLimit d)) (bc_current (cl_budget (syncQueueLimit d)))\<rparr>)"
  have "core d' = core d" by (simp add: d'_def)
  then have d': "delivery A H {} d'" using d delivery_core by blast
  have "new_client op n queue = sendHello d'" by (simp add: new_client_def Let_def d_def d'_def)
  moreover have "delivery A H {} (snd (sendHello d'))"
    by (rule hold_state [OF quiet_delivery [OF caller.quiet_hello] d'])
  ultimately show ?thesis by simp
qed

text \<open>A server that holds two bytes without metadata, and the sample sessions with it.\<close>

lemma sample_truthful:
  "list_all (truthful (\<lambda>_. [10, 20]) (\<lambda>_. [])) (map snd (sample_session streaming))"
  "fresh_ids {} (map snd (sample_session streaming))"
  by (simp_all add: sample_session_def sample_datagrams truthful_packet_def payload_of_def headers_of_def)

lemma sample_client_run:
  "client_run evs sample_client = client_run evs (snd (new_client plain_options 1200 None))"
  by (simp add: sample_client_def)

text \<open>C4: whatever the network does to the datagrams, every answer the session gives is true: a
  resolved request carries exactly the asset's bytes and its metadata, a streamed one the asset's size
  and metadata.\<close>

theorem answers_carry_asset:
  assumes "list_all (truthful A H) (map snd evs)" "fresh_ids {} (map snd evs)"
  shows "list_all (true_effect A H) (cl_log (client_run evs (snd (new_client op n queue))))"
proof -
  let ?c = "client_run evs (snd (new_client op n queue))"
  obtain used where d: "delivery A H used ?c" using delivery_run [OF delivery_new assms] by blast
  have "true_effect A H x" if "x \<in> set (cl_log ?c)" for x
  proof (cases "\<exists>rpc. about rpc x")
    case True
    then obtain rpc where "about rpc x" by blast
    then have "x \<in> set (log_of rpc ?c)" using that by (simp add: log_of_def)
    then show ?thesis using delivery_honest [OF d, of rpc] by (auto simp: honest_def list_all_iff)
  qed (cases x; auto)
  then show ?thesis by (simp add: list_all_iff)
qed

theorem answers_carry_asset_witness:
  "list_all (true_effect (\<lambda>_. [10, 20]) (\<lambda>_. [])) (cl_log (client_run (sample_session False) sample_client)) \<and>
   Resolve 7 [10, 20] [] \<in> set (cl_log (client_run (sample_session False) sample_client))"
  using answers_carry_asset [OF sample_truthful, of False plain_options 1200 None]
  by (simp add: sample_run_log flip: sample_client_def)

text \<open>C5: what the reader of a streamed request has been handed is a prefix of the asset, in order and
  without gaps, and the stream closes only when it is the whole asset.\<close>

theorem stream_carries_prefix:
  assumes "list_all (truthful A H) (map snd evs)" "fresh_ids {} (map snd evs)"
    "c = client_run evs (snd (new_client op n queue))"
  shows "if StreamClose rpc \<in> set (cl_log c) then chunks (log_of rpc c) = A rpc
    else startsWith (A rpc) (chunks (log_of rpc c))"
proof -
  obtain used where "delivery A H used c" using delivery_run [OF delivery_new assms(1,2)] assms(3) by blast
  from delivery_honest [OF this, of rpc] show ?thesis by (auto simp: honest_def log_of_def)
qed

theorem stream_carries_prefix_witness:
  "chunks (log_of 7 (client_run (sample_session True) sample_client)) = [10, 20] \<and>
   StreamClose 7 \<in> set (cl_log (client_run (sample_session True) sample_client))"
  using stream_carries_prefix [OF sample_truthful [of True] sample_client_run, of 7]
  by (simp add: sample_stream_log)

end
