(* ===== verification/Stall.thy ===== *)
theory Stall
  imports Delivery
begin

text \<open>
  The stall timer of \<open>client/src/transport.ts\<close>: how long it waits, what it does for a request nobody
  answers, and the one case it never acts on: a streamed request whose metadata is lost while its body
  fills the stream's queue.
\<close>

section \<open>How long the timer waits\<close>

text \<open>A stall is noticed within ten seconds and a repair is repeated after at most two, whatever the
  measurements, the options and the number of attempts are; the timeout never falls below its floor.\<close>

theorem stall_bounds:
  "stall_timeout c t \<le> MAX_DRAIN_MS \<and> drainMs c \<le> MAX_DRAIN_MS \<and> MIN_REPAIR_DELAY_MS \<le> repairDelay c \<and>
     repairDelay c \<le> MAX_RTO_MS \<and> min (cl_rtoFloor c) MAX_RTO_MS \<le> rto c"
proof -
  have d: "drainMs c \<le> MAX_DRAIN_MS" by (simp add: drainMs_def Let_def MAX_DRAIN_MS_def)
  then have "stall_timeout c t \<le> MAX_DRAIN_MS"
    by (simp add: stall_timeout_def Let_def MAX_DRAIN_MS_def MAX_RTO_MS_def min.coboundedI1)
  moreover have "MIN_REPAIR_DELAY_MS \<le> repairDelay c" "repairDelay c \<le> MAX_RTO_MS"
    by (simp_all add: repairDelay_def Let_def MIN_REPAIR_DELAY_MS_def MAX_RTO_MS_def)
  moreover have "min (cl_rtoFloor c) MAX_RTO_MS \<le> rto c"
    by (cases "cl_srtt c") (simp_all add: rto_def min.coboundedI1 le_max_iff_disj)
  ultimately show ?thesis using d by simp
qed

section \<open>What the stall timer looks at\<close>

text \<open>The parts of one request that decide whether it counts as waiting and whether it has been
  repeated; other requests are masked.\<close>

type_synonym shown = "stream_state option \<times> headers option \<times> bool \<times> bool"

definition shown_of :: "transfer \<Rightarrow> shown" where
  "shown_of t = (tr_stream t, tr_headers t, tr_reqRetransmitted t, tr_settled t)"

definition only :: "int \<Rightarrow> transfer \<Rightarrow> int \<times> shown option" where
  "only rpc t = (tr_rpc t, if tr_rpc t = rpc then Some (shown_of t) else None)"

interpretation only: transfer_view "only rpc" fst for rpc
  by unfold_locales (simp_all add: only_def shown_of_def)

text \<open>The request \<open>rpc\<close> is there and shows \<open>v\<close>.\<close>

definition shows_as :: "int \<Rightarrow> shown \<Rightarrow> client \<Rightarrow> bool" where
  "shows_as rpc v c \<longleftrightarrow> keyed c \<and> map_option shown_of (jm_get (cl_transfers c) rpc) = Some v"

abbreviation untouched where
  "untouched rpc v m \<equiv> hold (shows_as rpc v) m (shows_as rpc v) (shows_as rpc v)"

lemma shows_as_core:
  assumes "only.core rpc d = only.core rpc c" "shows_as rpc v c"
  shows "shows_as rpc v d"
proof -
  have k: "keyed d" "keyed c" using assms only.keyed_cong shows_as_def by blast+
  have "map_option (only rpc) (jm_get (cl_transfers d) rpc) = map_option (only rpc) (jm_get (cl_transfers c) rpc)"
    using assms(1) only.core_get by metis
  moreover obtain t where t: "jm_get (cl_transfers c) rpc = Some t" "shown_of t = v"
    using assms(2) by (auto simp: shows_as_def)
  ultimately obtain u where u: "jm_get (cl_transfers d) rpc = Some u" "only rpc u = only rpc t" by auto
  have "tr_rpc t = rpc" "tr_rpc u = rpc" using keyed_get k t(1) u(1) by blast+
  then have "shown_of u = shown_of t" using u(2) by (simp add: only_def)
  then show ?thesis using k t u by (simp add: shows_as_def)
qed

lemma untouched_quiet:
  assumes "only.quiet rpc m"
  shows "untouched rpc v m"
  unfolding hold_def
proof (intro allI impI)
  fix c assume s: "shows_as rpc v c"
  then have "only.core rpc (snd (m c)) = only.core rpc c" using only.quiet_core assms by (simp add: shows_as_def)
  then have "shows_as rpc v (snd (m c))" using s shows_as_core by blast
  then show "case m c of (Inl e, c') \<Rightarrow> shows_as rpc v c' | (Inr x, c') \<Rightarrow> shows_as rpc v c'"
    by (auto split: prod.split sum.split)
qed

lemma untouched_then: "untouched rpc v m \<Longrightarrow> untouched rpc v n \<Longrightarrow> untouched rpc v (thenA m n)"
  by (rule hold_then)

lemma untouched_read: "(\<And>d. untouched rpc v (f d)) \<Longrightarrow> untouched rpc v (readA f)"
  by (rule hold_read, rule hold_pre [where P' = "shows_as rpc v"]) simp_all

lemma untouched_each: "(\<And>x. untouched rpc v (f x)) \<Longrightarrow> untouched rpc v (eachA f xs)"
  by (rule hold_each)

lemma untouched_when: "untouched rpc v m \<Longrightarrow> untouched rpc v (whenA b m)"
  by (rule hold_when) simp_all

lemma untouched_transfer:
  "(\<And>t. tr_rpc t = r \<Longrightarrow> untouched rpc v (f t)) \<Longrightarrow> untouched rpc v (with_transfer r f)"
proof (rule hold_transfer)
  fix t assume a: "\<And>t. tr_rpc t = r \<Longrightarrow> untouched rpc v (f t)"
  show "hold (\<lambda>c. shows_as rpc v c \<and> jm_get (cl_transfers c) r = Some t) (f t) (shows_as rpc v) (shows_as rpc v)"
  proof (cases "tr_rpc t = r")
    case True
    show ?thesis by (rule hold_pre [OF a [OF True]]) simp
  next
    case False
    then show ?thesis using keyed_get by (auto simp: hold_def shows_as_def)
  qed
qed simp

section \<open>Other requests\<close>

lemma untouched_finish:
  assumes "tr_rpc t \<noteq> rpc"
  shows "untouched rpc v (finish e t err)"
  unfolding finish_def
proof (rule untouched_then [OF hold_do untouched_quiet [OF only.quiet_pump]])
  fix c assume "shows_as rpc v c"
  then show "shows_as rpc v (finish_core e t err c)"
    using assms by (auto simp: shows_as_def keyed_def finish_core_transfers)
qed

lemma quiet_again_other:
  assumes "r \<noteq> rpc"
  shows "only.quiet rpc (recover_again e r granted)"
  unfolding recover_again_def
proof (rule only.quiet_then; rule only.quiet_holding_own)
  fix k and t :: transfer assume t: "tr_rpc t = r"
  show "hold (only.holding rpc k r t) (whenA (tr_asm t = None \<or> tr_headers t = None)
           (thenA (doA (put_transfer (t\<lparr>tr_reqRetransmitted := True\<rparr>)))
           (thenA (doA (upd_stats (\<lambda>s. s\<lparr>reqRetransmits := reqRetransmits s + 1\<rparr>)))
              (send (Req r (tr_initialGrant t) (tr_assetId t)))))) (only.steady rpc k) (only.steady rpc k)"
    unfolding whenA_def
    by (intro holdings only.hold_quiet quiets) (use assms t in \<open>simp_all add: only_def\<close>)
next
  fix k and t :: transfer
  have g: "hold (only.holding rpc k r t) (whenA (granted > tr_initialGrant t) (send (Grant r granted 0)))
      (only.holding rpc k r t) (only.steady rpc k)"
    by (rule hold_when) (auto intro: only.hold_send_on)
  show "hold (only.holding rpc k r t) (case (tr_asm t, tr_repair t) of
              (Some a, Some rp) \<Rightarrow>
                thenA (whenA (granted > tr_initialGrant t) (send (Grant r granted 0)))
               (readA (\<lambda>c.
                  let (out, rp') = repair_claim a (recover_gaps c a granted) (ev_now e) (repairDelay c) rp
                  in thenA (doA (put_transfer (t\<lparr>tr_repair := Some rp'\<rparr>)))
                       (eachA (send_resend r (\<lambda>s. s\<lparr>resendsSent := resendsSent s + 1\<rparr>)) out)))
            | _ \<Rightarrow> retA ()) (only.steady rpc k) (only.steady rpc k)"
    unfolding Let_def split_def prod.case
    by (intro holdings only.hold_then_on [OF g] only.hold_quiet quiets) (simp_all add: only.ignores)
qed

lemma prepare_transfers:
  "cl_transfers (recover_prepare e t c) =
     jm_set (tr_rpc t) (t\<lparr>tr_probe := None, tr_lastProgress := ev_now e\<rparr>) (cl_transfers c)"
  by (simp add: recover_prepare_def Let_def put_transfer_def)

lemma untouched_recover_other:
  assumes "r \<noteq> rpc"
  shows "untouched rpc v (recover e r granted)"
  unfolding recover_def Let_def
proof (rule untouched_transfer, rule untouched_read, rule hold_if_on)
  fix t :: transfer
  assume t: "tr_rpc t = r"
  let ?t = "t\<lparr>tr_recoveries := tr_recoveries t + 1\<rparr>"
  show "untouched rpc v (finish e ?t (Some (Http4Error NoProgress None)))"
    by (rule untouched_finish) (simp add: t assms)
  show "untouched rpc v (thenA (doA (recover_prepare e ?t)) (recover_again e r granted))"
  proof (rule untouched_then [OF hold_do untouched_quiet [OF quiet_again_other [OF assms]]])
    fix c assume "shows_as rpc v c"
    then show "shows_as rpc v (recover_prepare e ?t c)"
      using assms t by (auto simp: shows_as_def keyed_def prepare_transfers)
  qed
qed

lemma untouched_tick_other:
  assumes "r \<noteq> rpc"
  shows "untouched rpc v (tick_transfer e r)"
proof -
  have put: "untouched rpc v (doA (put_transfer (t\<lparr>tr_lastProgress := n\<rparr>)))" if "tr_rpc t = r" for t n
    by (rule hold_do) (use that assms in \<open>auto simp: shows_as_def keyed_def put_transfer_def\<close>)
  show ?thesis
    unfolding tick_transfer_def Let_def
    by (intro untouched_transfer untouched_then untouched_read hold_if_on untouched_when put
        untouched_recover_other untouched_quiet [OF only.quiet_detect] untouched_quiet [OF only.quiet_probe] assms)
qed

section \<open>A paused stream without metadata\<close>

lemma untouched_tick_own:
  assumes "st_paused st"
  shows "untouched rpc (Some st, h, b, s) (tick_transfer e rpc)"
  unfolding tick_transfer_def Let_def
proof (rule untouched_transfer, rule untouched_then [OF untouched_when [OF untouched_quiet [OF only.quiet_detect]]])
  let ?v = "(Some st, h, b, s)"
  let ?f = "\<lambda>t c. if waiting c t then doA (put_transfer (t\<lparr>tr_lastProgress := ev_now e\<rparr>))
          else
            thenA (tail_probe e rpc (granted_now c t))
              (with_transfer rpc (\<lambda>u. readA (\<lambda>d.
                 whenA (ev_now e - tr_lastProgress u \<ge> stall_timeout d u) (recover e rpc (granted_now c t)))))"
  show "untouched rpc ?v (with_transfer rpc (\<lambda>t. readA (?f t)))"
  proof (rule hold_transfer)
    fix t
    show "hold (\<lambda>c. shows_as rpc ?v c \<and> jm_get (cl_transfers c) rpc = Some t) (readA (?f t)) (shows_as rpc ?v) (shows_as rpc ?v)"
    proof (rule hold_read)
      fix d
      show "hold (\<lambda>c. c = d \<and> shows_as rpc ?v d \<and> jm_get (cl_transfers d) rpc = Some t) (?f t d)
          (shows_as rpc ?v) (shows_as rpc ?v)"
      proof (cases "tr_stream t = Some st")
        case True
        then have "?f t d = doA (put_transfer (t\<lparr>tr_lastProgress := ev_now e\<rparr>))"
          using assms by (simp add: waiting_def)
        moreover have "shows_as rpc ?v (put_transfer (t\<lparr>tr_lastProgress := ev_now e\<rparr>) c)"
          if c: "shows_as rpc ?v c" "jm_get (cl_transfers c) rpc = Some t" for c
        proof -
          have "tr_rpc t = rpc" "shown_of t = ?v" "keyed c"
            using c keyed_get by (auto simp: shows_as_def)
          then show ?thesis by (simp add: shows_as_def keyed_def put_transfer_def shown_of_def)
        qed
        ultimately show ?thesis by (simp only:) (rule hold_do, blast)
      next
        case False
        then show ?thesis by (auto simp: hold_def shows_as_def shown_of_def)
      qed
    qed
  qed simp
qed

lemma untouched_tick:
  assumes "st_paused st"
  shows "untouched rpc (Some st, h, b, s) (tick e)"
proof -
  have "untouched rpc (Some st, h, b, s) (tick_transfer e r)" for r
    using untouched_tick_own [OF assms] untouched_tick_other by (cases "r = rpc") auto
  moreover have "only.quiet rpc (doA (\<lambda>c. if cl_transfers c = [] then c\<lparr>cl_ticker := False\<rparr> else c))"
    by (rule only.quiet_do) simp
  ultimately show ?thesis unfolding tick_def
    by (intro untouched_read untouched_then untouched_when untouched_each untouched_quiet [OF only.quiet_detect_seq])
       (simp_all add: untouched_quiet)
qed

lemma untouched_ticks:
  assumes "st_paused st" "shows_as rpc (Some st, h, b, s) c"
  shows "shows_as rpc (Some st, h, b, s) (client_run (map (\<lambda>e. (e, Tick)) es) c)"
  using assms(2)
proof (induction es arbitrary: c)
  case (Cons e es)
  have "untouched rpc (Some st, h, b, s) (client_step e Tick)"
    by (simp add: untouched_read untouched_when untouched_tick [OF assms(1)])
  then have "shows_as rpc (Some st, h, b, s) (snd (client_step e Tick c))"
    by (rule hold_state [where P = "shows_as rpc (Some st, h, b, s)"]) (simp_all add: Cons.prems)
  then show ?case using Cons.IH by simp
qed simp

text \<open>C30: once a streamed request is paused and its metadata is still missing, the stall timer never
  acts on it again: after any number of ticks, at whatever times, the request is as it was, neither
  repeated nor answered. Nobody can read the stream either, since the caller gets it only with the
  metadata, so a lost META leaves the request hanging for as long as the session lasts.\<close>

theorem paused_without_meta_hangs:
  assumes "keyed c" "jm_get (cl_transfers c) rpc = Some t" "tr_stream t = Some st" "st_paused st"
    "tr_headers t = None"
  shows "\<exists>u. jm_get (cl_transfers (client_run (map (\<lambda>e. (e, Tick)) es) c)) rpc = Some u \<and> tr_stream u = Some st \<and>
     tr_headers u = None \<and> tr_settled u = tr_settled t \<and> tr_reqRetransmitted u = tr_reqRetransmitted t"
proof -
  have "shows_as rpc (Some st, None, tr_reqRetransmitted t, tr_settled t) c"
    using assms by (simp add: shows_as_def shown_of_def)
  from untouched_ticks [OF assms(4) this, of es] show ?thesis
    by (auto simp: shows_as_def shown_of_def)
qed

theorem paused_without_meta_hangs_witness:
  "\<exists>u. jm_get (cl_transfers (client_run (map (\<lambda>n. (roomy (of_nat n * 1000), Tick)) [0..<100])
        (client_run lost_meta_session sample_client))) 7 = Some u \<and> tr_headers u = None \<and> \<not> tr_settled u"
proof -
  let ?c = "client_run lost_meta_session sample_client"
  have "keyed ?c" by (simp add: keyed_def lost_meta_state jm_get_Cons)
  moreover obtain t st where "jm_get (cl_transfers ?c) 7 = Some t" "tr_stream t = Some st" "st_paused st"
    "tr_headers t = None" "\<not> tr_settled t"
    by (simp add: lost_meta_state jm_get_Cons)
  ultimately show ?thesis
    using paused_without_meta_hangs [of ?c 7 t st "map (\<lambda>n. roomy (of_nat n * 1000)) [0..<100]"]
    by (auto simp: o_def)
qed

end
