(* ===== verification/Whole.thy ===== *)
theory Whole
  imports Client Codec
begin

text \<open>
  Whole numbers in the session of \<open>client/src/transport.ts\<close>. JavaScript numbers may be fractional, and
  \<open>encode\<close> refuses what is not an unsigned 32-bit integer. These lemmas follow the numbers that end up
  in packets through the components: ranges to resend, sequence numbers, grants and the budget.
\<close>

lemma is_integer_mult [simp]: "is_integer x \<Longrightarrow> is_integer y \<Longrightarrow> is_integer (x * y)"
  by (metis is_integer_def is_integer_of_int of_int_mult)

section \<open>Ids and ranges that a packet can carry\<close>

definition id_ok :: "int \<Rightarrow> bool" where
  "id_ok rpc \<longleftrightarrow> 0 \<le> rpc \<and> rpc < 2 ^ 64"

definition whole_range :: "range \<Rightarrow> bool" where
  "whole_range r \<longleftrightarrow> is_integer (rstart r) \<and> is_integer (rend r) \<and> 0 \<le> rstart r \<and> rend r \<le> U32_MAX"

definition sendable_range :: "range \<Rightarrow> bool" where
  "sendable_range r \<longleftrightarrow> whole_range r \<and> rstart r < rend r"

lemma sendable_resend: "id_ok rpc \<Longrightarrow> sendable_range r \<Longrightarrow> wf_packet (Resend rpc (rstart r) (rend r))"
  by (auto simp: sendable_range_def whole_range_def wf_packet_def id_ok_def u32_def)

section \<open>Repairs\<close>

definition whole_repair :: "repair \<Rightarrow> bool" where
  "whole_repair rp \<longleftrightarrow> (\<forall>p \<in> set (pendings rp). is_integer (pstart p) \<and> is_integer (pend p))"

lemma carve_out:
  assumes "carve pos en ps = (out, pos')" "is_integer pos" "\<forall>p \<in> set ps. is_integer (pstart p) \<and> is_integer (pend p)"
  shows "is_integer pos' \<and> pos \<le> pos' \<and>
    (\<forall>r \<in> set out. is_integer (rstart r) \<and> is_integer (rend r) \<and> pos \<le> rstart r \<and> rstart r < rend r \<and> rend r \<le> en)"
  using assms
proof (induction pos en ps arbitrary: out pos' rule: carve.induct)
  case (2 pos en p ps)
  show ?case
  proof (cases "pstart p < en")
    case True
    obtain out1 pos1 where r: "carve (max pos (pend p)) en ps = (out1, pos1)" by fastforce
    have "is_integer pos1 \<and> max pos (pend p) \<le> pos1 \<and>
      (\<forall>r \<in> set out1. is_integer (rstart r) \<and> is_integer (rend r) \<and> max pos (pend p) \<le> rstart r \<and> rstart r < rend r \<and> rend r \<le> en)"
      by (rule "2.IH" [OF True r]) (use "2.prems" in auto)
    then show ?thesis using "2.prems" True r by (auto split: if_splits)
  qed (use "2.prems" in auto)
qed auto

lemma claim_loop_out:
  assumes "\<forall>p \<in> set live. is_integer (pstart p) \<and> is_integer (pend p)" "\<forall>g \<in> set gs. whole_range g"
  shows "\<forall>r \<in> set (claim_loop live gs). sendable_range r"
  using assms
proof (induction live gs rule: claim_loop.induct)
  case (2 live g gs)
  let ?live = "dropWhile (\<lambda>p. pend p \<le> rstart g) live"
  obtain out pos where c: "carve (rstart g) (rend g) ?live = (out, pos)" by fastforce
  have live: "\<forall>p \<in> set ?live. is_integer (pstart p) \<and> is_integer (pend p)"
    using "2.prems"(1) by (auto dest: set_dropWhileD)
  have g: "whole_range g" using "2.prems"(2) by simp
  note k = carve_out [OF c _ live]
  have "\<forall>r \<in> set (claim_loop ?live gs). sendable_range r"
    using "2.IH" [OF refl c [symmetric] refl live] "2.prems"(2) by auto
  moreover have "\<forall>r \<in> set out. sendable_range r" "pos < rend g \<Longrightarrow> sendable_range (Range pos (rend g))"
    using k g by (fastforce simp: sendable_range_def whole_range_def)+
  ultimately show ?case using c by (auto simp: Let_def)
qed simp

lemma live_loop_subset: "set (live_loop now gs ps) \<subseteq> set ps"
proof (induction ps arbitrary: gs)
  case (Cons p ps)
  show ?case
  proof (cases "dropWhile (\<lambda>g. rend g \<le> pstart p) gs")
    case Nil
    show ?thesis unfolding live_loop.simps(2) Let_def Nil list.case
      using Cons.IH [of gs] Cons.IH [of "[]"] by auto
  next
    case (Cons g gs')
    show ?thesis unfolding live_loop.simps(2) Let_def Cons list.case
      using Cons.IH [of gs] Cons.IH [of "g # gs'"] by auto
  qed
qed simp

lemma repair_claim_whole:
  assumes "repair_claim a gs now delay rp = (out, rp')" "whole_repair rp" "\<forall>g \<in> set gs. whole_range g"
  shows "(\<forall>r \<in> set out. sendable_range r) \<and> whole_repair rp'"
proof -
  let ?live = "live_loop now (asm_missing a (asm_size a)) (pendings rp)"
  have live: "\<forall>p \<in> set ?live. is_integer (pstart p) \<and> is_integer (pend p)"
    using live_loop_subset assms(2) unfolding whole_repair_def by blast
  have out: "out = claim_loop ?live gs"
    "pendings rp' = sort_key pstart (?live @ map (\<lambda>r. Pending (rstart r) (rend r) (now + delay)) out)"
    using assms(1) by (auto simp: repair_claim_def claim_core_def Let_def)
  have s: "\<forall>r \<in> set out. sendable_range r" using claim_loop_out [OF live assms(3)] out(1) by simp
  then show ?thesis using live by (auto simp: whole_repair_def out(2) sendable_range_def whole_range_def)
qed

lemma detect_loop_lost:
  "detect_loop old now window gs sus lost = (sus', lost') \<Longrightarrow> set lost' \<subseteq> set lost \<union> set gs"
proof (induction gs arbitrary: sus lost)
  case (Cons g gs)
  let ?since = "case jm_get old (rstart g) of None \<Rightarrow> now | Some t \<Rightarrow> t"
  have "set lost' \<subseteq> set (if now - ?since \<ge> window then lost @ [g] else lost) \<union> set gs"
    by (rule Cons.IH [of "jm_set (rstart g) ?since sus"]) (use Cons.prems in \<open>simp add: Let_def\<close>)
  then show ?case by (auto split: if_splits)
qed simp

lemma missing_whole:
  assumes "asm_ok a" "is_integer l" "l \<le> U32_MAX"
  shows "\<forall>g \<in> set (asm_missing a l). whole_range g"
proof -
  have "whole (asm_missing a l)"
    unfolding asm_missing_def by (rule missing_from_whole) (use assms in \<open>auto simp: asm_ok_def\<close>)
  then show ?thesis using asm_missing_spec(3) [OF assms(1), of l] assms(3)
    by (fastforce simp: whole_def inside_def whole_range_def)
qed

lemma repair_detect_whole:
  assumes "repair_detect a l now window delay rp = (out, rp')" "whole_repair rp" "asm_ok a" "is_integer l" "l \<le> U32_MAX"
  shows "(\<forall>r \<in> set out. sendable_range r) \<and> whole_repair rp'"
proof -
  obtain sus lost where d: "detect_loop (suspects rp) now window (asm_missing a l) [] [] = (sus, lost)" by fastforce
  have "set lost \<subseteq> set (asm_missing a l)" using detect_loop_lost [OF d] by simp
  then have g: "\<forall>g \<in> set lost. whole_range g" using missing_whole [OF assms(3-5)] by blast
  have "repair_claim a lost now delay (rp\<lparr>suspects := sus\<rparr>) = (out, rp')"
    using assms(1) d by (simp add: repair_detect_def)
  then show ?thesis by (rule repair_claim_whole) (use assms(2) g in \<open>simp_all add: whole_repair_def\<close>)
qed

section \<open>Sequence numbers\<close>

definition u32_seq :: "seq_tracker \<Rightarrow> bool" where
  "u32_seq t \<longleftrightarrow> -1 \<le> sq_highest t \<and> sq_highest t \<le> 0xFFFFFFFF \<and>
     jm_keys (sq_missing t) \<union> jm_keys (sq_claimed t) \<subseteq> {0..<0xFFFFFFFF}"

definition sendable_seq :: "int \<times> int \<Rightarrow> bool" where
  "sendable_seq r \<longleftrightarrow> 0 \<le> fst r \<and> fst r < snd r \<and> snd r \<le> 0xFFFFFFFF"

lemma sendable_resend_seq: "sendable_seq r \<Longrightarrow> wf_packet (ResendSeq 0 (of_int (fst r)) (of_int (snd r)))"
proof -
  assume "sendable_seq r"
  then have "0 \<le> fst r" "fst r < snd r" "snd r \<le> 0xFFFFFFFF" by (auto simp: sendable_seq_def)
  then have "(of_int (snd r) :: num) \<le> of_int 0xFFFFFFFF" "(of_int (fst r) :: num) \<le> of_int 0xFFFFFFFF"
    by (simp_all only: of_int_le_iff)
  then show ?thesis using \<open>0 \<le> fst r\<close> \<open>fst r < snd r\<close> by (simp add: wf_packet_def u32_def)
qed

lemma ranges_loop_sendable:
  assumes "\<forall>r \<in> set out. sendable_seq r" "set ss \<subseteq> {0..<0xFFFFFFFF}"
  shows "\<forall>r \<in> set (ranges_loop mx out ss). sendable_seq r"
  using assms
proof (induction mx out ss rule: ranges_loop.induct)
  case (2 mx out s ss)
  show ?case
  proof (cases "out \<noteq> [] \<and> snd (last out) = s \<and> snd (last out) - fst (last out) < mx")
    case True
    have "sendable_seq (last out)" using "2.prems"(1) True by (metis last_in_set)
    then have "sendable_seq (fst (last out), s + 1)" using "2.prems"(2) True by (auto simp: sendable_seq_def)
    then have "\<forall>r \<in> set (butlast out @ [(fst (last out), s + 1)]). sendable_seq r"
      using "2.prems"(1) by (auto dest: in_set_butlastD)
    from "2.IH"(1) [OF True this] "2.prems"(2) show ?thesis
      unfolding ranges_loop.simps(2) if_P [OF True] by simp
  next
    case False
    have "\<forall>r \<in> set (out @ [(s, s + 1)]). sendable_seq r"
      using "2.prems" by (auto simp: sendable_seq_def)
    from "2.IH"(2) [OF False this] "2.prems"(2) show ?thesis
      unfolding ranges_loop.simps(2) if_not_P [OF False] by simp
  qed
qed simp

lemma seq_ranges_sendable: "set ns \<subseteq> {0..<0xFFFFFFFF} \<Longrightarrow> \<forall>r \<in> set (seq_ranges ns mx). sendable_seq r"
  unfolding seq_ranges_def by (rule ranges_loop_sendable) simp_all

lemma claim_lost_keys:
  "jm_keys (sq_missing (fold (claim_lost now) ks t)) \<subseteq> jm_keys (sq_missing t)"
  "jm_keys (sq_claimed (fold (claim_lost now) ks t)) = set ks \<union> jm_keys (sq_claimed t)"
  "sq_highest (fold (claim_lost now) ks t) = sq_highest t"
proof (induction ks arbitrary: t)
  case (Cons k ks)
  { case 1 show ?case using Cons(1) [of "claim_lost now k t"] by (auto simp: claim_lost_def Let_def) }
  { case 2 show ?case using Cons(2) [of "claim_lost now k t"] by (auto simp: claim_lost_def Let_def) }
  { case 3 show ?case using Cons(3) [of "claim_lost now k t"] by (simp add: claim_lost_def Let_def) }
qed simp_all

lemma seq_detect_u32:
  assumes "seq_detect now al w tail mx t = (rs, t')" "u32_seq t"
  shows "(\<forall>r \<in> set rs. sendable_seq r) \<and> u32_seq t'"
proof -
  let ?lost = "map fst (filter (\<lambda>(s, m). is_lost (sq_highest t) now al w tail s m) (sq_missing t))"
  have l: "set ?lost \<subseteq> jm_keys (sq_missing t)" by (auto simp: jm_keys_fst)
  have e: "rs = seq_ranges ?lost mx" "t' = fold (claim_lost now) ?lost t"
    using assms(1) by (auto simp: seq_detect_def Let_def)
  have u: "jm_keys (sq_missing t) \<union> jm_keys (sq_claimed t) \<subseteq> {0..<0xFFFFFFFF}"
    "-1 \<le> sq_highest t" "sq_highest t \<le> 0xFFFFFFFF"
    using assms(2) by (auto simp: u32_seq_def)
  have "u32_seq t'" unfolding u32_seq_def e(2) claim_lost_keys(2,3)
    using u l claim_lost_keys(1) [of now ?lost t] by blast
  moreover have "\<forall>r \<in> set rs. sendable_seq r" unfolding e(1) by (rule seq_ranges_sendable) (use u l in blast)
  ultimately show ?thesis by simp
qed

lemma repeats_loop_keys:
  assumes "repeats_loop now delay mt rep cs due t = (due', t')"
  shows "set due' \<subseteq> set due \<union> fst ` set cs \<and> jm_keys (sq_claimed t') \<subseteq> jm_keys (sq_claimed t) \<union> fst ` set cs \<and>
    sq_missing t' = sq_missing t \<and> sq_highest t' = sq_highest t"
  using assms
proof (induction cs arbitrary: due t)
  case (Cons sc cs)
  obtain s c where sc: "sc = (s, c)" by (cases sc)
  let ?settle = "claim_tries c \<ge> mt \<or> (case claim_hint c of None \<Rightarrow> False | Some h \<Rightarrow> rep h)"
  let ?t1 = "t\<lparr>sq_claimed := jm_delete s (sq_claimed t), sq_settled := jm_set s now (sq_settled t)\<rparr>"
  let ?t2 = "t\<lparr>sq_claimed := jm_set s (c\<lparr>claim_at := now, claim_tries := claim_tries c + 1\<rparr>) (sq_claimed t)\<rparr>"
  consider "repeats_loop now delay mt rep cs due t = (due', t')" | "repeats_loop now delay mt rep cs due ?t1 = (due', t')"
    | "repeats_loop now delay mt rep cs (due @ [s]) ?t2 = (due', t')"
    using Cons.prems unfolding sc repeats_loop.simps(2) by (auto split: if_split_asm)
  then show ?case
  proof cases
    case 1
    show ?thesis using Cons.IH [OF 1] sc by auto
  next
    case 2
    show ?thesis using Cons.IH [OF 2] sc by auto
  next
    case 3
    show ?thesis using Cons.IH [OF 3] sc by auto
  qed
qed simp

lemma seq_repeats_u32:
  assumes "seq_repeats now delay mt rep mx t = (rs, t')" "u32_seq t"
  shows "(\<forall>r \<in> set rs. sendable_seq r) \<and> u32_seq t'"
proof -
  obtain due t1 where r: "repeats_loop now delay mt rep (sq_claimed t) [] t = (due, t1)" by fastforce
  have k: "set due \<subseteq> jm_keys (sq_claimed t)" "jm_keys (sq_claimed t1) \<subseteq> jm_keys (sq_claimed t)"
    "sq_missing t1 = sq_missing t" "sq_highest t1 = sq_highest t"
    using repeats_loop_keys [OF r] by (auto simp: jm_keys_fst)
  have e: "rs = seq_ranges due mx" "sq_missing t' = sq_missing t1" "sq_claimed t' = sq_claimed t1" "sq_highest t' = sq_highest t1"
    using assms(1) r by (auto simp: seq_repeats_def)
  have u: "jm_keys (sq_missing t) \<union> jm_keys (sq_claimed t) \<subseteq> {0..<0xFFFFFFFF}"
    "-1 \<le> sq_highest t" "sq_highest t \<le> 0xFFFFFFFF"
    using assms(2) by (auto simp: u32_seq_def)
  have "u32_seq t'" unfolding u32_seq_def e(2-4) k(3,4) using u k(2) by blast
  moreover have "\<forall>r \<in> set rs. sendable_seq r" unfolding e(1) by (rule seq_ranges_sendable) (use u k(1) in blast)
  ultimately show ?thesis by simp
qed

lemma seq_arrive_u32:
  assumes "seq_arrive sq now place t = (res, t')" "u32_seq t" "0 \<le> sq" "sq \<le> 0xFFFFFFFF"
  shows "u32_seq t'"
proof (cases "sq > sq_highest t")
  case True
  then have h: "sq_highest t' = sq"
    and k: "sq_claimed t' = sq_claimed t"
      "jm_keys (sq_missing t') \<subseteq> {sq_highest t + 1..sq - 1} \<union> jm_keys (sq_missing t)"
    using assms(1) by (auto simp: seq_arrive_def Let_def jm_keys_fold split: if_splits)
  note k
  moreover have "{sq_highest t + 1..sq - 1} \<subseteq> {0..<0xFFFFFFFF}"
    using assms(2,4) by (auto simp: u32_seq_def)
  moreover have "jm_keys (sq_missing t) \<subseteq> {0..<0xFFFFFFFF}" "jm_keys (sq_claimed t) \<subseteq> {0..<0xFFFFFFFF}"
    using assms(2) by (simp_all add: u32_seq_def)
  ultimately have "jm_keys (sq_missing t') \<union> jm_keys (sq_claimed t') \<subseteq> {0..<0xFFFFFFFF}"
    by (metis (no_types, lifting) Un_mono le_sup_iff subset_trans)
  with h show ?thesis using assms(3,4) by (simp add: u32_seq_def)
next
  case False
  then have h: "sq_highest t' = sq_highest t"
    and k: "jm_keys (sq_missing t') \<subseteq> jm_keys (sq_missing t)"
      "jm_keys (sq_claimed t') \<subseteq> jm_keys (sq_claimed t)"
    using assms(1) by (auto simp: seq_arrive_def split: if_splits)
  from k have "jm_keys (sq_missing t') \<union> jm_keys (sq_claimed t') \<subseteq> jm_keys (sq_missing t) \<union> jm_keys (sq_claimed t)"
    by blast
  with assms(2) show ?thesis unfolding u32_seq_def h by (meson subset_trans)
qed

lemma new_seq_u32: "u32_seq new_seq_tracker"
  by (simp add: u32_seq_def new_seq_tracker_def)

section \<open>Grants\<close>

definition whole_entry :: "sched_entry \<Rightarrow> bool" where
  "whole_entry e \<longleftrightarrow> is_integer (e_size e) \<and> is_integer (e_granted e) \<and> is_integer (e_received e) \<and>
     0 \<le> e_granted e \<and> e_granted e \<le> e_size e \<and> e_size e \<le> U32_MAX"

definition whole_entries :: "(int \<times> sched_entry) list \<Rightarrow> bool" where
  "whole_entries m \<longleftrightarrow> (\<forall>r \<in> set m. id_ok (fst r) \<and> whole_entry (snd r))"

definition sendable_grant :: "grant_decision \<Rightarrow> bool" where
  "sendable_grant d \<longleftrightarrow> id_ok (d_rpc d) \<and> u32 (d_max d) \<and> d_priority d \<le> 7"

lemma sendable_grant_wf: "sendable_grant d \<Longrightarrow> wf_packet (Grant (d_rpc d) (d_max d) (of_nat (d_priority d)))"
proof -
  assume s: "sendable_grant d"
  then have "(of_nat (d_priority d) :: num) \<le> of_nat 7" unfolding sendable_grant_def by (simp only: of_nat_le_iff)
  then show ?thesis using s by (simp add: sendable_grant_def wf_packet_def id_ok_def u8_def)
qed

lemma whole_entries_simps [simp]:
  "whole_entries []" "whole_entries (r # m) \<longleftrightarrow> id_ok (fst r) \<and> whole_entry (snd r) \<and> whole_entries m"
  "whole_entries (m @ m') \<longleftrightarrow> whole_entries m \<and> whole_entries m'"
  by (auto simp: whole_entries_def)

lemma update_entries: "set (AList.update k v m) \<subseteq> insert (k, v) (set m)"
  by (induction m) auto

lemma delete_entries: "set (AList.delete k m) \<subseteq> set m"
  by (auto simp: AList.delete_eq)

lemma whole_set: "whole_entries m \<Longrightarrow> id_ok k \<Longrightarrow> whole_entry e \<Longrightarrow> whole_entries (jm_set k e m)"
  using update_entries [of k e m] by (fastforce simp: whole_entries_def jm_set_def)

lemma whole_delete: "whole_entries m \<Longrightarrow> whole_entries (jm_delete k m)"
  using delete_entries [of k m] by (auto simp: whole_entries_def jm_delete_def)

lemma whole_get: "whole_entries m \<Longrightarrow> jm_get m k = Some e \<Longrightarrow> id_ok k \<and> whole_entry e"
  by (force simp: whole_entries_def jm_get_def dest: map_of_SomeD)

lemma is_integer_sum: "(\<And>x. x \<in> set xs \<Longrightarrow> is_integer (f x)) \<Longrightarrow> is_integer (sum_list (map f xs))"
  by (induction xs) simp_all

lemma outstanding_whole: "whole_entries (sc_rpcs s) \<Longrightarrow> is_integer (sched_outstanding s)"
  unfolding sched_outstanding_def
  by (rule is_integer_sum) (auto simp: whole_entries_def whole_entry_def in_flight_def)

definition whole_run :: "grant_run \<Rightarrow> bool" where
  "whole_run g \<longleftrightarrow> is_integer (g_avail g) \<and> whole_entries (g_done g) \<and> (\<forall>d \<in> set (g_out g). sendable_grant d)"

lemma grant_step_whole:
  assumes "whole_run g" "id_ok rpc" "whole_entry e" "0 < g_avail g"
  shows "whole_run (grant_step rpc e rank todo g)"
  using assms
  by (auto simp: whole_run_def grant_step_def Let_def whole_entry_def sendable_grant_def u32_def min_def)

lemma grants_loop_whole:
  assumes "whole_run g" "whole_entries todo"
  shows "whole_run (grants_loop mi outst rank todo g)"
  using assms
proof (induction mi outst rank todo g rule: grants_loop.induct)
  case (2 mi outst rank rpc e todo g)
  show ?case
  proof (cases "g_avail g \<le> 0")
    case False
    then have "whole_run (grant_step rpc e rank todo g)" using "2.prems" grant_step_whole by simp
    then show ?thesis using "2.IH" [OF False refl refl] "2.prems" False by (auto simp: whole_run_def Let_def)
  qed (use "2.prems" in \<open>simp add: whole_run_def\<close>)
qed simp

lemma fold_set_whole:
  "whole_entries ns \<Longrightarrow> whole_entries m \<Longrightarrow> whole_entries (fold (\<lambda>(k, e). jm_set k e) ns m)"
  by (induction ns arbitrary: m) (auto simp: whole_set)

lemma fold_set_keys: "jm_keys (fold (\<lambda>(k, e). jm_set k e) ns m) = fst ` set ns \<union> jm_keys m"
  by (induction ns arbitrary: m) auto

lemma grants_loop_keys:
  "fst ` set (g_done (grants_loop mi outst rank todo g)) = fst ` set (g_done g) \<union> fst ` set todo"
  by (induction mi outst rank todo g rule: grants_loop.induct) (auto simp: Let_def grant_step_def)

lemma sched_grants_whole:
  assumes "sched_grants res s = (ds, s')" "whole_entries (sc_rpcs s)" "is_integer (sc_budget s)" "is_integer res"
  shows "(\<forall>d \<in> set ds. sendable_grant d) \<and> whole_entries (sc_rpcs s') \<and> jm_keys (sc_rpcs s') = jm_keys (sc_rpcs s)"
proof -
  let ?avail = "sc_budget s - res - sched_outstanding s"
  define g where "g = grants_loop (effective_increment s) (sched_outstanding s) 0 (candidates s)
     \<lparr>g_avail = ?avail, g_done = [], g_out = [], g_trace = [], g_limited = (candidates s \<noteq> [] \<and> ?avail < effective_increment s)\<rparr>"
  have cs: "set (candidates s) \<subseteq> set (sc_rpcs s)" by (auto simp: candidates_set)
  have "whole_entries (candidates s)" using cs assms(2) unfolding whole_entries_def by blast
  then have w: "whole_run g" unfolding g_def
    by (rule grants_loop_whole [rotated]) (use assms outstanding_whole in \<open>simp add: whole_run_def\<close>)
  have k: "fst ` set (g_done g) \<subseteq> jm_keys (sc_rpcs s)"
    unfolding g_def grants_loop_keys using cs by (auto simp: jm_keys_fst)
  show ?thesis
  proof (cases "?avail \<le> 0")
    case True
    then show ?thesis using assms by (auto simp: sched_grants_def Let_def)
  next
    case False
    then have e: "ds = g_out g" "sc_rpcs s' = fold (\<lambda>(k, e). jm_set k e) (g_done g) (sc_rpcs s)"
      using assms(1) by (auto simp: sched_grants_def Let_def g_def)
    show ?thesis using w k assms(2) by (auto simp: e fold_set_keys whole_run_def fold_set_whole)
  qed
qed

lemma sched_modify_whole:
  assumes "whole_entries (sc_rpcs s)" "\<And>e. whole_entry e \<Longrightarrow> whole_entry (f e)"
  shows "whole_entries (sc_rpcs (sched_modify rpc f s)) \<and> jm_keys (sc_rpcs (sched_modify rpc f s)) = jm_keys (sc_rpcs s)"
  using assms whole_get [of "sc_rpcs s" rpc]
  by (auto simp: sched_modify_def whole_set jm_get_Some_keys split: option.split)

section \<open>The budget\<close>

definition whole_budget :: "budget_ctl \<Rightarrow> bool" where
  "whole_budget b \<longleftrightarrow> is_integer (bc_floor b) \<and> is_integer (bc_cap b) \<and> is_integer (bc_current b)"

lemma whole_budget_ops:
  assumes "whole_budget b"
  shows "whole_budget (on_rtt_sample r now b)" "whole_budget (note_limited b)" "whole_budget (bc_update now b)"
    "whole_budget (on_delivered n now b)" "whole_budget (bc_on_loss now b)"
proof -
  have u: "whole_budget (bc_update now b)" if "whole_budget b" for b
    using that by (auto simp: whole_budget_def bc_update_def Let_def)
  show "whole_budget (on_rtt_sample r now b)" "whole_budget (note_limited b)" "whole_budget (bc_on_loss now b)"
    using assms by (auto simp: whole_budget_def on_rtt_sample_def note_limited_def bc_on_loss_def)
  show "whole_budget (bc_update now b)" using assms by (rule u)
  show "whole_budget (on_delivered n now b)" using assms
    by (auto simp: on_delivered_def Let_def intro!: u split: option.split) (auto simp: whole_budget_def)
qed

end
