(* ===== verification/Safety.thy ===== *)
theory Safety
  imports Whole Delivery
begin

text \<open>
  No exception inside the session of \<open>client/src/transport.ts\<close>. \<open>encode\<close> throws on a number that does not
  fit its field, and an exception in the read loop ends it. With whole numbers in the options, \<open>sound\<close>
  is kept by every action, and every packet an action sends can be encoded. The rules of \<open>upholds\<close> follow
  the shape of an action.
\<close>

section \<open>The invariant\<close>

definition sound_transfer :: "transfer \<Rightarrow> bool" where
  "sound_transfer t \<longleftrightarrow> wf_packet (Req (tr_rpc t) (tr_initialGrant t) (tr_assetId t)) \<and>
     (case tr_asm t of None \<Rightarrow> True | Some a \<Rightarrow> asm_ok a \<and> asm_size a \<le> U32_MAX) \<and>
     (case tr_repair t of None \<Rightarrow> True | Some rp \<Rightarrow> whole_repair rp)"

definition sound_transfers :: "(int, transfer) jsmap \<Rightarrow> bool" where
  "sound_transfers m \<longleftrightarrow> (\<forall>r \<in> set m. tr_rpc (snd r) = fst r \<and> sound_transfer (snd r))"

definition sound :: "client \<Rightarrow> bool" where
  "sound c \<longleftrightarrow> sound_transfers (cl_transfers c) \<and> whole_entries (sc_rpcs (cl_sched c)) \<and> whole_budget (cl_budget c) \<and>
     is_integer (sc_budget (cl_sched c)) \<and> u32_seq (cl_seq c) \<and> is_integer (cl_payloadSeen c) \<and> 0 \<le> cl_payloadSeen c \<and>
     is_integer (cl_reorderPackets c) \<and> 0 \<le> cl_reorderPackets c \<and>
     (case cl_fixedInitialGrant c of None \<Rightarrow> True | Some g \<Rightarrow> u32 g) \<and> cl_reading c"

lemma sound_transfer_id: "sound_transfer t \<Longrightarrow> id_ok (tr_rpc t)"
  by (simp add: sound_transfer_def wf_packet_def id_ok_def)

lemma sound_get:
  assumes "sound c" "jm_get (cl_transfers c) rpc = Some t"
  shows "tr_rpc t = rpc \<and> sound_transfer t"
proof -
  have "(rpc, t) \<in> set (cl_transfers c)" using assms(2) by (auto simp: jm_get_def dest: map_of_SomeD)
  then show ?thesis using assms(1) by (auto simp: sound_def sound_transfers_def)
qed

lemma sound_transfers_set: "sound_transfers m \<Longrightarrow> tr_rpc t = k \<Longrightarrow> sound_transfer t \<Longrightarrow> sound_transfers (jm_set k t m)"
  using update_entries [of k t m] unfolding sound_transfers_def jm_set_def by fastforce

lemma sound_transfers_delete: "sound_transfers m \<Longrightarrow> sound_transfers (jm_delete k m)"
  using delete_entries [of k m] unfolding sound_transfers_def jm_delete_def by blast

lemma sound_put [simp]: "sound c \<Longrightarrow> sound_transfer t \<Longrightarrow> sound (put_transfer t c)"
  by (simp add: sound_def put_transfer_def sound_transfers_set)

text \<open>Fields the invariant does not mention.\<close>

lemma sound_rest [simp]:
  "sound (c\<lparr>cl_lastSeqDetect := v5\<rparr>) = sound c"
  "sound (c\<lparr>cl_reorderSteps := v7\<rparr>) = sound c" "sound (c\<lparr>cl_lastSpuriousAt := v8\<rparr>) = sound c"
  "sound (c\<lparr>cl_lastLossBackoffAt := v9\<rparr>) = sound c" "sound (c\<lparr>cl_srtt := v10\<rparr>) = sound c"
  "sound (c\<lparr>cl_rttvar := v11\<rparr>) = sound c" "sound (c\<lparr>cl_initialRto := v12\<rparr>) = sound c"
  "sound (c\<lparr>cl_lastBackoffAt := v13\<rparr>) = sound c" "sound (c\<lparr>cl_ticker := v14\<rparr>) = sound c"
  "sound (c\<lparr>cl_closed := v15\<rparr>) = sound c" "sound (c\<lparr>cl_sessionClosed := v16\<rparr>) = sound c"
  "sound (c\<lparr>cl_queueLimit := v18\<rparr>) = sound c" "sound (c\<lparr>cl_stats := v19\<rparr>) = sound c"
  "sound (upd_stats f c) = sound c" "sound (emit x c) = sound c"
  by (simp_all add: sound_def upd_stats_def emit_def)

lemma sound_budget: "sound c \<Longrightarrow> whole_budget b \<Longrightarrow> sound (c\<lparr>cl_budget := b\<rparr>)"
  by (simp add: sound_def)

lemma sound_has_budget: "sound c \<Longrightarrow> whole_budget (cl_budget c)"
  by (simp add: sound_def)

lemma sound_sched:
  "sound c \<Longrightarrow> whole_entries (sc_rpcs s) \<Longrightarrow> is_integer (sc_budget s) \<Longrightarrow> sound (c\<lparr>cl_sched := s\<rparr>)"
  by (simp add: sound_def)

lemma sound_queue [simp]: "sound (syncQueueLimit c) = sound c"
  by (simp add: syncQueueLimit_def Let_def split: option.split)

lemma sound_timing:
  assumes "sound c"
  shows "sound (sampleRtt now r c)" "sound (noteSpurious now c)" "sound (lossBackoff now c)"
proof -
  have b: "whole_budget (cl_budget c)" using assms by (rule sound_has_budget)
  have l: "sound (c\<lparr>cl_lastLossBackoffAt := Some now, cl_budget := bc_on_loss now (cl_budget c)\<rparr>)"
    by (rule sound_budget) (use assms b whole_budget_ops in simp_all)
  show "sound (lossBackoff now c)" using assms l by (simp add: lossBackoff_def Let_def)
  have "sound (c\<lparr>cl_budget := on_rtt_sample r now (cl_budget c)\<rparr>)"
    by (rule sound_budget) (use assms b whole_budget_ops in simp_all)
  then show "sound (sampleRtt now r c)" by (simp add: sampleRtt_def Let_def split: option.split)
  show "sound (noteSpurious now c)" using assms by (simp add: noteSpurious_def Let_def)
qed

lemma sound_modify:
  assumes "sound c" "\<And>e. whole_entry e \<Longrightarrow> whole_entry (f e)"
  shows "sound (c\<lparr>cl_sched := sched_modify rpc f (cl_sched c)\<rparr>)"
proof -
  have "sc_budget (sched_modify rpc f (cl_sched c)) = sc_budget (cl_sched c)"
    by (simp add: sched_modify_def split: option.split)
  then show ?thesis using assms sched_modify_whole [of "cl_sched c" f rpc] by (simp add: sound_def)
qed

lemma sound_paused: "sound c \<Longrightarrow> sound (c\<lparr>cl_sched := sched_set_paused rpc b (cl_sched c)\<rparr>)"
  unfolding sched_set_paused_def by (rule sound_modify) (simp_all add: whole_entry_def)

lemma sound_removed:
  "sound c \<Longrightarrow> sound (c\<lparr>cl_transfers := jm_delete rpc (cl_transfers c), cl_sched := sched_remove rpc (cl_sched c)\<rparr>)"
  by (simp add: sound_def sched_remove_def whole_delete sound_transfers_delete)

section \<open>Safe actions\<close>

abbreviation safe :: "unit act \<Rightarrow> bool" where
  "safe \<equiv> upholding sound (\<lambda>_. False)"

lemma safeI: "hold sound m sound (\<lambda>_. False) \<Longrightarrow> safe m"
  by (simp add: upholding_def)

lemma safeD: "safe m \<Longrightarrow> hold sound m sound (\<lambda>_. False)"
  by (simp add: upholding_def)

lemma safe_result: "safe m \<Longrightarrow> sound c \<Longrightarrow> fst (m c) = Inr () \<and> sound (snd (m c))"
  unfolding upholding_def by (rule hold_no_throw)

lemma safe_catch [upholds]: "safe m \<Longrightarrow> safe (catchA m h)"
  by (rule safeI, rule hold_catch [OF safeD], assumption, simp add: hold_def)

lemma safe_transfer [upholds]:
  "(\<And>t. sound_transfer t \<Longrightarrow> tr_rpc t = rpc \<Longrightarrow> id_ok rpc \<Longrightarrow> safe (f t)) \<Longrightarrow> safe (with_transfer rpc f)"
  unfolding with_transfer_def
  by (intro upholding_read upholding_option upholding_ret) (metis sound_get sound_transfer_id)

lemma encode_wf: "wf_packet p \<Longrightarrow> \<exists>b. encode p = Inr b"
  by (simp add: encode_iff)

lemma safe_send [upholds]: "wf_packet p \<Longrightarrow> safe (send p)"
  by (intro safeI hold_send) (use encode_wf in fastforce)+

section \<open>Sending\<close>

lemma wf_hello: "wf_packet (Hello 0 CAP_SESSION_SEQ)"
  by (simp add: wf_packet_def u32_def)

lemma safe_hello [upholds]: "safe sendHello"
  unfolding sendHello_def by (intro upholds) (simp_all add: wf_hello)

lemma safe_resend_seq [upholds]: "sendable_seq r \<Longrightarrow> safe (sendResendSeq r)"
  unfolding sendResendSeq_def by (intro upholds) (simp_all add: sendable_resend_seq)

lemma safe_resend [upholds]: "id_ok rpc \<Longrightarrow> sendable_range g \<Longrightarrow> safe (send_resend rpc f g)"
  unfolding send_resend_def by (intro upholds) (simp_all add: sendable_resend)

lemma safe_grant [upholds]: "sendable_grant d \<Longrightarrow> safe (grant_one e b d)"
  unfolding grant_one_def by (intro upholds) (simp_all add: sendable_grant_wf sound_transfer_def)

lemma wf_initial: "sound_transfer t \<Longrightarrow> u32 (tr_initialGrant t)"
  by (simp add: sound_transfer_def wf_packet_def)

lemma reserved_whole: "sound c \<Longrightarrow> is_integer (reserved c)"
  unfolding reserved_def
  by (rule is_integer_sum) (use wf_initial in \<open>auto simp: sound_def sound_transfers_def u32_def\<close>)

lemma sched_grants_budget: "sc_budget (snd (sched_grants r s)) = sc_budget s"
  by (simp add: sched_grants_def Let_def)

lemma sound_prepared: "sound c \<Longrightarrow> sound (pump_prepare c)"
  by (simp add: pump_prepare_def Let_def sched_set_budget_def upd_stats_def)
     (simp add: sound_def whole_budget_def)

lemma sound_after: "sound c \<Longrightarrow> sound (pump_after c)"
  using sound_budget [of c "note_limited (cl_budget c)"] whole_budget_ops(2) [OF sound_has_budget]
  by (simp add: pump_after_def Let_def)

lemma safe_pump [upholds]: "safe (pumpGrants e)"
  unfolding pumpGrants_def Let_def split_def
proof (intro upholds)
  fix c0 d :: client and c
  assume s: "sound d" and c: "sound c"
  show "sound (c\<lparr>cl_sched := snd (sched_grants (reserved d) (cl_sched d))\<rparr>)"
    using sched_grants_whole [of "reserved d" "cl_sched d", OF surjective_pairing] s reserved_whole [OF s]
    by (intro sound_sched [OF c]) (auto simp: sched_grants_budget sound_def)
next
  fix c0 d x
  assume s: "sound d" and x: "x \<in> set (fst (sched_grants (reserved d) (cl_sched d)))"
  show "sendable_grant x"
    using sched_grants_whole [of "reserved d" "cl_sched d", OF surjective_pairing] s x reserved_whole [OF s]
    by (auto simp: sound_def)
qed (auto intro: sound_prepared sound_after)

section \<open>Transfers\<close>

lemma sound_transfer_upd [simp]:
  "sound_transfer (t\<lparr>tr_lastDetect := v1\<rparr>) = sound_transfer t" "sound_transfer (t\<lparr>tr_tailProbed := v2\<rparr>) = sound_transfer t"
  "sound_transfer (t\<lparr>tr_headers := v3\<rparr>) = sound_transfer t" "sound_transfer (t\<lparr>tr_replied := v4\<rparr>) = sound_transfer t"
  "sound_transfer (t\<lparr>tr_stream := v5\<rparr>) = sound_transfer t" "sound_transfer (t\<lparr>tr_settled := v6\<rparr>) = sound_transfer t"
  "sound_transfer (t\<lparr>tr_reqRetransmitted := v7\<rparr>) = sound_transfer t" "sound_transfer (t\<lparr>tr_ceiling := v8\<rparr>) = sound_transfer t"
  "sound_transfer (t\<lparr>tr_probe := v9\<rparr>) = sound_transfer t" "sound_transfer (t\<lparr>tr_lastProgress := v10\<rparr>) = sound_transfer t"
  "sound_transfer (t\<lparr>tr_recoveries := v11\<rparr>) = sound_transfer t"
  by (simp_all add: sound_transfer_def)

lemma sound_transfer_repair: "sound_transfer t \<Longrightarrow> whole_repair rp \<Longrightarrow> sound_transfer (t\<lparr>tr_repair := Some rp\<rparr>)"
  by (simp add: sound_transfer_def)

lemma sound_transfer_asm: "sound_transfer t \<Longrightarrow> asm_ok a \<Longrightarrow> asm_size a \<le> U32_MAX \<Longrightarrow> sound_transfer (t\<lparr>tr_asm := Some a\<rparr>)"
  by (simp add: sound_transfer_def)

lemma sound_transfer_parts:
  "sound_transfer t \<Longrightarrow> tr_asm t = Some a \<Longrightarrow> asm_ok a \<and> asm_size a \<le> U32_MAX"
  "sound_transfer t \<Longrightarrow> tr_repair t = Some rp \<Longrightarrow> whole_repair rp"
  by (simp_all add: sound_transfer_def)

lemma sound_start: "sound c \<Longrightarrow> sound (snd (maybeStart t c))"
  by (simp add: maybeStart_def split: option.split)

lemma sound_transfer_start: "sound_transfer t \<Longrightarrow> sound_transfer (fst (maybeStart t c))"
  by (simp add: maybeStart_def split: option.split)

lemma sound_chunk: "sound c \<Longrightarrow> sound (snd (flush_chunk t st a c))"
  by (simp add: flush_chunk_def Let_def)

lemma sound_flush: "sound c \<Longrightarrow> sound (snd (flushStream e t c))"
  using sound_paused [OF sound_chunk, of c]
  by (simp add: flushStream_def Let_def split_def sound_chunk split: option.split)

lemma sound_transfer_flush: "sound_transfer t \<Longrightarrow> sound_transfer (fst (flushStream e t c))"
  by (simp add: flushStream_def Let_def split_def split: option.split)

lemma sound_settle: "sound c \<Longrightarrow> sound (settle_transfer err t (close_stream err t c))"
  by (simp add: settle_transfer_def close_stream_def split: option.split)

lemma sound_finish: "sound c \<Longrightarrow> sound (finish_core e t err c)"
  by (simp add: finish_core_def Let_def split_def)
     (auto intro!: sound_settle sound_flush sound_removed)

lemma safe_finish [upholds]: "safe (finish e t err)"
  unfolding finish_def by (intro upholds sound_finish)

lemma safe_drop [upholds]: "safe (drop_transfer e rpc)"
  unfolding drop_transfer_def by (intro upholds sound_removed)

lemma safe_fail [upholds]: "safe (failAll e x)"
  unfolding failAll_def by (intro upholds) simp

section \<open>Loss detection and recovery\<close>

lemma payload_guess_whole: "sound c \<Longrightarrow> is_integer (payload_guess c) \<and> 0 < payload_guess c"
  by (auto simp: payload_guess_def sound_def DEFAULT_PAYLOAD_def)

lemma granted_whole:
  assumes "sound c" "sched_granted rpc (cl_sched c) = Some g"
  shows "u32 g"
  using assms whole_get [of "sc_rpcs (cl_sched c)" rpc]
  by (auto simp: sched_granted_def sound_def whole_entry_def u32_def)

lemma frontier_whole: "asm_ok a \<Longrightarrow> is_integer (asm_frontier a) \<and> 0 \<le> asm_frontier a \<and> asm_frontier a \<le> asm_size a"
  using asm_frontier_spec by blast

lemma safe_detect [upholds]: "safe (detectLoss e rpc)"
  unfolding detectLoss_def Let_def split_def prod.case fst_conv snd_conv
proof (intro upholds)
  fix t c a rp r
  assume t: "sound_transfer t" "tr_asm (t\<lparr>tr_lastDetect := Some (ev_now e)\<rparr>) = Some a"
    "tr_repair (t\<lparr>tr_lastDetect := Some (ev_now e)\<rparr>) = Some rp" and c: "sound c"
  let ?l = "if asm_frontier a < or_default (sched_granted rpc (cl_sched c)) (asm_size a)
     then asm_frontier a - cl_reorderPackets c * payload_guess c else asm_frontier a"
  have a: "asm_ok a" "asm_size a \<le> U32_MAX" "whole_repair rp" using t sound_transfer_parts [OF t(1)] by auto
  have r: "is_integer (cl_reorderPackets c)" "0 \<le> cl_reorderPackets c" using c by (simp_all add: sound_def)
  have p: "0 \<le> cl_reorderPackets c * payload_guess c" using r payload_guess_whole [OF c] by simp
  have "is_integer ?l" using frontier_whole [OF a(1)] r payload_guess_whole [OF c] by simp
  moreover have "?l \<le> asm_frontier a" using p by simp
  then have "?l \<le> U32_MAX" using frontier_whole [OF a(1)] a(2) by linarith
  ultimately have "is_integer ?l" "?l \<le> U32_MAX" by blast+
  note d = repair_detect_whole [OF surjective_pairing a(3,1) this]
  { fix c' assume "sound c'"
    then show "sound (put_transfer (t\<lparr>tr_lastDetect := Some (ev_now e),
       tr_repair := Some (snd (repair_detect a ?l (ev_now e) (reorderWindow c) (repairDelay c) rp))\<rparr>) c')"
      using d t(1) by (intro sound_put sound_transfer_repair) simp_all }
  { assume "r \<in> set (fst (repair_detect a ?l (ev_now e) (reorderWindow c) (repairDelay c) rp))"
    then show "sendable_range r" using d by blast }
qed (auto intro: sound_transfer_id)

lemma safe_detect_seq [upholds]: "safe (detectSeqLoss e)"
  unfolding detectSeqLoss_def Let_def split_def
proof (intro upholds)
  fix d c :: client and now al w tail mx
  assume "sound d" "sound c"
  then show "sound (c\<lparr>cl_seq := snd (seq_detect now al w tail mx (cl_seq d))\<rparr>)"
    using seq_detect_u32 [OF surjective_pairing, of "cl_seq d"] by (simp add: sound_def)
next
  fix d :: client and r now al w tail mx
  assume "sound d" "r \<in> set (fst (seq_detect now al w tail mx (cl_seq d)))"
  then show "sendable_seq r" using seq_detect_u32 [OF surjective_pairing, of "cl_seq d"] by (auto simp: sound_def)
next
  fix d c :: client and now again mt rep mx
  assume "sound d" "sound c"
  then show "sound (c\<lparr>cl_seq := snd (seq_repeats now again mt rep mx (cl_seq d))\<rparr>)"
    using seq_repeats_u32 [OF surjective_pairing, of "cl_seq d"] by (simp add: sound_def)
next
  fix d :: client and r now again mt rep mx
  assume "sound d" "r \<in> set (fst (seq_repeats now again mt rep mx (cl_seq d)))"
  then show "sendable_seq r" using seq_repeats_u32 [OF surjective_pairing, of "cl_seq d"] by (auto simp: sound_def)
qed simp_all

lemma sound_recover_prepare:
  assumes "sound c" "sound_transfer t"
  shows "sound (recover_prepare e t c)"
proof -
  have "sound (lossBackoff (ev_now e) (upd_stats (\<lambda>s. s\<lparr>recoveries_stat := recoveries_stat s + 1\<rparr>) c))"
    by (rule sound_timing) (simp add: assms(1))
  then show ?thesis using assms(2) by (simp add: recover_prepare_def Let_def sound_put)
qed

lemma recover_gaps_whole:
  assumes c: "sound c" and a: "asm_ok a" "asm_size a \<le> U32_MAX" and g: "u32 granted"
  shows "\<forall>r \<in> set (recover_gaps c a granted). whole_range r"
proof -
  note f = frontier_whole [OF a(1)] and p = payload_guess_whole [OF c]
  have u: "is_integer granted" "granted \<le> U32_MAX" using g by (auto simp: u32_def)
  have "\<forall>r \<in> set (asm_missing a (min (asm_frontier a) granted)). whole_range r"
    by (rule missing_whole [OF a(1)]) (use f u in auto)
  then have "\<forall>r \<in> set (take MAX_RESEND_RANGES (asm_missing a (min (asm_frontier a) granted))). whole_range r"
    by (meson in_set_takeD)
  moreover have "whole_range (Range (asm_frontier a) (min granted (asm_frontier a + payload_guess c)))"
    using f p u by (auto simp: whole_range_def)
  moreover have "whole_range (Range (max (min granted (asm_frontier a + payload_guess c)) (granted - payload_guess c)) granted)"
    if "asm_frontier a < granted" using f p u that by (auto simp: whole_range_def)
  ultimately show ?thesis by (auto simp: recover_gaps_def Let_def)
qed

lemma claim_safe:
  assumes "sound_transfer t" "tr_repair t = Some rp" "\<forall>g \<in> set gs. whole_range g"
  shows "(\<forall>r \<in> set (fst (repair_claim a gs now delay rp)). sendable_range r) \<and>
    sound_transfer (t\<lparr>tr_repair := Some (snd (repair_claim a gs now delay rp))\<rparr>)"
proof -
  note w = repair_claim_whole [of a gs now delay rp, OF surjective_pairing sound_transfer_parts(2) [OF assms(1,2)] assms(3)]
  then show ?thesis using assms(1) by (simp add: sound_transfer_repair)
qed

lemma safe_again [upholds]: "u32 granted \<Longrightarrow> safe (recover_again e rpc granted)"
  unfolding recover_again_def Let_def split_def prod.case fst_conv snd_conv
proof (intro upholds)
  fix t assume "sound_transfer t" "tr_rpc t = rpc"
  then show "wf_packet (Req rpc (tr_initialGrant t) (tr_assetId t))" by (auto simp: sound_transfer_def)
next
  assume "u32 granted" "id_ok rpc"
  then show "wf_packet (Grant rpc granted 0)" by (simp add: wf_packet_def id_ok_def u8_def)
next
  fix t a rp c
  assume t: "sound_transfer t" "tr_asm t = Some a" "tr_repair t = Some rp" and c: "sound c" and g: "u32 granted"
  have k: "\<forall>r \<in> set (recover_gaps c a granted). whole_range r"
    using recover_gaps_whole [OF c _ _ g] sound_transfer_parts(1) [OF t(1,2)] by blast
  { fix c' assume "sound c'"
    then show "sound (put_transfer (t\<lparr>tr_repair := Some (snd (repair_claim a (recover_gaps c a granted)
        (ev_now e) (repairDelay c) rp))\<rparr>) c')"
      using claim_safe [OF t(1,3) k] by (intro sound_put) blast+ }
  { fix r assume "r \<in> set (fst (repair_claim a (recover_gaps c a granted) (ev_now e) (repairDelay c) rp))"
    then show "sendable_range r" using claim_safe [OF t(1,3) k] by blast }
qed simp_all

lemma safe_recover [upholds]: "u32 granted \<Longrightarrow> safe (recover e rpc granted)"
  unfolding recover_def Let_def by (intro upholds sound_recover_prepare) simp_all

lemma safe_probe [upholds]:
  assumes g: "u32 granted"
  shows "safe (tail_probe e rpc granted)"
  unfolding tail_probe_def Let_def split_def prod.case fst_conv snd_conv
proof (intro upholds)
  fix t a rp c
  assume t: "sound_transfer t" "tr_asm t = Some a" "tr_repair t = Some rp" and c: "sound c"
  let ?gs = "[Range (max (asm_frontier a) (granted - payload_guess c)) granted]"
  have k: "\<forall>r \<in> set ?gs. whole_range r"
    using g frontier_whole [of a] sound_transfer_parts(1) [OF t(1,2)] payload_guess_whole [OF c]
    by (auto simp: whole_range_def u32_def)
  { fix c' assume "sound c'"
    then show "sound (put_transfer (t\<lparr>tr_tailProbed := True, tr_repair := Some (snd (repair_claim a ?gs (ev_now e)
        (repairDelay c) rp))\<rparr>) c')"
      using claim_safe [of "t\<lparr>tr_tailProbed := True\<rparr>", OF _ _ k] t by simp }
  { fix r assume "r \<in> set (fst (repair_claim a ?gs (ev_now e) (repairDelay c) rp))"
    then show "sendable_range r" using claim_safe [OF t(1,3) k] by blast }
qed simp_all

lemma granted_now_whole: "sound c \<Longrightarrow> u32 (granted_now c t)"
  using granted_whole [of c "tr_rpc t"]
  by (cases "sched_granted (tr_rpc t) (cl_sched c)") (simp_all add: granted_now_def or_default_def u32_def)

lemma safe_tick_transfer [upholds]: "safe (tick_transfer e rpc)"
  unfolding tick_transfer_def Let_def by (intro upholds granted_now_whole) simp_all

lemma safe_tick [upholds]: "safe (tick e)"
  unfolding tick_def by (intro upholds) simp

section \<open>Datagrams\<close>

lemma sound_open:
  assumes "sound c" "sound_transfer t" "u32 tot"
  shows "sound (open_body tot t c)"
proof -
  let ?s = "sched_add (tr_rpc t) tot (tr_initialGrant t) 0 (tr_cls t) (cl_sched c)"
  have n: "is_integer tot" "0 \<le> tot" "tot \<le> U32_MAX" using assms(3) by (auto simp: u32_def)
  have i: "id_ok (tr_rpc t)" "u32 (tr_initialGrant t)" using assms(2) sound_transfer_id wf_initial by auto
  have "sound (c\<lparr>cl_sched := ?s\<rparr>)"
    by (rule sound_sched [OF assms(1)])
       (use assms(1) n i in \<open>auto simp: sched_add_def sound_def whole_entry_def u32_def intro!: whole_set\<close>)
  moreover have "sound_transfer (t\<lparr>tr_asm := Some (new_reassembly tot), tr_repair := Some new_repair\<rparr>)"
    using assms(2) asm_new_ok [OF n(1,2)] n(3) by (simp add: sound_transfer_def new_reassembly_def new_repair_def whole_repair_def)
  ultimately show ?thesis unfolding open_body_def by (rule sound_put)
qed

lemma sound_arrived:
  assumes "sound c" "u32 sq"
  shows "sound (seq_arrived e rpc off sq p c)"
proof -
  have q: "0 \<le> \<lfloor>sq\<rfloor>" "\<lfloor>sq\<rfloor> \<le> 0xFFFFFFFF" using assms(2) by (auto simp: u32_def floor_le_iff)
  have "u32_seq (snd (seq_arrive \<lfloor>sq\<rfloor> (ev_now e) pl (cl_seq c)))" for pl
    by (rule seq_arrive_u32 [OF surjective_pairing _ q]) (use assms(1) in \<open>simp add: sound_def\<close>)
  then have "sound (c\<lparr>cl_stats := st, cl_seq := snd (seq_arrive \<lfloor>sq\<rfloor> (ev_now e) pl (cl_seq c))\<rparr>)" for pl st
    using assms(1) by (simp add: sound_def)
  then show ?thesis by (simp add: seq_arrived_def Let_def split_def upd_stats_def sound_timing)
qed

lemma sound_count: "sound c \<Longrightarrow> sound (count_payload e fresh p asked c)"
proof -
  assume c: "sound c"
  have "sound (c\<lparr>cl_stats := st, cl_payloadSeen := max (cl_payloadSeen c) (len p)\<rparr>)" for st
    using c by (simp add: sound_def)
  then show ?thesis by (simp add: count_payload_def Let_def upd_stats_def sound_timing)
qed

lemma sound_hit: "sound c \<Longrightarrow> sound (snd (probe_hit e top_off t c))"
  using sound_budget [of c "on_rtt_sample r (ev_now e) (cl_budget c)" for r] whole_budget_ops(1) [OF sound_has_budget]
  by (simp add: probe_hit_def Let_def split_def split: option.split)

lemma sound_transfer_hit: "sound_transfer t \<Longrightarrow> sound_transfer (fst (probe_hit e top_off t c))"
  by (simp add: probe_hit_def Let_def split: option.split)

lemma sound_progress: "sound c \<Longrightarrow> sound (snd (progress e fresh t c))"
  using sound_budget [of c "on_delivered fresh (ev_now e) (cl_budget c)"] whole_budget_ops(4) [OF sound_has_budget]
  by (simp add: progress_def)

lemma sound_transfer_progress: "sound_transfer t \<Longrightarrow> sound_transfer (fst (progress e fresh t c))"
  by (simp add: progress_def)

text \<open>The part of a decoded packet that reaches the trackers.\<close>

fun decent :: "packet \<Rightarrow> bool" where
  "decent (Data r tot off p) \<longleftrightarrow> u32 tot \<and> u32 off"
| "decent (DataSeq r tot off sq p) \<longleftrightarrow> u32 tot \<and> u32 off \<and> u32 sq"
| "decent p \<longleftrightarrow> True"

lemma decode_decent:
  assumes "decode b = Inr p"
  shows "decent p"
proof (cases "bom_datagram b")
  case True
  then have "b ! 0 = REQ" by (simp add: bom_datagram_def)
  then have "\<exists>r g aid. p = Req r g aid" using assms
    by (auto simp: decode_def decode_req_def Let_def rbind_Inr_conv split: if_splits option.splits)
  then show ?thesis by auto
next
  case False
  then have "wf_body p" using decode_inv [OF assms] by (simp add: wf_packet_def)
  then show ?thesis by (cases p) simp_all
qed

lemma asm_fresh_whole:
  assumes "asm_ok a" "is_integer off" "asm_add off p a = Inr (fresh, a')"
  shows "asm_ok a'" "asm_size a' = asm_size a" "is_integer fresh"
proof -
  note k = asm_add_cover [OF assms(1,3,2)]
  show "asm_ok a'" "asm_size a' = asm_size a" by (rule k)+
  have "asm_received a' = asm_received a + fresh"
    using assms(3) by (auto simp: asm_add_def Let_def split_def split: if_splits)
  then have "fresh = asm_received a' - asm_received a" by simp
  then show "is_integer fresh"
    using conjunct2 [OF asm_received_card [OF k(1)]] conjunct2 [OF asm_received_card [OF assms(1)]] by simp
qed

lemma sound_on_data: "sound c \<Longrightarrow> is_integer n \<Longrightarrow> sound (c\<lparr>cl_sched := sched_on_data rpc n (cl_sched c)\<rparr>)"
  unfolding sched_on_data_def by (rule sound_modify) (simp_all add: whole_entry_def)

lemma sound_data_arrived:
  assumes c: "sound c" and t: "sound_transfer t" and a: "asm_ok a" "asm_size a \<le> U32_MAX" "is_integer fresh"
  shows "sound (data_arrived e off p fresh a rp t c)"
proof -
  let ?c1 = "count_payload e fresh p (repair_requested rp) c"
  let ?c2 = "?c1\<lparr>cl_sched := sched_on_data (tr_rpc t) fresh (cl_sched ?c1)\<rparr>"
  have "sound ?c2" by (intro sound_on_data sound_count c a(3))
  moreover have "sound_transfer (t\<lparr>tr_asm := Some a\<rparr>)" by (rule sound_transfer_asm [OF t a(1,2)])
  ultimately show ?thesis
    unfolding data_arrived_def Let_def split_def
    by (intro sound_put sound_flush sound_transfer_flush sound_start sound_transfer_start sound_progress
        sound_transfer_progress sound_hit sound_transfer_hit)
qed

lemma safe_payload [upholds]:
  assumes o: "u32 off"
  shows "safe (take_payload e rpc off p)"
  unfolding take_payload_def
proof (rule safe_transfer)
  fix t assume t: "sound_transfer t"
  have arrived: "safe (doA (data_arrived e off p fresh a' rp t))"
    if "tr_asm t = Some a" "asm_add off p a = Inr (fresh, a')" for a a' fresh rp
  proof -
    have "is_integer off" using o by (simp add: u32_def)
    note k = asm_fresh_whole [OF _ this that(2)]
    show ?thesis using sound_transfer_parts(1) [OF t that(1)] k by (intro upholding_do sound_data_arrived t) auto
  qed
  show "safe (case (tr_asm t, tr_repair t) of
       (Some a, Some rp) \<Rightarrow>
         (case asm_add off p a of
            Inl _ \<Rightarrow> finish e t (Some ReassemblyRangeError)
          | Inr (fresh, a') \<Rightarrow>
              thenA (doA (data_arrived e off p fresh a' rp t))
               (with_transfer rpc (\<lambda>t.
                  if (case tr_asm t of None \<Rightarrow> False | Some a \<Rightarrow> asm_complete a) \<and> tr_headers t \<noteq> None
                  then finish e t None
                  else whenA (since (ev_now e) (tr_lastDetect t) DETECT_INTERVAL_MS) (detectLoss e rpc))))
     | _ \<Rightarrow> retA ())"
    by (auto split: option.split sum.split simp del: not_None_eq intro!: arrived upholding_then safe_transfer
        upholding_if upholding_when safe_finish safe_detect upholding_ret)
qed

lemma safe_data [upholds]: "u32 tot \<Longrightarrow> u32 off \<Longrightarrow> safe (handle_data e rpc tot off p)"
  unfolding handle_data_def by (intro upholds sound_open) simp_all

lemma sound_start_body: "sound c \<Longrightarrow> sound_transfer t \<Longrightarrow> sound (start_body t c)"
  by (simp add: start_body_def split_def Let_def sound_start sound_transfer_start)

lemma safe_meta [upholds]: "safe (handle_meta e rpc flds)"
  unfolding handle_meta_def by (intro upholds sound_start_body) simp_all

lemma safe_reply [upholds]: "safe (note_reply e rpc)"
  unfolding note_reply_def by (intro upholds sound_timing) simp_all

lemma safe_deliver [upholds]: "decent p \<Longrightarrow> safe (deliver e p)"
  unfolding deliver_def by (rule safe_transfer) (cases p; simp; intro upholds; simp)

lemma safe_handle [upholds]:
  assumes "decent p"
  shows "safe (handle e p)"
proof (cases p)
  case (DataSeq r tot off sq pl)
  then show ?thesis using assms by (simp add: handle_def) (intro upholds sound_arrived, simp_all)
qed (use assms safe_deliver [of p e] in \<open>simp_all add: handle_def\<close>)

lemma safe_read_one [upholds]: "safe (read_one e b)"
proof (cases "decode b")
  case (Inl x)
  then have "\<exists>r. x = MalformedPacketError r" using wire.dec_error [OF Inl] by (cases x) auto
  then show ?thesis unfolding read_one_def Inl by (auto intro!: upholds)
next
  case (Inr p)
  then show ?thesis using decode_decent [OF Inr] unfolding read_one_def Inr by (auto intro!: upholds)
qed

lemma safe_receive [upholds]: "safe (receive e b)"
  unfolding receive_def by (intro upholds)

lemma safe_pull [upholds]: "safe (stream_pull e rpc)"
  unfolding stream_pull_def by (intro upholds) (simp_all add: sound_paused)

section \<open>Every event\<close>

lemma hold_safe: "safe m \<Longrightarrow> (\<And>c. P c \<Longrightarrow> sound c) \<Longrightarrow> hold P m sound sound"
  by (rule hold_post [OF hold_pre [OF safeD]]) simp_all

lemma sound_start_request: "hold sound (start_request e rpc aid streaming cls) sound sound"
proof -
  have t: "sound_transfer (new_transfer (ev_now e) rpc aid streaming cls g c)" if "encode (Req rpc g aid) = Inr b" for g b c
    using that by (simp add: encode_iff sound_transfer_def new_transfer_def)
  have body: "safe (catchA
                (thenA (doA (\<lambda>c. put_transfer (new_transfer (ev_now e) rpc aid streaming cls g c) c))
                (thenA (doA (\<lambda>c. c\<lparr>cl_ticker := True\<rparr>))
                (thenA (doA (upd_stats (\<lambda>s. s\<lparr>reqsSent := reqsSent s + 1\<rparr>)))
                (thenA sendHello (send (Req rpc g aid))))))
                (\<lambda>x. doA (emit (RejectWith rpc x))))"
    if "encode (Req rpc g aid) = Inr b" for g b
    using that by (intro upholds) (simp_all add: t encode_iff)
  show ?thesis unfolding start_request_def Let_def
  proof (intro hold_read hold_if_on)
    fix d
    show "hold (\<lambda>c. c = d \<and> sound d)
        (doA (emit (RejectWith rpc (Http4Error (if cl_closed d then ClientClosed else SessionClosed) None)))) sound sound"
      by (rule hold_do) auto
    show "hold (\<lambda>c. c = d \<and> sound d) (case encode (Req rpc (nextInitialGrant d) aid) of
        Inl x \<Rightarrow> throwA (WireError x)
      | Inr b \<Rightarrow>
          if len b > cl_maxDatagramSize d then doA (emit (RejectWith rpc (Http4Error AssetIdTooLong None)))
          else catchA
                (thenA (doA (\<lambda>c. put_transfer (new_transfer (ev_now e) rpc aid streaming cls (nextInitialGrant d) c) c))
                (thenA (doA (\<lambda>c. c\<lparr>cl_ticker := True\<rparr>))
                (thenA (doA (upd_stats (\<lambda>s. s\<lparr>reqsSent := reqsSent s + 1\<rparr>)))
                (thenA sendHello (send (Req rpc (nextInitialGrant d) aid))))))
                (\<lambda>x. doA (emit (RejectWith rpc x)))) sound sound"
    proof (cases "encode (Req rpc (nextInitialGrant d) aid)")
      case (Inl x)
      show ?thesis unfolding Inl by simp (rule hold_throw, auto)
    next
      case (Inr b)
      show ?thesis unfolding Inr sum.case
        by (intro hold_if_on hold_safe [OF body [OF Inr]] hold_do) auto
    qed
  qed
qed

lemma sound_step: "sound c \<Longrightarrow> sound (snd (client_step e ev c))"
proof (cases ev)
  case (Start rpc aid streaming cls)
  assume "sound c"
  then show ?thesis unfolding Start client_step.simps by (rule hold_state [OF sound_start_request])
next
  case (Datagram b)
  assume "sound c"
  then show ?thesis unfolding Datagram client_step.simps using safe_result [OF safe_receive] by blast
qed (auto simp: stream_cancel_def close_client_def session_end_def intro!: upholds safe_result [THEN conjunct2])

lemma sound_run: "sound c \<Longrightarrow> sound (client_run evs c)"
proof (induction evs arbitrary: c)
  case (Cons x evs)
  then show ?case by (cases x) (simp add: sound_step)
qed simp

text \<open>Options that are whole numbers where the code needs them.\<close>

definition whole_option :: "num option \<Rightarrow> bool" where
  "whole_option x \<longleftrightarrow> (case x of None \<Rightarrow> True | Some v \<Rightarrow> is_integer v \<and> 0 \<le> v)"

definition whole_options :: "client_options \<Rightarrow> bool" where
  "whole_options op \<longleftrightarrow> whole_option (op_budget op) \<and> whole_option (op_budgetFloor op) \<and> whole_option (op_budgetCap op) \<and>
     whole_option (op_reorderPackets op) \<and> (case op_initialGrant op of None \<Rightarrow> True | Some g \<Rightarrow> u32 g)"

lemma whole_or: "whole_option x \<Longrightarrow> is_integer d \<Longrightarrow> is_integer (or_default x d)"
  by (cases x) (simp_all add: whole_option_def or_default_def)

lemma sound_fresh:
  assumes "whole_options op"
  shows "sound (fresh_client op limit queue)"
proof -
  have "is_integer (chosen_floor op)" "is_integer (chosen_cap op)"
    using assms by (simp_all add: whole_options_def chosen_floor_def chosen_cap_def whole_or DEFAULT_BUDGET_FLOOR_def
        DEFAULT_BUDGET_CAP_def)
  moreover have "is_integer (or_default (op_reorderPackets op) DEFAULT_REORDER_PACKETS)"
    "0 \<le> or_default (op_reorderPackets op) DEFAULT_REORDER_PACKETS"
    using assms by (auto simp: whole_options_def whole_option_def or_default_def DEFAULT_REORDER_PACKETS_def split: option.splits)
  ultimately show ?thesis using assms
    by (simp add: sound_def fresh_client_def Let_def new_budget_def whole_budget_def new_scheduler_def new_seq_u32
        sound_transfers_def whole_options_def)
qed

lemma sound_new:
  assumes "whole_options op"
  shows "fst (new_client op limit queue) = Inr () \<and> sound (snd (new_client op limit queue))"
  unfolding new_client_def Let_def
  by (rule safe_result [OF safe_hello]) (simp add: sound_fresh [OF assms])

lemma initial_grant_u32:
  assumes "sound c"
  shows "u32 (nextInitialGrant c)"
proof (cases "cl_fixedInitialGrant c")
  case None
  let ?want = "min MAX_INITIAL_GRANT (max MIN_INITIAL_GRANT (of_int \<lfloor>bc_bdp (cl_budget c)\<rfloor>))"
  let ?free = "bc_current (cl_budget c) - sched_outstanding (cl_sched c) - reserved c"
  have "is_integer (bc_current (cl_budget c))" "is_integer (sched_outstanding (cl_sched c))"
    using assms outstanding_whole by (simp_all add: sound_def whole_budget_def)
  then have "is_integer (max MIN_INITIAL_GRANT (min ?want ?free))"
    using reserved_whole [OF assms] by (simp add: MIN_INITIAL_GRANT_def MAX_INITIAL_GRANT_def)
  then show ?thesis using None
    by (simp add: nextInitialGrant_def Let_def u32_def)
       (simp add: MIN_INITIAL_GRANT_def MAX_INITIAL_GRANT_def min_le_iff_disj le_max_iff_disj)
qed (use assms in \<open>simp add: nextInitialGrant_def sound_def\<close>)

text \<open>The ids and asset ids a REQ can carry.\<close>

definition sendable_request :: "int \<Rightarrow> jsstring \<Rightarrow> bool" where
  "sendable_request rpc aid \<longleftrightarrow> wf_packet (Req rpc 0 aid)"

lemma start_no_throw:
  assumes "sound c" "sendable_request rpc aid"
  shows "fst (start_request e rpc aid streaming cls c) = Inr ()"
proof -
  have "wf_packet (Req rpc (nextInitialGrant c) aid)"
    using assms initial_grant_u32 by (simp add: sendable_request_def wf_packet_def)
  then obtain b where b: "encode (Req rpc (nextInitialGrant c) aid) = Inr b" using encode_wf by blast
  have k: "fst (catchA m (\<lambda>x. doA (g x)) d) = Inr ()" for m g d
    by (cases "m d", cases "fst (m d)") (auto simp: catchA_def doA_def)
  show ?thesis by (simp add: start_request_def readA_def doA_def b k Let_def)
qed

lemma step_no_throw:
  assumes "sound c"
  shows "case ev of Start rpc aid s cls \<Rightarrow> sendable_request rpc aid \<longrightarrow> fst (client_step e ev c) = Inr ()
    | _ \<Rightarrow> fst (client_step e ev c) = Inr ()"
  using start_no_throw [OF assms] 
  by (cases ev) (auto simp: stream_cancel_def close_client_def session_end_def intro!: upholds safe_result [THEN conjunct1] assms)

section \<open>Properties\<close>

lemma plain_whole: "whole_options plain_options"
  by (simp add: whole_options_def whole_option_def plain_options_def)

text \<open>C7: with whole numbers for the byte options, nothing that happens in a session makes the client
  throw: no datagram ends the read loop, no timer tick, stream callback or session end breaks, and a
  request throws only when its id does not fit a REQ, which leaves the client as it was.\<close>

theorem session_never_throws:
  assumes "whole_options op" "c = client_run evs (snd (new_client op limit queue))"
  shows "fst (new_client op limit queue) = Inr () \<and> cl_reading c \<and>
    (case client_step e ev c of
       (Inr _, c') \<Rightarrow> True
     | (Inl x, c') \<Rightarrow> c' = c \<and>
         (case ev of Start rpc aid streaming cls \<Rightarrow> \<not> sendable_request rpc aid | _ \<Rightarrow> False))"
proof -
  have s: "sound c" using sound_run sound_new [OF assms(1)] assms(2) by blast
  have u: "x = (Inl y, c') \<Longrightarrow> c' = c" if "x = start_request e rpc aid streaming cls c" for x y c' rpc aid streaming cls
    using that by (auto simp: start_request_def readA_def doA_def throwA_def catchA_def Let_def split: if_splits sum.splits prod.splits)
  obtain r c' where k: "client_step e ev c = (r, c')" by fastforce
  have "case r of Inr _ \<Rightarrow> True | Inl x \<Rightarrow> c' = c \<and>
      (case ev of Start rpc aid streaming cls \<Rightarrow> \<not> sendable_request rpc aid | _ \<Rightarrow> False)"
  proof (cases r)
    case (Inl x)
    show ?thesis
    proof (cases ev)
      case (Start rpc aid streaming cls)
      then have "(Inl x, c') = start_request e rpc aid streaming cls c" using k Inl by simp
      then have "c' = c" using u by blast
      then show ?thesis using step_no_throw [OF s, of e ev] k Start Inl by auto
    qed (use step_no_throw [OF s, of e ev] k Inl in auto)
  qed simp
  then show ?thesis using s sound_new [OF assms(1)] k by (auto simp: sound_def split: sum.splits)
qed

theorem session_never_throws_witness:
  "cl_reading (client_run (sample_session False) sample_client) \<and>
   fst (client_step (roomy 9) (Datagram data7) (client_run (sample_session False) sample_client)) = Inr ()"
proof -
  let ?c = "client_run (sample_session False) sample_client"
  note k = session_never_throws [OF plain_whole sample_client_run [of "sample_session False"],
      where e = "roomy 9" and ev = "Datagram data7"]
  obtain r c' where r: "client_step (roomy 9) (Datagram data7) ?c = (r, c')" by fastforce
  then show ?thesis using k by (cases r) auto
qed

end
