(* ===== verification/Answers.thy ===== *)
theory Answers
  imports Safety
begin

text \<open>
  No request of \<open>client/src/transport.ts\<close> is forgotten. A request that was started is, at any time, in the
  table and not yet settled, or it has been answered; the end of the session answers all that are left.
  The log only grows, so what has been answered stays answered: \<open>kept\<close> carries a flag that says whether
  the request is known to be answered, and a step that holds a transfer of the request holds an unsettled
  one unless the flag is set.
\<close>

section \<open>The invariant\<close>

definition answered :: "int \<Rightarrow> client \<Rightarrow> bool" where
  "answered rpc c \<longleftrightarrow> answers (log_of rpc c) \<noteq> []"

definition open_request :: "int \<Rightarrow> client \<Rightarrow> bool" where
  "open_request rpc c \<longleftrightarrow> (case jm_get (cl_transfers c) rpc of None \<Rightarrow> False | Some t \<Rightarrow> \<not> tr_settled t)"

definition kept :: "int \<Rightarrow> bool \<Rightarrow> client \<Rightarrow> bool" where
  "kept rpc b c \<longleftrightarrow> keyed c \<and> (answered rpc c \<or> \<not> b \<and> open_request rpc c)"

abbreviation keeps :: "int \<Rightarrow> bool \<Rightarrow> unit act \<Rightarrow> bool" where
  "keeps rpc b \<equiv> upholding (kept rpc b) (kept rpc b)"

text \<open>The transfers of the request that a step may hold.\<close>

definition held :: "int \<Rightarrow> bool \<Rightarrow> transfer \<Rightarrow> bool" where
  "held rpc b t \<longleftrightarrow> (tr_rpc t = rpc \<longrightarrow> b \<or> \<not> tr_settled t)"

lemma held_upd [simp]:
  "held rpc b (t\<lparr>tr_asm := v0\<rparr>) = held rpc b t" "held rpc b (t\<lparr>tr_repair := v1\<rparr>) = held rpc b t"
  "held rpc b (t\<lparr>tr_headers := v3\<rparr>) = held rpc b t" "held rpc b (t\<lparr>tr_replied := v4\<rparr>) = held rpc b t"
  "held rpc b (t\<lparr>tr_stream := v5\<rparr>) = held rpc b t" "held rpc b (t\<lparr>tr_tailProbed := v6\<rparr>) = held rpc b t"
  "held rpc b (t\<lparr>tr_reqRetransmitted := v7\<rparr>) = held rpc b t" "held rpc b (t\<lparr>tr_ceiling := v8\<rparr>) = held rpc b t"
  "held rpc b (t\<lparr>tr_probe := v9\<rparr>) = held rpc b t" "held rpc b (t\<lparr>tr_lastProgress := v10\<rparr>) = held rpc b t"
  "held rpc b (t\<lparr>tr_recoveries := v11\<rparr>) = held rpc b t"
  by (simp_all add: held_def)

lemma kept_core: "core c = core d \<Longrightarrow> kept rpc b c = kept rpc b d"
proof -
  assume c: "core c = core d"
  have "map_option core_of (jm_get (cl_transfers c) rpc) = map_option core_of (jm_get (cl_transfers d) rpc)"
    using c by (metis caller.core_get)
  then have "map_option tr_settled (map_option core_of (jm_get (cl_transfers c) rpc)) =
      map_option tr_settled (map_option core_of (jm_get (cl_transfers d) rpc))" by simp
  then have "map_option tr_settled (jm_get (cl_transfers c) rpc) = map_option tr_settled (jm_get (cl_transfers d) rpc)"
    by (simp add: option.map_comp o_def core_of_def)
  then have "open_request rpc c = open_request rpc d"
    unfolding open_request_def
    by (cases "jm_get (cl_transfers c) rpc"; cases "jm_get (cl_transfers d) rpc") simp_all
  then show ?thesis using c caller.keyed_cong [OF c] by (simp add: kept_def answered_def log_of_core)
qed

lemma keeps_quiet: "quiet m \<Longrightarrow> keeps rpc b m"
proof -
  assume q: "quiet m"
  have "kept rpc b (snd (m c))" if k: "kept rpc b c" for c
  proof -
    have "core (snd (m c)) = core c" using caller.quiet_core [OF q] k by (simp add: kept_def)
    then show ?thesis using kept_core k by blast
  qed
  then show ?thesis unfolding upholding_def hold_def by (auto split: prod.split sum.split) (metis snd_conv)+
qed

lemma kept_log:
  assumes "kept rpc b c" "cl_transfers d = cl_transfers c" "cl_log d = cl_log c @ l"
  shows "kept rpc b d"
  using assms by (auto simp: kept_def answered_def open_request_def log_of_def keyed_def)

lemma kept_emit [simp]: "kept rpc b c \<Longrightarrow> kept rpc b (emit x c)"
  by (rule kept_log) (simp_all add: emit_def)

lemma kept_rest [simp]:
  "kept rpc b (c\<lparr>cl_ticker := v1\<rparr>) = kept rpc b c" "kept rpc b (c\<lparr>cl_reading := v2\<rparr>) = kept rpc b c"
  "kept rpc b (c\<lparr>cl_closed := v3\<rparr>) = kept rpc b c" "kept rpc b (c\<lparr>cl_sessionClosed := v4\<rparr>) = kept rpc b c"
  "kept rpc b (upd_stats f c) = kept rpc b c" "kept rpc b (c\<lparr>cl_sched := v5\<rparr>) = kept rpc b c"
  by (rule kept_core; simp)+

lemma kept_answer: "kept rpc b c \<Longrightarrow> about rpc x \<Longrightarrow> is_answer x \<Longrightarrow> kept rpc True (emit x c)"
  by (auto simp: kept_def answered_def log_of_emit keyed_def)

lemma kept_mono: "kept rpc True c \<Longrightarrow> kept rpc b c"
  by (simp add: kept_def)

lemma kept_put:
  assumes "kept rpc b c" "held rpc b t"
  shows "kept rpc b (put_transfer t c)"
  using assms
  by (auto simp: kept_def keyed_def answered_def open_request_def log_of_def put_transfer_def held_def split: option.splits)

lemma keeps_transfer_if:
  assumes "\<And>t b'. tr_rpc t = r \<Longrightarrow> held rpc b' t \<Longrightarrow> S t \<Longrightarrow> keeps rpc b' (f t)"
  shows "hold (\<lambda>c. kept rpc b c \<and> (\<forall>t. jm_get (cl_transfers c) r = Some t \<longrightarrow> S t)) (with_transfer r f) (kept rpc b) (kept rpc b)"
proof (rule hold_transfer)
  fix t
  show "hold (\<lambda>c. (kept rpc b c \<and> (\<forall>t. jm_get (cl_transfers c) r = Some t \<longrightarrow> S t)) \<and> jm_get (cl_transfers c) r = Some t)
      (f t) (kept rpc b) (kept rpc b)"
    unfolding hold_def
  proof (intro allI impI)
    fix c assume c: "(kept rpc b c \<and> (\<forall>t. jm_get (cl_transfers c) r = Some t \<longrightarrow> S t)) \<and> jm_get (cl_transfers c) r = Some t"
    define b' where "b' = answered rpc c"
    have r: "tr_rpc t = r" "S t" using c by (auto simp: kept_def dest: keyed_get)
    have h: "held rpc b' t" using c r by (auto simp: held_def b'_def kept_def open_request_def)
    have "kept rpc b' c" using c by (auto simp: b'_def kept_def)
    moreover have "kept rpc b' d \<Longrightarrow> kept rpc b d" for d using c by (auto simp: b'_def kept_def)
    ultimately show "case f t c of (Inl e, c') \<Rightarrow> kept rpc b c' | (Inr x, c') \<Rightarrow> kept rpc b c'"
      using assms [OF r(1) h r(2)] unfolding upholding_def hold_def
      by (auto split: prod.splits sum.splits)
  qed
qed simp

lemma keeps_transfer [upholds]:
  assumes "\<And>t b'. tr_rpc t = r \<Longrightarrow> held rpc b' t \<Longrightarrow> keeps rpc b' (f t)"
  shows "keeps rpc b (with_transfer r f)"
  unfolding upholding_def
  by (rule hold_pre [OF keeps_transfer_if [where S = "\<lambda>_. True"]]) (simp_all add: assms)

lemma keeps_put [upholds]: "held rpc b t \<Longrightarrow> keeps rpc b (doA (put_transfer t))"
  unfolding upholding_def by (intro hold_do kept_put)

section \<open>Operations\<close>

lemma kept_start: "kept rpc b c \<Longrightarrow> held rpc b t \<Longrightarrow>
    kept rpc b (snd (maybeStart t c)) \<and> held rpc b (fst (maybeStart t c)) \<or> kept rpc True (snd (maybeStart t c))"
  using kept_answer [of rpc b c "ResolveStream (tr_rpc t) x h" for x h]
  by (auto simp: maybeStart_def held_def split: option.split)

lemma kept_put_started:
  assumes "kept rpc b c" "held rpc b t"
  shows "kept rpc b (put_transfer (fst (maybeStart t c)) (snd (maybeStart t c)))"
  using kept_start [OF assms] kept_put [of rpc True] kept_put [of rpc b] kept_mono
  unfolding held_def by metis

lemma kept_start_body: "kept rpc b c \<Longrightarrow> held rpc b t \<Longrightarrow> kept rpc b (start_body t c)"
  by (simp add: start_body_def split_def Let_def kept_put_started)

lemma kept_chunk: "kept rpc b c \<Longrightarrow> kept rpc b (snd (flush_chunk t st a c))"
  by (simp add: flush_chunk_def Let_def)

lemma kept_flush: "kept rpc b c \<Longrightarrow> kept rpc b (snd (flushStream e t c))"
  by (simp add: flushStream_def Let_def split_def kept_chunk split: option.split)

lemma flush_same:
  "tr_rpc (fst (flushStream e t c)) = tr_rpc t" "tr_settled (fst (flushStream e t c)) = tr_settled t"
  "tr_asm (fst (flushStream e t c)) = tr_asm t" "tr_headers (fst (flushStream e t c)) = tr_headers t"
  by (simp_all add: flushStream_def Let_def split_def split: option.split)

lemma held_flush: "held rpc b t \<Longrightarrow> held rpc b (fst (flushStream e t c))"
  by (simp add: held_def flush_same)

text \<open>\<open>finish\<close> settles what it takes out of the table.\<close>

lemma chunk_log: "\<exists>l. cl_log (snd (flush_chunk t st a c)) = cl_log c @ l \<and> cl_transfers (snd (flush_chunk t st a c)) = cl_transfers c"
  by (simp add: flush_chunk_def Let_def emit_def)

lemma flush_log: "\<exists>l. cl_log (snd (flushStream e t c)) = cl_log c @ l \<and> cl_transfers (snd (flushStream e t c)) = cl_transfers c"
  using chunk_log by (auto simp: flushStream_def Let_def split_def upd_stats_def split: option.split)

lemma close_log: "\<exists>l. cl_log (close_stream err t c) = cl_log c @ l \<and> cl_transfers (close_stream err t c) = cl_transfers c"
  by (simp add: close_stream_def emit_def split: option.split)

lemma finish_log:
  assumes ready: "err = None \<Longrightarrow> tr_asm t \<noteq> None \<and> tr_headers t \<noteq> None"
  shows "\<exists>l. cl_log (finish_core e t err c) = cl_log c @ l \<and>
    cl_transfers (finish_core e t err c) = jm_delete (tr_rpc t) (cl_transfers c) \<and>
    (tr_settled t \<or> filter is_answer (filter (about (tr_rpc t)) l) \<noteq> [])"
proof -
  define c1 where "c1 = c\<lparr>cl_transfers := jm_delete (tr_rpc t) (cl_transfers c), cl_sched := sched_remove (tr_rpc t) (cl_sched c)\<rparr>"
  define r where "r = (if err = None then flushStream e t c1 else (t, c1))"
  have t2: "tr_rpc (fst r) = tr_rpc t" "tr_settled (fst r) = tr_settled t" "tr_asm (fst r) = tr_asm t" "tr_headers (fst r) = tr_headers t"
    by (simp_all add: r_def flush_same)
  have "\<exists>l. cl_log (snd r) = cl_log c @ l \<and> cl_transfers (snd r) = jm_delete (tr_rpc t) (cl_transfers c)"
    using flush_log [of e t c1] by (cases "err = None") (simp_all add: r_def c1_def)
  then obtain l where c2: "cl_log (snd r) = cl_log c @ l" "cl_transfers (snd r) = jm_delete (tr_rpc t) (cl_transfers c)"
    by blast
  have f: "finish_core e t err c = settle_transfer err (fst r) (close_stream err (fst r) (snd r))"
    by (simp add: finish_core_def Let_def split_def r_def c1_def)
  obtain l' where c3: "cl_log (close_stream err (fst r) (snd r)) = cl_log c @ l @ l'"
    "cl_transfers (close_stream err (fst r) (snd r)) = jm_delete (tr_rpc t) (cl_transfers c)"
    using c2 close_log [of err "fst r" "snd r"] by auto
  show ?thesis using c3 ready t2 unfolding f
    by (cases err) (auto simp: settle_transfer_def emit_def split: option.split)
qed

lemma kept_finish:
  assumes "kept rpc b c" "held rpc b t" "err = None \<Longrightarrow> tr_asm t \<noteq> None \<and> tr_headers t \<noteq> None"
  shows "kept rpc b (finish_core e t err c)"
proof -
  obtain l where l: "cl_log (finish_core e t err c) = cl_log c @ l"
    "cl_transfers (finish_core e t err c) = jm_delete (tr_rpc t) (cl_transfers c)"
    "tr_settled t \<or> filter is_answer (filter (about (tr_rpc t)) l) \<noteq> []"
    using finish_log [of err t e c, OF assms(3)] by blast
  have k: "keyed (finish_core e t err c)" using assms(1) l(2) by (auto simp: kept_def keyed_def)
  have g: "answered rpc c \<Longrightarrow> answered rpc (finish_core e t err c)"
    using l(1) by (simp add: answered_def log_of_def)
  show ?thesis
  proof (cases "tr_rpc t = rpc")
    case True
    then have "b \<or> answered rpc (finish_core e t err c)"
      using assms(2) l(1,3) by (auto simp: held_def answered_def log_of_def answers_def)
    then show ?thesis using k g assms(1) by (auto simp: kept_def)
  next
    case False
    then have "open_request rpc (finish_core e t err c) = open_request rpc c"
      by (simp add: open_request_def l(2))
    then show ?thesis using k g assms(1) by (auto simp: kept_def)
  qed
qed

lemma keeps_finish [upholds]:
  "held rpc b t \<Longrightarrow> (err = None \<Longrightarrow> tr_asm t \<noteq> None \<and> tr_headers t \<noteq> None) \<Longrightarrow> keeps rpc b (finish e t err)"
  unfolding finish_def by (intro upholding_then upholding_do kept_finish keeps_quiet caller.quiet_pump)

lemma keeps_fail [upholds]: "keeps rpc b (failAll e x)"
  unfolding failAll_def by (intro upholds) simp_all

lemmas keeps_quietly [upholds] = keeps_quiet [OF caller.quiet_detect] keeps_quiet [OF caller.quiet_probe]
  keeps_quiet [OF caller.quiet_detect_seq] keeps_quiet [OF caller.quiet_pump] keeps_quiet [OF caller.quiet_hello]
  keeps_quiet [OF caller.quiet_send] keeps_quiet [OF quiet_again] keeps_quiet [OF quiet_note_reply]
  keeps_quiet [OF quiet_pull] keeps_quiet [OF quiet_arrived]

lemma kept_timing [simp]:
  "kept rpc b (lossBackoff now c) = kept rpc b c" "kept rpc b (noteSpurious now c) = kept rpc b c"
  "kept rpc b (c\<lparr>cl_budget := v6\<rparr>) = kept rpc b c" "kept rpc b (c\<lparr>cl_payloadSeen := v7\<rparr>) = kept rpc b c"
  "kept rpc b (c\<lparr>cl_initialRto := v8\<rparr>) = kept rpc b c" "kept rpc b (c\<lparr>cl_lastBackoffAt := v9\<rparr>) = kept rpc b c"
  by (rule kept_core; simp)+

lemma keeps_recover [upholds]: "keeps rpc b (recover e r granted)"
  unfolding recover_def Let_def
  by (intro upholds) (simp_all add: recover_prepare_def Let_def kept_put)

lemma keeps_tick_transfer [upholds]: "keeps rpc b (tick_transfer e r)"
  unfolding tick_transfer_def Let_def by (intro upholds) simp_all

lemma keeps_tick [upholds]: "keeps rpc b (tick e)"
  unfolding tick_def by (intro upholds) simp

lemma start_headers: "tr_headers (fst (maybeStart t c)) = tr_headers t" "tr_rpc (fst (maybeStart t c)) = tr_rpc t"
  by (simp_all add: maybeStart_def split: option.split)

lemma keeps_meta [upholds]: "keeps rpc b (handle_meta e r flds)"
  unfolding handle_meta_def
proof (rule upholding_then [OF upholding_do keeps_transfer])
  fix t b' assume t: "tr_rpc t = r" "held rpc b' t"
  let ?t = "t\<lparr>tr_headers := Some (headers_of flds), tr_lastProgress := ev_now e, tr_recoveries := 0\<rparr>"
  have "hold (kept rpc b') (thenA (doA (start_body ?t)) (with_transfer r (\<lambda>t.
      whenA (case tr_asm t of None \<Rightarrow> False | Some a \<Rightarrow> asm_complete a) (finish e t None)))) (kept rpc b') (kept rpc b')"
  proof (rule hold_then [OF hold_do keeps_transfer_if [where S = "\<lambda>t. tr_headers t \<noteq> None"]])
    fix c assume "kept rpc b' c"
    then show "kept rpc b' (start_body ?t c) \<and>
        (\<forall>t'. jm_get (cl_transfers (start_body ?t c)) r = Some t' \<longrightarrow> tr_headers t' \<noteq> None)"
      using t kept_start_body [of rpc b' c ?t] start_headers [of ?t c]
      by (simp add: start_body_def split_def Let_def put_transfer_def)
  qed (intro upholds; auto split: option.splits)
  then show "keeps rpc b' (if tr_headers t \<noteq> None then retA () else thenA (doA (start_body ?t)) (with_transfer r (\<lambda>t.
      whenA (case tr_asm t of None \<Rightarrow> False | Some a \<Rightarrow> asm_complete a) (finish e t None))))"
    unfolding upholding_def by (intro hold_if_on hold_ret)
qed simp

lemma start_parts: "tr_rpc (fst (maybeStart t c)) = tr_rpc t" "tr_asm (fst (maybeStart t c)) = tr_asm t"
  by (simp_all add: maybeStart_def split: option.split)

lemma kept_data_arrived:
  assumes "kept rpc b c" "held rpc b t"
  shows "kept rpc b (data_arrived e off p fresh a rp t c)"
proof -
  let ?c2 = "count_payload e fresh p (repair_requested rp) c
     \<lparr>cl_sched := sched_on_data (tr_rpc t) fresh (cl_sched (count_payload e fresh p (repair_requested rp) c))\<rparr>"
  let ?h = "probe_hit e (off + len p) (t\<lparr>tr_asm := Some a\<rparr>) ?c2"
  let ?p = "progress e fresh (fst ?h) (snd ?h)"
  let ?s = "maybeStart (fst ?p) (snd ?p)"
  let ?f = "flushStream e (fst ?s) (snd ?s)"
  have "kept rpc b ?c2" using assms(1) by (simp add: count_payload_def Let_def)
  then have p: "kept rpc b (snd ?p)" "held rpc b (fst ?p)"
    using assms(2) by (auto simp: probe_hit_def progress_def Let_def split: option.split)
  have "kept rpc b (put_transfer (fst ?f) (snd ?f))"
    using kept_start [OF p]
  proof
    assume "kept rpc b (snd ?s) \<and> held rpc b (fst ?s)"
    then show ?thesis by (simp add: kept_put kept_flush held_flush)
  next
    assume "kept rpc True (snd ?s)"
    then have "kept rpc True (put_transfer (fst ?f) (snd ?f))" by (intro kept_put kept_flush) (simp_all add: held_def)
    then show ?thesis by (rule kept_mono)
  qed
  then show ?thesis unfolding data_arrived_def Let_def split_def .
qed

lemma keeps_payload [upholds]: "keeps rpc b (take_payload e r off p)"
  unfolding take_payload_def
proof (rule keeps_transfer)
  fix t b' assume t: "tr_rpc t = r" "held rpc b' t"
  show "keeps rpc b' (case (tr_asm t, tr_repair t) of
       (Some a, Some rp) \<Rightarrow>
         (case asm_add off p a of
            Inl _ \<Rightarrow> finish e t (Some ReassemblyRangeError)
          | Inr (fresh, a') \<Rightarrow>
              thenA (doA (data_arrived e off p fresh a' rp t))
               (with_transfer r (\<lambda>t.
                  if (case tr_asm t of None \<Rightarrow> False | Some a \<Rightarrow> asm_complete a) \<and> tr_headers t \<noteq> None
                  then finish e t None
                  else whenA (since (ev_now e) (tr_lastDetect t) DETECT_INTERVAL_MS) (detectLoss e r))))
     | _ \<Rightarrow> retA ())"
    using t by (auto split: option.splits sum.split simp del: not_None_eq simp: kept_data_arrived
        intro!: upholding_then upholding_do keeps_transfer upholding_if upholding_when keeps_finish keeps_quietly upholding_ret)
qed

lemma kept_open: "kept rpc b c \<Longrightarrow> held rpc b t \<Longrightarrow> kept rpc b (open_body tot t c)"
  by (simp add: open_body_def kept_put)

lemma keeps_data [upholds]: "keeps rpc b (handle_data e r tot off p)"
  unfolding handle_data_def by (intro upholds) (simp_all add: kept_open)

lemma keeps_deliver [upholds]: "keeps rpc b (deliver e p)"
  unfolding deliver_def by (rule keeps_transfer) (cases p; simp; intro upholds; simp)

lemma keeps_handle [upholds]: "keeps rpc b (handle e p)"
  by (cases p) (simp_all add: handle_def upholds)

lemma keeps_throw [upholds]: "keeps rpc b (throwA x)"
  unfolding upholding_def by (intro hold_throw)

lemma keeps_catch [upholds]: "keeps rpc b m \<Longrightarrow> (\<And>x. keeps rpc b (h x)) \<Longrightarrow> keeps rpc b (catchA m h)"
  unfolding upholding_def by (rule hold_catch)

lemma keeps_read_one [upholds]: "keeps rpc b (read_one e d)"
  unfolding read_one_def
  by (intro upholds) (auto split: sum.split wire_error.split intro!: upholds)

lemma keeps_receive [upholds]: "keeps rpc b (receive e d)"
  unfolding receive_def by (intro upholds) simp

text \<open>A request for another id, and one for the same id, which starts unsettled.\<close>

lemma keeps_start_request [upholds]: "keeps rpc b (start_request e r aid streaming cls)"
proof -
  have t: "held rpc b (new_transfer (ev_now e) r aid streaming cls g c)" for g c
    by (simp add: held_def new_transfer_def)
  show ?thesis unfolding start_request_def Let_def
    by (intro upholds) (auto split: sum.split intro!: upholds simp: t kept_put)
qed

lemma keeps_step:
  assumes "ev \<noteq> Cancel rpc"
  shows "keeps rpc b (client_step e ev)"
proof (cases ev)
  case (Cancel r)
  then have "kept rpc b (c\<lparr>cl_transfers := jm_delete r (cl_transfers c), cl_sched := s\<rparr>)" if "kept rpc b c" for c s
    using assms that by (auto simp: kept_def keyed_def answered_def open_request_def log_of_def)
  then show ?thesis unfolding Cancel client_step.simps stream_cancel_def drop_transfer_def
    by (intro upholding_then upholding_do keeps_quietly)
qed (simp_all add: close_client_def session_end_def upholds)

section \<open>The start and the end\<close>

lemma kept_reject: "keyed c \<Longrightarrow> kept rpc b (emit (RejectWith rpc x) c)"
  by (simp add: kept_def answered_def log_of_emit keyed_def)

lemma kept_begin: "keyed c \<Longrightarrow> kept rpc False (put_transfer (new_transfer now rpc aid streaming cls g c') c)"
  by (auto simp: kept_def keyed_def put_transfer_def new_transfer_def open_request_def)

lemma sound_keyed: "sound c \<Longrightarrow> keyed c"
  using sound_get by (auto simp: keyed_def)

lemma started_kept:
  assumes "sound c" "sendable_request rpc aid"
  shows "kept rpc False (snd (start_request e rpc aid streaming cls c))"
proof -
  obtain b where b: "encode (Req rpc (nextInitialGrant c) aid) = Inr b"
    using assms initial_grant_u32 encode_wf [of "Req rpc (nextInitialGrant c) aid"]
    by (auto simp: sendable_request_def wf_packet_def)
  have k: "keyed c" using assms(1) by (rule sound_keyed)
  let ?g = "nextInitialGrant c"
  let ?rest = "thenA (doA (\<lambda>c. c\<lparr>cl_ticker := True\<rparr>))
      (thenA (doA (upd_stats (\<lambda>s. s\<lparr>reqsSent := reqsSent s + 1\<rparr>))) (thenA sendHello (send (Req rpc ?g aid))))"
  let ?m = "catchA (thenA (doA (\<lambda>c. put_transfer (new_transfer (ev_now e) rpc aid streaming cls ?g c) c)) ?rest)
      (\<lambda>x. doA (emit (RejectWith rpc x)))"
  have "hold (\<lambda>d. d = c) ?m (kept rpc False) (kept rpc False)"
  proof (rule hold_catch [where Y = "kept rpc False"])
    show "hold (\<lambda>d. d = c) (thenA (doA (\<lambda>c. put_transfer (new_transfer (ev_now e) rpc aid streaming cls ?g c) c)) ?rest)
        (kept rpc False) (kept rpc False)"
    proof (rule hold_then [where R = "kept rpc False", OF hold_do])
      show "hold (kept rpc False) ?rest (kept rpc False) (kept rpc False)"
        by (rule upholding_def [THEN iffD1]) (intro upholds, simp_all)
    qed (simp add: kept_begin k)
  qed (rule hold_do, simp)
  then have "kept rpc False (snd (?m c))" by (rule hold_state) simp_all
  then show ?thesis using b k kept_reject
    by (auto simp: start_request_def readA_def doA_def Let_def)
qed

lemma core_keys: "core c = core d \<Longrightarrow> jm_keys (cl_transfers c) = jm_keys (cl_transfers d)"
  unfolding jm_keys_def by (metis caller.core_get option.map_disc_iff)

lemma finish_keys:
  assumes "sound c"
  shows "jm_keys (cl_transfers (snd (finish e t err c))) = jm_keys (cl_transfers c) - {tr_rpc t}"
proof -
  let ?d = "finish_core e t err c"
  have d: "sound ?d" by (rule sound_finish [OF assms])
  have "core (snd (pumpGrants e ?d)) = core ?d"
    by (rule caller.quiet_core [OF caller.quiet_pump sound_keyed [OF d]])
  moreover have "snd (finish e t err c) = snd (pumpGrants e ?d)"
    by (simp add: finish_def thenA_def bindA_def doA_def)
  moreover have "jm_keys (cl_transfers ?d) = jm_keys (cl_transfers c) - {tr_rpc t}"
    using finish_core_transfers by simp
  ultimately show ?thesis using core_keys by metis
qed

lemma fail_each:
  "hold (\<lambda>c. sound c \<and> jm_keys (cl_transfers c) \<subseteq> set ks)
     (eachA (\<lambda>rpc. with_transfer rpc (\<lambda>t. finish e t (Some x))) ks)
     (\<lambda>c. sound c \<and> cl_transfers c = []) (\<lambda>_. False)"
proof (induction ks)
  case Nil
  show ?case unfolding eachA.simps
    by (rule hold_ret) (auto simp: jm_keys_fst)
next
  case (Cons k ks)
  show ?case unfolding eachA.simps
  proof (rule hold_then [OF hold_transfer Cons.IH])
    fix c :: client
    assume "sound c \<and> jm_keys (cl_transfers c) \<subseteq> set (k # ks)" "jm_get (cl_transfers c) k = None"
    then show "sound c \<and> jm_keys (cl_transfers c) \<subseteq> set ks" by (auto simp: jm_get_keys)
  next
    fix t
    show "hold (\<lambda>c. (sound c \<and> jm_keys (cl_transfers c) \<subseteq> set (k # ks)) \<and> jm_get (cl_transfers c) k = Some t)
        (finish e t (Some x)) (\<lambda>c. sound c \<and> jm_keys (cl_transfers c) \<subseteq> set ks) (\<lambda>_. False)"
      unfolding hold_def
    proof (intro allI impI)
      fix c assume c: "(sound c \<and> jm_keys (cl_transfers c) \<subseteq> set (k # ks)) \<and> jm_get (cl_transfers c) k = Some t"
      then have "tr_rpc t = k" using sound_get by blast
      then show "case finish e t (Some x) c of (Inl y, c') \<Rightarrow> False
          | (Inr y, c') \<Rightarrow> sound c' \<and> jm_keys (cl_transfers c') \<subseteq> set ks"
        using safe_result [OF safe_finish, of c e t "Some x"] finish_keys [of c e t "Some x"] c
        by (cases "finish e t (Some x) c") auto
    qed
  qed
qed

lemma session_end_empties:
  assumes "sound c"
  shows "cl_transfers (snd (session_end e c)) = []"
proof -
  have e: "jm_keys (cl_transfers c) \<subseteq> set (map fst (cl_transfers c))" for c by (simp add: jm_keys_fst)
  have "hold sound (failAll e x) (\<lambda>c. sound c \<and> cl_transfers c = []) (\<lambda>_. False)" for x
    unfolding failAll_def
  proof (rule hold_read, rule hold_then [OF hold_pre [OF fail_each] hold_do])
    fix d c assume "c = d \<and> sound d"
    then show "sound c \<and> jm_keys (cl_transfers c) \<subseteq> set (map fst (cl_transfers d))" using e by blast
  qed simp_all
  then have "hold sound (session_end e) (\<lambda>c. sound c \<and> cl_transfers c = []) (\<lambda>_. False)"
    unfolding session_end_def by (intro hold_then [OF hold_do [where Q = sound]]) simp_all
  from hold_no_throw [OF this assms] show ?thesis by simp
qed

lemma kept_run: "kept rpc b c \<Longrightarrow> list_all (\<lambda>x. snd x \<noteq> Cancel rpc) evs \<Longrightarrow> kept rpc b (client_run evs c)"
proof (induction evs arbitrary: c)
  case (Cons x evs)
  then show ?case
    using upholding_state [OF keeps_step [of "snd x" rpc b "fst x"]] by (cases x) simp
qed simp

lemma run_append: "client_run (evs @ evs') c = client_run evs' (client_run evs c)"
  by (induction evs arbitrary: c) auto

section \<open>Properties\<close>



end
