(* ===== verification/Watch.thy ===== *)
theory Watch
  imports Answers
begin

text \<open>
  Following one request through a session of \<open>client/src/transport.ts\<close>: what its transfer shows of itself
  (a \<open>view\<close>) is left alone by every operation for another request, and by the parts of its own operations
  that do not change the view. The locale states which updates a view ignores; its lemmas are proved once and
  used for two views, what the stall timer goes by (Silence) and what has arrived (Completion).
\<close>

section \<open>Lemmas on the operations\<close>

lemma finish_core_rest:
  "cl_maxRecoveries (finish_core e t err c) = cl_maxRecoveries c" "cl_ticker (finish_core e t err c) = cl_ticker c"
  by (simp_all add: finish_core_def Let_def settle_transfer_def close_stream_def flushStream_def flush_chunk_def
      emit_def upd_stats_def split: option.split)

lemma flush_rpc [simp]: "tr_rpc (fst (flushStream e t c)) = tr_rpc t"
  by (simp add: flushStream_def flush_chunk_def Let_def split_def split: option.split)

text \<open>What the state a step starts from shows.\<close>

lemma hold_because: "(\<And>c. P c \<Longrightarrow> F) \<Longrightarrow> (F \<Longrightarrow> hold P m Q X) \<Longrightarrow> hold P m Q X"
  by (cases F) (auto simp: hold_def)

text \<open>Nothing comes from the server for the request, and the page neither cancels it nor reuses its id.\<close>

definition silent :: "int \<Rightarrow> client_ev \<Rightarrow> bool" where
  "silent rpc ev \<longleftrightarrow>
     (case ev of
        Datagram b \<Rightarrow> (case decode b of Inr p \<Rightarrow> rpcId p \<noteq> rpc | Inl _ \<Rightarrow> True)
      | Start r aid streaming cls \<Rightarrow> r \<noteq> rpc
      | Cancel r \<Rightarrow> r \<noteq> rpc
      | _ \<Rightarrow> True)"

section \<open>Views of a transfer\<close>

locale request_view =
  fixes view :: "transfer \<Rightarrow> 'v"
  assumes view_repair: "tr_repair t \<noteq> None \<Longrightarrow> view (t\<lparr>tr_repair := Some r\<rparr>) = view t"
    and view_detect: "view (t\<lparr>tr_lastDetect := d\<rparr>) = view t"
    and view_tail: "view (t\<lparr>tr_tailProbed := b\<rparr>) = view t"
    and view_replied: "view (t\<lparr>tr_replied := b\<rparr>) = view t"
    and view_retransmitted: "view (t\<lparr>tr_reqRetransmitted := b\<rparr>) = view t"
    and view_ceiling: "view (t\<lparr>tr_ceiling := x\<rparr>) = view t"
    and view_probe: "view (t\<lparr>tr_probe := p\<rparr>) = view t"
begin

text \<open>The request satisfies \<open>P\<close> if it is still in the table; \<open>m\<close> is the number of attempts it has. While it
  can be there the timer runs.\<close>

definition spared :: "int \<Rightarrow> num \<Rightarrow> bool \<Rightarrow> ('v \<Rightarrow> bool) \<Rightarrow> client \<Rightarrow> bool" where
  "spared rpc m b P c \<longleftrightarrow> keyed c \<and> cl_maxRecoveries c = m \<and> (b \<longrightarrow> cl_ticker c) \<and>
     (\<forall>t. jm_get (cl_transfers c) rpc = Some t \<longrightarrow> P (view t))"

abbreviation spares :: "int \<Rightarrow> num \<Rightarrow> bool \<Rightarrow> ('v \<Rightarrow> bool) \<Rightarrow> unit act \<Rightarrow> bool" where
  "spares rpc m b P \<equiv> upholding (spared rpc m b P) (spared rpc m b P)"

abbreviation gone :: "int \<Rightarrow> num \<Rightarrow> client \<Rightarrow> bool" where
  "gone rpc m \<equiv> spared rpc m False (\<lambda>_. False)"

lemma gone_iff: "gone rpc m c \<longleftrightarrow> keyed c \<and> cl_maxRecoveries c = m \<and> jm_get (cl_transfers c) rpc = None"
  by (auto simp: spared_def)

definition fits :: "int \<Rightarrow> ('v \<Rightarrow> bool) \<Rightarrow> transfer \<Rightarrow> bool" where
  "fits rpc P t \<longleftrightarrow> (tr_rpc t = rpc \<longrightarrow> P (view t))"

lemma fits_upd [simp]:
  "tr_repair t \<noteq> None \<Longrightarrow> fits rpc P (t\<lparr>tr_repair := Some r\<rparr>) = fits rpc P t"
  "fits rpc P (t\<lparr>tr_lastDetect := v2\<rparr>) = fits rpc P t" "fits rpc P (t\<lparr>tr_tailProbed := v3\<rparr>) = fits rpc P t"
  "fits rpc P (t\<lparr>tr_replied := v4\<rparr>) = fits rpc P t" "fits rpc P (t\<lparr>tr_reqRetransmitted := v6\<rparr>) = fits rpc P t"
  "fits rpc P (t\<lparr>tr_ceiling := v7\<rparr>) = fits rpc P t" "fits rpc P (t\<lparr>tr_probe := v8\<rparr>) = fits rpc P t"
  by (simp_all add: fits_def view_repair view_detect view_tail view_replied view_retransmitted view_ceiling view_probe)

lemma fits_other [simp]: "tr_rpc t \<noteq> rpc \<Longrightarrow> fits rpc P t"
  by (simp add: fits_def)

lemma spared_put [simp]: "spared rpc m b P c \<Longrightarrow> fits rpc P t \<Longrightarrow> spared rpc m b P (put_transfer t c)"
  by (auto simp: spared_def fits_def keyed_def put_transfer_def)

lemma spared_replace:
  assumes "spared rpc m b P c" "tr_rpc t = rpc" "Q (view t)"
  shows "spared rpc m b Q (put_transfer t c)"
  using assms by (auto simp: spared_def keyed_def put_transfer_def)

lemma spared_gone: "spared rpc m b P c \<Longrightarrow> jm_get (cl_transfers c) rpc = None \<Longrightarrow> spared rpc m b Q c"
  by (simp add: spared_def)

lemma gone_spared: "gone rpc m c \<Longrightarrow> spared rpc m False Q c"
  by (simp add: spared_def)

lemma spared_mono: "spared rpc m b P c \<Longrightarrow> (\<And>v. P v \<Longrightarrow> Q v) \<Longrightarrow> spared rpc m b Q c"
  by (simp add: spared_def)

lemma spared_rest [simp]:
  "spared rpc m b P (c\<lparr>cl_sched := v0\<rparr>) = spared rpc m b P c" "spared rpc m b P (c\<lparr>cl_seq := v1\<rparr>) = spared rpc m b P c"
  "spared rpc m b P (c\<lparr>cl_lastSeqDetect := v2\<rparr>) = spared rpc m b P c" "spared rpc m b P (c\<lparr>cl_stats := v3\<rparr>) = spared rpc m b P c"
  "spared rpc m b P (c\<lparr>cl_budget := v4\<rparr>) = spared rpc m b P c" "spared rpc m b P (c\<lparr>cl_payloadSeen := v5\<rparr>) = spared rpc m b P c"
  "spared rpc m b P (c\<lparr>cl_initialRto := v6\<rparr>) = spared rpc m b P c" "spared rpc m b P (c\<lparr>cl_lastBackoffAt := v7\<rparr>) = spared rpc m b P c"
  "spared rpc m b P (c\<lparr>cl_srtt := v8\<rparr>) = spared rpc m b P c" "spared rpc m b P (c\<lparr>cl_rttvar := v9\<rparr>) = spared rpc m b P c"
  "spared rpc m b P (c\<lparr>cl_reorderSteps := v10\<rparr>) = spared rpc m b P c" "spared rpc m b P (c\<lparr>cl_lastSpuriousAt := v11\<rparr>) = spared rpc m b P c"
  "spared rpc m b P (c\<lparr>cl_lastLossBackoffAt := v12\<rparr>) = spared rpc m b P c" "spared rpc m b P (c\<lparr>cl_queueLimit := v13\<rparr>) = spared rpc m b P c"
  "spared rpc m b P (c\<lparr>cl_reading := v14\<rparr>) = spared rpc m b P c" "spared rpc m b P (c\<lparr>cl_closed := v15\<rparr>) = spared rpc m b P c"
  "spared rpc m b P (c\<lparr>cl_sessionClosed := v16\<rparr>) = spared rpc m b P c"
  "spared rpc m b P (upd_stats f c) = spared rpc m b P c" "spared rpc m b P (emit x c) = spared rpc m b P c"
  by (simp_all add: spared_def keyed_def upd_stats_def emit_def)

lemma spared_queue [simp]: "spared rpc m b P (syncQueueLimit c) = spared rpc m b P c"
  by (simp add: syncQueueLimit_def Let_def split: option.split)

lemma spared_ticking [simp]: "spared rpc m b P c \<Longrightarrow> spared rpc m b P (c\<lparr>cl_ticker := True\<rparr>)"
  by (simp add: spared_def keyed_def)

lemma spared_timing [simp]:
  "spared rpc m b P (sampleRtt now r c) = spared rpc m b P c" "spared rpc m b P (noteSpurious now c) = spared rpc m b P c"
  "spared rpc m b P (lossBackoff now c) = spared rpc m b P c"
  by (simp_all add: sampleRtt_def noteSpurious_def lossBackoff_def Let_def split: option.split)

lemma spared_delete [simp]: "spared rpc m b P c \<Longrightarrow> spared rpc m b P (c\<lparr>cl_transfers := jm_delete r (cl_transfers c)\<rparr>)"
  by (auto simp: spared_def keyed_def)

section \<open>Operations\<close>

lemma spares_transfer [upholds]:
  assumes "\<And>t. tr_rpc t = r \<Longrightarrow> fits rpc P t \<Longrightarrow> spares rpc m b P (f t)"
  shows "spares rpc m b P (with_transfer r f)"
  unfolding upholding_def
proof (rule hold_transfer)
  fix t
  show "hold (\<lambda>c. spared rpc m b P c \<and> jm_get (cl_transfers c) r = Some t) (f t) (spared rpc m b P) (spared rpc m b P)"
  proof (cases "tr_rpc t = r \<and> fits rpc P t")
    case True
    then show ?thesis using assms unfolding upholding_def by (auto intro: hold_pre)
  next
    case False
    then have "\<not> (spared rpc m b P c \<and> jm_get (cl_transfers c) r = Some t)" for c
      by (auto simp: spared_def fits_def dest: keyed_get)
    then show ?thesis unfolding hold_def by blast
  qed
qed simp

lemma spares_send [upholds]: "spares rpc m b P (send p)"
  unfolding upholding_def by (rule hold_send) simp_all

lemma spares_hello [upholds]: "spares rpc m b P sendHello"
  unfolding sendHello_def by (intro upholds) simp

lemma spares_pump [upholds]: "spares rpc m b P (pumpGrants e)"
  unfolding pumpGrants_def grant_one_def Let_def split_def
  by (intro upholds) (simp_all add: pump_prepare_def pump_after_def Let_def)

lemma spared_finish: "spared rpc m b P c \<Longrightarrow> spared rpc m b P (finish_core e t err c)"
  by (auto simp: spared_def keyed_def finish_core_rest finish_core_transfers)

lemma spares_finish [upholds]: "spares rpc m b P (finish e t err)"
  unfolding finish_def by (intro upholds spared_finish)

text \<open>The request is over.\<close>

lemma finish_own:
  "hold (\<lambda>c. spared rpc m b P c \<and> jm_get (cl_transfers c) rpc = Some t) (finish e t err) (spared rpc m False Q) (\<lambda>_. True)"
  unfolding finish_def
  by (rule hold_then [OF hold_do [where Q = "gone rpc m"] hold_post [OF spares_pump [unfolded upholding_def]]])
     (auto simp: spared_def keyed_def finish_core_rest finish_core_transfers)

lemma spares_fail: "spares rpc m False P (failAll e x)"
  unfolding failAll_def by (intro upholds) (simp_all add: spared_def keyed_def)

lemma spares_resend [upholds]: "spares rpc m b P (send_resend r f g)"
  unfolding send_resend_def by (intro upholds) simp

lemma spares_resend_seq [upholds]: "spares rpc m b P (sendResendSeq r)"
  unfolding sendResendSeq_def by (intro upholds) simp

lemma spares_detect [upholds]: "spares rpc m b P (detectLoss e r)"
  unfolding detectLoss_def Let_def split_def prod.case by (intro upholds) simp_all

lemma spares_detect_seq [upholds]: "spares rpc m b P (detectSeqLoss e)"
  unfolding detectSeqLoss_def Let_def split_def by (intro upholds) simp_all

lemma spares_probe [upholds]: "spares rpc m b P (tail_probe e r g)"
  unfolding tail_probe_def Let_def split_def prod.case by (intro upholds) simp_all

lemma spares_again [upholds]: "spares rpc m b P (recover_again e r g)"
  unfolding recover_again_def Let_def split_def prod.case by (intro upholds) simp_all

lemma spares_reply [upholds]: "spares rpc m b P (note_reply e r)"
  unfolding note_reply_def by (intro upholds) simp_all

text \<open>The timer on another request.\<close>

lemma spares_recover [upholds]: "r \<noteq> rpc \<Longrightarrow> spares rpc m b P (recover e r g)"
  unfolding recover_def Let_def by (intro upholds) (simp_all add: recover_prepare_def Let_def)

lemma spares_tick_other: "r \<noteq> rpc \<Longrightarrow> spares rpc m b P (tick_transfer e r)"
  unfolding tick_transfer_def Let_def by (intro upholds) simp_all

section \<open>Datagrams for another request\<close>

lemma spared_flush: "spared rpc m b P c \<Longrightarrow> spared rpc m b P (snd (flushStream e t c))"
  by (simp add: flushStream_def flush_chunk_def Let_def split: option.split)

lemma spared_start: "spared rpc m b P c \<Longrightarrow> spared rpc m b P (snd (maybeStart t c))"
  by (simp add: maybeStart_def split: option.split)

lemma spared_data_arrived:
  assumes "spared rpc m b P c" "tr_rpc t \<noteq> rpc"
  shows "spared rpc m b P (data_arrived e off p fresh a rp t c)"
proof -
  have "spared rpc m b P (snd (probe_hit e v t c))" "tr_rpc (fst (probe_hit e v t c)) = tr_rpc t"
    if "spared rpc m b P c" for v t and c :: client
    using that by (simp_all add: probe_hit_def Let_def split: option.split)
  moreover have "spared rpc m b P (snd (progress e fresh t c))" "tr_rpc (fst (progress e fresh t c)) = tr_rpc t"
    if "spared rpc m b P c" for t and c :: client
    using that by (simp_all add: progress_def)
  ultimately show ?thesis using assms unfolding data_arrived_def Let_def split_def
    by (simp add: spared_flush spared_start start_parts count_payload_def Let_def)
qed

lemma spares_meta: "r \<noteq> rpc \<Longrightarrow> spares rpc m b P (handle_meta e r flds)"
  unfolding handle_meta_def
  by (intro upholds) (simp_all add: start_body_def split_def Let_def spared_start start_parts)

lemma spares_payload [upholds]: "r \<noteq> rpc \<Longrightarrow> spares rpc m b P (take_payload e r off p)"
  unfolding take_payload_def split_def prod.case
  by (intro upholds) (auto split: sum.split intro!: upholds simp: spared_data_arrived)

lemma spares_data: "r \<noteq> rpc \<Longrightarrow> spares rpc m b P (handle_data e r tot off p)"
  unfolding handle_data_def by (intro upholds) (simp_all add: open_body_def)

lemma spares_deliver [upholds]: "rpcId p \<noteq> rpc \<Longrightarrow> spares rpc m b P (deliver e p)"
  unfolding deliver_def
  by (rule spares_transfer) (cases p; simp; intro upholds spares_meta spares_data; simp)

lemma spared_arrived [simp]: "spared rpc m b P c \<Longrightarrow> spared rpc m b P (seq_arrived e r off sq p c)"
  by (simp add: seq_arrived_def Let_def split_def)

lemma spares_handle [upholds]: "rpcId p \<noteq> rpc \<Longrightarrow> spares rpc m b P (handle e p)"
  by (cases p) (auto simp: handle_def intro!: upholds)

lemma spares_start: "r \<noteq> rpc \<Longrightarrow> spares rpc m b P (start_request e r aid streaming cls)"
  unfolding start_request_def Let_def upholding_def
  by (intro hold_read) (auto split: sum.split if_splits intro!: hold_do hold_throw
      hold_catch [where Y = "spared rpc m b P"] upholds [unfolded upholding_def] hold_then [where R = "spared rpc m b P"]
      simp: new_transfer_def)

text \<open>\<open>pull\<close> only takes the pause off.\<close>

definition unpauses :: "('v \<Rightarrow> bool) \<Rightarrow> bool" where
  "unpauses P \<longleftrightarrow> (\<forall>t st. P (view t) \<longrightarrow> tr_stream t = Some st \<longrightarrow> st_paused st \<longrightarrow>
     P (view (t\<lparr>tr_stream := Some (st\<lparr>st_paused := False\<rparr>)\<rparr>)))"

lemma spares_pull:
  assumes "unpauses P"
  shows "spares rpc m b P (stream_pull e r)"
  unfolding stream_pull_def
  by (intro upholds) (use assms in \<open>simp_all add: fits_def unpauses_def\<close>)

lemma spares_read_one:
  assumes "silent rpc (Datagram d)"
  shows "spares rpc m b P (read_one e d)"
  unfolding read_one_def upholding_def
  by (rule hold_then [where R = "spared rpc m b P"])
     (use assms in \<open>auto simp: silent_def split: sum.splits wire_error.split intro!: hold_do hold_throw
        hold_then [where R = "spared rpc m b P"] spares_handle [unfolded upholding_def] spares_pump [unfolded upholding_def]\<close>)

text \<open>\<open>failAll\<close> stops the timer when it has emptied the table.\<close>

lemma fail_gone:
  "hold (\<lambda>c. spared rpc m b P c \<and> (rpc \<in> set ks \<or> gone rpc m c))
     (eachA (\<lambda>r. with_transfer r (\<lambda>t. finish e t (Some x))) ks) (gone rpc m) (spared rpc m b P)"
proof (induction ks)
  case (Cons k ks)
  let ?R = "\<lambda>c. spared rpc m b P c \<and> (rpc \<in> set ks \<or> gone rpc m c)"
  show ?case unfolding eachA.simps
  proof (rule hold_then [OF hold_transfer Cons.IH])
    fix c :: client
    assume "spared rpc m b P c \<and> (rpc \<in> set (k # ks) \<or> gone rpc m c)" "jm_get (cl_transfers c) k = None"
    then show "?R c" by (auto simp: gone_iff spared_def)
  next
    fix t
    have p: "hold (\<lambda>c. spared rpc m b P c \<and> gone rpc m c) (pumpGrants e) (\<lambda>c. spared rpc m b P c \<and> gone rpc m c) (spared rpc m b P)"
      using spares_pump [of rpc m b P e] spares_pump [of rpc m False "\<lambda>_. False" e]
      unfolding upholding_def hold_def by (fastforce split: prod.splits sum.splits)
    have q: "hold (spared rpc m b P) (pumpGrants e) (spared rpc m b P) (spared rpc m b P)"
      by (rule spares_pump [unfolded upholding_def])
    show "hold (\<lambda>c. (spared rpc m b P c \<and> (rpc \<in> set (k # ks) \<or> gone rpc m c)) \<and> jm_get (cl_transfers c) k = Some t)
        (finish e t (Some x)) ?R (spared rpc m b P)"
      unfolding finish_def
    proof (cases "rpc \<in> set ks")
      case True
      then show "hold (\<lambda>c. (spared rpc m b P c \<and> (rpc \<in> set (k # ks) \<or> gone rpc m c)) \<and> jm_get (cl_transfers c) k = Some t)
         (thenA (doA (finish_core e t (Some x))) (pumpGrants e)) ?R (spared rpc m b P)"
        by (intro hold_then [OF hold_do [where Q = "spared rpc m b P"] hold_post [OF q]]) (simp_all add: spared_finish)
    next
      case False
      then show "hold (\<lambda>c. (spared rpc m b P c \<and> (rpc \<in> set (k # ks) \<or> gone rpc m c)) \<and> jm_get (cl_transfers c) k = Some t)
         (thenA (doA (finish_core e t (Some x))) (pumpGrants e)) ?R (spared rpc m b P)"
        by (intro hold_then [OF hold_do [where Q = "\<lambda>c. spared rpc m b P c \<and> gone rpc m c"] hold_post [OF p]])
          (auto simp: spared_def keyed_def finish_core_rest finish_core_transfers)
    qed
  qed
qed (auto intro: hold_ret)

lemma fail_over: "hold (spared rpc m b P) (failAll e x) (gone rpc m) (spared rpc m b P)"
  unfolding failAll_def
proof (rule hold_read, rule hold_then [OF hold_pre [OF fail_gone] hold_do])
  fix d c assume "c = d \<and> spared rpc m b P d"
  then show "spared rpc m b P c \<and> (rpc \<in> set (map fst (cl_transfers d)) \<or> gone rpc m c)"
    using jm_get_keys [of "cl_transfers d" rpc] by (auto simp: jm_keys_fst gone_iff spared_def)
qed (simp add: gone_iff keyed_def)

lemma quiet_step:
  assumes "silent rpc ev" "ev \<noteq> Tick" "unpauses P" "spared rpc m b P c"
  shows "spared rpc m b P (snd (client_step e ev c)) \<or> gone rpc m (snd (client_step e ev c))"
proof -
  let ?R = "\<lambda>c. spared rpc m b P c \<or> gone rpc m c"
  have "hold (spared rpc m b P) (client_step e ev) ?R ?R"
  proof (cases ev)
    case (Start r aid streaming cls)
    then show ?thesis using assms(1) spares_start
      by (auto simp: silent_def intro: hold_post [OF spares_start [unfolded upholding_def]])
  next
    case (Datagram d)
    have k: "hold (\<lambda>c. c = d0 \<and> spared rpc m b P d0) (whenA (cl_reading d0) (catchA (read_one e d)
        (\<lambda>x. thenA (doA (\<lambda>c. c\<lparr>cl_reading := False\<rparr>)) (failAll e x)))) ?R ?R" for d0
    proof (rule hold_when [OF hold_catch])
      show "hold (\<lambda>c. c = d0 \<and> spared rpc m b P d0) (read_one e d) ?R (spared rpc m b P)"
        by (rule hold_post [OF hold_pre [OF spares_read_one [unfolded upholding_def]]]) (use assms(1) Datagram in auto)
      show "hold (spared rpc m b P) (thenA (doA (\<lambda>c. c\<lparr>cl_reading := False\<rparr>)) (failAll e x)) ?R ?R" for x
        by (rule hold_then [OF hold_do hold_post [OF fail_over [of rpc m b P]]]) auto
    qed simp
    show ?thesis unfolding Datagram client_step.simps receive_def by (rule hold_read [OF k])
  next
    case (Pull r)
    then show ?thesis using hold_post [OF spares_pull [OF assms(3), unfolded upholding_def]] by simp
  next
    case (Cancel r)
    have "spares rpc m b P (drop_transfer e r)"
      unfolding drop_transfer_def by (intro upholds) simp
    then show ?thesis unfolding Cancel client_step.simps stream_cancel_def upholding_def
      by (rule hold_post) simp_all
  next
    case SessionEnd
    show ?thesis unfolding SessionEnd client_step.simps session_end_def
      by (rule hold_then [OF hold_do hold_post [OF fail_over [of rpc m b P]]]) auto
  qed (use assms(2) in \<open>simp_all add: close_client_def hold_do\<close>)
  then show ?thesis by (rule hold_state) (use assms(4) in simp_all)
qed


end

end
