(* ===== verification/Completion.thy ===== *)
theory Completion
  imports Watch
begin

text \<open>
  A request of \<open>client/src/transport.ts\<close> completes when its parts have arrived. Whatever the order, with
  losses, repeats and any traffic of other requests between them: once META and DATA that cover the asset
  have come, the request is answered and out of the table. \<open>lacking\<close> follows what has arrived so far;
  \<open>spotless\<close> says that nothing but the stall timer has rejected the request.
\<close>

section \<open>What has arrived\<close>

type_synonym arrivals = "bool \<times> reassembly option \<times> bool"

definition arrived :: "transfer \<Rightarrow> arrivals" where
  "arrived t = (tr_headers t \<noteq> None, tr_asm t, tr_repair t \<noteq> None)"

lemma arrived_upd [simp]:
  "arrived (t\<lparr>tr_lastDetect := v1\<rparr>) = arrived t" "arrived (t\<lparr>tr_tailProbed := v2\<rparr>) = arrived t"
  "arrived (t\<lparr>tr_replied := v3\<rparr>) = arrived t" "arrived (t\<lparr>tr_stream := v4\<rparr>) = arrived t"
  "arrived (t\<lparr>tr_settled := v5\<rparr>) = arrived t" "arrived (t\<lparr>tr_reqRetransmitted := v6\<rparr>) = arrived t"
  "arrived (t\<lparr>tr_ceiling := v7\<rparr>) = arrived t" "arrived (t\<lparr>tr_probe := v8\<rparr>) = arrived t"
  "arrived (t\<lparr>tr_lastProgress := v9\<rparr>) = arrived t" "arrived (t\<lparr>tr_recoveries := v10\<rparr>) = arrived t"
  by (simp_all add: arrived_def)

interpretation arrival: request_view arrived
  by unfold_locales (simp_all add: arrived_def)

abbreviation awaits where "awaits rpc m \<equiv> arrival.spared rpc m False"
abbreviation over where "over \<equiv> arrival.gone"

text \<open>META if \<open>h\<close>, some DATA if \<open>d\<close>, and the bytes in \<open>C\<close> of an asset of \<open>n\<close> bytes.\<close>

definition gathered :: "num \<Rightarrow> bool \<Rightarrow> bool \<Rightarrow> num set \<Rightarrow> arrivals \<Rightarrow> bool" where
  "gathered n h d C = (\<lambda>(headers, asm, tracked). (h \<longrightarrow> headers) \<and>
     (case asm of None \<Rightarrow> \<not> d \<and> C = {} | Some a \<Rightarrow> tracked \<and> asm_ok a \<and> asm_size a = n \<and> C \<subseteq> asm_cover a))"

definition whole_body :: "arrivals \<Rightarrow> bool" where
  "whole_body = (\<lambda>(headers, asm, tracked). headers \<and> (case asm of None \<Rightarrow> False | Some a \<Rightarrow> asm_complete a))"

definition lacking :: "num \<Rightarrow> bool \<Rightarrow> bool \<Rightarrow> num set \<Rightarrow> arrivals \<Rightarrow> bool" where
  "lacking n h d C v \<longleftrightarrow> gathered n h d C v \<and> \<not> whole_body v"

lemma lacking_gathered: "lacking n h d C v \<Longrightarrow> gathered n h d C v"
  by (simp add: lacking_def)

text \<open>Nothing is lacking when everything has arrived.\<close>

lemma nothing_lacking:
  assumes "lacking (of_nat n) True True C v"
  shows "\<not> {0..<of_nat n} \<subseteq> C"
proof
  assume c: "{0..<of_nat n} \<subseteq> C"
  obtain a where a: "asm_ok a" "asm_size a = of_nat n" "C \<subseteq> asm_cover a" "\<not> asm_complete a"
    using assms by (cases v; cases "fst (snd v)") (auto simp: lacking_def gathered_def whole_body_def)
  have "of_nat i \<in> asm_cover a" if "i < n" for i
    using that c a(3) by force
  then show False using asm_complete_positions [OF a(1,2)] a(4) by blast
qed

section \<open>The timer\<close>

lemma awaits_tick: "arrival.spares rpc m False P (tick e)"
proof -
  have "arrival.spares rpc m False P (tick_transfer e r)" for r
    unfolding tick_transfer_def recover_def Let_def
    by (intro upholds) (simp_all add: arrival.fits_def recover_prepare_def Let_def)
  then show ?thesis unfolding tick_def by (intro upholds) (simp_all add: arrival.spared_def keyed_def)
qed

section \<open>META\<close>

lemma hold_cases: "(b \<Longrightarrow> hold P m Q X) \<Longrightarrow> (\<not> b \<Longrightarrow> hold P n Q X) \<Longrightarrow> hold P (if b then m else n) Q X"
  by simp

lemma arrived_start [simp]: "arrived (fst (maybeStart t c)) = arrived t"
  by (simp add: maybeStart_def arrived_def split: option.split)

lemma complete_or_not:
  "hold (awaits rpc m (gathered n h d C))
     (with_transfer rpc (\<lambda>t. if (case tr_asm t of None \<Rightarrow> False | Some a \<Rightarrow> asm_complete a) \<and> tr_headers t \<noteq> None
        then finish e t None else rest t)) (awaits rpc m (lacking n h d C)) (\<lambda>_. True)"
  if rest: "\<And>t. arrival.spares rpc m False (lacking n h d C) (rest t)"
proof (rule hold_transfer, erule (1) arrival.spared_gone)
  fix t :: transfer
  let ?full = "(case tr_asm t of None \<Rightarrow> False | Some a \<Rightarrow> asm_complete a) \<and> tr_headers t \<noteq> None"
  let ?P = "\<lambda>c. awaits rpc m (gathered n h d C) c \<and> jm_get (cl_transfers c) rpc = Some t"
  have f: "?full \<longleftrightarrow> whole_body (arrived t)" by (auto simp: whole_body_def arrived_def)
  have k: "tr_rpc t = rpc \<and> awaits rpc m (lacking n h d C) c" if "?P c" "\<not> ?full" for c
    using that f by (auto simp: arrival.spared_def lacking_def dest: keyed_get)
  have fin: "hold ?P (finish e t None) (awaits rpc m (lacking n h d C)) (\<lambda>_. True)" by (rule arrival.finish_own)
  have "hold ?P (rest t) (awaits rpc m (lacking n h d C)) (\<lambda>_. True)" if "\<not> ?full"
    by (rule hold_post [OF hold_pre [OF rest [unfolded upholding_def]]]) (use k that in auto)
  then show "hold ?P (if ?full then finish e t None else rest t) (awaits rpc m (lacking n h d C)) (\<lambda>_. True)"
    using fin by (intro hold_cases)
qed

lemma awaits_meta:
  "hold (awaits rpc m (lacking n h d C)) (handle_meta e rpc flds) (awaits rpc m (lacking n True d C)) (\<lambda>_. True)"
  unfolding handle_meta_def
proof (rule hold_then [OF hold_do [where Q = "awaits rpc m (lacking n h d C)"] hold_transfer])
  fix t :: transfer
  let ?P = "\<lambda>c. awaits rpc m (lacking n h d C) c \<and> jm_get (cl_transfers c) rpc = Some t"
  let ?t = "t\<lparr>tr_headers := Some (headers_of flds), tr_lastProgress := ev_now e, tr_recoveries := 0\<rparr>"
  have same: "awaits rpc m (lacking n True d C) c" if "?P c" "tr_headers t \<noteq> None" for c
    using that by (auto simp: arrival.spared_def lacking_def gathered_def arrived_def)
  have opened: "awaits rpc m (gathered n True d C) (start_body ?t c)" if "?P c" for c
  proof -
    have t: "tr_rpc t = rpc" "gathered n h d C (arrived t)" "awaits rpc m (lacking n h d C) c"
      using that by (auto simp: arrival.spared_def lacking_def dest: keyed_get)
    then have "gathered n True d C (arrived ?t)" by (auto simp: gathered_def arrived_def)
    then show ?thesis unfolding start_body_def split_def Let_def
      by (intro arrival.spared_replace arrival.spared_start) (use t in \<open>simp_all add: start_parts\<close>)
  qed
  have fin: "hold (awaits rpc m (gathered n True d C)) (with_transfer rpc (\<lambda>t.
      whenA (case tr_asm t of None \<Rightarrow> False | Some a \<Rightarrow> asm_complete a) (finish e t None)))
      (awaits rpc m (lacking n True d C)) (\<lambda>_. True)"
  proof (rule hold_transfer, erule (1) arrival.spared_gone)
    fix u :: transfer
    have f: "(case tr_asm u of None \<Rightarrow> False | Some a \<Rightarrow> asm_complete a) \<longleftrightarrow> whole_body (arrived u)"
      if "awaits rpc m (gathered n True d C) c \<and> jm_get (cl_transfers c) rpc = Some u" for c
      using that by (auto simp: arrival.spared_def gathered_def whole_body_def arrived_def)
    show "hold (\<lambda>c. awaits rpc m (gathered n True d C) c \<and> jm_get (cl_transfers c) rpc = Some u)
       (whenA (case tr_asm u of None \<Rightarrow> False | Some a \<Rightarrow> asm_complete a) (finish e u None))
       (awaits rpc m (lacking n True d C)) (\<lambda>_. True)"
      by (rule hold_when [OF arrival.finish_own]) (use f in \<open>auto simp: arrival.spared_def lacking_def\<close>)
  qed
  show "hold ?P (if tr_headers t \<noteq> None then retA () else thenA (doA (start_body ?t)) (with_transfer rpc (\<lambda>t.
      whenA (case tr_asm t of None \<Rightarrow> False | Some a \<Rightarrow> asm_complete a) (finish e t None))))
      (awaits rpc m (lacking n True d C)) (\<lambda>_. True)"
  proof (cases "tr_headers t = None")
    case True
    have "hold ?P (doA (start_body ?t)) (awaits rpc m (gathered n True d C)) (\<lambda>_. True)"
      by (rule hold_do, rule opened)
    from hold_then [OF this fin] show ?thesis using True by simp
  next
    case False
    then show ?thesis using same by (auto intro: hold_ret)
  qed
qed (simp_all, erule (1) arrival.spared_gone)

section \<open>DATA\<close>

lemma arrived_parts [simp]:
  "arrived (fst (probe_hit e v t c)) = arrived t" "arrived (fst (progress e fresh t c)) = arrived t"
  "arrived (fst (flushStream e t c)) = arrived t"
  by (simp_all add: probe_hit_def progress_def flushStream_def Let_def split_def arrived_def split: option.split)

lemma gathered_more:
  assumes "gathered n h True C (arrived t)" "tr_asm t = Some a" "asm_add off p a = Inr (fresh, a')" "is_integer off"
  shows "gathered n h True (C \<union> {off..<off + len p}) (arrived (t\<lparr>tr_asm := Some a'\<rparr>))"
  using assms(1,2) asm_add_cover [OF _ assms(3,4)] by (auto simp: gathered_def arrived_def)

lemma awaits_data_arrived:
  assumes "awaits rpc m P c" "tr_rpc t = rpc" "Q (arrived (t\<lparr>tr_asm := Some a\<rparr>))"
  shows "awaits rpc m Q (data_arrived e off p fresh a rp t c)"
proof -
  have "awaits rpc m P (snd (probe_hit e v t c))" "tr_rpc (fst (probe_hit e v t c)) = tr_rpc t"
    if "awaits rpc m P c" for v t and c :: client
    using that by (simp_all add: probe_hit_def Let_def split: option.split)
  moreover have "awaits rpc m P (snd (progress e fresh t c))" "tr_rpc (fst (progress e fresh t c)) = tr_rpc t"
    if "awaits rpc m P c" for t and c :: client
    using that by (simp_all add: progress_def)
  ultimately show ?thesis using assms unfolding data_arrived_def Let_def split_def
    by (intro arrival.spared_replace [where P = P] arrival.spared_flush arrival.spared_start)
       (simp_all add: start_parts count_payload_def Let_def)
qed

lemma awaits_payload:
  assumes off: "is_integer off"
  shows "hold (awaits rpc m (gathered n h True C)) (take_payload e rpc off p)
    (awaits rpc m (lacking n h True (C \<union> {off..<off + len p}))) (\<lambda>_. True)"
  unfolding take_payload_def
proof (rule hold_transfer, erule (1) arrival.spared_gone)
  fix t :: transfer
  let ?P = "\<lambda>c. awaits rpc m (gathered n h True C) c \<and> jm_get (cl_transfers c) rpc = Some t"
  let ?Q = "awaits rpc m (lacking n h True (C \<union> {off..<off + len p}))"
  let ?rest = "with_transfer rpc (\<lambda>t.
      if (case tr_asm t of None \<Rightarrow> False | Some a \<Rightarrow> asm_complete a) \<and> tr_headers t \<noteq> None
      then finish e t None
      else whenA (since (ev_now e) (tr_lastDetect t) DETECT_INTERVAL_MS) (detectLoss e rpc))"
  show "hold ?P (case (tr_asm t, tr_repair t) of
       (Some a, Some rp) \<Rightarrow>
         (case asm_add off p a of
            Inl _ \<Rightarrow> finish e t (Some ReassemblyRangeError)
          | Inr (fresh, a') \<Rightarrow> thenA (doA (data_arrived e off p fresh a' rp t)) ?rest)
     | _ \<Rightarrow> retA ()) ?Q (\<lambda>_. True)"
  proof (rule hold_because [where F = "tr_rpc t = rpc \<and> gathered n h True C (arrived t)"])
    fix c assume "?P c"
    then show "tr_rpc t = rpc \<and> gathered n h True C (arrived t)" by (auto simp: arrival.spared_def dest: keyed_get)
  next
    assume g: "tr_rpc t = rpc \<and> gathered n h True C (arrived t)"
    then obtain a rp where t: "tr_asm t = Some a" "tr_repair t = Some rp"
      by (auto simp: gathered_def arrived_def split: option.splits)
    show ?thesis
    proof (cases "asm_add off p a")
      case (Inl x)
      have "hold ?P (finish e t (Some ReassemblyRangeError)) ?Q (\<lambda>_. True)" by (rule arrival.finish_own)
      then show ?thesis using t Inl by simp
    next
      case (Inr r)
      obtain fresh a' where r: "r = (fresh, a')" by fastforce
      have "gathered n h True (C \<union> {off..<off + len p}) (arrived (t\<lparr>tr_asm := Some a'\<rparr>))"
        by (rule gathered_more [OF _ t(1) _ off]) (use g Inr r in auto)
      then have d: "hold ?P (doA (data_arrived e off p fresh a' rp t))
          (awaits rpc m (gathered n h True (C \<union> {off..<off + len p}))) (\<lambda>_. True)"
        using g by (intro hold_do awaits_data_arrived) auto
      have "hold (awaits rpc m (gathered n h True (C \<union> {off..<off + len p}))) ?rest ?Q (\<lambda>_. True)"
        by (rule complete_or_not) (intro upholds)
      from hold_then [OF d this] show ?thesis using t Inr r by simp
    qed
  qed
qed

lemma awaits_data:
  assumes "is_integer off" "is_integer n" "0 \<le> n"
  shows "hold (awaits rpc m (lacking n h d C)) (handle_data e rpc n off p)
    (awaits rpc m (lacking n h True (C \<union> {off..<off + len p}))) (\<lambda>_. True)"
  unfolding handle_data_def
proof (rule hold_transfer, erule (1) arrival.spared_gone)
  fix t :: transfer
  let ?P = "\<lambda>c. awaits rpc m (lacking n h d C) c \<and> jm_get (cl_transfers c) rpc = Some t"
  let ?Q = "awaits rpc m (lacking n h True (C \<union> {off..<off + len p}))"
  note pay = awaits_payload [OF assms(1), of rpc m n h C e p]
  show "hold ?P (case tr_asm t of
       None \<Rightarrow> thenA (doA (open_body n t)) (take_payload e rpc off p)
     | Some a \<Rightarrow>
         if n \<noteq> asm_size a then finish e t (Some (Http4Error TotalSizeChanged None))
         else take_payload e rpc off p) ?Q (\<lambda>_. True)"
  proof (cases "tr_asm t")
    case None
    have "awaits rpc m (gathered n h True C) (open_body n t c)" if "?P c" for c
    proof -
      have t: "tr_rpc t = rpc" "gathered n h d C (arrived t)" "awaits rpc m (lacking n h d C) c"
        using that by (auto simp: arrival.spared_def lacking_def dest: keyed_get)
      then have "gathered n h True C (arrived (t\<lparr>tr_asm := Some (new_reassembly n), tr_repair := Some new_repair\<rparr>))"
        using None asm_new_ok [OF assms(2,3)] by (simp add: gathered_def arrived_def new_reassembly_def)
      then show ?thesis unfolding open_body_def by (intro arrival.spared_replace) (use t in simp_all)
    qed
    then show ?thesis using None hold_then [OF hold_do pay] by simp
  next
    case (Some a)
    have fin: "hold ?P (finish e t (Some x)) ?Q (\<lambda>_. True)" for x by (rule arrival.finish_own)
    have "awaits rpc m (gathered n h True C) c" if "?P c" for c
    proof -
      have "gathered n h d C (arrived t)" using that by (auto simp: arrival.spared_def lacking_def)
      then have "gathered n h True C (arrived t)" using Some by (auto simp: gathered_def arrived_def)
      then show ?thesis using that by (auto simp: arrival.spared_def)
    qed
    then have "hold ?P (take_payload e rpc off p) ?Q (\<lambda>_. True)" by (rule hold_pre [OF pay])
    with fin show ?thesis unfolding Some option.case by (rule hold_cases)
  qed
qed

section \<open>A packet for the request\<close>

fun meta_of :: "int \<Rightarrow> packet \<Rightarrow> bool" where
  "meta_of rpc (Meta r flds) = (r = rpc)"
| "meta_of rpc _ = False"

fun bytes_of :: "int \<Rightarrow> packet \<Rightarrow> num set option" where
  "bytes_of rpc (Data r tot off p) = (if r = rpc then Some {off..<off + len p} else None)"
| "bytes_of rpc (DataSeq r tot off sq p) = (if r = rpc then Some {off..<off + len p} else None)"
| "bytes_of rpc _ = None"

lemma other_packet: "rpcId p \<noteq> rpc \<Longrightarrow> \<not> meta_of rpc p \<and> bytes_of rpc p = None"
  by (cases p) auto

definition lacks :: "(int \<Rightarrow> byte list) \<Rightarrow> int \<Rightarrow> num \<Rightarrow> bool \<Rightarrow> bool \<Rightarrow> num set \<Rightarrow> client \<Rightarrow> bool" where
  "lacks A rpc m h d C = awaits rpc m (lacking (len (A rpc)) h d C)"

abbreviation lacks_after where
  "lacks_after A rpc m h d C p \<equiv>
     lacks A rpc m (h \<or> meta_of rpc p) (d \<or> bytes_of rpc p \<noteq> None) (C \<union> or_default (bytes_of rpc p) {})"

lemma lacks_deliver:
  assumes "truthful_packet A H p" "\<And>r tot off sq b. p \<noteq> DataSeq r tot off sq b"
  shows "hold (lacks A rpc m h d C) (deliver e p) (lacks_after A rpc m h d C p) (\<lambda>_. True)"
proof (cases "rpcId p = rpc")
  case False
  show ?thesis unfolding lacks_def
    by (rule hold_post [OF arrival.spares_deliver [OF False, unfolded upholding_def]])
       (use other_packet [OF False] in \<open>simp_all add: or_default_def\<close>)
next
  case True
  let ?P = "awaits rpc m (lacking (len (A rpc)) h d C)"
  have reply: "hold ?P (note_reply e rpc) ?P (\<lambda>_. True)"
    by (rule hold_post [OF arrival.spares_reply [unfolded upholding_def]]) simp_all
  have err: "hold (\<lambda>c. ?P c \<and> jm_get (cl_transfers c) rpc = Some t) (finish e t err) ?P (\<lambda>_. True)" for t err
    by (rule arrival.finish_own)
  have other: "hold (\<lambda>c. ?P c \<and> jm_get (cl_transfers c) rpc = Some t) (doA (upd_stats f)) ?P (\<lambda>_. True)" for t f
    by (rule hold_do) simp
  show ?thesis unfolding deliver_def lacks_def True
  proof (rule hold_transfer, erule (1) arrival.spared_gone)
    fix t :: transfer
    show "hold (\<lambda>c. ?P c \<and> jm_get (cl_transfers c) rpc = Some t)
        (case p of
          Meta rpc flds \<Rightarrow> thenA (note_reply e rpc) (handle_meta e rpc flds)
        | Data rpc tot off pl \<Rightarrow> thenA (note_reply e rpc) (handle_data e rpc tot off pl)
        | ErrorPacket rpc code \<Rightarrow> finish e t (Some (Http4Error (ServerSaid code) (Some code)))
        | _ \<Rightarrow> doA (upd_stats (\<lambda>s. s\<lparr>malformedIn := malformedIn s + 1\<rparr>)))
        (awaits rpc m (lacking (len (A rpc)) (h \<or> meta_of rpc p) (d \<or> bytes_of rpc p \<noteq> None)
          (C \<union> or_default (bytes_of rpc p) {}))) (\<lambda>_. True)"
    proof (cases p)
      case (Meta r flds)
      have "hold (\<lambda>c. ?P c \<and> jm_get (cl_transfers c) rpc = Some t) (thenA (note_reply e rpc) (handle_meta e rpc flds))
          (awaits rpc m (lacking (len (A rpc)) True d C)) (\<lambda>_. True)"
        by (rule hold_pre [OF hold_then [OF reply awaits_meta]]) simp
      then show ?thesis using True Meta by (simp add: or_default_def)
    next
      case (Data r tot off pl)
      then have o: "is_integer off" "tot = len (A rpc)" using assms True by (auto simp: truthful_packet_def payload_of_def)
      have "is_integer (len (A rpc))" "0 \<le> len (A rpc)" by simp_all
      then have "hold (\<lambda>c. ?P c \<and> jm_get (cl_transfers c) rpc = Some t)
          (thenA (note_reply e rpc) (handle_data e rpc (len (A rpc)) off pl))
          (awaits rpc m (lacking (len (A rpc)) h True (C \<union> {off..<off + len pl}))) (\<lambda>_. True)"
        by (intro hold_pre [OF hold_then [OF reply awaits_data [OF o(1)]]]) simp_all
      then show ?thesis using True Data o by (simp add: or_default_def)
    qed (use True err other assms(2) in \<open>simp_all add: or_default_def\<close>)
  qed
qed

lemma lacks_handle:
  assumes "truthful_packet A H p"
  shows "hold (lacks A rpc m h d C) (handle e p) (lacks_after A rpc m h d C p) (\<lambda>_. True)"
proof (cases p)
  case (DataSeq r tot off sq b)
  let ?P = "lacks A rpc m h d C" and ?p = "Data r tot off b"
  have p: "truthful_packet A H ?p" using assms DataSeq by (simp add: truthful_packet_def)
  have "bytes_of rpc ?p = bytes_of rpc p" "meta_of rpc ?p = meta_of rpc p" using DataSeq by simp_all
  then have d: "hold ?P (deliver e ?p) (lacks_after A rpc m h d C p) (\<lambda>_. True)"
    using lacks_deliver [OF p, of rpc m h d C e] by simp
  have "hold ?P (doA (seq_arrived e r off sq b)) ?P (\<lambda>_. True)" unfolding lacks_def by (rule hold_do) simp
  moreover have "hold ?P (readA (\<lambda>c. whenA (since (ev_now e) (cl_lastSeqDetect c) DETECT_INTERVAL_MS) (detectSeqLoss e))) ?P (\<lambda>_. True)"
    unfolding lacks_def by (rule hold_post [where X' = ?P, unfolded lacks_def], rule upholding_def [THEN iffD1]) (intro upholds, simp_all)
  ultimately show ?thesis unfolding handle_def DataSeq packet.case
    by (intro hold_then [OF _ hold_then [OF _ d [unfolded DataSeq]]])
qed (use lacks_deliver [OF assms] in \<open>simp_all add: handle_def\<close>)

section \<open>What rejects a request\<close>

abbreviation gave_up_waiting :: "js_error" where
  "gave_up_waiting \<equiv> Http4Error NoProgress None"

definition spotless :: "int \<Rightarrow> client \<Rightarrow> bool" where
  "spotless rpc c \<longleftrightarrow> keyed c \<and> (\<forall>x. RejectWith rpc x \<in> set (log_of rpc c) \<longrightarrow> x = gave_up_waiting)"

abbreviation stays :: "int \<Rightarrow> unit act \<Rightarrow> bool" where
  "stays rpc \<equiv> upholding (spotless rpc) (spotless rpc)"

lemma spotless_core: "core c = core d \<Longrightarrow> spotless rpc c = spotless rpc d"
  using caller.keyed_cong [of c d] by (simp add: spotless_def log_of_core)

lemma stays_quiet: "quiet m \<Longrightarrow> stays rpc m"
proof -
  assume q: "quiet m"
  have "spotless rpc (snd (m c))" if s: "spotless rpc c" for c
  proof -
    have "core (snd (m c)) = core c" using caller.quiet_core [OF q] s by (simp add: spotless_def)
    then show ?thesis using spotless_core s by blast
  qed
  then show ?thesis unfolding upholding_def hold_def by (auto split: prod.split sum.split) (metis snd_conv)+
qed

lemma spotless_rest [simp]:
  "spotless rpc (c\<lparr>cl_ticker := v1\<rparr>) = spotless rpc c" "spotless rpc (c\<lparr>cl_reading := v2\<rparr>) = spotless rpc c"
  "spotless rpc (c\<lparr>cl_closed := v3\<rparr>) = spotless rpc c" "spotless rpc (c\<lparr>cl_budget := v4\<rparr>) = spotless rpc c"
  "spotless rpc (upd_stats f c) = spotless rpc c" "spotless rpc (c\<lparr>cl_sched := v5\<rparr>) = spotless rpc c"
  "spotless rpc (c\<lparr>cl_payloadSeen := v6\<rparr>) = spotless rpc c" "spotless rpc (lossBackoff now c) = spotless rpc c"
  "spotless rpc (noteSpurious now c) = spotless rpc c" "spotless rpc (c\<lparr>cl_initialRto := v7\<rparr>) = spotless rpc c"
  "spotless rpc (c\<lparr>cl_lastBackoffAt := v8\<rparr>) = spotless rpc c"
  by (rule spotless_core; simp)+

lemma spotless_emit: "spotless rpc (emit x c) \<longleftrightarrow> spotless rpc c \<and> (\<forall>y. x = RejectWith rpc y \<longrightarrow> y = gave_up_waiting)"
  by (auto simp: spotless_def log_of_emit keyed_def)

lemma spotless_put [simp]: "spotless rpc c \<Longrightarrow> spotless rpc (put_transfer t c)"
  by (auto simp: spotless_def keyed_def put_transfer_def log_of_def)

lemma spotless_delete [simp]: "spotless rpc c \<Longrightarrow> spotless rpc (c\<lparr>cl_transfers := jm_delete r (cl_transfers c)\<rparr>)"
  by (auto simp: spotless_def keyed_def log_of_def)

lemma stays_transfer [upholds]:
  "(\<And>t. tr_rpc t = r \<Longrightarrow> stays rpc (f t)) \<Longrightarrow> stays rpc (with_transfer r f)"
  unfolding upholding_def
proof (rule hold_transfer)
  fix t :: transfer
  assume f: "\<And>t. tr_rpc t = r \<Longrightarrow> hold (spotless rpc) (f t) (spotless rpc) (spotless rpc)"
  show "hold (\<lambda>c. spotless rpc c \<and> jm_get (cl_transfers c) r = Some t) (f t) (spotless rpc) (spotless rpc)"
  proof (rule hold_because [where F = "tr_rpc t = r"])
    assume "tr_rpc t = r"
    from f [OF this] show ?thesis by (rule hold_pre) simp
  qed (auto simp: spotless_def dest: keyed_get)
qed

lemma stays_throw [upholds]: "stays rpc (throwA x)"
  unfolding upholding_def by (intro hold_throw)

lemma stays_catch [upholds]: "stays rpc m \<Longrightarrow> (\<And>x. stays rpc (h x)) \<Longrightarrow> stays rpc (catchA m h)"
  unfolding upholding_def by (rule hold_catch)

lemmas stays_quietly [upholds] = stays_quiet [OF caller.quiet_detect] stays_quiet [OF caller.quiet_probe]
  stays_quiet [OF caller.quiet_detect_seq] stays_quiet [OF caller.quiet_pump] stays_quiet [OF caller.quiet_hello]
  stays_quiet [OF caller.quiet_send] stays_quiet [OF quiet_again] stays_quiet [OF quiet_note_reply]
  stays_quiet [OF quiet_pull] stays_quiet [OF quiet_arrived]

lemma spotless_flush [simp]: "spotless rpc (snd (flushStream e t c)) = spotless rpc c"
  by (simp add: flushStream_def flush_chunk_def Let_def split_def spotless_emit split: option.split)

lemma spotless_start [simp]: "spotless rpc (snd (maybeStart t c)) = spotless rpc c"
  by (simp add: maybeStart_def spotless_emit split: option.split)

lemma spotless_steps [simp]:
  "spotless rpc (snd (probe_hit e v t c)) = spotless rpc c" "spotless rpc (snd (progress e fresh t c)) = spotless rpc c"
  by (simp_all add: probe_hit_def progress_def Let_def split: option.split)

lemma spotless_data_arrived [simp]: "spotless rpc c \<Longrightarrow> spotless rpc (data_arrived e off p fresh a rp t c)"
  by (simp add: data_arrived_def Let_def split_def count_payload_def)

lemma stays_finish [upholds]:
  assumes "tr_rpc t = rpc \<Longrightarrow> err = None \<or> err = Some gave_up_waiting"
  shows "stays rpc (finish e t err)"
proof -
  have k: "spotless rpc (settle_transfer err u (close_stream err u d))" if "spotless rpc d" "tr_rpc u = tr_rpc t" for u d
    using that assms by (auto simp: settle_transfer_def close_stream_def spotless_emit split: option.split)
  have "spotless rpc (finish_core e t err c)" if "spotless rpc c" for c
    unfolding finish_core_def Let_def split_def
    by (rule k) (use that in \<open>simp_all add: flush_same\<close>)
  then show ?thesis unfolding finish_def by (intro upholds)
qed

lemma stays_tick [upholds]: "stays rpc (tick e)"
proof -
  have "stays rpc (tick_transfer e r)" for r
    unfolding tick_transfer_def recover_def Let_def
    by (intro upholds) (simp_all add: recover_prepare_def Let_def)
  then show ?thesis unfolding tick_def by (intro upholds) simp_all
qed

lemma stays_meta: "stays rpc (handle_meta e r flds)"
  unfolding handle_meta_def by (intro upholds) (simp_all add: start_body_def split_def Let_def)

text \<open>Pieces that fit the asset. The pieces of other requests do not matter.\<close>

definition sized :: "int \<Rightarrow> num \<Rightarrow> client \<Rightarrow> bool" where
  "sized rpc n c \<longleftrightarrow> (\<forall>t a. jm_get (cl_transfers c) rpc = Some t \<longrightarrow> tr_asm t = Some a \<longrightarrow> asm_size a = n)"

lemma lacks_sized: "lacks A rpc m h d C c \<Longrightarrow> sized rpc (len (A rpc)) c"
  by (auto simp: lacks_def arrival.spared_def sized_def lacking_def gathered_def arrived_def)

lemma spotless_payload:
  assumes "0 \<le> off" "off + len p \<le> n"
  shows "hold (\<lambda>c. spotless rpc c \<and> sized rpc n c) (take_payload e rpc off p) (spotless rpc) (spotless rpc)"
  unfolding take_payload_def
proof (rule hold_transfer, simp)
  fix t :: transfer
  let ?rest = "with_transfer rpc (\<lambda>t.
      if (case tr_asm t of None \<Rightarrow> False | Some a \<Rightarrow> asm_complete a) \<and> tr_headers t \<noteq> None
      then finish e t None
      else whenA (since (ev_now e) (tr_lastDetect t) DETECT_INTERVAL_MS) (detectLoss e rpc))"
  let ?P = "\<lambda>c. (spotless rpc c \<and> sized rpc n c) \<and> jm_get (cl_transfers c) rpc = Some t"
  let ?m = "\<lambda>a rp. case asm_add off p a of
            Inl _ \<Rightarrow> finish e t (Some ReassemblyRangeError)
          | Inr (fresh, a') \<Rightarrow> thenA (doA (data_arrived e off p fresh a' rp t)) ?rest"
  have rest: "stays rpc ?rest" by (intro upholds) simp
  have fits: "\<exists>r. asm_add off p a = Inr r" if "asm_size a = n" for a
    using assms that by (auto simp: asm_add_def Let_def split_def)
  have ret: "hold ?P (retA ()) (spotless rpc) (spotless rpc)" by (rule hold_ret) simp
  have "hold ?P (?m a rp) (spotless rpc) (spotless rpc)" if a: "tr_asm t = Some a" for a rp
  proof (rule hold_because [where F = "asm_size a = n"])
    fix c assume "?P c"
    then show "asm_size a = n" using a by (simp add: sized_def)
  next
    assume "asm_size a = n"
    then obtain fresh a' where r: "asm_add off p a = Inr (fresh, a')" using fits by fastforce
    have "stays rpc (thenA (doA (data_arrived e off p fresh a' rp t)) ?rest)"
      by (intro upholding_then upholding_do rest) simp
    then show ?thesis unfolding upholding_def using hold_pre r by fastforce
  qed
  then show "hold ?P (case (tr_asm t, tr_repair t) of (Some a, Some rp) \<Rightarrow> ?m a rp | _ \<Rightarrow> retA ()) (spotless rpc) (spotless rpc)"
    using ret by (cases "tr_asm t"; cases "tr_repair t") simp_all
qed

lemma opened: "spotless rpc c \<Longrightarrow> tr_rpc t = rpc \<Longrightarrow> spotless rpc (open_body n t c) \<and> sized rpc n (open_body n t c)"
  by (simp add: open_body_def) (simp add: sized_def put_transfer_def new_reassembly_def)

lemma spotless_data:
  assumes "0 \<le> off" "off + len p \<le> n"
  shows "hold (\<lambda>c. spotless rpc c \<and> sized rpc n c) (handle_data e rpc n off p) (spotless rpc) (spotless rpc)"
  unfolding handle_data_def
proof (rule hold_transfer, simp)
  fix t :: transfer
  let ?P = "\<lambda>c. (spotless rpc c \<and> sized rpc n c) \<and> jm_get (cl_transfers c) rpc = Some t"
  note pay = spotless_payload [OF assms, of rpc e]
  show "hold ?P (case tr_asm t of
       None \<Rightarrow> thenA (doA (open_body n t)) (take_payload e rpc off p)
     | Some a \<Rightarrow>
         if n \<noteq> asm_size a then finish e t (Some (Http4Error TotalSizeChanged None))
         else take_payload e rpc off p) (spotless rpc) (spotless rpc)"
  proof (rule hold_because [where F = "tr_rpc t = rpc"])
    fix c assume "?P c"
    then show "tr_rpc t = rpc" by (auto simp: spotless_def dest: keyed_get)
  next
    assume t: "tr_rpc t = rpc"
    show ?thesis
    proof (cases "tr_asm t")
      case None
      have "hold ?P (thenA (doA (open_body n t)) (take_payload e rpc off p)) (spotless rpc) (spotless rpc)"
        by (rule hold_then [OF hold_do pay]) (use t opened in simp)
      then show ?thesis using None by simp
    next
      case (Some a)
      have k: "hold ?P (take_payload e rpc off p) (spotless rpc) (spotless rpc)" by (rule hold_pre [OF pay]) simp
      show ?thesis unfolding Some option.case
        by (rule hold_because [where F = "asm_size a = n"]) (use Some k in \<open>simp_all add: sized_def\<close>)
    qed
  qed
qed

definition served :: "(int \<Rightarrow> byte list) \<Rightarrow> int \<Rightarrow> num \<Rightarrow> bool \<Rightarrow> bool \<Rightarrow> num set \<Rightarrow> client \<Rightarrow> bool" where
  "served A rpc m h d C c \<longleftrightarrow> spotless rpc c \<and> lacks A rpc m h d C c"

lemma hold_both:
  "hold P m Q X \<Longrightarrow> hold P m Q' X' \<Longrightarrow> hold P m (\<lambda>c. Q c \<and> Q' c) (\<lambda>_. True)"
  by (fastforce simp: hold_def split: prod.splits sum.splits)

lemma served_keeps:
  assumes "stays rpc m" "arrival.spares rpc r False (lacking (len (A rpc)) h d C) m"
  shows "hold (served A rpc r h d C) m (served A rpc r h d C) (\<lambda>_. True)"
  unfolding served_def
  by (rule hold_both [OF hold_pre [OF assms(1) [unfolded upholding_def]] hold_pre [OF assms(2) [unfolded upholding_def]], folded lacks_def])
     (simp_all add: lacks_def)

lemma stays_deliver:
  assumes "rpcId p \<noteq> rpc"
  shows "stays rpc (deliver e p)"
proof -
  have pay: "stays rpc (take_payload e r off b)" if "r \<noteq> rpc" for r off b
    unfolding take_payload_def split_def prod.case
    by (intro upholds) (use that in \<open>auto split: sum.split intro!: upholds\<close>)
  have "stays rpc (handle_data e r tot off b)" if "r \<noteq> rpc" for r tot off b
    unfolding handle_data_def by (intro upholds pay) (use that in \<open>simp_all add: open_body_def\<close>)
  then show ?thesis using assms unfolding deliver_def
    by (intro stays_transfer) (cases p; simp; intro upholds stays_meta; simp)
qed

lemma spotless_deliver:
  assumes "truthful_packet A H p" "\<And>r tot off sq b. p \<noteq> DataSeq r tot off sq b"
    "\<And>code. p \<noteq> ErrorPacket rpc code"
  shows "hold (served A rpc m h d C) (deliver e p) (spotless rpc) (\<lambda>_. True)"
proof (cases "rpcId p = rpc")
  case False
  show ?thesis
    by (rule hold_post [OF hold_pre [OF stays_deliver [OF False, unfolded upholding_def]]]) (simp_all add: served_def)
next
  case True
  note reply = served_keeps [OF stays_quietly(8) arrival.spares_reply, of A rpc m h d C e rpc]
  show ?thesis unfolding deliver_def True
  proof (rule hold_transfer)
    fix t :: transfer
    let ?P = "\<lambda>c. served A rpc m h d C c \<and> jm_get (cl_transfers c) rpc = Some t"
    have other: "hold ?P (doA (upd_stats f)) (spotless rpc) (\<lambda>_. True)" for f
      by (rule hold_do) (simp add: served_def)
    have meta: "hold ?P (thenA (note_reply e rpc) (handle_meta e rpc flds)) (spotless rpc) (\<lambda>_. True)" for flds
      by (rule hold_then [OF hold_pre [OF reply] hold_post [OF hold_pre [OF stays_meta [unfolded upholding_def]]]])
         (simp_all add: served_def)
    have data: "hold ?P (thenA (note_reply e rpc) (handle_data e rpc (len (A rpc)) off b)) (spotless rpc) (\<lambda>_. True)"
      if "0 \<le> off" "off + len b \<le> len (A rpc)" for off b
      by (rule hold_then [OF hold_pre [OF reply] hold_post [OF hold_pre [OF spotless_data [OF that]]]])
         (auto simp: served_def intro: lacks_sized)
    show "hold ?P (case p of
          Meta rpc flds \<Rightarrow> thenA (note_reply e rpc) (handle_meta e rpc flds)
        | Data rpc tot off pl \<Rightarrow> thenA (note_reply e rpc) (handle_data e rpc tot off pl)
        | ErrorPacket rpc code \<Rightarrow> finish e t (Some (Http4Error (ServerSaid code) (Some code)))
        | _ \<Rightarrow> doA (upd_stats (\<lambda>s. s\<lparr>malformedIn := malformedIn s + 1\<rparr>))) (spotless rpc) (\<lambda>_. True)"
    proof (cases p)
      case (Data r tot off b)
      then have o: "0 \<le> off" "off + len b \<le> len (A rpc)" "tot = len (A rpc)"
        using assms True by (auto simp: truthful_packet_def payload_of_def)
      from data [OF o(1,2)] show ?thesis using Data True o(3) by simp
    next
      case (ErrorPacket r code)
      then show ?thesis using assms(3) [of code] True by simp
    qed (use True assms(2) other meta in simp_all)
  qed (simp add: served_def)
qed

abbreviation served_after where
  "served_after A rpc m h d C p \<equiv>
     served A rpc m (h \<or> meta_of rpc p) (d \<or> bytes_of rpc p \<noteq> None) (C \<union> or_default (bytes_of rpc p) {})"

lemma served_deliver:
  assumes "truthful_packet A H p" "\<And>r tot off sq b. p \<noteq> DataSeq r tot off sq b" "\<And>code. p \<noteq> ErrorPacket rpc code"
  shows "hold (served A rpc m h d C) (deliver e p) (served_after A rpc m h d C p) (\<lambda>_. True)"
  unfolding served_def [of A rpc m "h \<or> meta_of rpc p"]
  by (rule hold_both [OF spotless_deliver [OF assms] hold_pre [OF lacks_deliver [OF assms(1,2)]]]) (simp add: served_def)

lemma served_handle:
  assumes "truthful_packet A H p" "\<And>code. p \<noteq> ErrorPacket rpc code"
  shows "hold (served A rpc m h d C) (handle e p) (served_after A rpc m h d C p) (\<lambda>_. True)"
proof (cases p)
  case (DataSeq r tot off sq b)
  let ?p = "Data r tot off b"
  have p: "truthful_packet A H ?p" using assms DataSeq by (simp add: truthful_packet_def)
  have "bytes_of rpc ?p = bytes_of rpc p" "meta_of rpc ?p = meta_of rpc p" using DataSeq by simp_all
  then have d: "hold (served A rpc m h d C) (deliver e ?p) (served_after A rpc m h d C p) (\<lambda>_. True)"
    using served_deliver [OF p, of rpc m h d C e] by simp
  have "arrival.spares rpc m False P (doA (seq_arrived e r off sq b))" for P
    by (intro upholds) simp
  then have 1: "hold (served A rpc m h d C) (doA (seq_arrived e r off sq b)) (served A rpc m h d C) (\<lambda>_. True)"
    by (rule served_keeps [OF stays_quiet [OF quiet_arrived]])
  have 2: "hold (served A rpc m h d C) (readA (\<lambda>c. whenA (since (ev_now e) (cl_lastSeqDetect c) DETECT_INTERVAL_MS) (detectSeqLoss e)))
      (served A rpc m h d C) (\<lambda>_. True)"
    by (rule served_keeps) (intro upholds)+
  show ?thesis unfolding handle_def DataSeq packet.case by (rule hold_then [OF 1 hold_then [OF 2 d [unfolded DataSeq]]])
qed (use served_deliver [OF assms(1) _ assms(2)] in \<open>simp_all add: handle_def\<close>)

section \<open>Events\<close>

definition packet_in :: "client_ev \<Rightarrow> packet option" where
  "packet_in ev = (case ev of Datagram b \<Rightarrow> (case decode b of Inr p \<Rightarrow> Some p | Inl _ \<Rightarrow> None) | _ \<Rightarrow> None)"

definition brings_meta :: "int \<Rightarrow> client_ev \<Rightarrow> bool" where
  "brings_meta rpc ev \<longleftrightarrow> (case packet_in ev of None \<Rightarrow> False | Some p \<Rightarrow> meta_of rpc p)"

definition brings_bytes :: "int \<Rightarrow> client_ev \<Rightarrow> num set option" where
  "brings_bytes rpc ev = Option.bind (packet_in ev) (bytes_of rpc)"

text \<open>The page does not cancel the request, the server does not refuse it and the session does not end.\<close>

definition undisturbed :: "int \<Rightarrow> client_ev \<Rightarrow> bool" where
  "undisturbed rpc ev \<longleftrightarrow> ev \<noteq> Cancel rpc \<and> ev \<noteq> SessionEnd \<and> (\<forall>code. packet_in ev \<noteq> Some (ErrorPacket rpc code))"

abbreviation served_next where
  "served_next A rpc m h d C ev \<equiv>
     served A rpc m (h \<or> brings_meta rpc ev) (d \<or> brings_bytes rpc ev \<noteq> None) (C \<union> or_default (brings_bytes rpc ev) {})"

lemma served_read_one:
  assumes "truthful A H (Datagram b)" "undisturbed rpc (Datagram b)"
  shows "hold (served A rpc m h d C) (read_one e b) (served_next A rpc m h d C (Datagram b)) (\<lambda>_. True)"
proof -
  have count: "hold (served A rpc m h d C) (doA (upd_stats f)) (served A rpc m h d C) (\<lambda>_. True)" for f
    by (rule hold_do) (simp add: served_def lacks_def)
  show ?thesis
  proof (cases "decode b")
    case (Inl x)
    have "hold (served A rpc m h d C) (throwA y) (served A rpc m h d C) (\<lambda>_. True)" for y by (rule hold_throw) simp
    then show ?thesis unfolding read_one_def Inl sum.case
      using Inl by (intro hold_then [OF count]) (cases x; simp add: brings_meta_def brings_bytes_def packet_in_def or_default_def count)
  next
    case (Inr p)
    have p: "truthful_packet A H p" "p \<noteq> ErrorPacket rpc code" for code
      using assms Inr by (auto simp: undisturbed_def packet_in_def)
    have n: "packet_in (Datagram b) = Some p" using Inr by (simp add: packet_in_def)
    have "hold (served A rpc m h' d' C') (pumpGrants e) (served A rpc m h' d' C') (\<lambda>_. True)" for h' d' C'
      by (rule served_keeps) (intro upholds)+
    then show ?thesis unfolding read_one_def Inr sum.case brings_meta_def brings_bytes_def n option.case bind.simps
      by (intro hold_then [OF count] hold_then [OF served_handle [OF p]])
  qed
qed

lemma served_step:
  assumes "sound c" "truthful A H ev" "undisturbed rpc ev" "rpc \<notin> starts ev" "served A rpc m h d C c"
  shows "served_next A rpc m h d C ev (snd (client_step e ev c))"
proof -
  have none: ?thesis if "packet_in ev = None" "stays rpc (client_step e ev)" "lacks A rpc m h d C (snd (client_step e ev c))"
    using that upholding_state [of "spotless rpc" "client_step e ev" c] assms(5)
    by (simp add: served_def brings_meta_def brings_bytes_def or_default_def)
  have quietly: "lacks A rpc m h d C (snd (client_step e ev c))" if "silent rpc ev" "ev \<noteq> Tick"
  proof -
    let ?P = "lacking (len (A rpc)) h d C"
    have "arrival.unpauses ?P" by (simp add: arrival.unpauses_def)
    moreover have "awaits rpc m ?P c" using assms(5) by (simp add: served_def lacks_def)
    ultimately show ?thesis unfolding lacks_def
      using arrival.quiet_step [OF that, of ?P m False c e] arrival.gone_spared [of rpc m _ ?P] by blast
  qed
  show ?thesis
  proof (cases ev)
    case (Datagram b)
    note r = served_read_one [OF assms(2,3) [unfolded Datagram], of m h d C e]
    have t: "fst (read_one e b c) = Inr ()" using safe_result [OF safe_read_one assms(1)] by blast
    moreover have "cl_reading c" using assms(1) by (simp add: sound_def)
    ultimately have "snd (client_step e ev c) = snd (read_one e b c)"
      unfolding Datagram by (cases "read_one e b c") (simp add: receive_def readA_def whenA_def catchA_def)
    then show ?thesis using r t assms(5) unfolding Datagram hold_def by (cases "read_one e b c") fastforce
  next
    case Tick
    have "stays rpc (client_step e ev)" unfolding Tick client_step.simps by (intro upholds)
    moreover have "arrival.spares rpc m False P (client_step e ev)" for P
      unfolding Tick client_step.simps by (intro upholds awaits_tick)
    ultimately show ?thesis using none Tick assms(5) upholding_state
      by (fastforce simp: packet_in_def served_def lacks_def)
  next
    case (Start r aid streaming cls)
    have "stays rpc (start_request e r aid streaming cls)"
      using assms(4) Start unfolding start_request_def Let_def
      by (intro upholds) (auto split: sum.split intro!: upholds simp: spotless_emit)
    then show ?thesis using none quietly Start assms(4) by (simp add: packet_in_def silent_def)
  next
    case (Cancel r)
    have "stays rpc (drop_transfer e r)" unfolding drop_transfer_def by (intro upholds) simp
    then show ?thesis using none quietly Cancel assms(3) by (simp add: packet_in_def silent_def undisturbed_def stream_cancel_def)
  next
    case (Pull r)
    have "stays rpc (stream_pull e r)" by (intro upholds)
    then show ?thesis using none quietly Pull by (simp add: packet_in_def silent_def)
  next
    case Close
    have "stays rpc close_client" unfolding close_client_def by (intro upholds) (simp add: spotless_emit)
    then show ?thesis using none quietly Close by (simp add: packet_in_def silent_def)
  qed (use assms(3) in \<open>simp add: undisturbed_def\<close>)
qed

text \<open>A whole run. \<open>landed\<close> is the part of the asset that has come.\<close>

definition landed :: "int \<Rightarrow> client_ev list \<Rightarrow> num set" where
  "landed rpc evs = (\<Union>ev \<in> set evs. or_default (brings_bytes rpc ev) {})"

lemma served_run:
  assumes "sound c" "list_all (truthful A H) (map snd evs)" "list_all (undisturbed rpc) (map snd evs)"
    "list_all (\<lambda>ev. rpc \<notin> starts ev) (map snd evs)" "served A rpc m h d C c"
  shows "served A rpc m (h \<or> list_ex (brings_meta rpc) (map snd evs))
    (d \<or> list_ex (\<lambda>ev. brings_bytes rpc ev \<noteq> None) (map snd evs)) (C \<union> landed rpc (map snd evs)) (client_run evs c)"
  using assms
proof (induction evs arbitrary: c h d C)
  case (Cons x evs)
  obtain e ev where x: "x = (e, ev)" by fastforce
  have s: "sound (snd (client_step e ev c))" using sound_run [OF Cons.prems(1), of "[x]"] x by simp
  have n: "served_next A rpc m h d C ev (snd (client_step e ev c))"
    by (rule served_step [where H = H]) (use Cons.prems x in simp_all)
  show ?case using Cons.IH [OF s _ _ _ n] Cons.prems x by (simp add: landed_def disj_assoc Un_assoc)
qed (simp add: landed_def)

section \<open>Ids\<close>

lemma fresh_append:
  "fresh_ids used (xs @ ys) \<longleftrightarrow> fresh_ids used xs \<and> fresh_ids (fold (\<lambda>ev u. starts ev \<union> u) xs used) ys"
  by (induction xs arbitrary: used) auto

lemma fresh_avoids: "fresh_ids used evs \<Longrightarrow> rpc \<in> used \<Longrightarrow> list_all (\<lambda>ev. rpc \<notin> starts ev) evs"
  by (induction evs arbitrary: used) auto

lemma delivery_ids:
  "delivery A H used c \<Longrightarrow> list_all (truthful A H) (map snd evs) \<Longrightarrow> fresh_ids used (map snd evs) \<Longrightarrow>
    delivery A H (fold (\<lambda>ev u. starts ev \<union> u) (map snd evs) used) (client_run evs c)"
proof (induction evs arbitrary: used c)
  case (Cons x evs)
  obtain e ev where x: "x = (e, ev)" by (cases x)
  have "delivery A H (starts ev \<union> used) (snd (client_step e ev c))"
    by (rule hold_state [OF delivers_step, of A H ev used c]) (use Cons.prems x in auto)
  then show ?case using Cons x by simp
qed simp

section \<open>The start of a request\<close>

lemma served_start:
  assumes "sound c" "jm_get (cl_transfers c) rpc = None" "log_of rpc c = []" "isOpen c"
    "encode (Req rpc (nextInitialGrant c) aid) = Inr b" "len b \<le> cl_maxDatagramSize c"
  shows "served A rpc (cl_maxRecoveries c) False False {} (snd (start_request e rpc aid streaming cls c))"
proof -
  let ?m = "cl_maxRecoveries c" and ?g = "nextInitialGrant c"
  let ?t = "new_transfer (ev_now e) rpc aid streaming cls ?g"
  let ?S = "served A rpc ?m False False {}"
  let ?rest = "thenA (doA (\<lambda>c. c\<lparr>cl_ticker := True\<rparr>))
      (thenA (doA (upd_stats (\<lambda>s. s\<lparr>reqsSent := reqsSent s + 1\<rparr>))) (thenA sendHello (send (Req rpc ?g aid))))"
  let ?a = "thenA (doA (\<lambda>c. put_transfer (?t c) c)) ?rest"
  have k: "keyed c" by (rule sound_keyed [OF assms(1)])
  have rest: "hold ?S ?rest ?S (\<lambda>_. True)"
    by (rule served_keeps) (intro upholds; simp)+
  have "hold (\<lambda>c'. c' = c) (doA (\<lambda>c. put_transfer (?t c) c)) ?S (\<lambda>_. True)"
  proof (rule hold_do)
    fix c' assume c': "c' = c"
    have "spotless rpc c" using k assms(3) by (simp add: spotless_def)
    moreover have "lacks A rpc ?m False False {} (put_transfer (?t c) c)"
      using k assms(2) by (auto simp: lacks_def arrival.spared_def keyed_def put_transfer_def new_transfer_def
          lacking_def gathered_def whole_body_def arrived_def)
    ultimately show "?S (put_transfer (?t c') c')" using c' by (simp add: served_def)
  qed
  then have a: "hold (\<lambda>c'. c' = c) ?a ?S (\<lambda>_. True)" by (rule hold_then [OF _ rest])
  have eq: "start_request e rpc aid streaming cls c = catchA ?a (\<lambda>x. doA (emit (RejectWith rpc x))) c"
    using assms(4-6) by (simp add: start_request_def readA_def Let_def)
  have send: "hold (\<lambda>_. True) (send (Req rpc ?g aid)) (\<lambda>_. True) (\<lambda>_. False)"
    by (rule hold_send) (use assms(5) in simp_all)
  have "hold (\<lambda>c'. c' = c) ?a (\<lambda>_. True) (\<lambda>_. False)"
    by (rule hold_then [OF hold_do hold_then [OF hold_do hold_then [OF hold_do hold_then [OF hello_no_throw send]]]]) simp_all
  from hold_no_throw [OF this refl] have "fst (?a c) = Inr ()" by simp
  then show ?thesis using a unfolding eq hold_def catchA_def by (cases "?a c") auto
qed

section \<open>The property\<close>

lemma all_landed:
  assumes "served A rpc m True True C c" "{0..<len (A rpc)} \<subseteq> C"
  shows "jm_get (cl_transfers c) rpc = None"
proof (rule ccontr)
  assume "jm_get (cl_transfers c) rpc \<noteq> None"
  then obtain t where "jm_get (cl_transfers c) rpc = Some t" by auto
  then have "lacking (len (A rpc)) True True C (arrived t)"
    using assms(1) by (auto simp: served_def lacks_def arrival.spared_def)
  then show False using nothing_lacking assms(2) by blast
qed

text \<open>The only answers a served request can have.\<close>

definition proper_answer :: "(int \<Rightarrow> byte list) \<Rightarrow> (int \<Rightarrow> headers) \<Rightarrow> int \<Rightarrow> effect \<Rightarrow> bool" where
  "proper_answer A H rpc x \<longleftrightarrow> x = Resolve rpc (A rpc) (H rpc) \<or> x = ResolveStream rpc (len (A rpc)) (H rpc) \<or>
     x = RejectWith rpc gave_up_waiting"

lemma served_answer:
  assumes "honest A H rpc (log_of rpc c)" "spotless rpc c" "answered rpc c"
  shows "\<exists>x. answers (log_of rpc c) = [x] \<and> proper_answer A H rpc x"
proof -
  obtain x xs where a: "answers (log_of rpc c) = x # xs" using assms(3) by (cases "answers (log_of rpc c)") (auto simp: answered_def)
  then have "xs = []" using assms(1) by (simp add: honest_def)
  have "x \<in> set (answers (log_of rpc c))" using a by simp
  then have x: "x \<in> set (log_of rpc c)" "is_answer x" "about rpc x" by (auto simp: answers_def log_of_def)
  then have "true_effect A H x" "\<And>y. x = RejectWith rpc y \<Longrightarrow> y = gave_up_waiting"
    using assms(1,2) by (auto simp: honest_def list_all_iff spotless_def)
  then have "proper_answer A H rpc x" using x(2,3) by (cases x) (auto simp: proper_answer_def)
  then show ?thesis using a \<open>xs = []\<close> by simp
qed



end
