(* ===== verification/Bookkeeping.thy ===== *)
theory Bookkeeping
  imports Completion
begin

text \<open>
  Two parts of the session keep books on the same bodies: the table of transfers
  (\<open>client/src/transport.ts\<close>) and the scheduler (\<open>client/src/scheduler.ts\<close>). \<open>linked\<close> says of one request that
  both agree: the scheduler has an entry exactly when the transfer has a body, with its size, the bytes
  received and whether the reader holds it up. The scheduler of a session is always one that \<open>sched_reach\<close>
  describes, so what Scheduler proves of those holds in every session.
\<close>

section \<open>The two books\<close>

type_synonym books = "(num \<times> num) option \<times> bool"

definition body_view :: "transfer \<Rightarrow> books" where
  "body_view t = (map_option (\<lambda>a. (asm_size a, asm_received a)) (tr_asm t),
     case tr_stream t of None \<Rightarrow> False | Some st \<Rightarrow> st_paused st)"

definition entry_view :: "sched_entry option \<Rightarrow> books" where
  "entry_view e = (case e of None \<Rightarrow> (None, False) | Some e \<Rightarrow> (Some (e_size e, e_received e), e_paused e))"

abbreviation entry :: "int \<Rightarrow> client \<Rightarrow> books" where
  "entry rpc c \<equiv> entry_view (jm_get (sc_rpcs (cl_sched c)) rpc)"

definition linked :: "int \<Rightarrow> books \<Rightarrow> client \<Rightarrow> bool" where
  "linked rpc x c \<longleftrightarrow> keyed c \<and> jm_ok (sc_rpcs (cl_sched c)) \<and> entry rpc c = x \<and>
     (case jm_get (cl_transfers c) rpc of None \<Rightarrow> x = (None, False) | Some t \<Rightarrow> body_view t = x)"

definition paired :: "int \<Rightarrow> client \<Rightarrow> bool" where
  "paired rpc c \<longleftrightarrow> linked rpc (entry rpc c) c"

abbreviation still :: "int \<Rightarrow> books \<Rightarrow> unit act \<Rightarrow> bool" where
  "still rpc x \<equiv> upholding (linked rpc x) (linked rpc x)"

lemma linked_paired: "linked rpc x c \<Longrightarrow> paired rpc c"
  by (simp add: paired_def linked_def)

definition tracks :: "int \<Rightarrow> books \<Rightarrow> transfer \<Rightarrow> bool" where
  "tracks rpc x t \<longleftrightarrow> (tr_rpc t = rpc \<longrightarrow> body_view t = x)"

lemma tracks_upd [simp]:
  "tracks rpc x (t\<lparr>tr_repair := v1\<rparr>) = tracks rpc x t" "tracks rpc x (t\<lparr>tr_lastDetect := v2\<rparr>) = tracks rpc x t"
  "tracks rpc x (t\<lparr>tr_tailProbed := v3\<rparr>) = tracks rpc x t" "tracks rpc x (t\<lparr>tr_headers := v4\<rparr>) = tracks rpc x t"
  "tracks rpc x (t\<lparr>tr_replied := v5\<rparr>) = tracks rpc x t" "tracks rpc x (t\<lparr>tr_settled := v6\<rparr>) = tracks rpc x t"
  "tracks rpc x (t\<lparr>tr_reqRetransmitted := v7\<rparr>) = tracks rpc x t" "tracks rpc x (t\<lparr>tr_ceiling := v8\<rparr>) = tracks rpc x t"
  "tracks rpc x (t\<lparr>tr_probe := v9\<rparr>) = tracks rpc x t" "tracks rpc x (t\<lparr>tr_lastProgress := v10\<rparr>) = tracks rpc x t"
  "tracks rpc x (t\<lparr>tr_recoveries := v11\<rparr>) = tracks rpc x t"
  by (simp_all add: tracks_def body_view_def)

lemma tracks_other [simp]: "tr_rpc t \<noteq> rpc \<Longrightarrow> tracks rpc x t"
  by (simp add: tracks_def)

lemma linked_rest [simp]:
  "linked rpc x (c\<lparr>cl_seq := v1\<rparr>) = linked rpc x c" "linked rpc x (c\<lparr>cl_lastSeqDetect := v2\<rparr>) = linked rpc x c"
  "linked rpc x (c\<lparr>cl_stats := v3\<rparr>) = linked rpc x c" "linked rpc x (c\<lparr>cl_budget := v4\<rparr>) = linked rpc x c"
  "linked rpc x (c\<lparr>cl_payloadSeen := v5\<rparr>) = linked rpc x c" "linked rpc x (c\<lparr>cl_initialRto := v6\<rparr>) = linked rpc x c"
  "linked rpc x (c\<lparr>cl_lastBackoffAt := v7\<rparr>) = linked rpc x c" "linked rpc x (c\<lparr>cl_srtt := v8\<rparr>) = linked rpc x c"
  "linked rpc x (c\<lparr>cl_rttvar := v9\<rparr>) = linked rpc x c" "linked rpc x (c\<lparr>cl_reorderSteps := v10\<rparr>) = linked rpc x c"
  "linked rpc x (c\<lparr>cl_lastSpuriousAt := v11\<rparr>) = linked rpc x c" "linked rpc x (c\<lparr>cl_lastLossBackoffAt := v12\<rparr>) = linked rpc x c"
  "linked rpc x (c\<lparr>cl_queueLimit := v13\<rparr>) = linked rpc x c" "linked rpc x (c\<lparr>cl_reading := v14\<rparr>) = linked rpc x c"
  "linked rpc x (c\<lparr>cl_closed := v15\<rparr>) = linked rpc x c" "linked rpc x (c\<lparr>cl_sessionClosed := v16\<rparr>) = linked rpc x c"
  "linked rpc x (c\<lparr>cl_ticker := v17\<rparr>) = linked rpc x c"
  "linked rpc x (upd_stats f c) = linked rpc x c" "linked rpc x (emit ef c) = linked rpc x c"
  by (simp_all add: linked_def keyed_def upd_stats_def emit_def cong: option.case_cong)

lemma linked_queue [simp]: "linked rpc x (syncQueueLimit c) = linked rpc x c"
  by (simp add: syncQueueLimit_def Let_def split: option.split)

lemma linked_timing [simp]:
  "linked rpc x (sampleRtt now r c) = linked rpc x c" "linked rpc x (noteSpurious now c) = linked rpc x c"
  "linked rpc x (lossBackoff now c) = linked rpc x c"
  by (simp_all add: sampleRtt_def noteSpurious_def lossBackoff_def Let_def split: option.split)

lemma linked_sched:
  "linked rpc x c \<Longrightarrow> jm_ok (sc_rpcs s) \<Longrightarrow> entry_view (jm_get (sc_rpcs s) rpc) = x \<Longrightarrow> linked rpc x (c\<lparr>cl_sched := s\<rparr>)"
  by (simp add: linked_def keyed_def)

lemma linked_put [simp]: "linked rpc x c \<Longrightarrow> tracks rpc x t \<Longrightarrow> linked rpc x (put_transfer t c)"
  by (auto simp: linked_def tracks_def keyed_def put_transfer_def split: option.splits)

lemma linked_get: "linked rpc x c \<Longrightarrow> jm_get (cl_transfers c) r = Some t \<Longrightarrow> tr_rpc t = r \<and> tracks rpc x t"
  by (auto simp: linked_def tracks_def dest: keyed_get)

section \<open>What leaves the books alone\<close>

lemma hold_linked:
  assumes "\<And>t. tr_rpc t = r \<Longrightarrow> tracks rpc x t \<Longrightarrow> hold (linked rpc x) (f t) Q X" "\<And>c. linked rpc x c \<Longrightarrow> Q c"
  shows "hold (linked rpc x) (with_transfer r f) Q X"
proof (rule hold_transfer)
  fix t :: transfer
  show "hold (\<lambda>c. linked rpc x c \<and> jm_get (cl_transfers c) r = Some t) (f t) Q X"
  proof (rule hold_because [where F = "tr_rpc t = r \<and> tracks rpc x t"])
    assume "tr_rpc t = r \<and> tracks rpc x t"
    then show "hold (\<lambda>c. linked rpc x c \<and> jm_get (cl_transfers c) r = Some t) (f t) Q X"
      using assms(1) by (auto intro: hold_pre)
  qed (use linked_get in blast)
qed (use assms(2) in blast)

lemma still_transfer [upholds]:
  "(\<And>t. tr_rpc t = r \<Longrightarrow> tracks rpc x t \<Longrightarrow> still rpc x (f t)) \<Longrightarrow> still rpc x (with_transfer r f)"
  unfolding upholding_def by (rule hold_linked)

lemma still_send [upholds]: "still rpc x (send p)"
  unfolding upholding_def by (rule hold_send) simp_all

lemma still_hello [upholds]: "still rpc x sendHello"
  unfolding sendHello_def by (intro upholds) simp

text \<open>A round of grants raises grants only.\<close>

lemma grants_view:
  assumes "jm_ok (sc_rpcs s)"
  shows "jm_ok (sc_rpcs (snd (sched_grants r s))) \<and>
    entry_view (jm_get (sc_rpcs (snd (sched_grants r s))) rpc) = entry_view (jm_get (sc_rpcs s) rpc)"
proof -
  obtain out s' where g: "sched_grants r s = (out, s')" by fastforce
  obtain ns where ns: "list_all2 raised (candidates s) ns" "sc_rpcs s' = fold (\<lambda>(k, v). jm_set k v) ns (sc_rpcs s)"
    using sched_grants_spec [OF assms g] by metis
  have "entry_view (jm_get (sc_rpcs s') rpc) = entry_view (jm_get (sc_rpcs s) rpc)"
  proof (cases "jm_get (sc_rpcs s) rpc")
    case None
    have k: "map fst ns = map fst (candidates s)" using raised_fst [OF ns(1)] by blast
    then have d: "distinct (map fst ns)" using candidates_distinct [OF assms] by simp
    have "rpc \<notin> fst ` set (candidates s)"
      using None jm.get_entries [OF assms] by (force simp: candidates_set)
    then have "map_of ns rpc = None" using k by (metis image_set map_of_eq_None_iff)
    then show ?thesis using map_of_fold_set [OF d] None by (simp add: ns(2))
  next
    case (Some e)
    then show ?thesis using sched_grants_entry [OF assms g Some] by (auto simp: entry_view_def)
  qed
  then show ?thesis using fold_set_ok [OF assms] by (simp add: g ns(2))
qed

lemma still_pump [upholds]: "still rpc x (pumpGrants e)"
  unfolding pumpGrants_def grant_one_def Let_def split_def
proof (intro upholds)
  fix c0 c :: client assume "linked rpc x c"
  then show "linked rpc x (pump_prepare c)"
    by (simp add: pump_prepare_def Let_def sched_set_budget_def) (simp add: linked_def upd_stats_def keyed_def)
next
  fix d c :: client
  assume "linked rpc x d" "linked rpc x c"
  then show "linked rpc x (c\<lparr>cl_sched := snd (sched_grants (reserved d) (cl_sched d))\<rparr>)"
    using grants_view [of "cl_sched d" "reserved d" rpc] by (intro linked_sched) (auto simp: linked_def)
qed (simp_all add: pump_after_def Let_def)

lemma still_resend [upholds]: "still rpc x (send_resend r f g)"
  unfolding send_resend_def by (intro upholds) simp

lemma still_resend_seq [upholds]: "still rpc x (sendResendSeq r)"
  unfolding sendResendSeq_def by (intro upholds) simp

lemma still_detect [upholds]: "still rpc x (detectLoss e r)"
  unfolding detectLoss_def Let_def split_def prod.case by (intro upholds) simp_all

lemma still_detect_seq [upholds]: "still rpc x (detectSeqLoss e)"
  unfolding detectSeqLoss_def Let_def split_def by (intro upholds) simp_all

lemma still_probe [upholds]: "still rpc x (tail_probe e r g)"
  unfolding tail_probe_def Let_def split_def prod.case by (intro upholds) simp_all

lemma still_again [upholds]: "still rpc x (recover_again e r g)"
  unfolding recover_again_def Let_def split_def prod.case by (intro upholds) simp_all

lemma still_reply [upholds]: "still rpc x (note_reply e r)"
  unfolding note_reply_def by (intro upholds) simp_all

lemma linked_arrived [simp]: "linked rpc x c \<Longrightarrow> linked rpc x (seq_arrived e r off sq p c)"
  by (simp add: seq_arrived_def Let_def split_def)

section \<open>What changes both books\<close>

abbreviation pairs :: "int \<Rightarrow> unit act \<Rightarrow> bool" where
  "pairs rpc \<equiv> upholding (paired rpc) (paired rpc)"

lemma paired_iff: "paired rpc c \<longleftrightarrow> (\<exists>x. linked rpc x c)"
  unfolding paired_def by (auto simp: linked_def)

lemma pairsI: "(\<And>x. hold (linked rpc x) m (paired rpc) (paired rpc)) \<Longrightarrow> pairs rpc m"
  unfolding upholding_def hold_def by (metis paired_def)

lemma pairsD: "pairs rpc m \<Longrightarrow> hold (linked rpc x) m (paired rpc) (paired rpc)"
  unfolding upholding_def by (erule hold_pre) (rule linked_paired)

lemma pairs_still: "(\<And>x. still rpc x m) \<Longrightarrow> pairs rpc m"
  by (rule pairsI) (auto simp: upholding_def intro: hold_post linked_paired)

lemmas pairs_quietly [upholds] = pairs_still [OF still_send] pairs_still [OF still_hello] pairs_still [OF still_pump]
  pairs_still [OF still_detect] pairs_still [OF still_detect_seq] pairs_still [OF still_probe]
  pairs_still [OF still_again] pairs_still [OF still_reply]

lemma pairs_transfer [upholds]:
  "(\<And>t x. tr_rpc t = r \<Longrightarrow> tracks rpc x t \<Longrightarrow> hold (linked rpc x) (f t) (paired rpc) (paired rpc)) \<Longrightarrow>
    pairs rpc (with_transfer r f)"
  by (intro pairsI hold_linked) (auto intro: linked_paired)

lemma paired_rest [simp]:
  "paired rpc (c\<lparr>cl_ticker := v1\<rparr>) = paired rpc c" "paired rpc (c\<lparr>cl_reading := v2\<rparr>) = paired rpc c"
  "paired rpc (c\<lparr>cl_closed := v3\<rparr>) = paired rpc c" "paired rpc (c\<lparr>cl_sessionClosed := v4\<rparr>) = paired rpc c"
  "paired rpc (upd_stats f c) = paired rpc c" "paired rpc (emit ef c) = paired rpc c"
  by (simp_all add: paired_iff)

lemma paired_arrived [simp]: "paired rpc c \<Longrightarrow> paired rpc (seq_arrived e r off sq p c)"
  unfolding paired_iff using linked_arrived by blast

text \<open>The end of a request.\<close>

lemma modify_absent: "sched_modify r f (sched_remove r s) = sched_remove r s" if "jm_ok (sc_rpcs s)"
  by (simp add: sched_modify_def sched_remove_def)

lemma flush_sched:
  "cl_sched (snd (flushStream e t c)) =
     (if (case tr_stream (fst (flushStream e t c)) of None \<Rightarrow> False | Some st \<Rightarrow> st_paused st) =
         (case tr_stream t of None \<Rightarrow> False | Some st \<Rightarrow> st_paused st)
      then cl_sched c else sched_set_paused (tr_rpc t) True (cl_sched c))"
  by (simp add: flushStream_def flush_chunk_def Let_def upd_stats_def emit_def split: option.split)

lemma finish_sched:
  assumes "jm_ok (sc_rpcs (cl_sched c))"
  shows "cl_sched (finish_core e t err c) = sched_remove (tr_rpc t) (cl_sched c)"
proof -
  have s: "cl_sched (settle_transfer err u d) = cl_sched d" "cl_sched (close_stream err u d) = cl_sched d" for u d
    by (simp_all add: settle_transfer_def close_stream_def emit_def split: option.split)
  show ?thesis using modify_absent [OF assms]
    by (simp add: finish_core_def Let_def split_def s flush_sched sched_set_paused_def)
qed

lemma hold_finish: "hold (linked rpc x) (finish e t err) (paired rpc) (paired rpc)"
proof -
  let ?y = "if tr_rpc t = rpc then (None, False) else x"
  have "linked rpc ?y (finish_core e t err c)" if "linked rpc x c" for c
  proof -
    have "jm_ok (sc_rpcs (cl_sched c))" using that by (simp add: linked_def)
    then show ?thesis using that
      by (simp add: linked_def keyed_def finish_core_transfers finish_sched sched_remove_def entry_view_def)
  qed
  then show ?thesis unfolding finish_def
    by (intro hold_then [OF hold_do [where Q = "linked rpc ?y"] pairsD [OF pairs_still [OF still_pump]]])
qed

lemma pairs_finish [upholds]: "pairs rpc (finish e t err)"
  by (intro pairsI hold_finish)

lemma pairs_drop: "pairs rpc (drop_transfer e r)"
proof (rule pairsI)
  fix x :: books
  let ?y = "if r = rpc then (None, False) else x"
  show "hold (linked rpc x) (drop_transfer e r) (paired rpc) (paired rpc)"
    unfolding drop_transfer_def
    by (rule hold_then [OF hold_do [where Q = "linked rpc ?y"] pairsD [OF pairs_still [OF still_pump]]])
       (simp add: linked_def keyed_def sched_remove_def entry_view_def)
qed

lemma pairs_fail: "pairs rpc (failAll e x)"
  unfolding failAll_def
  by (intro upholding_read upholding_then upholding_each upholding_do pairs_transfer hold_finish) simp

lemma pairs_recover: "pairs rpc (recover e r g)"
  unfolding recover_def Let_def
proof (rule pairs_transfer)
  fix t and x :: books assume t: "tr_rpc t = r" "tracks rpc x t"
  have "linked rpc x (recover_prepare e (t\<lparr>tr_recoveries := n\<rparr>) c)" if "linked rpc x c" for n and c :: client
    using t(2) that by (simp add: recover_prepare_def Let_def)
  then have "hold (linked rpc x) (thenA (doA (recover_prepare e (t\<lparr>tr_recoveries := n\<rparr>))) (recover_again e r g))
      (paired rpc) (paired rpc)" for n
    by (intro hold_then [OF hold_do [where Q = "linked rpc x"] pairsD [OF pairs_quietly(7)]])
  then show "hold (linked rpc x) (readA (\<lambda>c0. if of_nat (tr_recoveries (t\<lparr>tr_recoveries := tr_recoveries t + 1\<rparr>)) > cl_maxRecoveries c0
      then finish e (t\<lparr>tr_recoveries := tr_recoveries t + 1\<rparr>) (Some (Http4Error NoProgress None))
      else thenA (doA (recover_prepare e (t\<lparr>tr_recoveries := tr_recoveries t + 1\<rparr>))) (recover_again e r g)))
      (paired rpc) (paired rpc)"
    by (intro hold_read hold_pre [OF hold_cases [OF hold_finish]]) auto
qed

lemma pairs_tick_transfer: "pairs rpc (tick_transfer e r)"
  unfolding tick_transfer_def Let_def
proof (rule pairs_transfer)
  fix t and x :: books
  have "pairs rpc (with_transfer r (\<lambda>t. readA (\<lambda>c. if waiting c t then doA (put_transfer (t\<lparr>tr_lastProgress := ev_now e\<rparr>))
      else thenA (tail_probe e r (granted_now c t)) (with_transfer r (\<lambda>u. readA (\<lambda>d.
        whenA (ev_now e - tr_lastProgress u \<ge> stall_timeout d u) (recover e r (granted_now c t))))))))"
  proof (rule pairs_transfer)
    fix t and x :: books assume "tr_rpc t = r" "tracks rpc x t"
    then have "hold (linked rpc x) (doA (put_transfer (t\<lparr>tr_lastProgress := ev_now e\<rparr>))) (paired rpc) (paired rpc)"
      by (intro hold_do linked_paired [where x = x] linked_put) simp_all
    moreover have "pairs rpc (thenA (tail_probe e r g) (with_transfer r (\<lambda>u. readA (\<lambda>d.
        whenA (ev_now e - tr_lastProgress u \<ge> stall_timeout d u) (recover e r g)))))" for g
      by (intro upholding_then pairs_quietly pairs_transfer pairsD upholding_read upholding_when pairs_recover)
    ultimately show "hold (linked rpc x) (readA (\<lambda>c. if waiting c t then doA (put_transfer (t\<lparr>tr_lastProgress := ev_now e\<rparr>))
        else thenA (tail_probe e r (granted_now c t)) (with_transfer r (\<lambda>u. readA (\<lambda>d.
          whenA (ev_now e - tr_lastProgress u \<ge> stall_timeout d u) (recover e r (granted_now c t)))))))
        (paired rpc) (paired rpc)"
      by (intro hold_read hold_pre [OF hold_cases [OF _ pairsD]]) auto
  qed
  then show "hold (linked rpc x) (thenA (whenA (tr_asm t \<noteq> None) (detectLoss e r)) (with_transfer r (\<lambda>t. readA (\<lambda>c.
      if waiting c t then doA (put_transfer (t\<lparr>tr_lastProgress := ev_now e\<rparr>))
      else thenA (tail_probe e r (granted_now c t)) (with_transfer r (\<lambda>u. readA (\<lambda>d.
        whenA (ev_now e - tr_lastProgress u \<ge> stall_timeout d u) (recover e r (granted_now c t)))))))))
      (paired rpc) (paired rpc)"
    by (intro pairsD upholding_then upholding_when pairs_quietly)
qed

lemma pairs_tick: "pairs rpc (tick e)"
  unfolding tick_def
  by (intro upholding_read upholding_then upholding_when upholding_each upholding_do pairs_quietly pairs_tick_transfer) simp_all

section \<open>Datagrams\<close>

text \<open>A transfer in hand and a state that agree, apart from the table.\<close>

definition tied :: "int \<Rightarrow> books \<Rightarrow> transfer \<Rightarrow> client \<Rightarrow> bool" where
  "tied rpc x t c \<longleftrightarrow> keyed c \<and> jm_ok (sc_rpcs (cl_sched c)) \<and>
     (if tr_rpc t = rpc then body_view t = entry rpc c else linked rpc x c)"

lemma tied_put: "tied rpc x t c \<Longrightarrow> paired rpc (put_transfer t c)"
  by (auto simp: tied_def paired_iff linked_def put_transfer_def keyed_def split: if_splits option.splits)

lemma tied_same:
  assumes "tied rpc x t c" "tr_rpc u = tr_rpc t" "body_view u = body_view t" "cl_sched d = cl_sched c" "cl_transfers d = cl_transfers c"
  shows "tied rpc x u d"
  using assms by (cases "tr_rpc t = rpc") (simp_all add: tied_def linked_def keyed_def cong: option.case_cong)

lemma tied_start: "tied rpc x t c \<Longrightarrow> tied rpc x (fst (maybeStart t c)) (snd (maybeStart t c))"
  by (erule tied_same) (simp_all add: maybeStart_def body_view_def emit_def split: option.split)

lemma tied_hit: "tied rpc x t c \<Longrightarrow> tied rpc x (fst (probe_hit e n t c)) (snd (probe_hit e n t c))"
  by (erule tied_same) (simp_all add: probe_hit_def Let_def body_view_def upd_stats_def split: option.split)

lemma tied_progress: "tied rpc x t c \<Longrightarrow> tied rpc x (fst (progress e fresh t c)) (snd (progress e fresh t c))"
  by (erule tied_same) (simp_all add: progress_def body_view_def)

lemma modify_entry:
  "jm_get (sc_rpcs (sched_modify r f s)) k = (if k = r then map_option f (jm_get (sc_rpcs s) k) else jm_get (sc_rpcs s) k)"
  "jm_ok (sc_rpcs s) \<Longrightarrow> jm_ok (sc_rpcs (sched_modify r f s))"
  by (simp_all add: sched_modify_def split: option.split)

lemma tied_flush:
  assumes "tied rpc x t c"
  shows "tied rpc x (fst (flushStream e t c)) (snd (flushStream e t c))"
proof -
  let ?t = "fst (flushStream e t c)" and ?c = "snd (flushStream e t c)"
  let ?p = "case tr_stream t of None \<Rightarrow> False | Some st \<Rightarrow> st_paused st"
  let ?q = "case tr_stream ?t of None \<Rightarrow> False | Some st \<Rightarrow> st_paused st"
  have same: "tr_rpc ?t = tr_rpc t" "tr_asm ?t = tr_asm t" "cl_transfers ?c = cl_transfers c"
    using flush_log [of e t c] by (auto simp: flush_same)
  have "?q = ?p \<or> (?q \<and> \<not> ?p \<and> tr_asm t \<noteq> None)"
    by (simp add: flushStream_def flush_chunk_def Let_def split_def split: option.split)
  then consider "?q = ?p" | "?q" "\<not> ?p" "tr_asm t \<noteq> None" by blast
  then show ?thesis
  proof cases
    case 1
    then have "cl_sched ?c = cl_sched c" by (simp add: flush_sched)
    moreover have "body_view ?t = body_view t" using 1 same by (simp add: body_view_def)
    ultimately show ?thesis using tied_same [OF assms] same by blast
  next
    case 2
    then have s: "cl_sched ?c = sched_set_paused (tr_rpc t) True (cl_sched c)" by (simp add: flush_sched)
    have "body_view ?t = (fst (body_view t), True)" using 2 same by (simp add: body_view_def)
    then show ?thesis using assms 2(3) same s
      by (auto simp: tied_def linked_def keyed_def sched_set_paused_def modify_entry entry_view_def body_view_def split: option.splits if_splits)
  qed
qed

lemma paired_data_arrived:
  assumes "linked rpc x c" "tracks rpc x t" "tr_asm t = Some a" "asm_add off p a = Inr (fresh, a')"
  shows "paired rpc (data_arrived e off p fresh a' rp t c)"
proof -
  let ?c1 = "count_payload e fresh p (repair_requested rp) c"
  let ?c2 = "?c1\<lparr>cl_sched := sched_on_data (tr_rpc t) fresh (cl_sched ?c1)\<rparr>" and ?t = "t\<lparr>tr_asm := Some a'\<rparr>"
  have a: "asm_size a' = asm_size a" "asm_received a' = asm_received a + fresh"
    using assms(4) by (auto simp: asm_add_def Let_def split_def split: if_splits)
  have c1: "linked rpc x ?c1" using assms(1) by (simp add: count_payload_def Let_def)
  have "tied rpc x ?t ?c2"
  proof (cases "tr_rpc t = rpc")
    case True
    then have "entry rpc ?c1 = (Some (asm_size a, asm_received a), snd (body_view t))"
      using c1 assms(2,3) by (auto simp: linked_def tracks_def body_view_def)
    then show ?thesis using c1 True a
      by (auto simp: tied_def linked_def keyed_def sched_on_data_def modify_entry entry_view_def body_view_def split: option.splits)
  next
    case False
    then show ?thesis using c1
      by (simp add: tied_def linked_def keyed_def sched_on_data_def modify_entry cong: option.case_cong)
  qed
  then show ?thesis unfolding data_arrived_def Let_def split_def
    by (intro tied_put tied_flush tied_start tied_progress tied_hit)
qed

lemma pairs_payload: "pairs rpc (take_payload e r off p)"
  unfolding take_payload_def
proof (rule pairs_transfer)
  fix t and x :: books assume t: "tr_rpc t = r" "tracks rpc x t"
  let ?rest = "with_transfer r (\<lambda>t.
      if (case tr_asm t of None \<Rightarrow> False | Some a \<Rightarrow> asm_complete a) \<and> tr_headers t \<noteq> None
      then finish e t None
      else whenA (since (ev_now e) (tr_lastDetect t) DETECT_INTERVAL_MS) (detectLoss e r))"
  have rest: "pairs rpc ?rest" by (intro pairs_transfer hold_cases hold_finish pairsD upholding_when pairs_quietly)
  have "hold (linked rpc x) (thenA (doA (data_arrived e off p fresh a' rp t)) ?rest) (paired rpc) (paired rpc)"
    if "tr_asm t = Some a" "asm_add off p a = Inr (fresh, a')" for a a' fresh rp
    by (rule hold_then [OF hold_do rest [unfolded upholding_def]]) (rule paired_data_arrived [OF _ t(2) that])
  moreover have "hold (linked rpc x) (retA ()) (paired rpc) (paired rpc)" by (rule hold_ret) (rule linked_paired)
  ultimately show "hold (linked rpc x) (case (tr_asm t, tr_repair t) of
       (Some a, Some rp) \<Rightarrow>
         (case asm_add off p a of
            Inl _ \<Rightarrow> finish e t (Some ReassemblyRangeError)
          | Inr (fresh, a') \<Rightarrow> thenA (doA (data_arrived e off p fresh a' rp t)) ?rest)
     | _ \<Rightarrow> retA ()) (paired rpc) (paired rpc)"
    using hold_finish by (cases "tr_asm t"; cases "tr_repair t") (auto split: sum.split simp del: not_None_eq)
qed

lemma paired_open:
  assumes "linked rpc x c" "tracks rpc x t" "tr_asm t = None"
  shows "paired rpc (open_body tot t c)"
  unfolding open_body_def
proof (rule tied_put)
  let ?t = "t\<lparr>tr_asm := Some (new_reassembly tot), tr_repair := Some new_repair\<rparr>"
  let ?s = "sched_add (tr_rpc t) tot (tr_initialGrant t) 0 (tr_cls t) (cl_sched c)"
  have k: "keyed (c\<lparr>cl_sched := ?s\<rparr>)" "jm_ok (sc_rpcs ?s)"
    using assms(1) by (simp_all add: linked_def keyed_def sched_add_def)
  show "tied rpc x ?t (c\<lparr>cl_sched := ?s\<rparr>)"
  proof (cases "tr_rpc t = rpc")
    case True
    then have "body_view t = entry rpc c" using assms(1,2) by (simp add: linked_def tracks_def)
    then have "\<not> snd (body_view t)" using assms(3)
      by (cases "jm_get (sc_rpcs (cl_sched c)) rpc") (auto simp: body_view_def entry_view_def)
    then have "body_view ?t = entry rpc (c\<lparr>cl_sched := ?s\<rparr>)"
      using True by (simp add: body_view_def entry_view_def sched_add_def new_reassembly_def)
    then show ?thesis using True k by (simp add: tied_def)
  next
    case False
    then have "linked rpc x (c\<lparr>cl_sched := ?s\<rparr>)"
      using assms(1) k(2) by (intro linked_sched) (simp_all add: sched_add_def linked_def)
    then show ?thesis using False k by (simp add: tied_def)
  qed
qed

lemma pairs_data: "pairs rpc (handle_data e r tot off p)"
  unfolding handle_data_def
proof (rule pairsI, rule hold_transfer)
  fix x and t :: transfer
  let ?P = "\<lambda>c. linked rpc x c \<and> jm_get (cl_transfers c) r = Some t"
  have opened: "hold ?P (doA (open_body tot t)) (paired rpc) (paired rpc)" if "tr_asm t = None"
  proof (rule hold_do)
    fix c :: client assume c: "?P c"
    then have "tr_rpc t = r \<and> tracks rpc x t" using linked_get [of rpc x c r t] by blast
    then show "paired rpc (open_body tot t c)" using c by (intro paired_open [OF _ _ that]) auto
  qed
  have fin: "hold ?P (finish e t err) (paired rpc) (paired rpc)" for err by (rule hold_pre [OF hold_finish]) blast
  have "hold ?P (take_payload e r off p) (paired rpc) (paired rpc)" by (rule hold_pre [OF pairsD [OF pairs_payload]]) blast
  then have known: "hold ?P (if tot \<noteq> asm_size a then finish e t (Some (Http4Error TotalSizeChanged None))
      else take_payload e r off p) (paired rpc) (paired rpc)" for a
    using fin by (intro hold_cases)
  show "hold ?P (case tr_asm t of None \<Rightarrow> thenA (doA (open_body tot t)) (take_payload e r off p)
     | Some a \<Rightarrow> if tot \<noteq> asm_size a then finish e t (Some (Http4Error TotalSizeChanged None)) else take_payload e r off p)
     (paired rpc) (paired rpc)"
  proof (cases "tr_asm t")
    case None
    show ?thesis unfolding None option.case by (rule hold_then [OF opened [OF None] pairs_payload [unfolded upholding_def]])
  next
    case (Some a)
    show ?thesis unfolding Some option.case by (rule known)
  qed
qed (rule linked_paired)

lemma pairs_meta: "pairs rpc (handle_meta e r flds)"
  unfolding handle_meta_def
proof (intro upholding_then upholding_do pairs_transfer)
  fix t and x :: books assume t: "tr_rpc t = r" "tracks rpc x t"
  let ?t = "t\<lparr>tr_headers := Some (headers_of flds), tr_lastProgress := ev_now e, tr_recoveries := 0\<rparr>"
  have "paired rpc (start_body ?t c)" if "linked rpc x c" for c
  proof -
    have "linked rpc x (snd (maybeStart ?t c))" using that by (simp add: maybeStart_def split: option.split)
    moreover have "tracks rpc x (fst (maybeStart ?t c))" using t(2) by (simp add: maybeStart_def split: option.split)
    ultimately show ?thesis unfolding start_body_def split_def Let_def by (intro linked_paired [of _ x]) simp
  qed
  then have "hold (linked rpc x) (thenA (doA (start_body ?t)) (with_transfer r (\<lambda>t.
      whenA (case tr_asm t of None \<Rightarrow> False | Some a \<Rightarrow> asm_complete a) (finish e t None)))) (paired rpc) (paired rpc)"
    by (intro hold_then [OF hold_do [where Q = "paired rpc"]] pairs_transfer [unfolded upholding_def] hold_when hold_finish) (simp_all add: linked_paired)
  then show "hold (linked rpc x) (if tr_headers t \<noteq> None then retA () else thenA (doA (start_body ?t)) (with_transfer r (\<lambda>t.
      whenA (case tr_asm t of None \<Rightarrow> False | Some a \<Rightarrow> asm_complete a) (finish e t None)))) (paired rpc) (paired rpc)"
    by (intro hold_cases hold_ret linked_paired)
qed simp

lemma pairs_deliver: "pairs rpc (deliver e p)"
  unfolding deliver_def
proof (rule pairs_transfer, rule pairsD)
  fix t :: transfer
  show "pairs rpc (case p of
       Meta r flds \<Rightarrow> thenA (note_reply e r) (handle_meta e r flds)
     | Data r tot off pl \<Rightarrow> thenA (note_reply e r) (handle_data e r tot off pl)
     | ErrorPacket r code \<Rightarrow> finish e t (Some (Http4Error (ServerSaid code) (Some code)))
     | _ \<Rightarrow> doA (upd_stats (\<lambda>s. s\<lparr>malformedIn := malformedIn s + 1\<rparr>)))"
    by (cases p) (auto intro!: upholding_then upholding_do pairs_quietly pairs_meta pairs_data pairs_finish)
qed

lemma pairs_handle: "pairs rpc (handle e p)"
proof (cases p)
  case (DataSeq r tot off sq pl)
  then show ?thesis unfolding handle_def DataSeq packet.case
    by (intro upholding_then upholding_do upholding_read upholding_when pairs_quietly pairs_deliver) simp
qed (simp_all add: handle_def pairs_deliver)

lemma pairs_throw: "pairs rpc (throwA x)"
  unfolding upholding_def by (intro hold_throw)

lemma pairs_catch: "pairs rpc m \<Longrightarrow> (\<And>x. pairs rpc (h x)) \<Longrightarrow> pairs rpc (catchA m h)"
  unfolding upholding_def by (rule hold_catch)

lemma pairs_receive: "pairs rpc (receive e b)"
proof -
  have "pairs rpc (case decode b of
         Inl (MalformedPacketError r) \<Rightarrow> doA (upd_stats (\<lambda>s. s\<lparr>malformedIn := malformedIn s + 1\<rparr>))
       | Inl RangeErr \<Rightarrow> throwA (WireError RangeErr)
       | Inr p \<Rightarrow> thenA (handle e p) (pumpGrants e))"
    by (auto split: sum.split wire_error.split intro!: upholding_then upholding_do pairs_throw pairs_handle pairs_quietly)
  then show ?thesis unfolding receive_def read_one_def
    by (intro upholding_read upholding_when pairs_catch upholding_then upholding_do pairs_fail) simp_all
qed

section \<open>The page's side\<close>

lemma put_sched: "(put_transfer t c)\<lparr>cl_sched := s\<rparr> = put_transfer t (c\<lparr>cl_sched := s\<rparr>)" "cl_sched (put_transfer t c) = cl_sched c"
  by (cases c; simp add: put_transfer_def)+

lemma pairs_pull: "pairs rpc (stream_pull e r)"
  unfolding stream_pull_def
proof (rule pairs_transfer)
  fix t and x :: books assume t: "tr_rpc t = r" "tracks rpc x t"
  have pump: "hold (paired rpc) (pumpGrants e) (paired rpc) (paired rpc)"
    using pairs_quietly(3) unfolding upholding_def .
  have "hold (linked rpc x) (thenA (doA (put_transfer (t\<lparr>tr_stream := Some (st\<lparr>st_paused := False\<rparr>)\<rparr>)))
      (thenA (doA (\<lambda>c. c\<lparr>cl_sched := sched_set_paused r False (cl_sched c)\<rparr>)) (pumpGrants e)))
      (paired rpc) (paired rpc)" (is "hold _ (thenA (doA (put_transfer ?t)) _) _ _") if st: "tr_stream t = Some st" for st
  proof (rule hold_then [OF hold_do hold_then [OF hold_do pump]])
    fix c assume "linked rpc x c"
    then show "\<exists>d. linked rpc x d \<and> put_transfer ?t c = put_transfer ?t d" by blast
  next
    fix c assume "\<exists>d. linked rpc x d \<and> c = put_transfer ?t d"
    then obtain d where d: "linked rpc x d" "c = put_transfer ?t d" by blast
    let ?s = "sched_set_paused r False (cl_sched d)"
    have "tied rpc x ?t (d\<lparr>cl_sched := ?s\<rparr>)"
    proof (cases "r = rpc")
      case True
      then have "body_view t = entry rpc d" using d(1) t by (simp add: linked_def tracks_def)
      then have "body_view ?t = entry rpc (d\<lparr>cl_sched := ?s\<rparr>)" using True
        by (auto simp: body_view_def entry_view_def sched_set_paused_def modify_entry split: option.splits)
      then show ?thesis using d(1) t True by (simp add: tied_def linked_def keyed_def sched_set_paused_def modify_entry)
    next
      case False
      then have "linked rpc x (d\<lparr>cl_sched := ?s\<rparr>)"
        using d(1) by (intro linked_sched) (simp_all add: sched_set_paused_def modify_entry linked_def)
      then show ?thesis using False t by (simp add: tied_def linked_def)
    qed
    from tied_put [OF this] show "paired rpc (c\<lparr>cl_sched := sched_set_paused r False (cl_sched c)\<rparr>)"
      by (simp add: d(2) put_sched)
  qed
  moreover have "hold (linked rpc x) (retA ()) (paired rpc) (paired rpc)" by (rule hold_ret) (rule linked_paired)
  ultimately show "hold (linked rpc x) (case tr_stream t of None \<Rightarrow> retA () | Some st \<Rightarrow> whenA (st_paused st)
      (thenA (doA (put_transfer (t\<lparr>tr_stream := Some (st\<lparr>st_paused := False\<rparr>)\<rparr>)))
      (thenA (doA (\<lambda>c. c\<lparr>cl_sched := sched_set_paused r False (cl_sched c)\<rparr>)) (pumpGrants e)))) (paired rpc) (paired rpc)"
    by (cases "tr_stream t") (simp_all add: whenA_def)
qed

text \<open>A request under an id that is not in use.\<close>

lemma pairs_start:
  assumes "paired rpc c" "r = rpc \<Longrightarrow> jm_get (cl_transfers c) rpc = None"
  shows "paired rpc (snd (start_request e r aid streaming cls c))"
proof -
  let ?t = "new_transfer (ev_now e) r aid streaming cls (nextInitialGrant c)"
  let ?m = "catchA (thenA (doA (\<lambda>c. put_transfer (?t c) c)) (thenA (doA (\<lambda>c. c\<lparr>cl_ticker := True\<rparr>))
      (thenA (doA (upd_stats (\<lambda>s. s\<lparr>reqsSent := reqsSent s + 1\<rparr>))) (thenA sendHello (send (Req r (nextInitialGrant c) aid))))))
      (\<lambda>x. doA (emit (RejectWith r x)))"
  have rest: "pairs rpc (thenA (doA (\<lambda>c. c\<lparr>cl_ticker := True\<rparr>))
      (thenA (doA (upd_stats (\<lambda>s. s\<lparr>reqsSent := reqsSent s + 1\<rparr>))) (thenA sendHello (send (Req r (nextInitialGrant c) aid)))))"
    by (intro upholding_then upholding_do pairs_quietly) simp_all
  have "paired rpc (put_transfer (?t c) c)"
  proof (rule tied_put)
    show "tied rpc (entry rpc c) (?t c) c"
      using assms by (auto simp: tied_def paired_def linked_def new_transfer_def body_view_def)
  qed
  then have "hold (\<lambda>d. d = c) ?m (paired rpc) (paired rpc)"
    by (intro hold_catch [where Y = "paired rpc"] hold_then [OF hold_do rest [unfolded upholding_def]] hold_do) auto
  from hold_state [OF this refl] have "paired rpc (snd (?m c))" by blast
  then show ?thesis using assms(1)
    by (auto simp: start_request_def readA_def doA_def throwA_def Let_def split: sum.split)
qed

lemma pairs_step:
  assumes "paired rpc c" "rpc \<in> starts ev \<Longrightarrow> jm_get (cl_transfers c) rpc = None"
  shows "paired rpc (snd (client_step e ev c))"
proof (cases ev)
  case (Start r aid streaming cls)
  show ?thesis unfolding Start client_step.simps by (rule pairs_start [OF assms(1)]) (use assms(2) Start in simp)
next
  case Tick
  have "pairs rpc (client_step e ev)" unfolding Tick client_step.simps by (intro upholding_read upholding_when pairs_tick)
  from upholding_state [OF this assms(1)] show ?thesis .
next
  case SessionEnd
  have "pairs rpc (client_step e ev)" unfolding SessionEnd client_step.simps session_end_def
    by (intro upholding_then upholding_do pairs_fail) simp
  from upholding_state [OF this assms(1)] show ?thesis .
next
  case (Datagram b)
  then show ?thesis using upholding_state [OF pairs_receive assms(1)] by simp
next
  case (Pull r)
  then show ?thesis using upholding_state [OF pairs_pull assms(1)] by simp
next
  case (Cancel r)
  then show ?thesis using upholding_state [OF pairs_drop assms(1)] by (simp add: stream_cancel_def)
next
  case Close
  then show ?thesis using assms(1) by (simp add: close_client_def doA_def)
qed

section \<open>The scheduler of a session\<close>

definition scheduled :: "client \<Rightarrow> bool" where
  "scheduled c \<longleftrightarrow> sched_reach (cl_sched c)"

abbreviation schedules :: "unit act \<Rightarrow> bool" where
  "schedules \<equiv> upholding scheduled scheduled"

lemma scheduled_rest [simp]:
  "scheduled (c\<lparr>cl_seq := v1\<rparr>) = scheduled c" "scheduled (c\<lparr>cl_lastSeqDetect := v2\<rparr>) = scheduled c"
  "scheduled (c\<lparr>cl_budget := v4\<rparr>) = scheduled c" "scheduled (c\<lparr>cl_reading := v5\<rparr>) = scheduled c"
  "scheduled (c\<lparr>cl_initialRto := v6\<rparr>) = scheduled c" "scheduled (c\<lparr>cl_lastBackoffAt := v7\<rparr>) = scheduled c"
  "scheduled (c\<lparr>cl_closed := v8\<rparr>) = scheduled c" "scheduled (c\<lparr>cl_sessionClosed := v9\<rparr>) = scheduled c"
  "scheduled (c\<lparr>cl_ticker := v10\<rparr>) = scheduled c" "scheduled (c\<lparr>cl_queueLimit := v11\<rparr>) = scheduled c"
  "scheduled (c\<lparr>cl_transfers := v12\<rparr>) = scheduled c" "scheduled (put_transfer t c) = scheduled c"
  "scheduled (upd_stats f c) = scheduled c" "scheduled (emit ef c) = scheduled c"
  "scheduled (c\<lparr>cl_stats := v13\<rparr>) = scheduled c"
  by (simp_all add: scheduled_def upd_stats_def emit_def put_transfer_def)

lemma scheduled_arrived [simp]: "scheduled c \<Longrightarrow> scheduled (seq_arrived e r off sq p c)"
  by (simp add: seq_arrived_def Let_def split_def scheduled_def noteSpurious_def upd_stats_def)

lemma scheduled_ops [simp]:
  "scheduled (syncQueueLimit c) = scheduled c" "scheduled (sampleRtt now r c) = scheduled c"
  "scheduled (noteSpurious now c) = scheduled c" "scheduled (lossBackoff now c) = scheduled c"
  by (simp_all add: scheduled_def syncQueueLimit_def sampleRtt_def noteSpurious_def lossBackoff_def upd_stats_def Let_def
      split: option.split)

lemma scheduled_changes [simp]:
  "scheduled c \<Longrightarrow> scheduled (c\<lparr>cl_sched := sched_remove r (cl_sched c)\<rparr>)"
  "scheduled c \<Longrightarrow> scheduled (c\<lparr>cl_transfers := ts, cl_sched := sched_remove r (cl_sched c)\<rparr>)"
  "scheduled c \<Longrightarrow> scheduled (c\<lparr>cl_sched := sched_set_paused r b (cl_sched c)\<rparr>)"
  "scheduled c \<Longrightarrow> scheduled (c\<lparr>cl_sched := sched_set_budget n (cl_sched c)\<rparr>)"
  "scheduled c \<Longrightarrow> scheduled (c\<lparr>cl_sched := sched_add r sz g 0 cls (cl_sched c)\<rparr>)"
  by (simp_all add: scheduled_def sched_reach.intros)

lemma schedules_transfer [upholds]: "(\<And>t. schedules (f t)) \<Longrightarrow> schedules (with_transfer r f)"
  unfolding upholding_def by (rule hold_transfer) (auto intro: hold_pre)

lemma schedules_send [upholds]: "schedules (send p)"
  unfolding upholding_def by (rule hold_send) simp_all

lemma schedules_hello [upholds]: "schedules sendHello"
  unfolding sendHello_def by (intro upholds) simp

lemma schedules_pump [upholds]: "schedules (pumpGrants e)"
  unfolding pumpGrants_def grant_one_def Let_def split_def
proof (intro upholds)
  fix c0 c :: client assume "scheduled c"
  then show "scheduled (pump_prepare c)"
    by (simp add: pump_prepare_def Let_def)
next
  fix d c :: client
  assume "scheduled d"
  then show "scheduled (c\<lparr>cl_sched := snd (sched_grants (reserved d) (cl_sched d))\<rparr>)"
    using sched_reach.grants by (cases "sched_grants (reserved d) (cl_sched d)") (simp add: scheduled_def)
qed (simp_all add: pump_after_def Let_def)

lemma schedules_resend [upholds]: "schedules (send_resend r f g)"
  unfolding send_resend_def by (intro upholds) simp

lemma schedules_resend_seq [upholds]: "schedules (sendResendSeq r)"
  unfolding sendResendSeq_def by (intro upholds) simp

lemma schedules_detect [upholds]: "schedules (detectLoss e r)"
  unfolding detectLoss_def Let_def split_def prod.case by (intro upholds) simp_all

lemma schedules_detect_seq [upholds]: "schedules (detectSeqLoss e)"
  unfolding detectSeqLoss_def Let_def split_def by (intro upholds) simp_all

lemma schedules_probe [upholds]: "schedules (tail_probe e r g)"
  unfolding tail_probe_def Let_def split_def prod.case by (intro upholds) simp_all

lemma schedules_again [upholds]: "schedules (recover_again e r g)"
  unfolding recover_again_def Let_def split_def prod.case by (intro upholds) simp_all

lemma schedules_reply [upholds]: "schedules (note_reply e r)"
  unfolding note_reply_def by (intro upholds) simp_all

lemma scheduled_flush: "scheduled c \<Longrightarrow> scheduled (snd (flushStream e t c))"
  by (simp add: scheduled_def flush_sched sched_reach.intros)

lemma scheduled_start: "scheduled (snd (maybeStart t c)) = scheduled c"
  by (simp add: maybeStart_def split: option.split)

lemma schedules_finish [upholds]: "schedules (finish e t err)"
proof -
  have s: "scheduled (settle_transfer err u (close_stream err u d)) = scheduled d" for u d
    by (simp add: settle_transfer_def close_stream_def split: option.split)
  have "scheduled (finish_core e t err c)" if "scheduled c" for c
    using that by (simp add: finish_core_def Let_def split_def s scheduled_flush)
  then show ?thesis unfolding finish_def by (intro upholds)
qed

lemma schedules_fail [upholds]: "schedules (failAll e x)"
  unfolding failAll_def by (intro upholds) simp

lemma schedules_drop [upholds]: "schedules (drop_transfer e r)"
  unfolding drop_transfer_def by (intro upholds) simp

lemma schedules_tick_transfer [upholds]: "schedules (tick_transfer e r)"
  unfolding tick_transfer_def recover_def Let_def
  by (intro upholds) (simp_all add: recover_prepare_def Let_def)

lemma schedules_tick [upholds]: "schedules (tick e)"
  unfolding tick_def by (intro upholds) simp_all

lemma schedules_meta [upholds]: "schedules (handle_meta e r flds)"
  unfolding handle_meta_def by (intro upholds) (simp_all add: start_body_def split_def Let_def scheduled_start)

lemma schedules_pull [upholds]: "schedules (stream_pull e r)"
  unfolding stream_pull_def by (intro upholds) simp_all

lemma schedules_throw [upholds]: "schedules (throwA x)"
  unfolding upholding_def by (intro hold_throw)

lemma schedules_catch [upholds]: "schedules m \<Longrightarrow> (\<And>x. schedules (h x)) \<Longrightarrow> schedules (catchA m h)"
  unfolding upholding_def by (rule hold_catch)

lemma schedules_start [upholds]: "schedules (start_request e r aid streaming cls)"
  unfolding start_request_def Let_def by (intro upholds) (auto split: sum.split intro!: upholds)

text \<open>Only the bytes of a payload have to be checked: none is counted negatively.\<close>

lemma fresh_nonneg:
  assumes "asm_ok a" "asm_add off p a = Inr (fresh, a')" "is_integer off"
  shows "0 \<le> fresh"
proof -
  have r: "asm_received a' = asm_received a + fresh"
    using assms(2) by (auto simp: asm_add_def Let_def split_def split: if_splits)
  note k = asm_add_cover [OF assms]
  note c = asm_received_card [OF assms(1)] and c' = asm_received_card [OF k(1)]
  have "positions (asm_cover a) \<subseteq> positions (asm_cover a')" unfolding k(3) by (auto simp: positions_def)
  then have "card (positions (asm_cover a)) \<le> card (positions (asm_cover a'))" using c' card_mono by blast
  then show ?thesis using c c' r by simp
qed

definition sane :: "client \<Rightarrow> bool" where
  "sane c \<longleftrightarrow> sound c \<and> scheduled c"

lemma sane_both: "safe m \<Longrightarrow> schedules m \<Longrightarrow> hold sane m sane (\<lambda>_. False)"
  unfolding upholding_def hold_def sane_def by (fastforce split: prod.splits sum.splits)

lemma sane_post: "safe m \<Longrightarrow> schedules m \<Longrightarrow> hold sane m scheduled (\<lambda>_. True)"
  by (rule hold_post [OF sane_both]) (simp_all add: sane_def)

lemma hold_sane:
  assumes "\<And>t. sound_transfer t \<Longrightarrow> hold sane (f t) scheduled (\<lambda>_. True)"
  shows "hold sane (with_transfer r f) scheduled (\<lambda>_. True)"
proof (rule hold_transfer)
  fix t :: transfer
  show "hold (\<lambda>c. sane c \<and> jm_get (cl_transfers c) r = Some t) (f t) scheduled (\<lambda>_. True)"
  proof (rule hold_because [where F = "sound_transfer t"])
    assume "sound_transfer t"
    from assms [OF this] show "hold (\<lambda>c. sane c \<and> jm_get (cl_transfers c) r = Some t) (f t) scheduled (\<lambda>_. True)"
      by (rule hold_pre) simp
  qed (use sound_get sane_def in blast)
qed (simp add: sane_def)

lemma scheduled_data_arrived:
  assumes "scheduled c" "0 \<le> fresh"
  shows "scheduled (data_arrived e off p fresh a rp t c)"
proof -
  have s: "scheduled (snd (probe_hit e v u d)) = scheduled d" "scheduled (snd (progress e fresh u d)) = scheduled d" for v u d
    by (simp_all add: probe_hit_def progress_def Let_def split: option.split)
  let ?c = "count_payload e fresh p (repair_requested rp) c"
  have "sched_reach (cl_sched ?c)" using assms(1) by (simp add: count_payload_def Let_def scheduled_def noteSpurious_def upd_stats_def)
  then have "scheduled (?c\<lparr>cl_sched := sched_on_data (tr_rpc t) fresh (cl_sched ?c)\<rparr>)"
    using assms(2) by (simp add: scheduled_def sched_reach.on_data)
  then show ?thesis unfolding data_arrived_def Let_def split_def
    by (simp add: scheduled_flush scheduled_start s)
qed

lemma sane_payload:
  assumes "u32 off"
  shows "hold sane (take_payload e r off p) scheduled (\<lambda>_. True)"
  unfolding take_payload_def
proof (rule hold_sane)
  fix t assume t: "sound_transfer t"
  let ?rest = "with_transfer r (\<lambda>t.
      if (case tr_asm t of None \<Rightarrow> False | Some a \<Rightarrow> asm_complete a) \<and> tr_headers t \<noteq> None
      then finish e t None
      else whenA (since (ev_now e) (tr_lastDetect t) DETECT_INTERVAL_MS) (detectLoss e r))"
  have rest: "schedules ?rest" by (intro upholds)
  have "hold sane (thenA (doA (data_arrived e off p fresh a' rp t)) ?rest) scheduled (\<lambda>_. True)"
    if "tr_asm t = Some a" "asm_add off p a = Inr (fresh, a')" for a a' fresh rp
  proof -
    have "0 \<le> fresh" using fresh_nonneg [OF _ that(2)] sound_transfer_parts(1) [OF t that(1)] assms by (auto simp: u32_def)
    then show ?thesis
      by (intro hold_then [OF hold_do hold_post [OF rest [unfolded upholding_def]]]) (simp_all add: sane_def scheduled_data_arrived)
  qed
  moreover have "hold sane (retA ()) scheduled (\<lambda>_. True)" by (rule hold_ret) (simp add: sane_def)
  moreover have "hold sane (finish e t x) scheduled (\<lambda>_. True)" for x by (intro sane_post upholds)
  ultimately show "hold sane (case (tr_asm t, tr_repair t) of
       (Some a, Some rp) \<Rightarrow>
         (case asm_add off p a of
            Inl _ \<Rightarrow> finish e t (Some ReassemblyRangeError)
          | Inr (fresh, a') \<Rightarrow> thenA (doA (data_arrived e off p fresh a' rp t)) ?rest)
     | _ \<Rightarrow> retA ()) scheduled (\<lambda>_. True)"
    by (cases "tr_asm t"; cases "tr_repair t") (auto split: sum.split simp del: not_None_eq)
qed

lemma sane_data:
  assumes "u32 tot" "u32 off"
  shows "hold sane (handle_data e r tot off p) scheduled (\<lambda>_. True)"
  unfolding handle_data_def
proof (rule hold_sane)
  fix t assume t: "sound_transfer t"
  have "hold sane (doA (open_body tot t)) sane (\<lambda>_. True)"
    by (rule hold_do) (use t assms in \<open>simp add: sane_def sound_open\<close>, simp add: open_body_def)
  from hold_then [OF this sane_payload [OF assms(2)]]
  have opened: "hold sane (thenA (doA (open_body tot t)) (take_payload e r off p)) scheduled (\<lambda>_. True)" .
  have "hold sane (if tot \<noteq> asm_size a then finish e t (Some (Http4Error TotalSizeChanged None))
      else take_payload e r off p) scheduled (\<lambda>_. True)" for a
    by (intro hold_cases sane_payload assms sane_post upholds)
  with opened show "hold sane (case tr_asm t of
       None \<Rightarrow> thenA (doA (open_body tot t)) (take_payload e r off p)
     | Some a \<Rightarrow> if tot \<noteq> asm_size a then finish e t (Some (Http4Error TotalSizeChanged None))
         else take_payload e r off p) scheduled (\<lambda>_. True)"
    by (intro hold_option_on)
qed

lemma sane_deliver:
  assumes "decent p"
  shows "hold sane (deliver e p) scheduled (\<lambda>_. True)"
  unfolding deliver_def
proof (rule hold_sane)
  fix t assume "sound_transfer t"
  have reply: "hold sane (note_reply e r) sane (\<lambda>_. True)" for r
    by (rule hold_post [OF sane_both [OF safe_reply schedules_reply]]) simp_all
  have fin: "hold sane (finish e t x) scheduled (\<lambda>_. True)" for x by (intro sane_post upholds)
  have meta: "hold sane (thenA (note_reply e r) (handle_meta e r flds)) scheduled (\<lambda>_. True)" for r flds
    by (intro hold_then [OF reply] sane_post upholds)
  have data: "hold sane (thenA (note_reply e r) (handle_data e r tot off pl)) scheduled (\<lambda>_. True)"
    if "u32 tot" "u32 off" for r tot off pl
    by (rule hold_then [OF reply sane_data [OF that]])
  have other: "hold sane (doA (upd_stats f)) scheduled (\<lambda>_. True)" for f by (rule hold_do) (simp add: sane_def)
  show "hold sane (case p of
       Meta r flds \<Rightarrow> thenA (note_reply e r) (handle_meta e r flds)
     | Data r tot off pl \<Rightarrow> thenA (note_reply e r) (handle_data e r tot off pl)
     | ErrorPacket r code \<Rightarrow> finish e t (Some (Http4Error (ServerSaid code) (Some code)))
     | _ \<Rightarrow> doA (upd_stats (\<lambda>s. s\<lparr>malformedIn := malformedIn s + 1\<rparr>))) scheduled (\<lambda>_. True)"
    using assms by (cases p) (simp_all add: fin meta data other [simplified])
qed

lemma sane_handle:
  assumes "decent p"
  shows "hold sane (handle e p) scheduled (\<lambda>_. True)"
proof (cases p)
  case (DataSeq r tot off sq pl)
  have p: "u32 sq" "decent (Data r tot off pl)" using assms DataSeq by simp_all
  have "hold sane (doA (seq_arrived e r off sq pl)) sane (\<lambda>_. True)"
    by (rule hold_do) (use p(1) in \<open>simp add: sane_def sound_arrived scheduled_arrived\<close>)
  moreover have "hold sane (readA (\<lambda>c. whenA (since (ev_now e) (cl_lastSeqDetect c) DETECT_INTERVAL_MS) (detectSeqLoss e))) sane (\<lambda>_. True)"
    by (rule hold_post [OF sane_both]) ((intro upholds; simp)+, simp_all)
  ultimately show ?thesis unfolding handle_def DataSeq packet.case
    by (intro hold_then [OF _ hold_then [OF _ sane_deliver [OF p(2)]]])
qed (use assms sane_deliver [of p e] in \<open>simp_all add: handle_def\<close>)

lemma sane_read_one: "hold sane (read_one e b) scheduled (\<lambda>_. True)"
proof (cases "decode b")
  case (Inl x)
  then have m: "\<exists>r. x = MalformedPacketError r" using wire.dec_error [OF Inl] by (cases x) auto
  show ?thesis by (rule sane_post [OF safe_read_one]) (use m in \<open>auto simp: read_one_def Inl intro!: upholds\<close>)
next
  case (Inr p)
  have "hold sane (doA (upd_stats f)) sane (\<lambda>_. True)" for f by (rule hold_do) (simp add: sane_def)
  moreover have "hold scheduled (pumpGrants e) scheduled (\<lambda>_. True)"
    by (rule hold_post [OF schedules_pump [unfolded upholding_def]]) simp_all
  ultimately show ?thesis unfolding read_one_def Inr sum.case
    by (intro hold_then [OF _ hold_then [OF sane_handle [OF decode_decent [OF Inr]]]])
qed

lemma scheduled_step:
  assumes "sane c"
  shows "scheduled (snd (client_step e ev c))"
proof (cases ev)
  case (Datagram b)
  have s: "sound c" "scheduled c" using assms by (simp_all add: sane_def)
  have "fst (read_one e b c) = Inr ()" using safe_result [OF safe_read_one s(1)] by blast
  moreover have "cl_reading c" using s(1) by (simp add: sound_def)
  ultimately have r: "snd (client_step e ev c) = snd (read_one e b c)"
    unfolding Datagram by (cases "read_one e b c") (simp add: receive_def readA_def whenA_def catchA_def)
  show ?thesis unfolding r using sane_read_one [of e b] assms \<open>fst _ = _\<close>
    by (cases "read_one e b c") (fastforce simp: hold_def)
next
  case (Start r aid streaming cls)
  have "schedules (client_step e ev)" unfolding Start client_step.simps by (intro upholds)
  from upholding_state [OF this] show ?thesis using assms by (simp add: sane_def)
next
  case Tick
  have "schedules (client_step e ev)" unfolding Tick client_step.simps by (intro upholds)
  from upholding_state [OF this] show ?thesis using assms by (simp add: sane_def)
next
  case (Pull r)
  have "schedules (client_step e ev)" unfolding Pull client_step.simps by (intro upholds)
  from upholding_state [OF this] show ?thesis using assms by (simp add: sane_def)
next
  case (Cancel r)
  have "schedules (client_step e ev)" unfolding Cancel client_step.simps stream_cancel_def by (intro upholds)
  from upholding_state [OF this] show ?thesis using assms by (simp add: sane_def)
next
  case Close
  have "schedules (client_step e ev)" unfolding Close client_step.simps close_client_def by (intro upholds) simp
  from upholding_state [OF this] show ?thesis using assms by (simp add: sane_def)
next
  case SessionEnd
  have "schedules (client_step e ev)" unfolding SessionEnd client_step.simps session_end_def by (intro upholds) simp
  from upholding_state [OF this] show ?thesis using assms by (simp add: sane_def)
qed

lemma sane_step: "sane c \<Longrightarrow> sane (snd (client_step e ev c))"
  using scheduled_step sound_run [of c "[(e, ev)]"] by (simp add: sane_def)

lemma sane_run: "sane c \<Longrightarrow> sane (client_run evs c)"
  by (induction evs c rule: client_run.induct) (simp_all add: sane_step)

section \<open>Requests that have not started\<close>

lemma over_deliver: "arrival.spares rpc m False (\<lambda>_. False) (deliver e p)"
proof (cases "rpcId p = rpc")
  case True
  show ?thesis unfolding deliver_def by (rule arrival.spares_transfer) (use True in \<open>simp add: arrival.fits_def\<close>)
qed (rule arrival.spares_deliver)

lemma over_handle: "arrival.spares rpc m False (\<lambda>_. False) (handle e p)"
proof (cases p)
  case (DataSeq r tot off sq pl)
  show ?thesis unfolding handle_def DataSeq packet.case
    by (intro upholding_then upholding_do upholding_read upholding_when arrival.spares_detect_seq over_deliver) simp
qed (simp_all add: handle_def over_deliver)

lemma over_read_one: "hold (over rpc m) (read_one e b) (over rpc m) (over rpc m)"
  unfolding read_one_def
  by (rule hold_then [where R = "over rpc m"])
     (auto split: sum.split wire_error.split intro!: hold_do hold_throw hold_then [where R = "over rpc m"]
        over_handle [unfolded upholding_def] arrival.spares_pump [unfolded upholding_def])

lemma over_step:
  assumes "over rpc m c" "rpc \<notin> starts ev"
  shows "over rpc m (snd (client_step e ev c))"
proof -
  have quietly: ?thesis if "silent rpc ev" "ev \<noteq> Tick"
    using arrival.quiet_step [OF that, of "\<lambda>_. False"] assms(1) by (auto simp: arrival.unpauses_def)
  show ?thesis
  proof (cases ev)
    case (Datagram b)
    have fail: "hold (over rpc m) (thenA (doA (\<lambda>c. c\<lparr>cl_reading := False\<rparr>)) (failAll e x)) (over rpc m) (over rpc m)" for x
      by (rule hold_then [OF hold_do arrival.fail_over]) simp
    have "hold (over rpc m) (receive e b) (over rpc m) (over rpc m)"
      unfolding receive_def by (intro hold_read hold_pre [OF hold_when [OF hold_catch [OF over_read_one fail]]]) auto
    then show ?thesis unfolding Datagram client_step.simps by (rule hold_state) (use assms(1) in simp_all)
  next
    case Tick
    have "arrival.spares rpc m False (\<lambda>_. False) (client_step e ev)"
      unfolding Tick client_step.simps by (intro upholds awaits_tick)
    from upholding_state [OF this assms(1)] show ?thesis .
  next
    case (Cancel r)
    have "arrival.spares rpc m False (\<lambda>_. False) (client_step e ev)"
      unfolding Cancel client_step.simps stream_cancel_def drop_transfer_def by (intro upholds) simp
    from upholding_state [OF this assms(1)] show ?thesis .
  qed (use quietly assms(2) in \<open>simp_all add: silent_def\<close>)
qed

section \<open>Whole sessions\<close>

definition in_step :: "int set \<Rightarrow> client \<Rightarrow> bool" where
  "in_step used c \<longleftrightarrow> sane c \<and> (\<forall>rpc. paired rpc c) \<and> (\<forall>rpc. rpc \<notin> used \<longrightarrow> jm_get (cl_transfers c) rpc = None)"

lemma in_step_step:
  assumes "in_step used c" "starts ev \<inter> used = {}"
  shows "in_step (starts ev \<union> used) (snd (client_step e ev c))"
proof -
  have c: "sane c" "keyed c" using assms(1) sound_keyed by (auto simp: in_step_def sane_def)
  have "sane (snd (client_step e ev c))" by (rule sane_step [OF c(1)])
  moreover have "paired rpc (snd (client_step e ev c))" for rpc
    by (rule pairs_step) (use assms in \<open>auto simp: in_step_def\<close>)
  moreover have "jm_get (cl_transfers (snd (client_step e ev c))) rpc = None" if "rpc \<notin> starts ev \<union> used" for rpc
  proof -
    have "over rpc (cl_maxRecoveries c) c" using that assms(1) c(2) by (simp add: in_step_def arrival.gone_iff)
    from over_step [OF this] show ?thesis using that by (simp add: arrival.gone_iff)
  qed
  ultimately show ?thesis by (simp add: in_step_def)
qed

lemma in_step_run:
  assumes "in_step used c" "fresh_ids used (map snd evs)"
  shows "\<exists>used'. in_step used' (client_run evs c)"
  using assms
proof (induction evs arbitrary: used c)
  case (Cons x evs)
  obtain e ev where x: "x = (e, ev)" by fastforce
  show ?case using Cons.IH [OF in_step_step [OF Cons.prems(1)]] Cons.prems(2) x by simp
qed auto

lemma in_step_new:
  assumes "whole_options op"
  shows "in_step {} (snd (new_client op limit queue))"
proof -
  let ?f = "fresh_client op limit queue"
  define d where "d = (\<lambda>c. upd_stats (\<lambda>s. s\<lparr>reorderWindowMs := reorderWindow (c\<lparr>cl_stats := new_stats op (rto c) (bc_current (cl_budget c))\<rparr>)\<rparr>)
     (c\<lparr>cl_stats := new_stats op (rto c) (bc_current (cl_budget c))\<rparr>)) (syncQueueLimit ?f)"
  have n: "snd (new_client op limit queue) = snd (sendHello d)" by (simp add: new_client_def Let_def d_def)
  have s: "cl_sched ?f = new_scheduler (bc_current (cl_budget ?f)) (chosen_increment op) (op_trace op)" "cl_transfers ?f = []"
    by (simp_all add: fresh_client_def Let_def)
  then have f: "scheduled ?f" "linked rpc (None, False) ?f" "over rpc (cl_maxRecoveries ?f) ?f" for rpc
    using sched_reach.new by (simp_all add: scheduled_def linked_def keyed_def arrival.gone_iff entry_view_def) (simp_all add: new_scheduler_def)
  have "scheduled (snd (sendHello d))"
    by (rule upholding_state [OF schedules_hello]) (use f(1) in \<open>simp add: d_def\<close>)
  moreover have "linked rpc (None, False) (snd (sendHello d))" for rpc
    by (rule upholding_state [OF still_hello]) (use f(2) in \<open>simp add: d_def\<close>)
  moreover have "over rpc (cl_maxRecoveries ?f) (snd (sendHello d))" for rpc
    by (rule upholding_state [OF arrival.spares_hello]) (use f(3) in \<open>simp add: d_def\<close>)
  ultimately show ?thesis using sound_new [OF assms, of limit queue] linked_paired unfolding n
    by (fastforce simp: in_step_def sane_def arrival.gone_iff)
qed

lemma sane_new: "whole_options op \<Longrightarrow> sane (snd (new_client op limit queue))"
  using in_step_new by (simp add: in_step_def)

section \<open>The property\<close>

text \<open>The books of a request: its transfer and its entry.\<close>

fun agree :: "transfer option \<Rightarrow> sched_entry option \<Rightarrow> bool" where
  "agree None e = (e = None)"
| "agree (Some t) None = (tr_asm t = None)"
| "agree (Some t) (Some e) = (case tr_asm t of None \<Rightarrow> False | Some a \<Rightarrow>
     e_size e = asm_size a \<and> e_received e = asm_received a \<and> e_granted e \<le> asm_size a \<and>
     e_paused e = (case tr_stream t of None \<Rightarrow> False | Some st \<Rightarrow> st_paused st))"

text \<open>C13: the scheduler of a session is never out of step with its transfers. Whatever arrives and whatever
  the page does, as long as no id is drawn twice: a request has an entry exactly when its body has a size,
  with that size, the bytes received so far, a grant within the size, and paused when its reader is.\<close>

theorem scheduler_in_step:
  assumes "whole_options op" "fresh_ids {} (map snd evs)" "c = client_run evs (snd (new_client op limit queue))"
  shows "sched_reach (cl_sched c) \<and> agree (jm_get (cl_transfers c) rpc) (jm_get (sc_rpcs (cl_sched c)) rpc)"
proof -
  have c: "sched_reach (cl_sched c)" "paired rpc c"
    using in_step_run [OF in_step_new [OF assms(1)] assms(2)] assms(3) by (auto simp: in_step_def sane_def scheduled_def)
  have "e_granted e \<le> e_size e" if "jm_get (sc_rpcs (cl_sched c)) rpc = Some e" for e
    using sched_reach_ok [OF c(1)] that by (auto simp: sched_ok_get entry_ok_def)
  then have "agree (jm_get (cl_transfers c) rpc) (jm_get (sc_rpcs (cl_sched c)) rpc)"
    using c(2) by (cases "jm_get (cl_transfers c) rpc"; cases "jm_get (sc_rpcs (cl_sched c)) rpc")
      (auto simp: paired_def linked_def entry_view_def body_view_def split: option.splits)
  then show ?thesis using c(1) by simp
qed

text \<open>A paused stream.\<close>

theorem scheduler_in_step_witness:
  "agree (jm_get (cl_transfers (client_run lost_meta_session sample_client)) 7)
     (jm_get (sc_rpcs (cl_sched (client_run lost_meta_session sample_client))) 7) \<and>
   map_option e_paused (jm_get (sc_rpcs (cl_sched (client_run lost_meta_session sample_client))) 7) = Some True"
proof -
  have "agree (jm_get (cl_transfers (client_run lost_meta_session sample_client)) 7)
     (jm_get (sc_rpcs (cl_sched (client_run lost_meta_session sample_client))) 7)"
    using scheduler_in_step [OF plain_whole, of lost_meta_session _ 1200 None 7]
    by (simp add: lost_meta_session_def flip: sample_client_def)
  then show ?thesis
    by (cases "jm_get (sc_rpcs (cl_sched (client_run lost_meta_session sample_client))) 7")
      (simp_all add: lost_meta_state jm_get_Cons)
qed

end
