(* ===== verification/Rounds.thy ===== *)
theory Rounds
  imports Bookkeeping
begin

text \<open>
  The grants of a session. \<open>pumpGrants\<close> of \<open>client/src/transport.ts\<close> is one round of the scheduler
  (\<open>client/src/scheduler.ts\<close>) under the budget of the controller (\<open>client/src/budget.ts\<close>): it writes what the
  round decides and nothing else, so what Scheduler proves of a round holds of the datagrams of a session.
\<close>

section \<open>What a round writes\<close>

definition grant_packet :: "grant_decision \<Rightarrow> packet" where
  "grant_packet g = Grant (d_rpc g) (d_max g) (of_nat (d_priority g))"

text \<open>\<open>dropOutgoing\<close> may take some away.\<close>

definition passes :: "client \<Rightarrow> packet \<Rightarrow> bool" where
  "passes c p \<longleftrightarrow> (case cl_dropOutgoing c of None \<Rightarrow> True | Some d \<Rightarrow> \<not> d p)"

definition writes :: "client \<Rightarrow> packet list \<Rightarrow> effect list" where
  "writes c ps = map (\<lambda>p. Write (packet_bytes p)) (filter (passes c) ps)"

lemma writes_Nil [simp]: "writes c [] = []"
  by (simp add: writes_def)

lemma writes_Cons: "writes c (p # ps) = writes c [p] @ writes c ps"
  by (simp add: writes_def)

text \<open>What sending grants leaves as it is.\<close>

definition ledger :: "client \<Rightarrow> scheduler \<times> budget_ctl \<times> num \<times> (packet \<Rightarrow> bool) option" where
  "ledger c = (cl_sched c, cl_budget c, reserved c, cl_dropOutgoing c)"

lemma writes_ledger: "ledger c = ledger d \<Longrightarrow> writes c ps = writes d ps"
  by (simp add: ledger_def writes_def passes_def cong: filter_cong)

lemma ledger_rest [simp]: "ledger (upd_stats f c) = ledger c" "ledger (emit x c) = ledger c"
  by (simp_all add: ledger_def reserved_def upd_stats_def emit_def)

lemma sum_update:
  "map_of xs k = Some v \<Longrightarrow> f (k, v) = f (k, w) \<Longrightarrow> sum_list (map f (AList.update k w xs)) = sum_list (map f xs)"
  for f :: "'a \<times> 'b \<Rightarrow> num"
  by (induction xs) auto

lemma ledger_put:
  assumes "jm_get (cl_transfers c) (tr_rpc t) = Some u" "tr_asm t = tr_asm u" "tr_initialGrant t = tr_initialGrant u"
  shows "ledger (put_transfer t c) = ledger c"
proof -
  have "reserved (put_transfer t c) = reserved c"
    using assms unfolding reserved_def put_transfer_def jm_set_def jm_get_def by (simp add: sum_update [where v = u])
  then show ?thesis by (simp add: ledger_def put_transfer_def)
qed

lemma send_state:
  assumes "wf_packet p"
  shows "\<exists>c'. send p c = (Inr (), c') \<and> ledger c' = ledger c \<and> cl_transfers c' = cl_transfers c \<and> cl_log c' = cl_log c @ writes c [p]"
  using run_encode [OF assms] by (auto simp: send_def readA_def doA_def writes_def passes_def split: option.split)
     (simp_all add: upd_stats_def emit_def)

lemma grant_state:
  assumes "sendable_grant g" "keyed c"
  shows "\<exists>c'. grant_one e f g c = (Inr (), c') \<and> ledger c' = ledger c \<and> keyed c' \<and> cl_log c' = cl_log c @ writes c [grant_packet g]"
proof -
  define d where "d = upd_stats (\<lambda>s. s\<lparr>grantsSent := grantsSent s + 1,
    grantsAtFloor := (if f then grantsAtFloor s + 1 else grantsAtFloor s)\<rparr>) c"
  let ?u = "\<lambda>t. t\<lparr>tr_probe := (case tr_probe t of None \<Rightarrow> Some (tr_ceiling t, ev_now e) | Some q \<Rightarrow> Some q), tr_ceiling := d_max g\<rparr>"
  define u where "u = (case jm_get (cl_transfers d) (d_rpc g) of None \<Rightarrow> d | Some t \<Rightarrow> put_transfer (?u t) d)"
  have d: "ledger d = ledger c" "keyed d" "cl_log d = cl_log c"
    using assms(2) by (simp_all add: d_def) (simp_all add: keyed_def upd_stats_def)
  have u: "ledger u = ledger d \<and> keyed u \<and> cl_log u = cl_log d"
  proof (cases "jm_get (cl_transfers d) (d_rpc g)")
    case (Some t)
    then have "tr_rpc t = d_rpc g" using d(2) by (auto dest: keyed_get)
    then have "ledger (put_transfer (?u t) d) = ledger d" using Some by (intro ledger_put) simp_all
    moreover have "keyed (put_transfer (?u t) d)" using d(2) by (auto simp: keyed_def put_transfer_def)
    ultimately show ?thesis by (simp add: u_def Some put_transfer_def)
  qed (simp add: u_def d(2))
  have "grant_one e f g c = send (grant_packet g) u"
    by (simp add: grant_one_def thenA_def bindA_def doA_def with_transfer_def readA_def retA_def u_def d_def grant_packet_def split: option.split)
  moreover obtain c' where "send (grant_packet g) u = (Inr (), c')" "ledger c' = ledger u" "cl_transfers c' = cl_transfers u"
      "cl_log c' = cl_log u @ writes u [grant_packet g]"
    using send_state [of "grant_packet g" u] sendable_grant_wf [OF assms(1)] by (auto simp: grant_packet_def)
  ultimately show ?thesis using d u writes_ledger [of u c] by (simp add: keyed_def)
qed

lemma grants_state:
  "\<forall>g \<in> set ds. sendable_grant g \<Longrightarrow> keyed c \<Longrightarrow>
    \<exists>c'. eachA (grant_one e f) ds c = (Inr (), c') \<and> ledger c' = ledger c \<and> cl_log c' = cl_log c @ writes c (map grant_packet ds)"
proof (induction ds arbitrary: c)
  case (Cons g ds)
  obtain d where d: "grant_one e f g c = (Inr (), d)" "ledger d = ledger c" "keyed d" "cl_log d = cl_log c @ writes c [grant_packet g]"
    using grant_state [of g c e f] Cons.prems by auto
  obtain c' where "eachA (grant_one e f) ds d = (Inr (), c')" "ledger c' = ledger d" "cl_log c' = cl_log d @ writes d (map grant_packet ds)"
    using Cons.IH [OF _ d(3)] Cons.prems(1) by auto
  then show ?case using d writes_ledger [OF d(2)] writes_Cons [of c "grant_packet g" "map grant_packet ds"] by (simp add: thenA_def bindA_def)
qed (simp add: retA_def)

section \<open>The round\<close>

abbreviation round_of :: "client \<Rightarrow> grant_decision list \<times> scheduler" where
  "round_of c \<equiv> sched_grants (reserved c) (sched_set_budget (bc_current (cl_budget c)) (cl_sched c))"

lemma prepare_parts:
  "cl_sched (pump_prepare c) = sched_set_budget (bc_current (cl_budget c)) (cl_sched c)" "reserved (pump_prepare c) = reserved c"
  "cl_log (pump_prepare c) = cl_log c" "cl_dropOutgoing (pump_prepare c) = cl_dropOutgoing c" "cl_budget (pump_prepare c) = cl_budget c"
  by (simp_all add: pump_prepare_def Let_def syncQueueLimit_def upd_stats_def reserved_def split: option.split)

lemma after_parts:
  "cl_sched (pump_after c) = cl_sched c" "reserved (pump_after c) = reserved c" "cl_log (pump_after c) = cl_log c"
  "bc_current (cl_budget (pump_after c)) = bc_current (cl_budget c)"
  by (simp_all add: pump_after_def Let_def upd_stats_def reserved_def note_limited_def)

lemma pump_round:
  assumes "sound c" "round_of c = (ds, s)"
  shows "cl_sched (snd (pumpGrants e c)) = s \<and> cl_log (snd (pumpGrants e c)) = cl_log c @ writes c (map grant_packet ds) \<and>
    reserved (snd (pumpGrants e c)) = reserved c \<and> bc_current (cl_budget (snd (pumpGrants e c))) = bc_current (cl_budget c)"
proof -
  let ?p = "pump_prepare c"
  have p: "sound ?p" by (rule sound_prepared [OF assms(1)])
  have g: "sched_grants (reserved ?p) (cl_sched ?p) = (ds, s)" using assms(2) by (simp add: prepare_parts)
  have ok: "\<forall>d \<in> set ds. sendable_grant d"
    using sched_grants_whole [OF g] p reserved_whole [OF p] by (simp add: sound_def)
  have "keyed (?p\<lparr>cl_sched := s\<rparr>)" using sound_keyed [OF p] by (simp add: keyed_def)
  from grants_state [OF ok this] obtain c' where
    c': "eachA (grant_one e (bc_current (cl_budget c) \<le> bc_floor (cl_budget c))) ds (?p\<lparr>cl_sched := s\<rparr>) = (Inr (), c')"
    "ledger c' = ledger (?p\<lparr>cl_sched := s\<rparr>)" "cl_log c' = cl_log ?p @ writes (?p\<lparr>cl_sched := s\<rparr>) (map grant_packet ds)"
    by auto
  have "snd (pumpGrants e c) = pump_after c'"
    by (simp add: pumpGrants_def readA_def Let_def thenA_def bindA_def doA_def g c'(1))
  moreover have "writes (?p\<lparr>cl_sched := s\<rparr>) ps = writes c ps" for ps 
    by (simp add: writes_def passes_def prepare_parts cong: filter_cong)
  moreover have "reserved (?p\<lparr>cl_sched := s\<rparr>) = reserved ?p" by (simp add: reserved_def)
  ultimately show ?thesis using c'(2,3) by (simp add: after_parts ledger_def prepare_parts)
qed

section \<open>The property\<close>

text \<open>The state in which the packet \<open>p\<close> leaves the client, before the grants.\<close>

definition handled :: "env \<Rightarrow> packet \<Rightarrow> client \<Rightarrow> client" where
  "handled e p c = snd (handle e p (upd_stats (\<lambda>s. s\<lparr>packetsIn := packetsIn s + 1\<rparr>) c))"

lemma sane_handled:
  assumes "sane c" "decode b = Inr p"
  shows "sane (handled e p c)" "snd (client_step e (Datagram b) c) = snd (pumpGrants e (handled e p c))"
proof -
  let ?c = "upd_stats (\<lambda>s. s\<lparr>packetsIn := packetsIn s + 1\<rparr>) c"
  have p: "decent p" by (rule decode_decent [OF assms(2)])
  have c: "sane ?c" "cl_reading ?c" using assms(1) by (simp_all add: sane_def) (simp add: sound_def upd_stats_def)
  have s: "sound (handled e p c)"
    unfolding handled_def by (rule hold_state [OF safeD [OF safe_handle [OF p]]]) (use c in \<open>simp_all add: sane_def\<close>)
  have h: "fst (handle e p ?c) = Inr ()" using safe_result [OF safe_handle [OF p]] c by (auto simp: sane_def)
  then have "scheduled (handled e p c)"
    using sane_handle [OF p, of e] c unfolding handled_def by (cases "handle e p ?c") (fastforce simp: hold_def)
  with s show "sane (handled e p c)" by (simp add: sane_def)
  have "fst (pumpGrants e (handled e p c)) = Inr ()" using safe_result [OF safe_pump s] by blast
  then show "snd (client_step e (Datagram b) c) = snd (pumpGrants e (handled e p c))"
    using h c(2) assms(2) unfolding handled_def
    by (cases "handle e p ?c"; cases "pumpGrants e (snd (handle e p ?c))")
       (simp add: receive_def readA_def whenA_def catchA_def read_one_def thenA_def bindA_def doA_def upd_stats_def)
qed


definition long7 :: "byte list" where "long7 = [0x02, 0,0,0,0,0,0,0,7, 0,1,0x86,0xA0, 0,0,0,0, 10, 20]"

lemma long7_decode [runs]: "decode long7 = Inr (Data 7 100000 0 [10, 20])"
  by (simp_all add: long7_def decode_def get_uint_def decode_data_def be_get_def checkDataBounds_def subarray_def)

definition started7 :: client where
  "started7 = client_run [(roomy 0, Start 7 [97] False Normal)] sample_client"

lemma long7_round:
  "fst (round_of (handled (roomy 6) (Data 7 100000 0 [10, 20]) started7)) = [\<lparr>d_rpc = 7, d_max = 100000, d_priority = 0\<rparr>]"
  "cl_dropOutgoing (handled (roomy 6) (Data 7 100000 0 [10, 20]) started7) = None"
  by (simp_all add: handled_def started7_def sample_client_def plain_options_def roomy_def runs cong: run_congs)


end
