(* ===== verification/Resends.thy ===== *)
theory Resends
  imports Rounds
begin

text \<open>
  What a session asks for again. A RESEND that \<open>client/src/transport.ts\<close> writes names bytes of the asset that have
  not arrived, whichever rule sent it: early detection after a datagram, the tail probe, or the stall timer.
  The bound on the tail is the scheduler's grant, so this rests on Bookkeeping.
\<close>

section \<open>RESENDs in the log\<close>

definition asks_for :: "effect \<Rightarrow> int \<Rightarrow> num \<Rightarrow> num \<Rightarrow> bool" where
  "asks_for x rpc s t \<longleftrightarrow> (\<exists>b. x = Write b \<and> decode b = Inr (Resend rpc s t))"

definition missing_in :: "reassembly option \<Rightarrow> num \<Rightarrow> num \<Rightarrow> bool" where
  "missing_in y s t \<longleftrightarrow> (case y of None \<Rightarrow> False | Some a \<Rightarrow>
     0 \<le> s \<and> s < t \<and> t \<le> asm_size a \<and> {s..<t} \<inter> asm_cover a = {})"

text \<open>Since the log was \<open>L\<close>, no RESEND for \<open>rpc\<close> but for bytes missing in \<open>y\<close>.\<close>

definition asking :: "effect list \<Rightarrow> int \<Rightarrow> reassembly option \<Rightarrow> client \<Rightarrow> bool" where
  "asking L rpc y c \<longleftrightarrow> (\<exists>new. cl_log c = L @ new \<and> (\<forall>x \<in> set new. \<forall>s t. asks_for x rpc s t \<longrightarrow> missing_in y s t))"

abbreviation asks :: "effect list \<Rightarrow> int \<Rightarrow> reassembly option \<Rightarrow> unit act \<Rightarrow> bool" where
  "asks L rpc y \<equiv> upholding (asking L rpc y) (asking L rpc y)"

lemma asking_start: "asking (cl_log c) rpc None c"
  by (simp add: asking_def)

lemma asking_none: "asking L rpc None c \<Longrightarrow> asking L rpc y c"
  by (fastforce simp: asking_def missing_in_def)

lemma asking_emit: "asking L rpc y c \<Longrightarrow> (\<And>s t. asks_for x rpc s t \<Longrightarrow> missing_in y s t) \<Longrightarrow> asking L rpc y (emit x c)"
  unfolding asking_def emit_def by fastforce

lemma asking_other [simp]:
  "asking L rpc y c \<Longrightarrow> asking L rpc y (emit (Enqueue r bs) c)" "asking L rpc y c \<Longrightarrow> asking L rpc y (emit (StreamClose r) c)"
  "asking L rpc y c \<Longrightarrow> asking L rpc y (emit (StreamError r z) c)" "asking L rpc y c \<Longrightarrow> asking L rpc y (emit (Resolve r bs h) c)"
  "asking L rpc y c \<Longrightarrow> asking L rpc y (emit (ResolveStream r n h) c)" "asking L rpc y c \<Longrightarrow> asking L rpc y (emit (RejectWith r z) c)"
  "asking L rpc y c \<Longrightarrow> asking L rpc y (emit CloseSession c)"
  by (rule asking_emit; simp add: asks_for_def)+

lemma asking_fields [simp]:
  "asking L rpc y (c\<lparr>cl_seq := v1\<rparr>) = asking L rpc y c" "asking L rpc y (c\<lparr>cl_lastSeqDetect := v2\<rparr>) = asking L rpc y c"
  "asking L rpc y (c\<lparr>cl_budget := v3\<rparr>) = asking L rpc y c" "asking L rpc y (c\<lparr>cl_sched := v4\<rparr>) = asking L rpc y c"
  "asking L rpc y (c\<lparr>cl_reading := v5\<rparr>) = asking L rpc y c" "asking L rpc y (c\<lparr>cl_initialRto := v6\<rparr>) = asking L rpc y c"
  "asking L rpc y (c\<lparr>cl_lastBackoffAt := v7\<rparr>) = asking L rpc y c" "asking L rpc y (c\<lparr>cl_closed := v8\<rparr>) = asking L rpc y c"
  "asking L rpc y (c\<lparr>cl_sessionClosed := v9\<rparr>) = asking L rpc y c" "asking L rpc y (c\<lparr>cl_ticker := v10\<rparr>) = asking L rpc y c"
  "asking L rpc y (c\<lparr>cl_transfers := v11\<rparr>) = asking L rpc y c" "asking L rpc y (c\<lparr>cl_payloadSeen := v12\<rparr>) = asking L rpc y c"
  by (simp_all add: asking_def)

lemma asking_rest [simp]:
  "asking L rpc y (upd_stats f c) = asking L rpc y c" "asking L rpc y (put_transfer t c) = asking L rpc y c"
  "asking L rpc y (syncQueueLimit c) = asking L rpc y c" "asking L rpc y (sampleRtt now r c) = asking L rpc y c"
  "asking L rpc y (noteSpurious now c) = asking L rpc y c" "asking L rpc y (lossBackoff now c) = asking L rpc y c"
  by (auto simp: asking_def upd_stats_def put_transfer_def syncQueueLimit_def sampleRtt_def noteSpurious_def
      lossBackoff_def Let_def split: option.split)

text \<open>A datagram that decodes to a RESEND was sent as one.\<close>

lemma resend_sent:
  assumes "encode p = Inr b" "decode b = Inr (Resend rpc s t)"
  shows "p = Resend rpc s t"
proof (cases "bom_req p")
  case False
  then show ?thesis using assms by (simp add: encode_iff decode_packet_bytes)
next
  case True
  then obtain r g aid where p: "p = Req r g aid" by (cases p) (auto simp: bom_req_def)
  then have "b ! 0 = REQ" using assms(1) by (simp add: encode_iff packet_bytes_hd9 hd9_nth0)
  then have "\<exists>r g aid. Resend rpc s t = Req r g aid" using assms(2)
    by (auto simp: decode_def decode_req_def Let_def rbind_Inr_conv split: if_splits option.splits)
  then show ?thesis by simp
qed

lemma asks_transfer [upholds]: "(\<And>t. asks L rpc y (f t)) \<Longrightarrow> asks L rpc y (with_transfer r f)"
  unfolding upholding_def by (rule hold_transfer) (auto intro: hold_pre)

lemma asks_send [upholds]:
  assumes "\<And>s t. p = Resend rpc s t \<Longrightarrow> missing_in y s t"
  shows "asks L rpc y (send p)"
  unfolding upholding_def
proof (rule hold_send)
  fix c b assume c: "asking L rpc y c" "encode p = Inr b"
  show "asking L rpc y (emit (Write b) c)"
    by (rule asking_emit [OF c(1)]) (use assms resend_sent [OF c(2)] in \<open>auto simp: asks_for_def\<close>)
qed simp_all

lemma asks_throw [upholds]: "asks L rpc y (throwA x)"
  unfolding upholding_def by (intro hold_throw)

lemma asks_catch [upholds]: "asks L rpc y m \<Longrightarrow> (\<And>x. asks L rpc y (h x)) \<Longrightarrow> asks L rpc y (catchA m h)"
  unfolding upholding_def by (rule hold_catch)

section \<open>Actions that ask for nothing\<close>

lemma asks_hello [upholds]: "asks L rpc y sendHello"
  unfolding sendHello_def by (intro upholds) simp_all

lemma asks_pump [upholds]: "asks L rpc y (pumpGrants e)"
  unfolding pumpGrants_def grant_one_def Let_def split_def
  by (intro upholds) (simp_all add: pump_prepare_def pump_after_def Let_def)

lemma asking_flush [simp]: "asking L rpc y c \<Longrightarrow> asking L rpc y (snd (flushStream e t c))"
  by (simp add: flushStream_def flush_chunk_def Let_def split: option.split)

lemma asking_maybe [simp]: "asking L rpc y c \<Longrightarrow> asking L rpc y (snd (maybeStart t c))"
  by (simp add: maybeStart_def split: option.split)

lemma asks_finish [upholds]: "asks L rpc y (finish e t err)"
proof -
  have s: "asking L rpc y (settle_transfer err u (close_stream err u d))" if "asking L rpc y d" for u d
    using that by (simp add: settle_transfer_def close_stream_def split: option.split)
  have "asking L rpc y (finish_core e t err c)" if "asking L rpc y c" for c
    using that by (simp add: finish_core_def Let_def split_def s)
  then show ?thesis unfolding finish_def by (intro upholds)
qed

lemma asks_fail [upholds]: "asks L rpc y (failAll e x)"
  unfolding failAll_def by (intro upholds) simp

lemma asks_drop [upholds]: "asks L rpc y (drop_transfer e r)"
  unfolding drop_transfer_def by (intro upholds) simp

lemma asks_detect_seq [upholds]: "asks L rpc y (detectSeqLoss e)"
  unfolding detectSeqLoss_def sendResendSeq_def Let_def split_def by (intro upholds) simp_all

lemma asks_reply [upholds]: "asks L rpc y (note_reply e r)"
  unfolding note_reply_def by (intro upholds) simp_all

lemma asks_meta [upholds]: "asks L rpc y (handle_meta e r flds)"
  unfolding handle_meta_def by (intro upholds) (simp_all add: start_body_def split_def Let_def)

lemma asks_pull [upholds]: "asks L rpc y (stream_pull e r)"
  unfolding stream_pull_def by (intro upholds) simp_all

lemma asks_start [upholds]: "asks L rpc y (start_request e r aid streaming cls)"
  unfolding start_request_def Let_def by (intro upholds) (auto split: sum.split intro!: upholds)

lemma asking_data_arrived [simp]: "asking L rpc y c \<Longrightarrow> asking L rpc y (data_arrived e off p fresh a rp t c)"
proof -
  have "asking L rpc y (snd (probe_hit e v u d)) = asking L rpc y d" "asking L rpc y (snd (progress e fresh u d)) = asking L rpc y d" for v u d
    by (simp_all add: probe_hit_def progress_def Let_def split: option.split)
  then show "asking L rpc y c \<Longrightarrow> ?thesis" by (simp add: data_arrived_def Let_def split_def count_payload_def)
qed

lemma asks_resend [upholds]:
  "(r = rpc \<Longrightarrow> missing_in y (rstart g) (rend g)) \<Longrightarrow> asks L rpc y (send_resend r f g)"
  unfolding send_resend_def by (intro upholds) simp_all

section \<open>The ranges that are sent\<close>

lemma carve_within:
  "carve pos en ps = (out, pos') \<Longrightarrow>
    pos \<le> pos' \<and> (\<forall>r \<in> set out. pos \<le> rstart r \<and> rstart r < rend r \<and> rend r \<le> en)"
proof (induction pos en ps arbitrary: out pos' rule: carve.induct)
  case (2 pos en p ps)
  show ?case
  proof (cases "pstart p < en")
    case True
    obtain o1 p1 where c: "carve (max pos (pend p)) en ps = (o1, p1)" by fastforce
    have "max pos (pend p) \<le> p1 \<and> (\<forall>r \<in> set o1. max pos (pend p) \<le> rstart r \<and> rstart r < rend r \<and> rend r \<le> en)"
      by (rule "2.IH" [OF True c])
    then show ?thesis using "2.prems" True c by (auto split: if_splits)
  qed (use "2.prems" in simp)
qed simp

lemma claim_within:
  "r \<in> set (claim_loop live gs) \<Longrightarrow> \<exists>g \<in> set gs. rstart g \<le> rstart r \<and> rstart r < rend r \<and> rend r \<le> rend g"
proof (induction live gs rule: claim_loop.induct)
  case (2 live g gs)
  let ?live = "dropWhile (\<lambda>p. pend p \<le> rstart g) live"
  obtain out pos where c: "carve (rstart g) (rend g) ?live = (out, pos)" by fastforce
  from "2.IH" [OF refl c [symmetric] refl] "2.prems" carve_within [OF c] show ?case
    by (auto simp: c Let_def split: if_splits)
qed simp

lemma missing_part: "missing_in y s t \<Longrightarrow> s \<le> s' \<Longrightarrow> s' < t' \<Longrightarrow> t' \<le> t \<Longrightarrow> missing_in y s' t'"
  by (auto simp: missing_in_def disjoint_iff split: option.splits)

text \<open>What a claim sends is part of what it was asked for.\<close>

lemma claimed_missing:
  assumes "repair_claim a gs now delay r = (out, r')" "\<forall>g \<in> set gs. rstart g < rend g \<longrightarrow> missing_in (Some a) (rstart g) (rend g)"
    "g \<in> set out"
  shows "missing_in (Some a) (rstart g) (rend g)"
proof -
  have "out = claim_loop (live_loop now (asm_missing a (asm_size a)) (pendings r)) gs"
    using assms(1) by (simp add: repair_claim_def claim_core_def Let_def)
  then obtain h where h: "h \<in> set gs" "rstart h \<le> rstart g" "rstart g < rend g" "rend g \<le> rend h"
    using claim_within assms(3) by metis
  then have "missing_in (Some a) (rstart h) (rend h)" using assms(2) by force
  then show ?thesis using h missing_part by blast
qed

lemma missing_gap:
  assumes "asm_ok a" "l \<le> asm_size a" "g \<in> set (asm_missing a l)"
  shows "missing_in (Some a) (rstart g) (rend g)"
proof -
  note m = asm_missing_spec [OF assms(1), of l]
  have g: "rstart g < rend g" "0 \<le> rstart g" "rend g \<le> l" using m(2,3) assms(3) by (auto simp: inside_def dest: spaced_mem)
  have "{rstart g..<rend g} \<subseteq> cover (asm_missing a l)" using assms(3) by (auto simp: mem_cover)
  then have "{rstart g..<rend g} \<inter> asm_cover a = {}" using m(1) by blast
  then show ?thesis using g assms(2) by (simp add: missing_in_def)
qed

lemma missing_tail:
  assumes "asm_ok a" "asm_frontier a \<le> s" "s < t" "t \<le> asm_size a"
  shows "missing_in (Some a) s t"
  using asm_frontier_spec [OF assms(1)] assms(2-4) by (fastforce simp: missing_in_def)

lemma missing_recover:
  assumes "asm_ok a" "granted \<le> asm_size a" "0 \<le> payload_guess c" "g \<in> set (recover_gaps c a granted)" "rstart g < rend g"
  shows "missing_in (Some a) (rstart g) (rend g)"
proof -
  let ?f = "asm_frontier a"
  have "g \<in> set (asm_missing a (min ?f granted)) \<or> (?f \<le> rstart g \<and> rend g \<le> granted)"
    using assms(3,4) by (auto simp: recover_gaps_def Let_def dest: in_set_takeD split: if_splits)
  then show ?thesis
  proof
    assume "g \<in> set (asm_missing a (min ?f granted))"
    then show ?thesis using assms(2) by (intro missing_gap [OF assms(1), of "min ?f granted"]) auto
  next
    assume "?f \<le> rstart g \<and> rend g \<le> granted"
    then show ?thesis using assms(2,5) by (intro missing_tail [OF assms(1)]) auto
  qed
qed

section \<open>A request and its body\<close>

abbreviation has_body :: "int \<Rightarrow> num \<Rightarrow> reassembly option \<Rightarrow> client \<Rightarrow> bool" where
  "has_body rpc m y \<equiv> arrival.spared rpc m False (\<lambda>v. fst (snd v) = y)"

abbreviation embodies :: "int \<Rightarrow> num \<Rightarrow> reassembly option \<Rightarrow> unit act \<Rightarrow> bool" where
  "embodies rpc m y \<equiv> arrival.spares rpc m False (\<lambda>v. fst (snd v) = y)"

definition careful :: "effect list \<Rightarrow> int \<Rightarrow> num \<Rightarrow> reassembly option \<Rightarrow> client \<Rightarrow> bool" where
  "careful L rpc m y c \<longleftrightarrow> sound c \<and> asking L rpc y c \<and> has_body rpc m y c"

lemma careful_get:
  assumes "careful L rpc m y c" "jm_get (cl_transfers c) rpc = Some t"
  shows "tr_rpc t = rpc \<and> sound_transfer t \<and> tr_asm t = y"
  using assms sound_get by (auto simp: careful_def arrival.spared_def arrived_def)

lemma careful_keeps:
  assumes "safe m" "embodies rpc n y m" "hold (careful L rpc n y) m (asking L rpc y) (\<lambda>_. True)"
  shows "hold (careful L rpc n y) m (careful L rpc n y) (\<lambda>_. True)"
proof -
  have s: "hold (careful L rpc n y) m sound (\<lambda>_. False)" by (rule hold_pre [OF safeD [OF assms(1)]]) (simp add: careful_def)
  have b: "hold (careful L rpc n y) m (has_body rpc n y) (has_body rpc n y)"
    by (rule hold_pre [OF assms(2) [unfolded upholding_def]]) (simp add: careful_def)
  show ?thesis by (rule hold_post [OF hold_both [OF s hold_both [OF b assms(3)]]]) (simp_all add: careful_def)
qed

lemma careful_asks:
  assumes "asks L rpc y m"
  shows "hold (careful L rpc n y) m (asking L rpc y) (\<lambda>_. True)"
  by (rule hold_post [OF hold_pre [OF assms [unfolded upholding_def]]]) (auto simp: careful_def)

lemma hold_careful:
  assumes "\<And>t. tr_rpc t = rpc \<Longrightarrow> sound_transfer t \<Longrightarrow> tr_asm t = y \<Longrightarrow> hold (careful L rpc m y) (f t) (asking L rpc y) (\<lambda>_. True)"
  shows "hold (careful L rpc m y) (with_transfer rpc f) (asking L rpc y) (\<lambda>_. True)"
proof (rule hold_transfer)
  fix t :: transfer
  show "hold (\<lambda>c. careful L rpc m y c \<and> jm_get (cl_transfers c) rpc = Some t) (f t) (asking L rpc y) (\<lambda>_. True)"
  proof (rule hold_because [where F = "tr_rpc t = rpc \<and> sound_transfer t \<and> tr_asm t = y"])
    assume "tr_rpc t = rpc \<and> sound_transfer t \<and> tr_asm t = y"
    then show "hold (\<lambda>c. careful L rpc m y c \<and> jm_get (cl_transfers c) rpc = Some t) (f t) (asking L rpc y) (\<lambda>_. True)"
      using assms by (auto intro: hold_pre)
  qed (use careful_get in blast)
qed (simp add: careful_def)

lemma careful_read:
  assumes "\<And>d. sound d \<Longrightarrow> asks L rpc y (f d)"
  shows "hold (careful L rpc m y) (readA f) (asking L rpc y) (\<lambda>_. True)"
proof (rule hold_read)
  fix d
  show "hold (\<lambda>c. c = d \<and> careful L rpc m y d) (f d) (asking L rpc y) (\<lambda>_. True)"
    by (rule hold_because [where F = "sound d"])
      (use assms in \<open>auto simp: careful_def upholding_def intro: hold_post [OF hold_pre]\<close>)
qed

lemma careful_detect: "hold (careful L rpc m y) (detectLoss e rpc) (asking L rpc y) (\<lambda>_. True)"
  unfolding detectLoss_def
proof (rule hold_careful, rule careful_read, unfold Let_def split_def prod.case fst_conv snd_conv, intro upholds)
  fix t d a rp g
  let ?l = "if asm_frontier a < or_default (sched_granted rpc (cl_sched d)) (asm_size a)
     then asm_frontier a - cl_reorderPackets d * payload_guess d else asm_frontier a"
  assume t: "sound_transfer t" "tr_asm t = y" "sound d" "tr_asm (t\<lparr>tr_lastDetect := Some (ev_now e)\<rparr>) = Some a"
    and g: "g \<in> set (fst (repair_detect a ?l (ev_now e) (reorderWindow d) (repairDelay d) rp))"
  have a: "asm_ok a" "y = Some a" using t sound_transfer_parts(1) by auto
  have "0 \<le> cl_reorderPackets d * payload_guess d"
    using t(3) payload_guess_whole [OF t(3)] by (auto simp: sound_def u32_def)
  then have l: "?l \<le> asm_size a" using asm_frontier_spec [OF a(1)] by auto
  obtain sus where cl: "repair_claim a (lost_gaps rp a ?l (ev_now e) (reorderWindow d)) (ev_now e) (repairDelay d) (rp\<lparr>suspects := sus\<rparr>)
      = (fst (repair_detect a ?l (ev_now e) (reorderWindow d) (repairDelay d) rp), snd (repair_detect a ?l (ev_now e) (reorderWindow d) (repairDelay d) rp))"
    using repair_detect_claim [OF prod.collapse [symmetric]] by metis
  show "missing_in y (rstart g) (rend g)" unfolding a(2)
    by (rule claimed_missing [OF cl _ g]) (use missing_gap [OF a(1) l] in \<open>auto simp: lost_gaps_def\<close>)
qed simp_all

text \<open>\<open>granted\<close> stays within the asset.\<close>

definition grant_fits :: "reassembly option \<Rightarrow> num \<Rightarrow> bool" where
  "grant_fits y g \<longleftrightarrow> (case y of None \<Rightarrow> True | Some a \<Rightarrow> g \<le> asm_size a)"

lemma careful_probe:
  assumes "grant_fits y granted"
  shows "hold (careful L rpc m y) (tail_probe e rpc granted) (asking L rpc y) (\<lambda>_. True)"
  unfolding tail_probe_def
proof (rule hold_careful, rule careful_read, unfold Let_def split_def prod.case fst_conv snd_conv, intro upholds)
  fix t d a rp g
  let ?r = "Range (max (asm_frontier a) (granted - payload_guess d)) granted"
  assume t: "sound_transfer t" "tr_asm t = y" "tr_asm t = Some a"
    and g: "g \<in> set (fst (repair_claim a [?r] (ev_now e) (repairDelay d) rp))"
  have a: "asm_ok a" "y = Some a" "granted \<le> asm_size a" using t sound_transfer_parts(1) assms by (auto simp: grant_fits_def)
  show "missing_in y (rstart g) (rend g)" unfolding a(2)
    by (rule claimed_missing [OF prod.collapse [symmetric] _ g]) (use missing_tail [OF a(1) _ _ a(3)] in auto)
qed simp_all

lemma careful_again:
  assumes "grant_fits y granted" "u32 granted"
  shows "hold (careful L rpc m y) (recover_again e rpc granted) (asking L rpc y) (\<lambda>_. True)"
  unfolding recover_again_def
proof (rule hold_then)
  let ?req = "with_transfer rpc (\<lambda>t.
          whenA (tr_asm t = None \<or> tr_headers t = None)
           (thenA (doA (put_transfer (t\<lparr>tr_reqRetransmitted := True\<rparr>)))
           (thenA (doA (upd_stats (\<lambda>s. s\<lparr>reqRetransmits := reqRetransmits s + 1\<rparr>)))
              (send (Req rpc (tr_initialGrant t) (tr_assetId t))))))"
  have s: "safe ?req" by (intro upholds) (auto simp: sound_transfer_def)
  show "hold (careful L rpc m y) ?req (careful L rpc m y) (\<lambda>_. True)"
    by (rule careful_keeps [OF s _ careful_asks]; intro upholds; simp)
  show "hold (careful L rpc m y) (with_transfer rpc (\<lambda>t.
            case (tr_asm t, tr_repair t) of
              (Some a, Some rp) \<Rightarrow>
                thenA (whenA (granted > tr_initialGrant t) (send (Grant rpc granted 0)))
               (readA (\<lambda>c.
                  let (out, rp') = repair_claim a (recover_gaps c a granted) (ev_now e) (repairDelay c) rp
                  in thenA (doA (put_transfer (t\<lparr>tr_repair := Some rp'\<rparr>)))
                       (eachA (send_resend rpc (\<lambda>s. s\<lparr>resendsSent := resendsSent s + 1\<rparr>)) out)))
            | _ \<Rightarrow> retA ())) (asking L rpc y) (\<lambda>_. True)"
  proof (rule hold_careful)
    fix t :: transfer
    assume t: "tr_rpc t = rpc" "sound_transfer t" "tr_asm t = y"
    let ?m = "\<lambda>a rp. thenA (whenA (granted > tr_initialGrant t) (send (Grant rpc granted 0)))
               (readA (\<lambda>c.
                  let (out, rp') = repair_claim a (recover_gaps c a granted) (ev_now e) (repairDelay c) rp
                  in thenA (doA (put_transfer (t\<lparr>tr_repair := Some rp'\<rparr>)))
                       (eachA (send_resend rpc (\<lambda>s. s\<lparr>resendsSent := resendsSent s + 1\<rparr>)) out)))"
    have "hold (careful L rpc m y) (?m a rp) (asking L rpc y) (\<lambda>_. True)" if ty: "tr_asm t = Some a" for a rp
    proof (rule hold_then)
      have id: "id_ok rpc" using sound_transfer_id [OF t(2)] t(1) by simp
      have "safe (whenA (granted > tr_initialGrant t) (send (Grant rpc granted 0)))"
        using assms(2) id by (intro upholds) (simp add: wf_packet_def id_ok_def u8_def)
      then show "hold (careful L rpc m y) (whenA (granted > tr_initialGrant t) (send (Grant rpc granted 0))) (careful L rpc m y) (\<lambda>_. True)"
        by (rule careful_keeps [OF _ _ careful_asks]) (intro upholds; simp)+
      show "hold (careful L rpc m y) (readA (\<lambda>c.
                  let (out, rp') = repair_claim a (recover_gaps c a granted) (ev_now e) (repairDelay c) rp
                  in thenA (doA (put_transfer (t\<lparr>tr_repair := Some rp'\<rparr>)))
                       (eachA (send_resend rpc (\<lambda>s. s\<lparr>resendsSent := resendsSent s + 1\<rparr>)) out)))
          (asking L rpc y) (\<lambda>_. True)"
      proof (rule careful_read, unfold Let_def split_def prod.case fst_conv snd_conv, intro upholds)
        fix d g assume d: "sound d" and g: "g \<in> set (fst (repair_claim a (recover_gaps d a granted) (ev_now e) (repairDelay d) rp))"
        have a: "asm_ok a" "y = Some a" "granted \<le> asm_size a" using t ty sound_transfer_parts(1) assms(1) by (auto simp: grant_fits_def)
        have p: "0 \<le> payload_guess d" using payload_guess_whole [OF d] by simp
        show "missing_in y (rstart g) (rend g)" unfolding a(2)
          by (rule claimed_missing [OF prod.collapse [symmetric] _ g]) (use missing_recover [OF a(1,3) p] in auto)
      qed simp
    qed
    moreover have "hold (careful L rpc m y) (retA ()) (asking L rpc y) (\<lambda>_. True)" by (rule hold_ret) (simp add: careful_def)
    ultimately show "hold (careful L rpc m y) (case (tr_asm t, tr_repair t) of (Some a, Some rp) \<Rightarrow> ?m a rp | _ \<Rightarrow> retA ()) (asking L rpc y) (\<lambda>_. True)"
      by (cases "tr_asm t"; cases "tr_repair t") simp_all
  qed
qed

lemma careful_recover:
  assumes "grant_fits y granted" "u32 granted"
  shows "hold (careful L rpc m y) (recover e rpc granted) (asking L rpc y) (\<lambda>_. True)"
  unfolding recover_def Let_def
proof (rule hold_careful, rule hold_read, rule hold_cases)
  fix t :: transfer and d
  let ?t = "t\<lparr>tr_recoveries := tr_recoveries t + 1\<rparr>"
  assume t: "tr_rpc t = rpc" "sound_transfer t" "tr_asm t = y"
  have fin: "asks L rpc y (finish e ?t x)" for x by (intro upholds)
  show "hold (\<lambda>c. c = d \<and> careful L rpc m y d) (finish e ?t (Some (Http4Error NoProgress None))) (asking L rpc y) (\<lambda>_. True)"
    by (rule hold_pre [OF careful_asks [OF fin]]) simp
  have "careful L rpc m y (recover_prepare e ?t c)" if "careful L rpc m y c" for c
    using that sound_recover_prepare [of c ?t e] t
    by (auto simp: careful_def arrival.fits_def arrived_def recover_prepare_def Let_def)
  then show "hold (\<lambda>c. c = d \<and> careful L rpc m y d) (thenA (doA (recover_prepare e ?t)) (recover_again e rpc granted)) (asking L rpc y) (\<lambda>_. True)"
    by (intro hold_then [OF hold_do careful_again [OF assms]]) auto
qed

section \<open>The timer\<close>

text \<open>What has been granted is within the asset because the scheduler is in step.\<close>

definition mindful :: "effect list \<Rightarrow> int \<Rightarrow> num \<Rightarrow> reassembly option \<Rightarrow> client \<Rightarrow> bool" where
  "mindful L rpc m y c \<longleftrightarrow> careful L rpc m y c \<and> paired rpc c \<and> scheduled c"

lemma mindful_granted:
  assumes "mindful L rpc m y c" "jm_get (cl_transfers c) rpc = Some t"
  shows "grant_fits y (granted_now c t)" "u32 (granted_now c t)"
proof -
  have t: "tr_rpc t = rpc" "sound_transfer t" "tr_asm t = y" "sound c"
    using careful_get [OF _ assms(2)] assms(1) by (auto simp: mindful_def careful_def)
  show "u32 (granted_now c t)" by (rule granted_now_whole [OF t(4)])
  show "grant_fits y (granted_now c t)"
  proof (cases y)
    case (Some a)
    have ok: "sched_ok (cl_sched c)" using sched_reach_ok assms(1) by (simp add: mindful_def scheduled_def)
    have "0 \<le> asm_size a" using sound_transfer_parts(1) [OF t(2)] t(3) Some asm_frontier_spec [of a] by fastforce
    moreover have "e_granted x \<le> asm_size a" if "jm_get (sc_rpcs (cl_sched c)) rpc = Some x" for x
    proof -
      have "e_granted x \<le> e_size x" using ok that by (auto simp: sched_ok_get entry_ok_def)
      moreover have "e_size x = asm_size a" using assms t(3) that Some
        by (auto simp: mindful_def paired_def linked_def entry_view_def body_view_def)
      ultimately show ?thesis by simp
    qed
    ultimately show ?thesis using t Some
      by (auto simp: grant_fits_def granted_now_def sched_granted_def or_default_def split: option.split)
  qed (simp add: grant_fits_def)
qed

lemma mindful_keeps:
  assumes "safe m" "embodies rpc n y m" "pairs rpc m" "schedules m" "hold (mindful L rpc n y) m (asking L rpc y) (\<lambda>_. True)"
  shows "hold (mindful L rpc n y) m (mindful L rpc n y) (\<lambda>_. True)"
proof -
  have s: "hold (mindful L rpc n y) m sound (\<lambda>_. False)"
    by (rule hold_pre [OF safeD [OF assms(1)]]) (simp add: mindful_def careful_def)
  have b: "hold (mindful L rpc n y) m (has_body rpc n y) (has_body rpc n y)"
    by (rule hold_pre [OF assms(2) [unfolded upholding_def]]) (simp add: mindful_def careful_def)
  have p: "hold (mindful L rpc n y) m (paired rpc) (paired rpc)"
    by (rule hold_pre [OF assms(3) [unfolded upholding_def]]) (simp add: mindful_def)
  have d: "hold (mindful L rpc n y) m scheduled scheduled"
    by (rule hold_pre [OF assms(4) [unfolded upholding_def]]) (simp add: mindful_def)
  show ?thesis by (rule hold_post [OF hold_both [OF s hold_both [OF b hold_both [OF p hold_both [OF d assms(5)]]]]])
      (simp_all add: mindful_def careful_def)
qed

lemma mindful_careful:
  "hold (careful L rpc n y) m (asking L rpc y) (\<lambda>_. True) \<Longrightarrow> hold (mindful L rpc n y) m (asking L rpc y) (\<lambda>_. True)"
  by (erule hold_pre) (simp add: mindful_def)

lemma mindful_own: "hold (mindful L rpc m y) (tick_transfer e rpc) (asking L rpc y) (\<lambda>_. True)"
proof -
  let ?P = "mindful L rpc m y" and ?Q = "asking L rpc y"
  let ?again = "\<lambda>g. with_transfer rpc (\<lambda>u. readA (\<lambda>d. whenA (ev_now e - tr_lastProgress u \<ge> stall_timeout d u) (recover e rpc g)))"
  let ?body = "\<lambda>t c. if waiting c t then doA (put_transfer (t\<lparr>tr_lastProgress := ev_now e\<rparr>))
          else thenA (tail_probe e rpc (granted_now c t)) (?again (granted_now c t))"
  have again: "hold (careful L rpc m y) (?again g) ?Q (\<lambda>_. True)" if "grant_fits y g" "u32 g" for g
    by (rule hold_transfer, simp add: careful_def, rule hold_read, rule hold_when)
      (auto intro: hold_pre [OF careful_recover [OF that]] simp: careful_def)
  have probed: "hold (careful L rpc m y) (thenA (tail_probe e rpc g) (?again g)) ?Q (\<lambda>_. True)" if "grant_fits y g" "u32 g" for g
    by (rule hold_then [OF careful_keeps [OF safe_probe arrival.spares_probe careful_probe] again]) (use that in auto)
  have body: "hold ?P (with_transfer rpc (\<lambda>t. readA (?body t))) ?Q (\<lambda>_. True)"
  proof (rule hold_transfer, simp add: mindful_def careful_def, rule hold_read)
    fix t :: transfer and d
    let ?D = "\<lambda>c. c = d \<and> ?P d \<and> jm_get (cl_transfers d) rpc = Some t"
    show "hold ?D (?body t d) ?Q (\<lambda>_. True)"
    proof (rule hold_because [where F = "grant_fits y (granted_now d t) \<and> u32 (granted_now d t)"])
      fix c assume "?D c"
      then show "grant_fits y (granted_now d t) \<and> u32 (granted_now d t)" using mindful_granted by blast
    next
      assume g: "grant_fits y (granted_now d t) \<and> u32 (granted_now d t)"
      have "hold ?D (doA (put_transfer (t\<lparr>tr_lastProgress := ev_now e\<rparr>))) ?Q (\<lambda>_. True)"
        by (rule hold_do) (simp add: mindful_def careful_def)
      moreover have "hold ?D (thenA (tail_probe e rpc (granted_now d t)) (?again (granted_now d t))) ?Q (\<lambda>_. True)"
        by (rule hold_pre [OF probed]) (use g in \<open>auto simp: mindful_def\<close>)
      ultimately show "hold ?D (?body t d) ?Q (\<lambda>_. True)" by (intro hold_cases)
    qed
  qed
  have detect: "hold ?P (detectLoss e rpc) ?P (\<lambda>_. True)"
    by (rule mindful_keeps [OF safe_detect arrival.spares_detect pairs_quietly(4) schedules_detect mindful_careful [OF careful_detect]])
  show ?thesis unfolding tick_transfer_def Let_def
    by (rule hold_transfer, simp add: mindful_def careful_def, rule hold_then [OF hold_when [OF hold_pre [OF detect]] body]) auto
qed

lemma asks_tick_other: "r \<noteq> rpc \<Longrightarrow> asks L rpc y (tick_transfer e r)"
  unfolding tick_transfer_def detectLoss_def tail_probe_def recover_def recover_again_def Let_def split_def prod.case
  by (intro upholds) (simp_all add: recover_prepare_def Let_def)

lemma mindful_tick_transfer: "hold (mindful L rpc m y) (tick_transfer e r) (mindful L rpc m y) (\<lambda>_. True)"
proof -
  have "embodies rpc m y (tick_transfer e r)"
    unfolding tick_transfer_def recover_def Let_def
    by (intro upholds) (simp_all add: arrival.fits_def recover_prepare_def Let_def)
  moreover have "hold (mindful L rpc m y) (tick_transfer e r) (asking L rpc y) (\<lambda>_. True)"
  proof (cases "r = rpc")
    case True
    then show ?thesis using mindful_own by simp
  next
    case False
    from mindful_careful [OF careful_asks [OF asks_tick_other [OF this]]] show ?thesis .
  qed
  ultimately show ?thesis by (intro mindful_keeps safe_tick_transfer pairs_tick_transfer schedules_tick_transfer)
qed

text \<open>The new part of the log is about the bodies as they are now.\<close>

definition prudent :: "effect list \<Rightarrow> int \<Rightarrow> client \<Rightarrow> bool" where
  "prudent L rpc c \<longleftrightarrow> (\<exists>m y. asking L rpc y c \<and> has_body rpc m y c)"

lemma prudentI: "asking L rpc y c \<Longrightarrow> has_body rpc m y c \<Longrightarrow> prudent L rpc c"
  unfolding prudent_def by blast

lemma prudent_none:
  assumes "asking L rpc None c" "keyed c"
  shows "prudent L rpc c"
proof -
  let ?y = "case jm_get (cl_transfers c) rpc of None \<Rightarrow> None | Some t \<Rightarrow> tr_asm t"
  have "has_body rpc (cl_maxRecoveries c) ?y c" using assms(2) by (auto simp: arrival.spared_def arrived_def)
  then show ?thesis using prudentI [OF asking_none [OF assms(1)]] by blast
qed

lemma prudent_tick: "hold (mindful L rpc m y) (tick e) (prudent L rpc) (\<lambda>_. True)"
proof -
  have "asks L rpc y (detectSeqLoss e)" by (intro upholds)
  then have "hold (mindful L rpc m y) (detectSeqLoss e) (mindful L rpc m y) (\<lambda>_. True)"
    by (intro mindful_keeps safe_detect_seq arrival.spares_detect_seq pairs_quietly(5) schedules_detect_seq mindful_careful careful_asks)
  then have seq: "hold (\<lambda>c. c = d \<and> mindful L rpc m y d) (whenA b (detectSeqLoss e)) (mindful L rpc m y) (\<lambda>_. True)" for b d
    by (intro hold_when) (auto intro: hold_pre)
  have each: "hold (\<lambda>c. c = d \<and> mindful L rpc m y d) (eachA (tick_transfer e) ks) (mindful L rpc m y) (\<lambda>_. True)" for ks d
    by (rule hold_pre [OF hold_each [OF mindful_tick_transfer]]) simp
  have "has_body rpc m y (c\<lparr>cl_ticker := False\<rparr>)" if "has_body rpc m y c" for c
    using that by (simp add: arrival.spared_def keyed_def)
  then have last: "hold (mindful L rpc m y) (doA (\<lambda>c. if cl_transfers c = [] then c\<lparr>cl_ticker := False\<rparr> else c)) (prudent L rpc) (\<lambda>_. True)"
    by (intro hold_do prudentI [where m = m and y = y]) (simp_all add: mindful_def careful_def)
  show ?thesis unfolding tick_def by (rule hold_read, rule hold_then [OF seq], rule hold_read, rule hold_then [OF each last])
qed

section \<open>Datagrams\<close>

lemma prudent_careful: "hold P m (careful L rpc n y) X \<Longrightarrow> hold P m (prudent L rpc) X"
  by (erule hold_post) (auto simp: careful_def intro: prudentI)

lemma hold_ex: "(\<And>z. hold (P z) m Q X) \<Longrightarrow> hold (\<lambda>c. \<exists>z. P z c) m Q X"
  by (force simp: hold_def split: prod.splits sum.splits)

text \<open>A payload for the request. Nothing has been asked for yet when it is added.\<close>

definition silent_so_far :: "effect list \<Rightarrow> int \<Rightarrow> client \<Rightarrow> bool" where
  "silent_so_far L rpc c \<longleftrightarrow> sound c \<and> asking L rpc None c"

lemma silent_keeps:
  assumes "safe m" "asks L rpc None m"
  shows "hold (silent_so_far L rpc) m (silent_so_far L rpc) (\<lambda>_. True)"
proof -
  have s: "hold (silent_so_far L rpc) m sound (\<lambda>_. False)" by (rule hold_pre [OF safeD [OF assms(1)]]) (simp add: silent_so_far_def)
  have a: "hold (silent_so_far L rpc) m (asking L rpc None) (asking L rpc None)"
    by (rule hold_pre [OF assms(2) [unfolded upholding_def]]) (simp add: silent_so_far_def)
  show ?thesis by (rule hold_post [OF hold_both [OF s a]]) (simp_all add: silent_so_far_def)
qed

lemma silent_prudent: "silent_so_far L rpc c \<Longrightarrow> prudent L rpc c"
  using prudent_none sound_keyed by (auto simp: silent_so_far_def)

lemma prudent_payload:
  assumes "u32 off"
  shows "hold (silent_so_far L rpc) (take_payload e rpc off p) (prudent L rpc) (\<lambda>_. True)"
  unfolding take_payload_def
proof (rule hold_transfer, erule silent_prudent)
  fix t :: transfer
  let ?P = "\<lambda>c. silent_so_far L rpc c \<and> jm_get (cl_transfers c) rpc = Some t"
  let ?rest = "with_transfer rpc (\<lambda>t.
      if (case tr_asm t of None \<Rightarrow> False | Some a \<Rightarrow> asm_complete a) \<and> tr_headers t \<noteq> None
      then finish e t None
      else whenA (since (ev_now e) (tr_lastDetect t) DETECT_INTERVAL_MS) (detectLoss e rpc))"
  have rest: "hold (careful L rpc m y) ?rest (prudent L rpc) (\<lambda>_. True)" for m y
  proof -
    have a: "hold (careful L rpc m y) (if (case tr_asm t of None \<Rightarrow> False | Some a \<Rightarrow> asm_complete a) \<and> tr_headers t \<noteq> None
        then finish e t None else whenA (since (ev_now e) (tr_lastDetect t) DETECT_INTERVAL_MS) (detectLoss e rpc))
        (asking L rpc y) (\<lambda>_. True)" for t
      by (intro hold_cases hold_when careful_detect careful_asks asks_finish) (simp add: careful_def)
    have "hold (careful L rpc m y) ?rest (asking L rpc y) (\<lambda>_. True)" by (rule hold_careful [OF a])
    moreover have "safe ?rest" "embodies rpc m y ?rest" by (intro upholds)+
    ultimately show ?thesis by (intro prudent_careful [OF careful_keeps])
  qed
  have fin: "hold ?P (finish e t x) (prudent L rpc) (\<lambda>_. True)" for x
    by (rule hold_post [OF hold_pre [OF silent_keeps [OF safe_finish asks_finish]]]) (auto intro: silent_prudent)
  have pay: "hold ?P (thenA (doA (data_arrived e off p fresh a' rp t)) ?rest) (prudent L rpc) (\<lambda>_. True)"
    if a: "tr_asm t = Some a" "asm_add off p a = Inr (fresh, a')" for a a' fresh rp
  proof (rule hold_because [where F = "tr_rpc t = rpc \<and> sound_transfer t"])
    fix c assume "?P c"
    then show "tr_rpc t = rpc \<and> sound_transfer t" using sound_get by (auto simp: silent_so_far_def)
  next
    assume t: "tr_rpc t = rpc \<and> sound_transfer t"
    have "asm_ok a" using sound_transfer_parts(1) [OF _ a(1)] t by blast
    note f = asm_fresh_whole [OF this _ a(2)]
    have "careful L rpc (cl_maxRecoveries c) (Some a') (data_arrived e off p fresh a' rp t c)" if "?P c" for c
    proof -
      have c: "sound c" "asking L rpc None c" using that by (simp_all add: silent_so_far_def)
      have "sound (data_arrived e off p fresh a' rp t c)"
        by (rule sound_data_arrived) (use c t f assms sound_transfer_parts(1) [OF _ a(1)] in \<open>auto simp: u32_def\<close>)
      moreover have "arrival.spared rpc (cl_maxRecoveries c) False (\<lambda>_. True) c"
        using sound_keyed [OF c(1)] by (simp add: arrival.spared_def)
      then have "has_body rpc (cl_maxRecoveries c) (Some a') (data_arrived e off p fresh a' rp t c)"
        by (rule awaits_data_arrived) (use t in \<open>simp_all add: arrived_def\<close>)
      ultimately show ?thesis using c(2) by (simp add: careful_def asking_none)
    qed
    then have "hold ?P (doA (data_arrived e off p fresh a' rp t)) (\<lambda>c. \<exists>m. careful L rpc m (Some a') c) (\<lambda>_. True)"
      by (intro hold_do) blast
    moreover have "hold (\<lambda>c. \<exists>m. careful L rpc m (Some a') c) ?rest (prudent L rpc) (\<lambda>_. True)"
      by (rule hold_ex, rule rest)
    ultimately show "hold ?P (thenA (doA (data_arrived e off p fresh a' rp t)) ?rest) (prudent L rpc) (\<lambda>_. True)" by (rule hold_then)
  qed
  have ret: "hold ?P (retA ()) (prudent L rpc) (\<lambda>_. True)" by (rule hold_ret) (auto intro: silent_prudent)
  show "hold ?P (case (tr_asm t, tr_repair t) of
       (Some a, Some rp) \<Rightarrow>
         (case asm_add off p a of
            Inl _ \<Rightarrow> finish e t (Some ReassemblyRangeError)
          | Inr (fresh, a') \<Rightarrow> thenA (doA (data_arrived e off p fresh a' rp t)) ?rest)
     | _ \<Rightarrow> retA ()) (prudent L rpc) (\<lambda>_. True)"
    using ret fin pay by (cases "tr_asm t"; cases "tr_repair t") (auto split: sum.split simp del: not_None_eq)
qed

lemma asks_payload_other: "r \<noteq> rpc \<Longrightarrow> asks L rpc y (take_payload e r off p)"
  unfolding take_payload_def detectLoss_def Let_def split_def prod.case
  by (intro upholds) (auto split: sum.split intro!: upholds)

lemma silent_post: "safe m \<Longrightarrow> asks L rpc None m \<Longrightarrow> hold (silent_so_far L rpc) m (prudent L rpc) (\<lambda>_. True)"
  by (rule hold_post [OF silent_keeps]) (auto intro: silent_prudent)

lemma prudent_data:
  assumes "u32 tot" "u32 off"
  shows "hold (silent_so_far L rpc) (handle_data e rpc tot off p) (prudent L rpc) (\<lambda>_. True)"
  unfolding handle_data_def
proof (rule hold_transfer, erule silent_prudent)
  fix t :: transfer
  let ?P = "\<lambda>c. silent_so_far L rpc c \<and> jm_get (cl_transfers c) rpc = Some t"
  have "silent_so_far L rpc (open_body tot t c)" if "?P c" for c
  proof -
    have c: "sound c" "asking L rpc None c" "sound_transfer t" using that sound_get by (auto simp: silent_so_far_def)
    then show ?thesis using sound_open [OF c(1,3) assms(1)] by (simp add: silent_so_far_def open_body_def)
  qed
  then have opened: "hold ?P (thenA (doA (open_body tot t)) (take_payload e rpc off p)) (prudent L rpc) (\<lambda>_. True)"
    by (intro hold_then [OF hold_do prudent_payload [OF assms(2)]])
  have "hold ?P (finish e t x) (prudent L rpc) (\<lambda>_. True)" for x
    by (rule hold_pre [OF silent_post [OF safe_finish asks_finish]]) simp
  moreover have "hold ?P (take_payload e rpc off p) (prudent L rpc) (\<lambda>_. True)"
    by (rule hold_pre [OF prudent_payload [OF assms(2)]]) simp
  ultimately have "hold ?P (if tot \<noteq> asm_size a then finish e t (Some (Http4Error TotalSizeChanged None))
      else take_payload e rpc off p) (prudent L rpc) (\<lambda>_. True)" for a by (intro hold_cases)
  with opened show "hold ?P (case tr_asm t of
       None \<Rightarrow> thenA (doA (open_body tot t)) (take_payload e rpc off p)
     | Some a \<Rightarrow> if tot \<noteq> asm_size a then finish e t (Some (Http4Error TotalSizeChanged None))
         else take_payload e rpc off p) (prudent L rpc) (\<lambda>_. True)"
    by (intro hold_option_on)
qed

lemma asks_data_other: "r \<noteq> rpc \<Longrightarrow> asks L rpc y (handle_data e r tot off p)"
  unfolding handle_data_def by (intro upholds asks_payload_other) (simp_all add: open_body_def)

lemma asks_deliver: "(\<And>tot off b. p \<noteq> Data rpc tot off b) \<Longrightarrow> asks L rpc y (deliver e p)"
  unfolding deliver_def by (rule asks_transfer) (cases p; simp; intro upholds asks_data_other; auto)

lemma prudent_deliver:
  assumes "decent p"
  shows "hold (silent_so_far L rpc) (deliver e p) (prudent L rpc) (\<lambda>_. True)"
proof (cases "\<exists>tot off b. p = Data rpc tot off b")
  case True
  then obtain tot off b where p: "p = Data rpc tot off b" by blast
  then have u: "u32 tot" "u32 off" using assms by simp_all
  have "hold (silent_so_far L rpc) (thenA (note_reply e rpc) (handle_data e rpc tot off b)) (prudent L rpc) (\<lambda>_. True)"
    by (rule hold_then [OF silent_keeps [OF safe_reply asks_reply] prudent_data [OF u]])
  then show ?thesis unfolding deliver_def p packet.case
    by (intro hold_transfer) (auto intro: silent_prudent hold_pre)
next
  case False
  then show ?thesis by (intro silent_post safe_deliver assms asks_deliver) auto
qed

lemma asking_arrived [simp]: "asking L rpc y (seq_arrived e r off sq p c) = asking L rpc y c"
  by (simp add: seq_arrived_def Let_def split_def)

lemma prudent_handle:
  assumes "decent p"
  shows "hold (silent_so_far L rpc) (handle e p) (prudent L rpc) (\<lambda>_. True)"
proof (cases p)
  case (DataSeq r tot off sq pl)
  have p: "u32 sq" "decent (Data r tot off pl)" using assms DataSeq by simp_all
  have "hold (silent_so_far L rpc) (doA (seq_arrived e r off sq pl)) (silent_so_far L rpc) (\<lambda>_. True)"
    by (rule hold_do) (use p(1) in \<open>simp add: silent_so_far_def sound_arrived\<close>)
  moreover have "hold (silent_so_far L rpc) (readA (\<lambda>c. whenA (since (ev_now e) (cl_lastSeqDetect c) DETECT_INTERVAL_MS) (detectSeqLoss e)))
      (silent_so_far L rpc) (\<lambda>_. True)"
    by (rule silent_keeps) (intro upholds)+
  ultimately show ?thesis unfolding handle_def DataSeq packet.case
    by (intro hold_then [OF _ hold_then [OF _ prudent_deliver [OF p(2)]]])
qed (use assms prudent_deliver [of p] in \<open>simp_all add: handle_def\<close>)

lemma prudent_pump: "hold (prudent L rpc) (pumpGrants e) (prudent L rpc) (\<lambda>_. True)"
proof -
  have "hold (\<lambda>c. asking L rpc y c \<and> has_body rpc m y c) (pumpGrants e) (\<lambda>c. asking L rpc y c \<and> has_body rpc m y c) (\<lambda>_. True)" for m y
    by (rule hold_both [OF hold_pre [OF asks_pump [unfolded upholding_def]] hold_pre [OF arrival.spares_pump [unfolded upholding_def]]]) simp_all
  then have "hold (\<lambda>c. asking L rpc y c \<and> has_body rpc m y c) (pumpGrants e) (prudent L rpc) (\<lambda>_. True)" for m y
    by (rule hold_post) (auto intro: prudentI)
  then show ?thesis unfolding prudent_def [abs_def] by (intro hold_ex) 
qed

lemma prudent_read_one: "hold (silent_so_far L rpc) (read_one e b) (prudent L rpc) (\<lambda>_. True)"
proof (cases "decode b")
  case (Inl x)
  then have m: "\<exists>r. x = MalformedPacketError r" using wire.dec_error [OF Inl] by (cases x) auto
  show ?thesis by (rule silent_post [OF safe_read_one]) (use m in \<open>auto simp: read_one_def Inl intro!: upholds\<close>)
next
  case (Inr p)
  have "hold (silent_so_far L rpc) (doA (upd_stats f)) (silent_so_far L rpc) (\<lambda>_. True)" for f
    by (rule hold_do) (simp add: silent_so_far_def)
  then show ?thesis unfolding read_one_def Inr sum.case
    by (intro hold_then [OF _ hold_then [OF prudent_handle [OF decode_decent [OF Inr]] prudent_pump]])
qed

section \<open>Every event\<close>

lemma prudent_step:
  assumes "sane c" "paired rpc c"
  shows "prudent (cl_log c) rpc (snd (client_step e ev c))"
proof -
  let ?L = "cl_log c"
  have s: "sound c" "silent_so_far ?L rpc c" using assms(1) asking_start by (simp_all add: sane_def silent_so_far_def)
  have quietly: ?thesis if "asks ?L rpc None (client_step e ev)"
  proof -
    have "sound (snd (client_step e ev c))" using sound_run [OF s(1), of "[(e, ev)]"] by simp
    then show ?thesis using upholding_state [OF that] s(2) sound_keyed by (intro prudent_none) (auto simp: silent_so_far_def)
  qed
  show ?thesis
  proof (cases ev)
    case (Datagram b)
    have f: "fst (read_one e b c) = Inr ()" using safe_result [OF safe_read_one s(1)] by blast
    moreover have "cl_reading c" using s(1) by (simp add: sound_def)
    ultimately have r: "snd (client_step e ev c) = snd (read_one e b c)"
      unfolding Datagram by (cases "read_one e b c") (simp add: receive_def readA_def whenA_def catchA_def)
    show ?thesis unfolding r using prudent_read_one [of ?L rpc e b] s(2) f
      by (cases "read_one e b c") (fastforce simp: hold_def)
  next
    case Tick
    show ?thesis
    proof (cases "cl_ticker c")
      case True
      let ?y = "case jm_get (cl_transfers c) rpc of None \<Rightarrow> None | Some t \<Rightarrow> tr_asm t"
      have "mindful ?L rpc (cl_maxRecoveries c) ?y c"
        using assms s sound_keyed [OF s(1)]
        by (auto simp: mindful_def careful_def sane_def silent_so_far_def asking_none arrival.spared_def arrived_def)
      moreover have "fst (tick e c) = Inr ()" using safe_result [OF safe_tick s(1)] by blast
      ultimately show ?thesis using prudent_tick [of ?L rpc "cl_maxRecoveries c" ?y e] True
        by (cases "tick e c") (fastforce simp: hold_def Tick readA_def whenA_def)
    next
      case False
      then show ?thesis using silent_prudent [OF s(2)] Tick by (simp add: readA_def whenA_def retA_def)
    qed
  next
    case (Start r aid streaming cls)
    show ?thesis by (rule quietly) (use Start in \<open>simp add: asks_start\<close>)
  next
    case (Pull r)
    show ?thesis by (rule quietly) (use Pull in \<open>simp add: asks_pull\<close>)
  next
    case (Cancel r)
    show ?thesis by (rule quietly) (use Cancel in \<open>simp add: stream_cancel_def asks_drop\<close>)
  next
    case Close
    have "asks ?L rpc None close_client" unfolding close_client_def by (intro upholds) simp
    then show ?thesis by (intro quietly) (simp add: Close)
  next
    case SessionEnd
    have "asks ?L rpc None (session_end e)" unfolding session_end_def by (intro upholds) simp
    then show ?thesis by (intro quietly) (simp add: SessionEnd)
  qed
qed

section \<open>The property\<close>

text \<open>C10: a session never asks again for what it has. Every RESEND that an event makes the client write for a
  request that is still open names at least one byte, lies within the asset, and none of its bytes had
  arrived when it was written: whether early detection, the tail probe or the stall timer sent it.\<close>

theorem resends_ask_for_missing:
  assumes "whole_options op" "fresh_ids {} (map snd evs)" "c = client_run evs (snd (new_client op limit queue))"
    "c' = snd (client_step e ev c)" "x \<in> set (drop (length (cl_log c)) (cl_log c'))" "asks_for x rpc s t"
    "jm_get (cl_transfers c') rpc = Some u"
  shows "missing_in (tr_asm u) s t"
proof -
  have "sane c" "paired rpc c" using in_step_run [OF in_step_new [OF assms(1)] assms(2)] assms(3) by (auto simp: in_step_def)
  then obtain m y where p: "asking (cl_log c) rpc y c'" "has_body rpc m y c'"
    using prudent_step [of c rpc e ev] assms(4) by (auto simp: prudent_def)
  have "tr_asm u = y" using p(2) assms(7) by (simp add: arrival.spared_def arrived_def)
  then show ?thesis using p(1) assms(5,6) by (auto simp: asking_def)
qed

definition cut_session :: "(env \<times> client_ev) list" where
  "cut_session = [(roomy 0, Start 7 [97] False Normal), (roomy 6, Datagram long7)]"

lemma cut_log: "length (cl_log (client_run cut_session sample_client)) = 4"
  by (simp add: cut_session_def sample_client_def plain_options_def roomy_def runs cong: run_congs)

lemma cut_tick:
  "\<exists>c' u. client_step (roomy 20000) Tick (client_run cut_session sample_client) = (Inr (), c') \<and>
     drop 4 (cl_log c') = map (\<lambda>p. Write (packet_bytes p)) [Resend 7 99998 100000, Req 7 4096 [97], Grant 7 100000 0, Resend 7 2 4] \<and>
     jm_get (cl_transfers c') 7 = Some u"
  by (simp add: cut_session_def sample_client_def plain_options_def roomy_def runs tick_def [THEN fun_cong]
      tick_transfer_def [THEN fun_cong] tail_probe_def [THEN fun_cong] recover_def [THEN fun_cong] recover_again_def [THEN fun_cong]
      granted_now_def waiting_def stall_timeout_def drainMs_def rtt_or_def lossBackoff_def recover_prepare_def recover_gaps_def
      repairDelay_def sched_granted_def payload_guess_def send_resend_def bc_on_loss_def MAX_DRAIN_MS_def DEFAULT_PAYLOAD_def
      MIN_REPAIR_DELAY_MS_def SERVER_SEND_QUEUE_PACKETS_def MAX_RESEND_RANGES_def cong: run_congs)

lemma asks_written: "wf_packet (Resend r s t) \<Longrightarrow> asks_for (Write (packet_bytes (Resend r s t))) r s t"
  by (simp add: asks_for_def decode_packet_bytes bom_req_def)

text \<open>Two bytes of a long asset have come, then nothing: the tail probe asks for the end, the stall timer for the
  first packet that is missing.\<close>

theorem resends_ask_for_missing_witness:
  "\<exists>c' u. c' = snd (client_step (roomy 20000) Tick (client_run cut_session sample_client)) \<and>
     jm_get (cl_transfers c') 7 = Some u \<and> missing_in (tr_asm u) 2 4"
proof -
  obtain c' u where c: "client_step (roomy 20000) Tick (client_run cut_session sample_client) = (Inr (), c')"
      "drop 4 (cl_log c') = map (\<lambda>p. Write (packet_bytes p)) [Resend 7 99998 100000, Req 7 4096 [97], Grant 7 100000 0, Resend 7 2 4]"
      "jm_get (cl_transfers c') 7 = Some u"
    using cut_tick by blast
  have "asks_for (Write (packet_bytes (Resend 7 2 4))) 7 2 4"
    by (rule asks_written) (simp add: wf_packet_def u32_def)
  from resends_ask_for_missing [OF plain_whole _ refl refl _ this, of cut_session 1200 None "roomy 20000" Tick u]
  show ?thesis using c cut_log by (simp add: cut_session_def flip: sample_client_def)
qed

end
