(* ===== verification/Web.thy ===== *)
theory Web
  imports JsValue Utf8
begin

text \<open>
  What the layers above the session use of the web platform: parsed URLs, and the string operations of
  the language on paths. The URL parser itself is the browser's; it is an argument of the definitions
  that call it. \<open>decodeURIComponent\<close> is part of the language and is modelled here.
\<close>

section \<open>URLs\<close>

record url =
  u_href :: jsstring
  u_origin :: jsstring
  u_protocol :: jsstring
  u_pathname :: jsstring

section \<open>Strings\<close>

definition dot :: jschar where "dot = 0x2E"
definition percent :: jschar where "percent = 0x25"

text \<open>\<open>s.split(sep)\<close> for a one-character separator, and \<open>parts.join(sep)\<close>.\<close>

fun split_on :: "'a \<Rightarrow> 'a list \<Rightarrow> 'a list list" where
  "split_on c [] = [[]]"
| "split_on c (x # xs) =
     (if x = c then [] # split_on c xs
      else case split_on c xs of [] \<Rightarrow> [[x]] | p # ps \<Rightarrow> (x # p) # ps)"

fun join_with :: "'a \<Rightarrow> 'a list list \<Rightarrow> 'a list" where
  "join_with c [] = []"
| "join_with c [p] = p"
| "join_with c (p # q # ps) = p @ c # join_with c (q # ps)"

lemma split_on_nonempty: "split_on c xs \<noteq> []"
  by (cases xs) (auto split: list.split)

lemma split_on_pieces: "p \<in> set (split_on c xs) \<Longrightarrow> c \<notin> set p"
  by (induction xs arbitrary: p) (auto split: if_splits list.splits)

lemma join_split: "join_with c (split_on c xs) = xs"
proof (induction xs)
  case (Cons x xs)
  show ?case
  proof (cases "split_on c xs")
    case Nil
    then show ?thesis using split_on_nonempty by metis
  next
    case (Cons p ps)
    then show ?thesis using Cons.IH by (cases ps) auto
  qed
qed simp

lemma split_append: "c \<notin> set p \<Longrightarrow> split_on c (p @ xs) = (p @ hd (split_on c xs)) # tl (split_on c xs)"
  by (induction p) (auto simp: split_on_nonempty split: list.split)

lemma split_join: "ps \<noteq> [] \<Longrightarrow> \<forall>p \<in> set ps. c \<notin> set p \<Longrightarrow> split_on c (join_with c ps) = ps"
proof (induction c ps rule: join_with.induct)
  case (2 c p)
  then show ?case using split_append [of c p "[]"] by simp
next
  case (3 c p q ps)
  then show ?case using split_append [of c p "c # join_with c (q # ps)"] by simp
qed simp

section \<open>decodeURIComponent\<close>

definition hex_value :: "jschar \<Rightarrow> nat option" where
  "hex_value u =
     (let n = unat u in
      if 0x30 \<le> n \<and> n \<le> 0x39 then Some (n - 0x30)
      else if 0x41 \<le> n \<and> n \<le> 0x46 then Some (n - 0x37)
      else if 0x61 \<le> n \<and> n \<le> 0x66 then Some (n - 0x57)
      else None)"

text \<open>One \<open>%XX\<close>, and \<open>n\<close> of them in a row.\<close>

fun pct_byte :: "jsstring \<Rightarrow> (byte \<times> jsstring) option" where
  "pct_byte (p # a # b # us) =
     (if p \<noteq> percent then None
      else case (hex_value a, hex_value b) of
             (Some x, Some y) \<Rightarrow> Some (byte_of (16 * x + y), us)
           | _ \<Rightarrow> None)"
| "pct_byte _ = None"

fun pct_bytes :: "nat \<Rightarrow> jsstring \<Rightarrow> (byte list \<times> jsstring) option" where
  "pct_bytes 0 us = Some ([], us)"
| "pct_bytes (Suc n) us =
     (case pct_byte us of
        None \<Rightarrow> None
      | Some (b, us1) \<Rightarrow>
          (case pct_bytes n us1 of None \<Rightarrow> None | Some (bs, us2) \<Rightarrow> Some (b # bs, us2)))"

text \<open>How many bytes the lead byte announces.\<close>

definition announced :: "byte \<Rightarrow> nat option" where
  "announced b =
     (let n = unat b in
      if n < 0x80 then Some 1 else if n < 0xC0 then None else if n < 0xE0 then Some 2
      else if n < 0xF0 then Some 3 else if n < 0xF8 then Some 4 else None)"

text \<open>One character, escaped or not; \<open>None\<close> is the \<open>URIError\<close>.\<close>

definition decode_char :: "jsstring \<Rightarrow> (jsstring \<times> jsstring) option" where
  "decode_char us =
     (case us of
        [] \<Rightarrow> None
      | u # rest \<Rightarrow>
          if u \<noteq> percent then Some ([u], rest)
          else case pct_byte us of
                 None \<Rightarrow> None
               | Some (b, _) \<Rightarrow>
                   (case announced b of
                      None \<Rightarrow> None
                    | Some n \<Rightarrow>
                        (case pct_bytes n us of
                           None \<Rightarrow> None
                         | Some (bs, rest) \<Rightarrow>
                             (case utf8_next bs of
                                Some (c, []) \<Rightarrow> Some (utf16_of c, rest)
                              | _ \<Rightarrow> None))))"

lemma pct_byte_shorter: "pct_byte us = Some (b, rest) \<Longrightarrow> length us = length rest + 3"
  by (cases us rule: pct_byte.cases) (auto split: if_splits option.splits)

lemma pct_bytes_shorter: "pct_bytes n us = Some (bs, rest) \<Longrightarrow> length us = length rest + 3 * n"
  by (induction n us arbitrary: bs rule: pct_bytes.induct)
     (auto split: option.splits dest!: pct_byte_shorter)

lemma announced_pos: "announced b = Some n \<Longrightarrow> 0 < n"
  by (auto simp: announced_def Let_def split: if_splits)

lemma decode_char_shorter: "decode_char us = Some (s, rest) \<Longrightarrow> length rest < length us"
  by (auto simp: decode_char_def split: list.splits if_splits option.splits prod.splits
      dest!: pct_bytes_shorter announced_pos)

function decodeURIComponent :: "jsstring \<Rightarrow> jsstring option" where
  "decodeURIComponent us =
     (if us = [] then Some []
      else case decode_char us of
             None \<Rightarrow> None
           | Some (s, rest) \<Rightarrow> map_option ((@) s) (decodeURIComponent rest))"
  by pat_completeness auto
termination
  by (relation "measure length") (auto dest: decode_char_shorter)

declare decodeURIComponent.simps [simp del]

lemma decodeURIComponent_Nil [simp]: "decodeURIComponent [] = Some []"
  by (simp add: decodeURIComponent.simps)

lemma decodeURIComponent_step:
  "decode_char us = Some (s, rest) \<Longrightarrow> decodeURIComponent us = map_option ((@) s) (decodeURIComponent rest)"
  by (subst decodeURIComponent.simps) (auto simp: decode_char_def)

section \<open>Escaping\<close>

text \<open>The escape of a string as a reference: every character becomes the \<open>%XX\<close> of its UTF-8 bytes.\<close>

definition hex_digit :: "nat \<Rightarrow> jschar" where
  "hex_digit n = (if n < 10 then of_nat (0x30 + n) else of_nat (0x37 + n))"

definition pct_of :: "byte \<Rightarrow> jsstring" where
  "pct_of b = [percent, hex_digit (unat b div 16), hex_digit (unat b mod 16)]"

definition escape_all :: "jsstring \<Rightarrow> jsstring" where
  "escape_all s = concat (map pct_of (utf8_encode s))"

lemma hex_value_digit: "n < 16 \<Longrightarrow> hex_value (hex_digit n) = Some n"
proof -
  assume "n < 16"
  then have "n \<in> {..<16}" by simp
  then show ?thesis
    by (simp add: lessThan_nat_numeral lessThan_Suc hex_value_def hex_digit_def Let_def) (elim disjE; simp)
qed

lemma pct_byte_of: "pct_byte (pct_of b @ us) = Some (b, us)"
proof -
  have "unat b div 16 < 16" using unat_byte_less [of b] by simp
  then show ?thesis by (simp add: pct_of_def hex_value_digit)
qed

lemma pct_bytes_of: "pct_bytes (length bs) (concat (map pct_of bs) @ us) = Some (bs, us)"
  by (induction bs) (simp_all add: pct_byte_of)

lemma announced_utf8: "is_scalar c \<Longrightarrow> announced (hd (utf8_of c)) = Some (length (utf8_of c))"
  by (auto simp: announced_def utf8_of_def is_scalar_def unat_byte Let_def)

lemma decode_escaped:
  assumes "is_scalar c"
  shows "decodeURIComponent (concat (map pct_of (utf8_of c)) @ us) = map_option ((@) (utf16_of c)) (decodeURIComponent us)"
proof -
  obtain b bs where b: "utf8_of c = b # bs" using utf8_of_nonempty by (cases "utf8_of c") auto
  have "pct_bytes (length (utf8_of c)) (concat (map pct_of (utf8_of c)) @ us) = Some (utf8_of c, us)"
    by (rule pct_bytes_of)
  moreover have "pct_byte (concat (map pct_of (utf8_of c)) @ us) = Some (b, concat (map pct_of bs) @ us)"
    by (simp add: b pct_byte_of)
  moreover have "announced b = Some (length (utf8_of c))" using announced_utf8 [OF assms] b by simp
  moreover have "utf8_next (utf8_of c) = Some (c, [])" using utf8_next_of [OF assms, of "[]"] by simp
  moreover obtain w where "concat (map pct_of (utf8_of c)) @ us = percent # w"
    by (simp add: b pct_of_def)
  ultimately have "decode_char (concat (map pct_of (utf8_of c)) @ us) = Some (utf16_of c, us)"
    by (simp add: decode_char_def)
  then show ?thesis by (rule decodeURIComponent_step)
qed

lemma decode_escape_all:
  assumes "is_well_formed s"
  shows "decodeURIComponent (escape_all s) = Some s"
proof -
  have "decodeURIComponent (concat (map pct_of (concat (map utf8_of cs)))) = Some (concat (map utf16_of cs))"
    if "\<forall>c \<in> set cs. is_scalar c" for cs
    using that by (induction cs) (simp_all add: decode_escaped)
  then show ?thesis using scalars_well_formed [OF assms]
    by (simp add: escape_all_def utf8_encode_def)
qed

text \<open>Decoding text without surrogates gives well-formed text.\<close>

lemma pct_byte_subset: "pct_byte us = Some (b, rest) \<Longrightarrow> set rest \<subseteq> set us"
  by (cases us rule: pct_byte.cases) (auto split: if_splits option.splits)

lemma pct_bytes_subset: "pct_bytes n us = Some (bs, rest) \<Longrightarrow> set rest \<subseteq> set us"
proof (induction n arbitrary: us bs)
  case (Suc n)
  then obtain b us1 bs1 where "pct_byte us = Some (b, us1)" "pct_bytes n us1 = Some (bs1, rest)"
    by (auto split: option.splits)
  then show ?case using Suc.IH pct_byte_subset by blast
qed simp

lemma decode_char_shape:
  assumes "decode_char us = Some (s, rest)" "\<forall>u \<in> set us. \<not> is_lead u \<and> \<not> is_trail u"
  shows "set rest \<subseteq> set us \<and> (\<exists>c. is_scalar c \<and> s = utf16_of c)"
proof -
  obtain u us1 where u: "us = u # us1" using assms(1) by (cases us) (auto simp: decode_char_def)
  show ?thesis
  proof (cases "u = percent")
    case False
    have "is_scalar (unat u) \<and> [u] = utf16_of (unat u)"
      using assms(2) unat_jschar_less [of u] by (auto simp: u is_scalar_def utf16_of_def is_lead_def is_trail_def)
    then show ?thesis using assms(1) False by (auto simp: u decode_char_def)
  next
    case True
    then obtain n bs c where "pct_bytes n us = Some (bs, rest)" "utf8_next bs = Some (c, [])" "s = utf16_of c"
      using assms(1) by (auto simp: u decode_char_def split: option.splits list.splits prod.splits)
    then show ?thesis using pct_bytes_subset utf8_next_inv by blast
  qed
qed

lemma decoded_well_formed:
  assumes "decodeURIComponent us = Some s" "\<forall>u \<in> set us. \<not> is_lead u \<and> \<not> is_trail u"
  shows "is_well_formed s"
  using assms
proof (induction us arbitrary: s rule: decodeURIComponent.induct)
  case (1 us)
  show ?case
  proof (cases "us = []")
    case True
    then show ?thesis using "1.prems" by simp
  next
    case False
    then obtain a rest t where d: "decode_char us = Some (a, rest)" "decodeURIComponent rest = Some t" "s = a @ t"
      using "1.prems"(1) by (subst (asm) decodeURIComponent.simps) (auto split: option.splits)
    obtain c where c: "set rest \<subseteq> set us" "is_scalar c" "a = utf16_of c"
      using decode_char_shape [OF d(1) "1.prems"(2)] by blast
    have "is_well_formed t" by (rule "1.IH" [OF False d(1) refl d(2)]) (use "1.prems"(2) c(1) in blast)
    then show ?thesis using well_formed_utf16_append [OF c(2)] d(3) c(3) by simp
  qed
qed

end
