(* ===== verification/Fetcher.thy ===== *)
theory Fetcher
  imports Web Session
begin

text \<open>
  \<open>client/src/fetcher.ts\<close>: which asset a URL names, whether a request can go over HTTP4, what HTTP4 made
  of it, and \<open>fetch\<close>, which falls back to the platform and reports every request.

  The outside is explicit: what the session answers and what the platform fetch returns are arguments,
  as is the parsed URL and whether the signal fires. \<open>performance.now()\<close> gives the time spent as an
  argument. Texts of reasons are constructors. The embedder's \<open>onRequest\<close> gets the entry that the log gets.
\<close>

section \<open>The asset a URL names\<close>

definition map_segment :: "jsstring \<Rightarrow> jsstring option" where
  "map_segment raw =
     (case decodeURIComponent raw of
        None \<Rightarrow> None
      | Some seg \<Rightarrow>
          if seg = [] \<or> seg = [dot] \<or> seg = [dot, dot] \<or> slash \<in> set seg then None else Some seg)"

fun map_segments :: "jsstring list \<Rightarrow> jsstring list option" where
  "map_segments [] = Some []"
| "map_segments (raw # raws) =
     (case map_segment raw of
        None \<Rightarrow> None
      | Some seg \<Rightarrow> map_option ((#) seg) (map_segments raws))"

text \<open>\<open>origin\<close> is that of the base URL.\<close>

definition prefixMapper :: "jsstring \<Rightarrow> jsstring \<Rightarrow> url \<Rightarrow> jsstring option" where
  "prefixMapper origin prefx u =
     (if u_origin u \<noteq> origin \<or> \<not> startsWith (u_pathname u) prefx then None
      else let rest = drop (length prefx) (u_pathname u)
           in if rest = [] then None
              else map_option (join_with slash) (map_segments (split_on slash rest)))"

section \<open>Responses\<close>

text \<open>\<open>String(n)\<close> of a length.\<close>

fun decimal :: "nat \<Rightarrow> jsstring" where
  "decimal n = (if n < 10 then [of_nat (0x30 + n)] else decimal (n div 10) @ [of_nat (0x30 + n mod 10)])"

declare decimal.simps [simp del]

definition metaHeaders :: "headers \<Rightarrow> num \<Rightarrow> (jsstring \<times> jsstring) list" where
  "metaHeaders meta n = meta @ [(js ''content-length'', decimal (nat \<lfloor>n\<rfloor>))]"

text \<open>\<open>Http4Response\<close> and \<open>Http4Stream\<close>; a stream is known by its request.\<close>

record http4_response =
  hr_headers :: headers
  hr_body :: "byte list"

record http4_stream =
  hs_headers :: headers
  hs_size :: num
  hs_stream :: int

definition headersFor :: "http4_response \<Rightarrow> (jsstring \<times> jsstring) list" where
  "headersFor r = metaHeaders (hr_headers r) (len (hr_body r))"

section \<open>Outcomes\<close>

datatype via = ViaHttp4 | ViaFallback | ViaPlatform

datatype why = WhyGiven jsstring | NoSession | SessionGone

datatype reason =
    NotAssetPath
  | Unavailable why
  | Failed num js_error
  | BadMethod jsstring
  | CrossOrigin
  | HasBody
  | RangeRequest
  | AndPlatformFailed reason

record served =
  sv_status :: num
  sv_headers :: "(jsstring \<times> jsstring) list"
  sv_body :: "byte list option"
  sv_stream :: "int option"
  sv_length :: "num option"

datatype http4_outcome = Served served | PassTo via reason

record report =
  rp_url :: jsstring
  rp_method :: jsstring
  rp_transport :: via
  rp_reason :: "reason option"
  rp_status :: num
  rp_ms :: num
  rp_bytes :: "num option"

section \<open>The fetcher\<close>

text \<open>\<open>AssetRequester\<close>: whether the session is open, whether it can stream, and what it answers.\<close>

record requester =
  rq_isOpen :: bool
  rq_request :: "jsstring \<Rightarrow> priority_class \<Rightarrow> js_error + http4_response"
  rq_requestStream :: "(jsstring \<Rightarrow> priority_class \<Rightarrow> js_error + http4_stream) option"

record fetcher =
  ft_session :: "requester option"
  ft_unavailable :: "why option"
  ft_baseOrigin :: jsstring
  ft_pathToAssetId :: "url \<Rightarrow> jsstring option"
  ft_reportLimit :: "num option"
  ft_stream :: "bool option"
  ft_classes :: "class_map option"
  ft_log :: "report list"

definition available :: "fetcher \<Rightarrow> bool" where
  "available f = (case ft_session f of None \<Rightarrow> False | Some s \<Rightarrow> rq_isOpen s)"

definition unavailableReason :: "fetcher \<Rightarrow> why option" where
  "unavailableReason f =
     (case ft_session f of
        None \<Rightarrow> Some (or_default (ft_unavailable f) NoSession)
      | Some s \<Rightarrow> if rq_isOpen s then None else Some SessionGone)"

text \<open>The signal: none or never firing, already aborted, or firing before the transfer settles.\<close>

datatype signal = Quiet | Aborted | AbortsMeanwhile

datatype fetch_error = AbortReason | PlatformError | BadUrl

text \<open>\<open>abortable\<close>: the signal's reason if it fires first.\<close>

definition abortable :: "signal \<Rightarrow> js_error + 'a \<Rightarrow> (fetch_error + js_error) + 'a" where
  "abortable sig p =
     (if sig = AbortsMeanwhile then Inl (Inl AbortReason)
      else case p of Inl e \<Rightarrow> Inl (Inr e) | Inr x \<Rightarrow> Inr x)"

definition HEAD :: jsstring where "HEAD = js ''HEAD''"
definition GET :: jsstring where "GET = js ''GET''"

text \<open>The \<open>catch\<close> of \<open>outcome\<close>.\<close>

definition caught :: "fetch_error + js_error \<Rightarrow> fetch_error + http4_outcome" where
  "caught x =
     (case x of
        Inl a \<Rightarrow> Inl a
      | Inr e \<Rightarrow>
          if (case e of Http4Error _ code \<Rightarrow> code = Some NOT_FOUND | _ \<Rightarrow> False)
          then Inr (Served \<lparr>sv_status = 404, sv_headers = [], sv_body = None, sv_stream = None, sv_length = None\<rparr>)
          else Inr (PassTo ViaFallback (Failed (httpStatusFor e) e)))"

definition outcome :: "fetcher \<Rightarrow> url \<Rightarrow> jsstring \<Rightarrow> signal \<Rightarrow> jsstring \<Rightarrow> fetch_error + http4_outcome" where
  "outcome f u meth sig dest =
     (case ft_pathToAssetId f u of
        None \<Rightarrow> Inr (PassTo ViaPlatform NotAssetPath)
      | Some aid \<Rightarrow>
          (case ft_session f of
             None \<Rightarrow> Inr (PassTo ViaFallback (Unavailable (or_default (unavailableReason f) NoSession)))
           | Some s \<Rightarrow>
               if \<not> rq_isOpen s then Inr (PassTo ViaFallback (Unavailable (or_default (unavailableReason f) NoSession)))
               else if sig = Aborted then Inl AbortReason
               else
                 let cls = classFor (u_pathname u) dest (or_default (ft_classes f) [])
                 in case (if or_default (ft_stream f) True \<and> meth \<noteq> HEAD then rq_requestStream s else None) of
                      Some req \<Rightarrow>
                        (case abortable sig (req aid cls) of
                           Inl x \<Rightarrow> caught x
                         | Inr r \<Rightarrow> Inr (Served \<lparr>sv_status = 200, sv_headers = metaHeaders (hs_headers r) (hs_size r),
                             sv_body = None, sv_stream = Some (hs_stream r), sv_length = Some (hs_size r)\<rparr>))
                    | None \<Rightarrow>
                        (case abortable sig (rq_request s aid cls) of
                           Inl x \<Rightarrow> caught x
                         | Inr r \<Rightarrow> Inr (Served \<lparr>sv_status = 200, sv_headers = headersFor r,
                             sv_body = (if meth = HEAD then None else Some (hr_body r)), sv_stream = None, sv_length = None\<rparr>))))"

section \<open>fetch\<close>

text \<open>A call: the URL as parsed, and what \<open>init\<close> and the \<open>Request\<close> say.\<close>

record fetch_call =
  fc_url :: "url option"
  fc_initMethod :: "jsstring option"
  fc_reqMethod :: "jsstring option"
  fc_initBody :: bool
  fc_initRange :: "bool option"
  fc_reqRange :: "bool option"
  fc_signal :: signal

text \<open>\<open>toUpperCase\<close> on the ASCII letters, which is what method names are made of.\<close>

definition upper :: "jsstring \<Rightarrow> jsstring" where
  "upper s = map (\<lambda>u. if 0x61 \<le> unat u \<and> unat u \<le> 0x7A then u - 0x20 else u) s"

definition call_method :: "fetch_call \<Rightarrow> jsstring" where
  "call_method c = upper (or_default (fc_initMethod c) (or_default (fc_reqMethod c) GET))"

definition ineligible :: "fetcher \<Rightarrow> jsstring \<Rightarrow> url \<Rightarrow> fetch_call \<Rightarrow> reason option" where
  "ineligible f meth u c =
     (if meth \<noteq> GET \<and> meth \<noteq> HEAD then Some (BadMethod meth)
      else if u_origin u \<noteq> ft_baseOrigin f then Some CrossOrigin
      else if fc_initBody c then Some HasBody
      else if or_default (fc_initRange c) (or_default (fc_reqRange c) False) then Some RangeRequest
      else None)"

definition record_request :: "report \<Rightarrow> fetcher \<Rightarrow> fetcher" where
  "record_request r f =
     (let lg = ft_log f @ [r]
      in f\<lparr>ft_log := (if len lg > or_default (ft_reportLimit f) 1000 then tl lg else lg)\<rparr>)"

text \<open>The platform's response: its status and its \<open>content-length\<close>.\<close>

record platform_response =
  pr_status :: num
  pr_length :: "num option"

datatype response = FromPlatform platform_response | FromHttp4 served

definition via_platform ::
    "jsstring \<Rightarrow> jsstring \<Rightarrow> num \<Rightarrow> fetch_error + platform_response \<Rightarrow> via \<Rightarrow> reason \<Rightarrow> fetcher
      \<Rightarrow> (fetch_error + response) \<times> fetcher" where
  "via_platform href meth ms platform v why f =
     (case platform of
        Inl e \<Rightarrow> (Inl e, record_request \<lparr>rp_url = href, rp_method = meth, rp_transport = v,
                   rp_reason = Some (AndPlatformFailed why), rp_status = 0, rp_ms = ms, rp_bytes = None\<rparr> f)
      | Inr r \<Rightarrow> (Inr (FromPlatform r), record_request \<lparr>rp_url = href, rp_method = meth, rp_transport = v,
                   rp_reason = Some why, rp_status = pr_status r, rp_ms = ms, rp_bytes = pr_length r\<rparr> f))"

definition served_bytes :: "served \<Rightarrow> num option" where
  "served_bytes o' =
     (case sv_stream o' of
        Some _ \<Rightarrow> sv_length o'
      | None \<Rightarrow> Some (case sv_body o' of None \<Rightarrow> 0 | Some b \<Rightarrow> len b))"

definition fetch ::
    "fetch_call \<Rightarrow> num \<Rightarrow> fetch_error + platform_response \<Rightarrow> fetcher \<Rightarrow> (fetch_error + response) \<times> fetcher" where
  "fetch c ms platform f =
     (case fc_url c of
        None \<Rightarrow> (Inl BadUrl, f)
      | Some u \<Rightarrow>
          let meth = call_method c in
          case ineligible f meth u c of
            Some why \<Rightarrow> via_platform (u_href u) meth ms platform ViaPlatform why f
          | None \<Rightarrow>
              (case outcome f u meth (fc_signal c) [] of
                 Inl e \<Rightarrow> (Inl e, f)
               | Inr (PassTo v why) \<Rightarrow> via_platform (u_href u) meth ms platform v why f
               | Inr (Served s) \<Rightarrow>
                   (Inr (FromHttp4 s), record_request \<lparr>rp_url = u_href u, rp_method = meth, rp_transport = ViaHttp4,
                     rp_reason = None, rp_status = sv_status s, rp_ms = ms, rp_bytes = served_bytes s\<rparr> f)))"

section \<open>Lemmas on the mapping\<close>

definition plain_name :: "jsstring \<Rightarrow> bool" where
  "plain_name s \<longleftrightarrow> s \<noteq> [] \<and> s \<noteq> [dot] \<and> s \<noteq> [dot, dot] \<and> slash \<notin> set s"

lemma map_segment_some: "map_segment raw = Some s \<longleftrightarrow> decodeURIComponent raw = Some s \<and> plain_name s"
  by (auto simp: map_segment_def plain_name_def split: option.splits if_splits)

lemma map_segments_some:
  "map_segments raws = Some ss \<longleftrightarrow> map decodeURIComponent raws = map Some ss \<and> list_all plain_name ss"
proof (induction raws arbitrary: ss)
  case (Cons raw raws)
  show ?case
  proof (cases "map_segment raw")
    case None
    then have "\<not> (decodeURIComponent raw = Some s \<and> plain_name s)" for s using map_segment_some by (metis option.distinct(1))
    then show ?thesis using None by (cases ss) auto
  next
    case (Some s)
    then show ?thesis using Cons.IH map_segment_some [of raw s] by (cases ss) auto
  qed
qed auto

lemma hex_digit_plain: "n < 16 \<Longrightarrow> hex_digit n \<noteq> slash"
proof -
  assume "n < 16"
  then have "n \<in> {..<16}" by simp
  then show ?thesis
    by (simp add: lessThan_nat_numeral lessThan_Suc hex_digit_def slash_def) (elim disjE; simp)
qed

lemma escape_no_slash: "slash \<notin> set (escape_all s)"
proof -
  have "slash \<notin> set (pct_of b)" for b
    using unat_byte_less [of b] hex_digit_plain [of "unat b div 16"] hex_digit_plain [of "unat b mod 16"]
    by (auto simp: pct_of_def percent_def slash_def)
  then show ?thesis by (auto simp: escape_all_def)
qed

lemma join_nonempty: "ps \<noteq> [] \<Longrightarrow> \<forall>p \<in> set ps. p \<noteq> [] \<Longrightarrow> join_with c ps \<noteq> []"
  by (induction c ps rule: join_with.induct) auto

section \<open>Lemmas on fetch\<close>

lemma outcome_error: "outcome f u meth sig dest = Inl e \<Longrightarrow> e = AbortReason \<and> sig \<noteq> Quiet"
  by (auto simp: outcome_def caught_def abortable_def Let_def split: option.splits if_splits sum.splits js_error.splits)

lemma outcome_passes:
  "outcome f u meth sig dest = Inr (PassTo v why) \<Longrightarrow> v \<noteq> ViaHttp4"
  by (auto simp: outcome_def caught_def abortable_def Let_def split: option.splits if_splits sum.splits js_error.splits)

text \<open>What a response of HTTP4 rests on: the session's own answer for that asset.\<close>

definition genuine :: "fetcher \<Rightarrow> url \<Rightarrow> jsstring \<Rightarrow> jsstring \<Rightarrow> served \<Rightarrow> bool" where
  "genuine f u meth dest sv \<longleftrightarrow>
     (case (ft_pathToAssetId f u, ft_session f) of
        (Some aid, Some s) \<Rightarrow>
          rq_isOpen s \<and>
          (let cls = classFor (u_pathname u) dest (or_default (ft_classes f) []) in
           if sv_status sv = 404 then
             sv_body sv = None \<and> sv_stream sv = None \<and>
             (\<exists>r. rq_request s aid cls = Inl (Http4Error r (Some NOT_FOUND)) \<or>
               (\<exists>req. rq_requestStream s = Some req \<and> req aid cls = Inl (Http4Error r (Some NOT_FOUND))))
           else sv_status sv = 200 \<and>
             (case sv_stream sv of
                Some i \<Rightarrow> meth \<noteq> HEAD \<and> (\<exists>req r. rq_requestStream s = Some req \<and> req aid cls = Inr r \<and> hs_stream r = i \<and>
                  sv_headers sv = metaHeaders (hs_headers r) (hs_size r))
              | None \<Rightarrow> (\<exists>r. rq_request s aid cls = Inr r \<and> sv_headers sv = headersFor r \<and>
                  sv_body sv = (if meth = HEAD then None else Some (hr_body r)))))
      | _ \<Rightarrow> False)"

lemma outcome_served: "outcome f u meth sig dest = Inr (Served sv) \<Longrightarrow> genuine f u meth dest sv"
  by (auto simp: outcome_def caught_def abortable_def genuine_def Let_def
      split: option.splits if_splits sum.splits js_error.splits)

lemma record_log: "\<exists>k \<le> 1. ft_log (record_request r f) = drop k (ft_log f @ [r])"
proof (cases "len (ft_log f @ [r]) > or_default (ft_reportLimit f) 1000")
  case True
  then have "ft_log (record_request r f) = drop 1 (ft_log f @ [r])" by (simp add: record_request_def Let_def drop_Suc del: drop_append)
  then show ?thesis by blast
next
  case False
  then have "ft_log (record_request r f) = drop 0 (ft_log f @ [r])" by (simp add: record_request_def Let_def)
  then show ?thesis by (metis zero_le)
qed

lemma record_bounded:
  "len (ft_log f) \<le> max 0 (or_default (ft_reportLimit f) 1000) \<Longrightarrow>
    len (ft_log (record_request r f)) \<le> max 0 (or_default (ft_reportLimit f) 1000)"
  by (auto simp: record_request_def Let_def)

text \<open>One entry more in the report, which forgets at most the oldest and stays within its limit.\<close>

definition reported :: "jsstring \<Rightarrow> jsstring \<Rightarrow> fetcher \<Rightarrow> fetcher \<Rightarrow> bool \<Rightarrow> bool" where
  "reported href meth f f' by_http4 \<longleftrightarrow>
     (\<exists>e. \<exists>k \<le> 1. ft_log f' = drop k (ft_log f @ [e]) \<and> (rp_transport e = ViaHttp4 \<longleftrightarrow> by_http4) \<and>
       rp_url e = href \<and> rp_method e = meth) \<and>
     (len (ft_log f) \<le> max 0 (or_default (ft_reportLimit f) 1000) \<longrightarrow>
      len (ft_log f') \<le> max 0 (or_default (ft_reportLimit f) 1000))"

lemma reported_record: "(rp_transport e = ViaHttp4 \<longleftrightarrow> b) \<Longrightarrow> reported (rp_url e) (rp_method e) f (record_request e f) b"
  using record_log [of e f] record_bounded [of f e] unfolding reported_def by blast

lemma reported_as:
  "reported href meth f (record_request \<lparr>rp_url = href, rp_method = meth, rp_transport = v, rp_reason = why,
     rp_status = st, rp_ms = ms, rp_bytes = n\<rparr> f) (v = ViaHttp4)"
  using reported_record [of "\<lparr>rp_url = href, rp_method = meth, rp_transport = v, rp_reason = why,
     rp_status = st, rp_ms = ms, rp_bytes = n\<rparr>" "v = ViaHttp4" f] by simp

section \<open>Properties\<close>

text \<open>C16: an asset id names a file inside the asset directory: the URL is of the page's origin, under
  the prefix, and the id's segments are the decoded segments of its path, one for one, none of them
  empty, a dot segment or hiding a slash.\<close>

theorem mapper_confines:
  assumes "prefixMapper origin prefx u = Some aid"
  shows "u_origin u = origin \<and> startsWith (u_pathname u) prefx \<and> list_all plain_name (split_on slash aid) \<and>
    map decodeURIComponent (split_on slash (drop (length prefx) (u_pathname u))) = map Some (split_on slash aid)"
proof -
  let ?raws = "split_on slash (drop (length prefx) (u_pathname u))"
  obtain ss where ss: "map_segments ?raws = Some ss" "aid = join_with slash ss"
    and u: "u_origin u = origin" "startsWith (u_pathname u) prefx"
    using assms by (auto simp: prefixMapper_def Let_def split: if_splits)
  have k: "map decodeURIComponent ?raws = map Some ss" "list_all plain_name ss"
    using ss(1) by (simp_all add: map_segments_some)
  then have "ss \<noteq> []" using split_on_nonempty [of slash "drop (length prefx) (u_pathname u)"] by (cases ss) auto
  then have "split_on slash aid = ss"
    using k(2) by (auto simp: ss(2) list_all_iff plain_name_def intro!: split_join)
  then show ?thesis using u k by simp
qed

definition sample_url :: url where
  "sample_url = \<lparr>u_href = js ''https://a/x/b%41'', u_origin = js ''https://a'', u_protocol = js ''https:'',
     u_pathname = js ''/x/b%41''\<rparr>"

lemma sample_map: "prefixMapper (js ''https://a'') (js ''/'') sample_url = Some (js ''x/bA'')"
  by (simp add: prefixMapper_def sample_url_def startsWith_def js_def slash_def percent_def dot_def map_segment_def
      decodeURIComponent.simps decode_char_def hex_value_def announced_def byte_of_def utf16_of_def unit_of_def Let_def)

theorem mapper_confines_witness:
  "list_all plain_name (split_on slash (js ''x/bA''))"
  using mapper_confines [OF sample_map] by simp

text \<open>C24: and every file can be named: percent-encoding the names on the way to it gives a URL that maps
  back to its path.\<close>

theorem mapper_complete:
  assumes "names \<noteq> []" "list_all (\<lambda>s. plain_name s \<and> is_well_formed s) names" "u_origin u = origin"
    "u_pathname u = prefx @ join_with slash (map escape_all names)"
  shows "prefixMapper origin prefx u = Some (join_with slash names)"
proof -
  have e: "split_on slash (join_with slash (map escape_all names)) = map escape_all names"
    using assms(1) escape_no_slash by (intro split_join) auto
  have "map decodeURIComponent (map escape_all names) = map Some names"
    using assms(2) by (auto simp: list_all_iff decode_escape_all)
  then have m: "map_segments (map escape_all names) = Some names"
    using assms(2) by (auto simp: map_segments_some list_all_iff)
  have "escape_all s \<noteq> []" if "s \<noteq> []" for s
    using utf8_encode_nonempty [OF that] by (cases "utf8_encode s") (auto simp: escape_all_def pct_of_def)
  then have "join_with slash (map escape_all names) \<noteq> []"
    using assms(1,2) by (intro join_nonempty) (auto simp: list_all_iff plain_name_def)
  then show ?thesis using assms(3,4) e m by (simp add: prefixMapper_def startsWith_def)
qed

theorem mapper_complete_witness:
  "prefixMapper [] [slash] \<lparr>u_href = [], u_origin = [], u_protocol = [],
     u_pathname = [slash] @ join_with slash (map escape_all [[0xE9], [0x61]])\<rparr> = Some [0xE9, slash, 0x61]"
proof -
  have "list_all (\<lambda>s. plain_name s \<and> is_well_formed s) [[0xE9], [0x61]]"
    by (simp add: plain_name_def dot_def slash_def is_lead_def is_trail_def)
  from mapper_complete [OF _ this, of _ "[]"] show ?thesis by simp
qed

text \<open>C15: \<open>fetch\<close> is transparent. A session error never reaches the caller: a call fails only because the platform's
  fetch failed, its signal fired, or its URL does not parse. A platform response is the platform's own; an
  HTTP4 response is for an eligible request and carries what the session answered for its asset (a 404 only
  when the server said so). A call that got a response, or that the platform's fetch failed, is reported exactly
  once, with its URL and method and how it was served; a call that was aborted before it was served, or
  whose URL does not parse, is not reported at all. The report stays bounded.\<close>

theorem fetch_transparent:
  assumes "fetch c ms platform f = (r, f')"
  shows "case fc_url c of
      None \<Rightarrow> r = Inl BadUrl \<and> f' = f
    | Some u \<Rightarrow>
        (case r of
           Inl e \<Rightarrow> platform = Inl e \<and> reported (u_href u) (call_method c) f f' False \<or>
             e = AbortReason \<and> fc_signal c \<noteq> Quiet \<and> f' = f
         | Inr (FromPlatform p) \<Rightarrow> platform = Inr p \<and> reported (u_href u) (call_method c) f f' False
         | Inr (FromHttp4 s) \<Rightarrow> ineligible f (call_method c) u c = None \<and> genuine f u (call_method c) [] s \<and>
             reported (u_href u) (call_method c) f f' True)"
proof (cases "fc_url c")
  case None
  then show ?thesis using assms by (simp add: fetch_def)
next
  case (Some u)
  have p: "case fst x of
       Inl e \<Rightarrow> platform = Inl e \<and> reported href meth f (snd x) False
     | Inr (FromPlatform p) \<Rightarrow> platform = Inr p \<and> reported href meth f (snd x) False
     | Inr (FromHttp4 s) \<Rightarrow> False"
    if "x = via_platform href meth ms platform v why f" "v \<noteq> ViaHttp4" for x href meth v why
    using that reported_as [of href meth f v] by (auto simp: via_platform_def split: sum.split)
  show ?thesis
  proof (cases "ineligible f (call_method c) u c")
    case (Some why)
    then show ?thesis using assms \<open>fc_url c = Some u\<close> p [of "(r, f')" "u_href u" "call_method c" ViaPlatform why]
      by (auto simp: fetch_def Let_def split: sum.splits response.splits)
  next
    case None
    show ?thesis
    proof (cases "outcome f u (call_method c) (fc_signal c) []")
      case (Inl e)
      then show ?thesis using assms Some None outcome_error [OF Inl] by (auto simp: fetch_def Let_def)
    next
      case (Inr x)
      show ?thesis
      proof (cases x)
        case (Served s)
        then show ?thesis using assms Some None Inr outcome_served [of f u _ _ _ s]
          using reported_as [of "u_href u" "call_method c" f ViaHttp4] by (auto simp: fetch_def Let_def)
      next
        case (PassTo v why)
        then have "v \<noteq> ViaHttp4" using outcome_passes Inr by blast
        then show ?thesis using assms Some None Inr PassTo p [of "(r, f')" "u_href u" "call_method c" v why]
          by (auto simp: fetch_def Let_def split: sum.splits response.splits)
      qed
    qed
  qed
qed

definition sample_fetcher :: "js_error + http4_response \<Rightarrow> fetcher" where
  "sample_fetcher a = \<lparr>ft_session = Some \<lparr>rq_isOpen = True, rq_request = (\<lambda>_ _. a), rq_requestStream = None\<rparr>,
     ft_unavailable = None, ft_baseOrigin = js ''https://a'', ft_pathToAssetId = prefixMapper (js ''https://a'') (js ''/''),
     ft_reportLimit = None, ft_stream = None, ft_classes = None, ft_log = []\<rparr>"

definition sample_call :: fetch_call where
  "sample_call = \<lparr>fc_url = Some sample_url, fc_initMethod = None, fc_reqMethod = None, fc_initBody = False,
     fc_initRange = None, fc_reqRange = None, fc_signal = Quiet\<rparr>"

text \<open>The session gave up on the asset, and the caller gets the platform's response.\<close>

theorem fetch_transparent_witness:
  "case fst (fetch sample_call 5 (Inr \<lparr>pr_status = 200, pr_length = Some 3\<rparr>)
      (sample_fetcher (Inl (Http4Error NoProgress None)))) of
     Inr (FromPlatform p) \<Rightarrow> pr_status p = 200 | _ \<Rightarrow> False"
proof -
  let ?f = "sample_fetcher (Inl (Http4Error NoProgress None))"
  let ?p = "Inr \<lparr>pr_status = 200, pr_length = Some 3\<rparr>"
  obtain r f' where e: "fetch sample_call 5 ?p ?f = (r, f')" by fastforce
  have u: "fc_url sample_call = Some sample_url" by (simp add: sample_call_def)
  have "genuine ?f sample_url (call_method sample_call) [] s \<Longrightarrow> False" for s
    using sample_map by (auto simp: genuine_def sample_fetcher_def Let_def split: if_splits option.splits)
  then show ?thesis using fetch_transparent [OF e] e u
    by (auto simp: sample_call_def split: sum.splits response.splits)
qed

end
