(* ===== verification/Worker.thy ===== *)
theory Worker
  imports Fetcher
begin

text \<open>
  The Service Worker (\<open>client/src/sw.ts\<close>) and its protocol with the page (\<open>client/src/swproto.ts\<close>, and
  \<open>answer\<close> in \<open>client/src/page.ts\<close>). The worker is a state machine: its state is the map of tabs, the
  requests at an \<open>await\<close> and the report; an event is what wakes it up (a fetch event, an answer of the
  browser, a message of a tab, a timer). Requests interleave as the events do. What leaves the worker is
  a log of effects.
\<close>

section \<open>Which requests the worker takes\<close>

definition SW_URL :: jsstring where "SW_URL = js ''/http4-sw.js''"
definition CLIENT_DIR :: jsstring where "CLIENT_DIR = js ''/http4/''"
definition BOOTSTRAP_PATHS :: "jsstring list" where "BOOTSTRAP_PATHS = [SW_URL, js ''/config.json'']"

record sw_request =
  wr_url :: url
  wr_method :: jsstring
  wr_mode :: jsstring
  wr_range :: bool
  wr_client :: jsstring
  wr_destination :: jsstring

datatype leave_reason = Navigation | OtherMethod jsstring | OtherOrigin | BootstrapFile | WithRange | NoClient

definition leaveToNetwork :: "sw_request \<Rightarrow> jsstring \<Rightarrow> leave_reason option" where
  "leaveToNetwork r origin =
     (if wr_mode r = js ''navigate'' then Some Navigation
      else if wr_method r \<noteq> GET \<and> wr_method r \<noteq> HEAD then Some (OtherMethod (wr_method r))
      else if u_origin (wr_url r) \<noteq> origin then Some OtherOrigin
      else if startsWith (u_pathname (wr_url r)) CLIENT_DIR \<or> u_pathname (wr_url r) \<in> set BOOTSTRAP_PATHS
        then Some BootstrapFile
      else if wr_range r then Some WithRange
      else if wr_client r = [] then Some NoClient
      else None)"

definition READY_TIMEOUT_MS :: num where "READY_TIMEOUT_MS = 2000"
definition READY_TIMEOUT_BLOCKING_MS :: num where "READY_TIMEOUT_BLOCKING_MS = 400"
definition READY_TIMEOUT_BULK_MS :: num where "READY_TIMEOUT_BULK_MS = 6000"

definition readyTimeoutMs :: "jsstring \<Rightarrow> num" where
  "readyTimeoutMs dest =
     (if dest \<in> set [js ''style'', js ''script''] then READY_TIMEOUT_BLOCKING_MS
      else if dest \<in> set [js ''image'', js ''video'', js ''audio''] then READY_TIMEOUT_BULK_MS
      else READY_TIMEOUT_MS)"

definition isSwMessage :: "jsval \<Rightarrow> bool" where
  "isSwMessage m \<longleftrightarrow> is_object m \<and> (case get_prop m (js ''http4'') of JStr _ \<Rightarrow> True | _ \<Rightarrow> False)"

section \<open>Replies of the page\<close>

text \<open>A typed array is a window on its buffer.\<close>

record byte_view =
  bv_buffer :: "byte list"
  bv_offset :: nat
  bv_length :: nat

definition view_bytes :: "byte_view \<Rightarrow> byte list" where
  "view_bytes v = subarray (bv_buffer v) (bv_offset v) (bv_offset v + bv_length v)"

record reply_served =
  ry_status :: num
  ry_headers :: "(jsstring \<times> jsstring) list"
  ry_body :: "byte list option"
  ry_stream :: "int option"
  ry_length :: "num option"

datatype serve_reply = ReplyServed reply_served | ReplyPass via reason | BridgeFailed

text \<open>What is handed over with the message: a stream or a buffer.\<close>

datatype transferable = TransferStream int | TransferBuffer "byte list"

text \<open>\<open>view\<close> is the body's typed array.\<close>

definition serveReply :: "http4_outcome \<Rightarrow> byte_view \<Rightarrow> serve_reply \<times> transferable list" where
  "serveReply out view =
     (case out of
        PassTo v why \<Rightarrow> (ReplyPass v why, [])
      | Served s \<Rightarrow>
          (case sv_stream s of
             Some i \<Rightarrow> (ReplyServed \<lparr>ry_status = sv_status s, ry_headers = sv_headers s, ry_body = None,
                 ry_stream = Some i, ry_length = sv_length s\<rparr>, [TransferStream i])
           | None \<Rightarrow>
               let body = (case sv_body s of
                             None \<Rightarrow> None
                           | Some _ \<Rightarrow>
                               let whole = (bv_offset view = 0 \<and> bv_length view = length (bv_buffer view))
                               in Some (if whole then bv_buffer view else view_bytes view))
               in (ReplyServed \<lparr>ry_status = sv_status s, ry_headers = sv_headers s, ry_body = body,
                     ry_stream = None, ry_length = sv_length s\<rparr>,
                   case body of None \<Rightarrow> [] | Some b \<Rightarrow> [TransferBuffer b])))"

text \<open>What the page says about its session in answer to \<open>hello\<close>.\<close>

record ready_info =
  ri_available :: bool
  ri_reason :: "why option"
  ri_prefix :: "jsstring option"

definition readyMsg :: "fetcher \<Rightarrow> jsstring option \<Rightarrow> ready_info" where
  "readyMsg f prefx = \<lparr>ri_available = available f, ri_reason = unavailableReason f, ri_prefix = prefx\<rparr>"

datatype hello_reply = Connecting | Ready ready_info

section \<open>The state of the worker\<close>

definition REPORT_LIMIT :: nat where "REPORT_LIMIT = 2000"

datatype sw_reason =
    Left leave_reason
  | TabNotFound
  | NoBridge
  | StillNotReady
  | NotReadyAfter num
  | TabUnavailable "why option"
  | OutsidePrefix
  | ForwardFailed
  | PageSaid reason
  | PageBroke

record sw_report =
  wp_request :: sw_request
  wp_transport :: via
  wp_reason :: "sw_reason option"
  wp_status :: num
  wp_ms :: num
  wp_bytes :: "num option"

text \<open>\<open>tb_acked\<close> is \<open>None\<close> until the promise settles.\<close>

record tab_state =
  tb_acked :: "bool option"
  tb_info :: "ready_info option"
  tb_gaveUp :: bool

text \<open>Where a request waits.\<close>

datatype phase = Looking | AwaitAck | AwaitReady | Forwarded | OnNetwork via sw_reason

record pending =
  pd_request :: sw_request
  pd_start :: num
  pd_phase :: phase

datatype sw_effect =
    Unintercepted int
  | PostHello jsstring
  | PostServe jsstring int
  | FetchNetwork int
  | RespondHttp4 int reply_served
  | RespondNetwork int num
  | RespondError int
  | Mirror jsstring sw_report

record worker =
  wk_origin :: jsstring
  wk_tabs :: "(jsstring, tab_state) jsmap"
  wk_pending :: "(int, pending) jsmap"
  wk_log :: "sw_report list"
  wk_out :: "sw_effect list"

definition new_worker :: "jsstring \<Rightarrow> worker" where
  "new_worker origin = \<lparr>wk_origin = origin, wk_tabs = [], wk_pending = [], wk_log = [], wk_out = []\<rparr>"

section \<open>Steps\<close>

definition post :: "sw_effect \<Rightarrow> worker \<Rightarrow> worker" where
  "post x w = w\<lparr>wk_out := wk_out w @ [x]\<rparr>"

definition sw_record :: "sw_report \<Rightarrow> worker \<Rightarrow> worker" where
  "sw_record r w =
     (let lg = wk_log w @ [r];
          w1 = w\<lparr>wk_log := (if length lg > REPORT_LIMIT then tl lg else lg)\<rparr>
      in if wr_client (wp_request r) \<noteq> [] then post (Mirror (wr_client (wp_request r)) r) w1 else w1)"

definition set_phase :: "int \<Rightarrow> phase \<Rightarrow> worker \<Rightarrow> worker" where
  "set_phase i ph w =
     (case jm_get (wk_pending w) i of
        None \<Rightarrow> w
      | Some p \<Rightarrow> w\<lparr>wk_pending := jm_set i (p\<lparr>pd_phase := ph\<rparr>) (wk_pending w)\<rparr>)"

definition end_request :: "int \<Rightarrow> worker \<Rightarrow> worker" where
  "end_request i w = w\<lparr>wk_pending := jm_delete i (wk_pending w)\<rparr>"

definition network :: "int \<Rightarrow> via \<Rightarrow> sw_reason \<Rightarrow> worker \<Rightarrow> worker" where
  "network i v why w = post (FetchNetwork i) (set_phase i (OnNetwork v why) w)"

text \<open>\<open>hello\<close>.\<close>

definition hello :: "jsstring \<Rightarrow> worker \<Rightarrow> worker" where
  "hello cid w = (post (PostHello cid) w)
     \<lparr>wk_tabs := jm_set cid \<lparr>tb_acked = None, tb_info = None, tb_gaveUp = False\<rparr> (wk_tabs w)\<rparr>"

text \<open>\<open>tabs.get(clientId) ?? hello(client)\<close>.\<close>

definition known_tab :: "jsstring \<Rightarrow> worker \<Rightarrow> worker" where
  "known_tab cid w = (case jm_get (wk_tabs w) cid of None \<Rightarrow> hello cid w | Some _ \<Rightarrow> w)"

text \<open>\<open>serve\<close> once the tab's state is known.\<close>

definition with_info :: "int \<Rightarrow> sw_request \<Rightarrow> ready_info \<Rightarrow> worker \<Rightarrow> worker" where
  "with_info i r info w =
     (if \<not> ri_available info then network i ViaFallback (TabUnavailable (ri_reason info)) w
      else if (case ri_prefix info of None \<Rightarrow> False | Some p \<Rightarrow> \<not> startsWith (u_pathname (wr_url r)) p)
        then network i ViaPlatform OutsidePrefix w
      else post (PostServe (wr_client r) i) (set_phase i Forwarded w))"

definition sw_fetch :: "num \<Rightarrow> int \<Rightarrow> sw_request \<Rightarrow> worker \<Rightarrow> worker" where
  "sw_fetch now i r w =
     (case leaveToNetwork r (wk_origin w) of
        Some why \<Rightarrow>
          sw_record \<lparr>wp_request = r, wp_transport = ViaPlatform, wp_reason = Some (Left why), wp_status = 0,
            wp_ms = 0, wp_bytes = None\<rparr> (post (Unintercepted i) w)
      | None \<Rightarrow> w\<lparr>wk_pending := jm_set i \<lparr>pd_request = r, pd_start = now, pd_phase = Looking\<rparr> (wk_pending w)\<rparr>)"

definition sw_found :: "int \<Rightarrow> pending \<Rightarrow> bool \<Rightarrow> worker \<Rightarrow> worker" where
  "sw_found i p there w =
     (if \<not> there then network i ViaFallback TabNotFound w
      else
        let cid = wr_client (pd_request p);
            w1 = known_tab cid w
        in case jm_get (wk_tabs w1) cid of
             None \<Rightarrow> w1
           | Some tab \<Rightarrow>
               (case tb_info tab of
                  Some info \<Rightarrow> with_info i (pd_request p) info w1
                | None \<Rightarrow> set_phase i AwaitAck w1))"

definition sw_acked :: "int \<Rightarrow> tab_state \<Rightarrow> bool \<Rightarrow> worker \<Rightarrow> worker" where
  "sw_acked i tab ok w =
     (if \<not> ok then network i ViaFallback NoBridge w
      else if tb_gaveUp tab then network i ViaFallback StillNotReady w
      else set_phase i AwaitReady w)"

definition sw_timeout :: "int \<Rightarrow> pending \<Rightarrow> tab_state \<Rightarrow> worker \<Rightarrow> worker" where
  "sw_timeout i p tab w =
     network i ViaFallback (NotReadyAfter (readyTimeoutMs (wr_destination (pd_request p))))
       (w\<lparr>wk_tabs := jm_set (wr_client (pd_request p)) (tab\<lparr>tb_gaveUp := True\<rparr>) (wk_tabs w)\<rparr>)"

definition reply_bytes :: "reply_served \<Rightarrow> num option" where
  "reply_bytes s =
     (case ry_stream s of
        Some _ \<Rightarrow> ry_length s
      | None \<Rightarrow> Some (case ry_body s of None \<Rightarrow> 0 | Some b \<Rightarrow> len b))"

definition sw_reply :: "num \<Rightarrow> int \<Rightarrow> pending \<Rightarrow> serve_reply \<Rightarrow> worker \<Rightarrow> worker" where
  "sw_reply now i p reply w =
     (case reply of
        ReplyServed s \<Rightarrow>
          post (RespondHttp4 i s) (sw_record \<lparr>wp_request = pd_request p, wp_transport = ViaHttp4, wp_reason = None,
            wp_status = ry_status s, wp_ms = now - pd_start p, wp_bytes = reply_bytes s\<rparr> (end_request i w))
      | ReplyPass v why \<Rightarrow> network i v (PageSaid why) w
      | BridgeFailed \<Rightarrow> network i ViaFallback PageBroke w)"

definition sw_network :: "num \<Rightarrow> int \<Rightarrow> pending \<Rightarrow> via \<Rightarrow> sw_reason \<Rightarrow> (num \<times> num option) option \<Rightarrow> worker \<Rightarrow> worker" where
  "sw_network now i p v why res w =
     (case res of
        None \<Rightarrow> post (RespondError i) (end_request i w)
      | Some (status, sz) \<Rightarrow>
          post (RespondNetwork i status) (sw_record \<lparr>wp_request = pd_request p, wp_transport = v, wp_reason = Some why,
            wp_status = status, wp_ms = now - pd_start p, wp_bytes = sz\<rparr> (end_request i w)))"

text \<open>The worker's \<open>message\<close> handler: a page asks for the report, its own part or (\<open>all\<close>) the whole. \<open>None\<close> is
  no answer.\<close>

definition report_for :: "jsval \<Rightarrow> bool \<Rightarrow> jsstring \<Rightarrow> worker \<Rightarrow> sw_report list option" where
  "report_for m has_port from_client w =
     (if \<not> isSwMessage m \<or> get_prop m (js ''http4'') \<noteq> JStr (js ''report'') \<or> \<not> has_port then None
      else Some (if get_prop m (js ''all'') = JBool True then wk_log w
                 else filter (\<lambda>r. wr_client (wp_request r) = from_client) (wk_log w)))"

text \<open>The page keeps its own copy of the entries that are mirrored to it, each with the time it came.\<close>

definition MIRROR_LIMIT :: nat where "MIRROR_LIMIT = 2000"

definition mirror_entry :: "num \<Rightarrow> sw_report \<Rightarrow> (sw_report \<times> num) list \<Rightarrow> (sw_report \<times> num) list" where
  "mirror_entry now r m = (let m1 = m @ [(r, now)] in if length m1 > MIRROR_LIMIT then tl m1 else m1)"

section \<open>Events\<close>

text \<open>\<open>Resume\<close> continues a request whose promise has settled. \<open>WaitOver\<close> is its \<open>sleep\<close>.\<close>

datatype sw_ev =
    SwFetch int sw_request
  | ClientFound int bool
  | TabSays jsstring hello_reply
  | AckTimeout jsstring
  | Resume int
  | WaitOver int
  | PageReply int serve_reply
  | TabGone int
  | NetworkDone int "(num \<times> num option) option"

definition with_pending :: "int \<Rightarrow> (pending \<Rightarrow> worker \<Rightarrow> worker) \<Rightarrow> worker \<Rightarrow> worker" where
  "with_pending i f w = (case jm_get (wk_pending w) i of None \<Rightarrow> w | Some p \<Rightarrow> f p w)"

definition with_tab :: "jsstring \<Rightarrow> (tab_state \<Rightarrow> worker \<Rightarrow> worker) \<Rightarrow> worker \<Rightarrow> worker" where
  "with_tab cid f w = (case jm_get (wk_tabs w) cid of None \<Rightarrow> w | Some t \<Rightarrow> f t w)"

definition put_tab :: "jsstring \<Rightarrow> tab_state \<Rightarrow> worker \<Rightarrow> worker" where
  "put_tab cid t w = w\<lparr>wk_tabs := jm_set cid t (wk_tabs w)\<rparr>"

text \<open>The port's \<open>onmessage\<close>; it is closed after \<open>ready\<close>. A promise settles once.\<close>

definition tab_says :: "hello_reply \<Rightarrow> tab_state \<Rightarrow> tab_state" where
  "tab_says msg t =
     (if tb_info t \<noteq> None then t
      else
        let t1 = t\<lparr>tb_acked := Some (or_default (tb_acked t) True)\<rparr>
        in case msg of Connecting \<Rightarrow> t1 | Ready info \<Rightarrow> t1\<lparr>tb_info := Some info\<rparr>)"

definition sw_resume :: "int \<Rightarrow> pending \<Rightarrow> worker \<Rightarrow> worker" where
  "sw_resume i p = with_tab (wr_client (pd_request p)) (\<lambda>t w.
     case pd_phase p of
       AwaitAck \<Rightarrow> (case tb_acked t of None \<Rightarrow> w | Some ok \<Rightarrow> sw_acked i t ok w)
     | AwaitReady \<Rightarrow> (case tb_info t of None \<Rightarrow> w | Some info \<Rightarrow> with_info i (pd_request p) info w)
     | _ \<Rightarrow> w)"

definition sw_wait_over :: "int \<Rightarrow> pending \<Rightarrow> worker \<Rightarrow> worker" where
  "sw_wait_over i p = with_tab (wr_client (pd_request p)) (\<lambda>t w.
     if pd_phase p = AwaitReady \<and> tb_info t = None then sw_timeout i p t w else w)"

fun sw_step :: "num \<Rightarrow> sw_ev \<Rightarrow> worker \<Rightarrow> worker" where
  "sw_step now (SwFetch i r) w = sw_fetch now i r w"
| "sw_step now (ClientFound i there) w =
     with_pending i (\<lambda>p w. if pd_phase p = Looking then sw_found i p there w else w) w"
| "sw_step now (TabSays cid msg) w = with_tab cid (\<lambda>t. put_tab cid (tab_says msg t)) w"
| "sw_step now (AckTimeout cid) w =
     with_tab cid (\<lambda>t. put_tab cid (t\<lparr>tb_acked := Some (or_default (tb_acked t) False)\<rparr>)) w"
| "sw_step now (Resume i) w = with_pending i (sw_resume i) w"
| "sw_step now (WaitOver i) w = with_pending i (sw_wait_over i) w"
| "sw_step now (PageReply i reply) w =
     with_pending i (\<lambda>p w. if pd_phase p = Forwarded then sw_reply now i p reply w else w) w"
| "sw_step now (TabGone i) w =
     with_pending i (\<lambda>p w. if pd_phase p = Forwarded then network i ViaFallback ForwardFailed w else w) w"
| "sw_step now (NetworkDone i res) w =
     with_pending i (\<lambda>p w. case pd_phase p of OnNetwork v why \<Rightarrow> sw_network now i p v why res w | _ \<Rightarrow> w) w"

fun sw_run :: "(num \<times> sw_ev) list \<Rightarrow> worker \<Rightarrow> worker" where
  "sw_run [] w = w"
| "sw_run ((now, ev) # evs) w = sw_run evs (sw_step now ev w)"

section \<open>Every request is answered once\<close>

fun final :: "int \<Rightarrow> sw_effect \<Rightarrow> bool" where
  "final i (Unintercepted j) = (j = i)"
| "final i (RespondHttp4 j s) = (j = i)"
| "final i (RespondNetwork j st) = (j = i)"
| "final i (RespondError j) = (j = i)"
| "final i _ = False"

definition finals :: "int \<Rightarrow> worker \<Rightarrow> nat" where
  "finals i w = length (filter (final i) (wk_out w))"

definition in_progress :: "int \<Rightarrow> worker \<Rightarrow> bool" where
  "in_progress i w \<longleftrightarrow> jm_get (wk_pending w) i \<noteq> None"

definition tally :: "int \<Rightarrow> worker \<Rightarrow> nat" where
  "tally i w = finals i w + (if in_progress i w then 1 else 0)"

named_theorems tallies \<open>what a step does to the tally\<close>

lemma tally_post [tallies]: "tally i (post x w) = tally i w + (if final i x then 1 else 0)"
  by (simp add: tally_def finals_def in_progress_def post_def)

lemma tally_record [tallies]: "tally i (sw_record r w) = tally i w"
  by (simp add: tally_def finals_def in_progress_def sw_record_def post_def Let_def)

lemma tally_phase [tallies]: "tally i (set_phase j ph w) = tally i w"
  by (auto simp: tally_def finals_def in_progress_def set_phase_def jm_get_keys split: option.split)
     (metis jm_get_keys option.distinct(1))+

lemma tally_tabs [tallies]: "tally i (w\<lparr>wk_tabs := ts\<rparr>) = tally i w"
  by (simp add: tally_def finals_def in_progress_def)

lemma tally_put_tab [tallies]: "tally i (put_tab cid t w) = tally i w"
  by (simp add: put_tab_def tallies)

lemma tally_hello [tallies]: "tally i (hello cid w) = tally i w"
  by (simp add: hello_def tallies)

lemma tally_network [tallies]: "tally i (network j v why w) = tally i w"
  by (simp add: network_def tallies)

lemma tally_end [tallies]: "in_progress j w \<Longrightarrow> tally i (end_request j w) = (if i = j then tally i w - 1 else tally i w)"
  by (simp add: tally_def finals_def in_progress_def end_request_def)

lemma tally_info [tallies]: "tally i (with_info j r info w) = tally i w"
  by (simp add: with_info_def tallies)

lemma tally_pos: "in_progress i w \<Longrightarrow> 0 < tally i w"
  by (simp add: tally_def)

lemma tally_known [tallies]: "tally i (known_tab cid w) = tally i w"
  by (simp add: known_tab_def tallies split: option.split)

lemma tally_found [tallies]: "tally i (sw_found j p there w) = tally i w"
  by (simp add: sw_found_def Let_def tallies split: option.split)

lemma tally_reply [tallies]: "in_progress j w \<Longrightarrow> tally i (sw_reply now j p reply w) = tally i w"
  using tally_pos [of j w] by (auto simp: sw_reply_def tallies split: serve_reply.split)

lemma tally_done [tallies]: "in_progress j w \<Longrightarrow> tally i (sw_network now j p v why res w) = tally i w"
  using tally_pos [of j w] by (auto simp: sw_network_def tallies split: option.split)

lemma tally_step:
  assumes "\<And>r. ev \<noteq> SwFetch i r"
  shows "tally i (sw_step now ev w) = tally i w"
proof (cases ev)
  case (SwFetch j r)
  then have "i \<noteq> j" using assms by blast
  then show ?thesis unfolding SwFetch
    by (simp add: sw_fetch_def tallies split: option.split)
       (simp add: tally_def finals_def in_progress_def)
next
  case (TabSays cid msg)
  then show ?thesis by (simp add: with_tab_def tallies split: option.split)
next
  case (AckTimeout cid)
  then show ?thesis by (simp add: with_tab_def tallies split: option.split)
next
  case (Resume j)
  then show ?thesis
    by (simp add: with_pending_def with_tab_def sw_resume_def sw_acked_def tallies split: option.split phase.split)
next
  case (WaitOver j)
  then show ?thesis
    by (simp add: with_pending_def with_tab_def sw_wait_over_def sw_timeout_def tallies split: option.split)
qed (auto simp: with_pending_def tallies in_progress_def split: option.split phase.split)

lemma tally_fetch:
  assumes "tally i w = 0"
  shows "tally i (sw_step now (SwFetch i r) w) = 1"
proof -
  have "finals i w = 0" using assms by (simp add: tally_def)
  then show ?thesis using assms
    by (simp add: sw_fetch_def tallies split: option.split) (simp add: tally_def finals_def in_progress_def)
qed

text \<open>The ids of the fetch events of a run.\<close>

fun fetched :: "(num \<times> sw_ev) list \<Rightarrow> int list" where
  "fetched [] = []"
| "fetched ((now, SwFetch i r) # evs) = i # fetched evs"
| "fetched (x # evs) = fetched evs"

lemma fetched_other: "(\<And>i r. ev \<noteq> SwFetch i r) \<Longrightarrow> fetched ((now, ev) # evs) = fetched evs"
  by (cases ev) auto

lemma tally_run:
  "distinct (fetched evs) \<Longrightarrow> (i \<in> set (fetched evs) \<Longrightarrow> tally i w = 0) \<Longrightarrow>
    tally i (sw_run evs w) = (if i \<in> set (fetched evs) then 1 else tally i w)"
proof (induction evs arbitrary: w)
  case (Cons x evs)
  obtain now ev where x: "x = (now, ev)" by (cases x)
  show ?case
  proof (cases "\<exists>j r. ev = SwFetch j r")
    case True
    then obtain j r where ev: "ev = SwFetch j r" by blast
    show ?thesis
    proof (cases "i = j")
      case True
      then have "tally i (sw_step now ev w) = 1" using Cons.prems tally_fetch by (simp add: x ev)
      then show ?thesis using Cons.IH [of "sw_step now ev w"] Cons.prems True by (simp add: x ev)
    next
      case False
      then have "tally i (sw_step now ev w) = tally i w" by (intro tally_step) (simp add: ev)
      then show ?thesis using Cons.IH [of "sw_step now ev w"] Cons.prems False by (simp add: x ev)
    qed
  next
    case False
    then have "tally i (sw_step now ev w) = tally i w" by (intro tally_step) blast
    moreover have "fetched (x # evs) = fetched evs" unfolding x using False by (intro fetched_other) blast
    ultimately show ?thesis using Cons.IH [of "sw_step now ev w"] Cons.prems by (simp add: x)
  qed
qed simp

section \<open>Waiting\<close>

definition waiters :: "jsstring \<Rightarrow> worker \<Rightarrow> int set" where
  "waiters cid w = {i. case jm_get (wk_pending w) i of None \<Rightarrow> False
     | Some p \<Rightarrow> pd_phase p = AwaitReady \<and> wr_client (pd_request p) = cid}"

definition gave_up :: "jsstring \<Rightarrow> worker \<Rightarrow> bool" where
  "gave_up cid w \<longleftrightarrow> (case jm_get (wk_tabs w) cid of None \<Rightarrow> False | Some t \<Rightarrow> tb_gaveUp t \<and> tb_info t = None)"

lemma tabs_kept [simp]:
  "wk_tabs (post x w) = wk_tabs w" "wk_tabs (sw_record r w) = wk_tabs w" "wk_tabs (set_phase i ph w) = wk_tabs w"
  "wk_tabs (end_request i w) = wk_tabs w" "wk_tabs (network i v why w) = wk_tabs w"
  "wk_tabs (with_info i rq info w) = wk_tabs w" "wk_tabs (sw_acked i t ok w) = wk_tabs w"
  "wk_tabs (sw_fetch now i rq w) = wk_tabs w" "wk_tabs (sw_reply now i p reply w) = wk_tabs w"
  "wk_tabs (sw_network now i p v why res w) = wk_tabs w"
  by (simp_all add: post_def sw_record_def set_phase_def end_request_def network_def with_info_def sw_acked_def
      sw_fetch_def sw_reply_def sw_network_def Let_def split: option.split serve_reply.split)

lemma waiters_kept [simp]:
  "waiters cid (post x w) = waiters cid w" "waiters cid (sw_record r w) = waiters cid w"
  "waiters cid (w\<lparr>wk_tabs := ts\<rparr>) = waiters cid w" "waiters cid (put_tab c t w) = waiters cid w"
  "waiters cid (hello c w) = waiters cid w"
  by (simp_all add: waiters_def post_def sw_record_def put_tab_def hello_def Let_def)

lemma waiters_phase: "ph \<noteq> AwaitReady \<Longrightarrow> waiters cid (set_phase i ph w) \<subseteq> waiters cid w"
  by (auto simp: waiters_def set_phase_def split: option.splits if_splits)

lemma waiters_end: "waiters cid (end_request i w) \<subseteq> waiters cid w"
  by (auto simp: waiters_def end_request_def split: option.splits if_splits)

lemma waiters_network: "waiters cid (network i v why w) \<subseteq> waiters cid w"
  by (simp add: network_def waiters_phase)

lemma waiters_info: "waiters cid (with_info i r info w) \<subseteq> waiters cid w"
  by (simp add: with_info_def waiters_network waiters_phase)

lemma waiters_fetch: "waiters cid (sw_fetch now i r w) \<subseteq> waiters cid w"
  by (auto simp: waiters_def sw_fetch_def sw_record_def post_def Let_def split: option.splits if_splits)

lemma waiters_found: "waiters cid (sw_found i p there w) \<subseteq> waiters cid w"
proof -
  let ?w = "known_tab (wr_client (pd_request p)) w"
  have "waiters cid ?w = waiters cid w" by (simp add: known_tab_def split: option.split)
  then show ?thesis
    using waiters_network [of cid i _ _ w] waiters_info [of cid i _ _ ?w] waiters_phase [of AwaitAck cid i ?w]
    by (simp add: sw_found_def Let_def split: option.split)
qed

lemma gave_up_tab: "gave_up cid w \<longleftrightarrow> (\<exists>t. jm_get (wk_tabs w) cid = Some t \<and> tb_gaveUp t \<and> tb_info t = None)"
  by (simp add: gave_up_def split: option.split)

lemma gave_up_cong: "wk_tabs w' = wk_tabs w \<Longrightarrow> gave_up cid w' = gave_up cid w"
  by (simp add: gave_up_def)

lemma gave_up_step:
  assumes "gave_up cid w" "\<And>info. ev \<noteq> TabSays cid (Ready info)"
  shows "gave_up cid (sw_step now ev w)"
proof (cases ev)
  case (ClientFound i there)
  then show ?thesis using assms
    by (auto simp: with_pending_def sw_found_def known_tab_def hello_def gave_up_tab Let_def split: option.splits)
next
  case (TabSays c msg)
  then show ?thesis using assms
    by (auto simp: with_tab_def put_tab_def tab_says_def gave_up_tab Let_def split: option.splits hello_reply.splits)
next
  case (AckTimeout c)
  then show ?thesis using assms by (auto simp: with_tab_def put_tab_def gave_up_tab split: option.splits)
next
  case (Resume i)
  have "wk_tabs (sw_step now ev w) = wk_tabs w"
    by (simp add: Resume with_pending_def sw_resume_def with_tab_def split: option.split phase.split)
  then show ?thesis using assms(1) gave_up_cong by blast
next
  case (WaitOver i)
  then show ?thesis using assms
    by (auto simp: with_pending_def sw_wait_over_def sw_timeout_def with_tab_def gave_up_tab split: option.splits)
next
  case (NetworkDone i res)
  have "wk_tabs (sw_step now ev w) = wk_tabs w"
    by (simp add: NetworkDone with_pending_def split: option.split phase.split)
  then show ?thesis using assms(1) gave_up_cong by blast
qed (use assms in \<open>auto simp: with_pending_def gave_up_tab split: option.splits\<close>)

lemma waiters_step:
  assumes "gave_up cid w"
  shows "waiters cid (sw_step now ev w) \<subseteq> waiters cid w"
proof (cases ev)
  case (ClientFound i there)
  then show ?thesis using waiters_found by (simp add: with_pending_def split: option.split)
next
  case (Resume i)
  show ?thesis
  proof (cases "jm_get (wk_pending w) i")
    case (Some p)
    have a: "waiters cid (sw_acked i t ok w) \<subseteq> waiters cid w" if "jm_get (wk_tabs w) (wr_client (pd_request p)) = Some t" for t ok
    proof (cases "wr_client (pd_request p) = cid")
      case True
      then show ?thesis using that assms waiters_network by (auto simp: sw_acked_def gave_up_tab)
    next
      case False
      then have "waiters cid (set_phase i AwaitReady w) \<subseteq> waiters cid w"
        using Some by (auto simp: waiters_def set_phase_def split: option.splits if_splits)
      then show ?thesis using waiters_network by (simp add: sw_acked_def)
    qed
    then show ?thesis using Some waiters_info
      by (simp add: Resume with_pending_def sw_resume_def with_tab_def split: option.split phase.split)
  qed (simp add: Resume with_pending_def)
next
  case (WaitOver i)
  have "waiters cid (sw_timeout i p t w) \<subseteq> waiters cid w" for p t
    using waiters_network [of cid i] by (fastforce simp: sw_timeout_def)
  then show ?thesis by (simp add: WaitOver with_pending_def sw_wait_over_def with_tab_def split: option.split)
next
  case (PageReply i reply)
  have "waiters cid (sw_reply now i p reply w) \<subseteq> waiters cid w" for p
    using waiters_network waiters_end by (simp add: sw_reply_def split: serve_reply.split)
  then show ?thesis by (simp add: PageReply with_pending_def split: option.split)
next
  case (NetworkDone i res)
  have "waiters cid (sw_network now i p v why res w) \<subseteq> waiters cid w" for p v why
    using waiters_end by (simp add: sw_network_def split: option.split)
  then show ?thesis by (simp add: NetworkDone with_pending_def split: option.split phase.split)
qed (simp_all add: with_pending_def with_tab_def waiters_fetch waiters_network split: option.split)

section \<open>Consent of the page\<close>

text \<open>The request's tab has said that it is ready, that its session is open, and for which paths.\<close>

definition serves :: "sw_request \<Rightarrow> (jsstring, tab_state) jsmap \<Rightarrow> bool" where
  "serves r tabs \<longleftrightarrow> (\<exists>t info. jm_get tabs (wr_client r) = Some t \<and> tb_info t = Some info \<and> ri_available info \<and>
     (\<forall>p. ri_prefix info = Some p \<longrightarrow> startsWith (u_pathname (wr_url r)) p))"

definition informs :: "(jsstring, tab_state) jsmap \<Rightarrow> (jsstring, tab_state) jsmap \<Rightarrow> bool" where
  "informs tabs tabs' \<longleftrightarrow> (\<forall>cid t info. jm_get tabs cid = Some t \<longrightarrow> tb_info t = Some info \<longrightarrow>
     (\<exists>t'. jm_get tabs' cid = Some t' \<and> tb_info t' = Some info))"

lemma serves_informs: "serves r tabs \<Longrightarrow> informs tabs tabs' \<Longrightarrow> serves r tabs'"
  unfolding serves_def informs_def by metis

text \<open>\<open>R\<close> holds the requests intercepted so far.\<close>

definition eligible :: "(int \<times> sw_request) set \<Rightarrow> worker \<Rightarrow> int \<Rightarrow> sw_request \<Rightarrow> bool" where
  "eligible R w i r \<longleftrightarrow> (i, r) \<in> R \<and> leaveToNetwork r (wk_origin w) = None"

definition proper :: "(int \<times> sw_request) set \<Rightarrow> worker \<Rightarrow> bool" where
  "proper R w \<longleftrightarrow>
     (\<forall>i p. jm_get (wk_pending w) i = Some p \<longrightarrow> eligible R w i (pd_request p) \<and>
        (pd_phase p = Forwarded \<longrightarrow> PostServe (wr_client (pd_request p)) i \<in> set (wk_out w))) \<and>
     (\<forall>cid i. PostServe cid i \<in> set (wk_out w) \<longrightarrow> (\<exists>r. eligible R w i r \<and> wr_client r = cid \<and> serves r (wk_tabs w))) \<and>
     (\<forall>i s. RespondHttp4 i s \<in> set (wk_out w) \<longrightarrow> (\<exists>cid. PostServe cid i \<in> set (wk_out w)))"

lemma proper_pending: "proper R w \<Longrightarrow> jm_get (wk_pending w) i = Some p \<Longrightarrow> eligible R w i (pd_request p)"
  by (simp add: proper_def)

fun binding :: "sw_effect \<Rightarrow> bool" where
  "binding (PostServe c i) = True"
| "binding (RespondHttp4 i s) = True"
| "binding _ = False"

lemma proper_post: "proper R w \<Longrightarrow> \<not> binding x \<Longrightarrow> proper R (post x w)"
  unfolding proper_def post_def eligible_def by (cases x) auto

lemma proper_served: "proper R w \<Longrightarrow> PostServe cid i \<in> set (wk_out w) \<Longrightarrow> proper R (post (RespondHttp4 i s) w)"
  unfolding proper_def post_def eligible_def by auto

lemma proper_record: "proper R w \<Longrightarrow> proper R (sw_record r w)"
proof -
  assume "proper R w"
  then have "proper R (w\<lparr>wk_log := lg\<rparr>)" for lg by (simp add: proper_def eligible_def)
  then show ?thesis by (simp add: sw_record_def Let_def proper_post)
qed

lemma proper_phase: "proper R w \<Longrightarrow> ph \<noteq> Forwarded \<Longrightarrow> proper R (set_phase i ph w)"
  by (auto simp: proper_def set_phase_def eligible_def split: option.split)

lemma proper_network: "proper R w \<Longrightarrow> proper R (network i v why w)"
  by (simp add: network_def proper_post proper_phase)

lemma proper_end: "proper R w \<Longrightarrow> proper R (end_request i w)"
  by (auto simp: proper_def end_request_def eligible_def split: if_splits)

lemma proper_tabs:
  assumes "proper R w" "informs (wk_tabs w) tabs"
  shows "proper R (w\<lparr>wk_tabs := tabs\<rparr>)"
  using assms serves_informs [OF _ assms(2)] unfolding proper_def eligible_def by simp blast

lemma informs_set:
  "(\<And>t info. jm_get tabs cid = Some t \<Longrightarrow> tb_info t = Some info \<Longrightarrow> tb_info t' = Some info) \<Longrightarrow>
    informs tabs (jm_set cid t' tabs)"
  by (auto simp: informs_def)

lemma proper_known: "proper R w \<Longrightarrow> proper R (known_tab cid w)"
proof (cases "jm_get (wk_tabs w) cid")
  case None
  assume "proper R w"
  moreover have "informs (wk_tabs w) (jm_set cid t (wk_tabs w))" for t by (rule informs_set) (simp add: None)
  ultimately have "proper R ((post (PostHello cid) w)\<lparr>wk_tabs := jm_set cid t (wk_tabs w)\<rparr>)" for t
    by (intro proper_tabs proper_post) simp_all
  then show ?thesis using None by (simp add: known_tab_def hello_def)
qed (simp add: known_tab_def)

lemma proper_info:
  assumes "proper R w" "eligible R w i r" "jm_get (wk_pending w) i = Some p" "pd_request p = r"
    "jm_get (wk_tabs w) (wr_client r) = Some t" "tb_info t = Some info"
  shows "proper R (with_info i r info w)"
proof (cases "ri_available info \<and> (\<forall>q. ri_prefix info = Some q \<longrightarrow> startsWith (u_pathname (wr_url r)) q)")
  case True
  then have s: "serves r (wk_tabs w)" using assms(5,6) unfolding serves_def by blast
  have e: "with_info i r info w = post (PostServe (wr_client r) i) (set_phase i Forwarded w)"
    using True by (simp add: with_info_def split: option.split)
  have sp: "set_phase i Forwarded w = w\<lparr>wk_pending := jm_set i (p\<lparr>pd_phase := Forwarded\<rparr>) (wk_pending w)\<rparr>"
    using assms(3) by (simp add: set_phase_def)
  show ?thesis unfolding e sp
    using assms(1,2,4) s by (auto simp: proper_def post_def eligible_def split: if_splits)
next
  case False
  then show ?thesis using proper_network [OF assms(1)] by (auto simp: with_info_def split: option.split)
qed

lemma proper_fetch: "proper R w \<Longrightarrow> proper (insert (i, r) R) (sw_fetch now i r w)"
proof -
  assume "proper R w"
  then have w: "proper (insert (i, r) R) w" unfolding proper_def eligible_def by blast
  show ?thesis
  proof (cases "leaveToNetwork r (wk_origin w)")
    case None
    then show ?thesis using w by (auto simp: sw_fetch_def proper_def eligible_def)
  next
    case (Some why)
    then show ?thesis using w by (simp add: sw_fetch_def proper_record proper_post)
  qed
qed

fun intercepted :: "sw_ev \<Rightarrow> (int \<times> sw_request) set" where
  "intercepted (SwFetch i r) = {(i, r)}"
| "intercepted _ = {}"

lemma proper_found:
  assumes "proper R w" "jm_get (wk_pending w) i = Some p"
  shows "proper R (sw_found i p there w)"
proof -
  let ?w = "known_tab (wr_client (pd_request p)) w"
  have w: "proper R ?w" by (rule proper_known [OF assms(1)])
  have pd: "jm_get (wk_pending ?w) i = Some p"
    using assms(2) by (simp add: known_tab_def hello_def post_def split: option.split)
  show ?thesis
    using proper_network [OF assms(1)] proper_phase [OF w, of AwaitAck i]
      proper_info [OF w proper_pending [OF w pd] pd refl]
    by (simp add: sw_found_def Let_def w split: option.split)
qed

lemma proper_step:
  assumes "proper R w"
  shows "proper (intercepted ev \<union> R) (sw_step now ev w)"
proof (cases ev)
  case (SwFetch i r)
  then show ?thesis using proper_fetch [OF assms] by simp
next
  case (ClientFound i there)
  then show ?thesis using assms proper_found by (simp add: with_pending_def split: option.split)
next
  case (TabSays cid msg)
  have "informs (wk_tabs w) (jm_set cid (tab_says msg t) (wk_tabs w))" if "jm_get (wk_tabs w) cid = Some t" for t
    using that by (intro informs_set) (auto simp: tab_says_def)
  then show ?thesis using assms by (simp add: TabSays with_tab_def put_tab_def proper_tabs split: option.split)
next
  case (AckTimeout cid)
  have "informs (wk_tabs w) (jm_set cid (t\<lparr>tb_acked := x\<rparr>) (wk_tabs w))" if "jm_get (wk_tabs w) cid = Some t" for t x
    using that by (intro informs_set) auto
  then show ?thesis using assms by (simp add: AckTimeout with_tab_def put_tab_def proper_tabs split: option.split)
next
  case (Resume i)
  have "proper R (sw_resume i p w)" if pd: "jm_get (wk_pending w) i = Some p" for p
    using assms proper_info [OF assms proper_pending [OF assms pd] pd refl]
    by (simp add: sw_resume_def with_tab_def sw_acked_def proper_network proper_phase split: option.split phase.split)
  then show ?thesis using assms by (simp add: Resume with_pending_def split: option.split)
next
  case (WaitOver i)
  have "proper R (sw_timeout i p t w)"
    if "jm_get (wk_tabs w) (wr_client (pd_request p)) = Some t" "tb_info t = None" for p t
    using that assms unfolding sw_timeout_def by (intro proper_network proper_tabs informs_set) simp_all
  then show ?thesis using assms
    by (simp add: WaitOver with_pending_def sw_wait_over_def with_tab_def split: option.split)
next
  case (PageReply i reply)
  have "proper R (sw_reply now i p reply w)" if pd: "jm_get (wk_pending w) i = Some p" "pd_phase p = Forwarded" for p
  proof (cases reply)
    case (ReplyServed s)
    have o: "PostServe (wr_client (pd_request p)) i \<in> set (wk_out w)" using assms pd by (simp add: proper_def)
    have "proper R (sw_record rep (end_request i w))" for rep by (intro proper_record proper_end assms)
    moreover have "PostServe (wr_client (pd_request p)) i \<in> set (wk_out (sw_record rep (end_request i w)))" for rep
      using o by (simp add: sw_record_def end_request_def post_def Let_def)
    ultimately show ?thesis
      using proper_served unfolding sw_reply_def ReplyServed serve_reply.case by blast
  qed (use assms in \<open>simp_all add: sw_reply_def proper_network\<close>)
  then show ?thesis using assms by (simp add: PageReply with_pending_def split: option.split)
next
  case (TabGone i)
  then show ?thesis using assms by (simp add: with_pending_def proper_network split: option.split)
next
  case (NetworkDone i res)
  have "proper R (sw_network now i p v why res w)" for p v why
    using assms by (simp add: sw_network_def proper_post proper_record proper_end split: option.split)
  then show ?thesis using assms by (simp add: NetworkDone with_pending_def split: option.split phase.split)
qed

definition requests_of :: "(num \<times> sw_ev) list \<Rightarrow> (int \<times> sw_request) set" where
  "requests_of evs = \<Union> (intercepted ` snd ` set evs)"

lemma proper_run: "proper R w \<Longrightarrow> proper (requests_of evs \<union> R) (sw_run evs w)"
proof (induction evs arbitrary: R w)
  case (Cons x evs)
  then show ?case using Cons.IH [OF proper_step [OF Cons.prems, of "snd x" "fst x"]]
    by (cases x) (simp add: requests_of_def Un_ac)
qed (simp add: requests_of_def)

lemma origin_step: "wk_origin (sw_step now ev w) = wk_origin w"
  by (cases ev)
     (simp_all add: with_pending_def with_tab_def sw_fetch_def sw_record_def post_def sw_found_def known_tab_def hello_def
       network_def set_phase_def with_info_def put_tab_def sw_resume_def sw_acked_def sw_wait_over_def sw_timeout_def
       sw_reply_def sw_network_def end_request_def Let_def split: option.split phase.split serve_reply.split)

lemma origin_run: "wk_origin (sw_run evs w) = wk_origin w"
proof (induction evs arbitrary: w)
  case (Cons x evs)
  then show ?case by (cases x) (simp add: origin_step)
qed simp

section \<open>Properties\<close>

text \<open>C20: however the events of the browser interleave, every request the worker intercepts is answered exactly
  once: it is in progress, or it has been left to the browser, or it got one response (from the page's
  session, from the network, or the network's error).\<close>

theorem worker_answers_once:
  assumes "distinct (fetched evs)" "w = sw_run evs (new_worker origin)"
  shows "finals i w + (if in_progress i w then 1 else 0) = (if i \<in> set (fetched evs) then 1 else 0)"
proof -
  have "tally i (new_worker origin) = 0" by (simp add: tally_def finals_def in_progress_def new_worker_def jm_get_def)
  then show ?thesis using tally_run [OF assms(1), of i "new_worker origin"] assms(2) by (simp add: tally_def)
qed

definition sample_request :: "jsstring \<Rightarrow> sw_request" where
  "sample_request dest = \<lparr>wr_url = sample_url, wr_method = GET, wr_mode = js ''cors'', wr_range = False,
     wr_client = js ''tab1'', wr_destination = dest\<rparr>"

definition sample_served :: reply_served where
  "sample_served = \<lparr>ry_status = 200, ry_headers = [], ry_body = Some [1, 2], ry_stream = None, ry_length = None\<rparr>"

definition sample_ready :: ready_info where
  "sample_ready = \<lparr>ri_available = True, ri_reason = None, ri_prefix = Some (js ''/'')\<rparr>"

definition sample_evs :: "(num \<times> sw_ev) list" where
  "sample_evs = [(0, SwFetch 1 (sample_request [])), (1, ClientFound 1 True), (2, TabSays (js ''tab1'') Connecting),
     (3, Resume 1), (9, TabSays (js ''tab1'') (Ready sample_ready)), (9, Resume 1), (30, PageReply 1 (ReplyServed sample_served))]"

lemma sample_left: "leaveToNetwork (sample_request dest) (js ''https://a'') = None"
  by (simp add: leaveToNetwork_def sample_request_def sample_url_def GET_def HEAD_def CLIENT_DIR_def BOOTSTRAP_PATHS_def
      SW_URL_def startsWith_def js_def)

lemma sample_sw_run: "RespondHttp4 1 sample_served \<in> set (wk_out (sw_run sample_evs (new_worker (js ''https://a''))))"
proof -
  have p: "startsWith (u_pathname (wr_url (sample_request []))) (js ''/'')"
    by (simp add: sample_request_def sample_url_def startsWith_def js_def)
  show ?thesis
    by (simp add: sample_evs_def sw_fetch_def sample_left new_worker_def with_pending_def sw_found_def known_tab_def
        hello_def post_def with_tab_def put_tab_def tab_says_def sw_resume_def sw_acked_def set_phase_def with_info_def
        sw_reply_def sw_record_def end_request_def or_default_def Let_def jm_get_Cons jm_set_def jm_delete_def p sample_ready_def)
       (simp add: sample_request_def jm_get_Cons jm_set_def)
qed

theorem worker_answers_once_witness:
  "finals 1 (sw_run sample_evs (new_worker (js ''https://a''))) \<le> 1"
proof -
  have "distinct (fetched sample_evs)" "1 \<in> set (fetched sample_evs)" by (simp_all add: sample_evs_def)
  then show ?thesis using worker_answers_once [of sample_evs _ _ 1] by (metis add_leD1 order_refl)
qed

text \<open>C21: the worker answers from HTTP4 only with the page's consent. The request was one that the worker may
  take (no navigation, a GET or HEAD of the page's own origin, no bootstrap file, no range, from a tab), and
  its own tab had said that its session was open and that the path was one it serves.\<close>

theorem worker_serves_with_consent:
  assumes "RespondHttp4 i s \<in> set (wk_out (sw_run evs (new_worker origin)))"
  shows "\<exists>r. (i, r) \<in> requests_of evs \<and> leaveToNetwork r origin = None \<and>
    serves r (wk_tabs (sw_run evs (new_worker origin)))"
proof -
  have "proper {} (new_worker origin)" by (simp add: proper_def new_worker_def jm_get_def)
  then have p: "proper (requests_of evs) (sw_run evs (new_worker origin))" using proper_run by force
  have o: "wk_origin (sw_run evs (new_worker origin)) = origin" by (simp add: origin_run) (simp add: new_worker_def)
  obtain cid where "PostServe cid i \<in> set (wk_out (sw_run evs (new_worker origin)))"
    using p assms unfolding proper_def by blast
  then show ?thesis using p o unfolding proper_def eligible_def by metis
qed

theorem worker_serves_with_consent_witness:
  "\<exists>r. (1, r) \<in> requests_of sample_evs \<and> leaveToNetwork r (js ''https://a'') = None \<and>
    serves r (wk_tabs (sw_run sample_evs (new_worker (js ''https://a''))))"
  by (rule worker_serves_with_consent [OF sample_sw_run])

text \<open>C22: a slow session is waited for once, not by every request of the page. After one request of a tab has
  waited in vain, and until the tab says that it is ready, no other request of that tab starts to wait,
  whatever else happens.\<close>

theorem worker_waits_once:
  assumes "gave_up cid w" "list_all (\<lambda>x. case snd x of TabSays c (Ready info) \<Rightarrow> c \<noteq> cid | _ \<Rightarrow> True) evs"
  shows "gave_up cid (sw_run evs w) \<and> waiters cid (sw_run evs w) \<subseteq> waiters cid w"
  using assms
proof (induction evs arbitrary: w)
  case (Cons x evs)
  obtain now ev where x: "x = (now, ev)" by (cases x)
  have "ev \<noteq> TabSays cid (Ready info)" for info using Cons.prems(2) by (auto simp: x)
  then have "gave_up cid (sw_step now ev w)" using gave_up_step Cons.prems(1) by blast
  then show ?case using Cons.IH [of "sw_step now ev w"] Cons.prems waiters_step by (fastforce simp: x)
qed simp

definition tired_evs :: "(num \<times> sw_ev) list" where
  "tired_evs = [(0, SwFetch 1 (sample_request (js ''script''))), (1, ClientFound 1 True), (2, TabSays (js ''tab1'') Connecting),
     (3, Resume 1), (403, WaitOver 1)]"

text \<open>A script gives up after 400 ms; an image that comes next goes to the network at once.\<close>

theorem worker_waits_once_witness:
  "waiters (js ''tab1'') (sw_run [(500, SwFetch 2 (sample_request (js ''image''))), (501, ClientFound 2 True), (502, Resume 2)]
     (sw_run tired_evs (new_worker (js ''https://a'')))) = {}"
proof -
  let ?w = "sw_run tired_evs (new_worker (js ''https://a''))"
  have w: "gave_up (js ''tab1'') ?w \<and> (\<forall>x \<in> set (wk_pending ?w). pd_phase (snd x) \<noteq> AwaitReady)"
    by (simp add: tired_evs_def sw_fetch_def sample_left new_worker_def with_pending_def sw_found_def known_tab_def
        hello_def post_def with_tab_def put_tab_def tab_says_def sw_resume_def sw_acked_def set_phase_def network_def
        sw_wait_over_def sw_timeout_def or_default_def Let_def jm_get_Cons jm_set_def jm_delete_def)
       (simp add: sample_request_def gave_up_def jm_get_Cons jm_set_def)
  then have "waiters (js ''tab1'') ?w = {}"
    by (fastforce simp: waiters_def jm_get_def split: option.splits dest!: map_of_SomeD)
  then show ?thesis
    using worker_waits_once [OF conjunct1 [OF w], of "[(500, SwFetch 2 (sample_request (js ''image''))),
        (501, ClientFound 2 True), (502, Resume 2)]"] by simp
qed

end
