(* ===== verification/Config.thy ===== *)
theory Config
  imports Fetcher Runs
begin

text \<open>
  The configuration and the opening of a session (\<open>client/src/index.ts\<close>): which settings a page's data may
  change, where the WebTransport server is, and what \<open>connect()\<close> does when there is none. The URL parser,
  the inline script's JSON, the fetched config and the outcome of the WebTransport connection are given
  by the browser, as arguments. A config is typed as \<open>ServerConfig\<close> declares it; \<open>tuning\<close> and \<open>classes\<close>,
  declared \<open>unknown\<close>, are any JSON value.
\<close>

section \<open>Tuning\<close>

datatype tune_kind = KNumber | KBoolean

definition TUNABLE :: "(jsstring \<times> tune_kind) list" where
  "TUNABLE =
     [(js ''budget'', KNumber), (js ''budgetFloor'', KNumber), (js ''budgetCap'', KNumber), (js ''budgetK'', KNumber),
      (js ''minIncrement'', KNumber), (js ''initialGrant'', KNumber), (js ''rtoFloorMs'', KNumber),
      (js ''maxRecoveries'', KNumber), (js ''reorderPackets'', KNumber), (js ''streamHighWaterMark'', KNumber),
      (js ''earlyResend'', KBoolean), (js ''sessionSeq'', KBoolean)]"

fun tune_accepts :: "tune_kind \<Rightarrow> jsval \<Rightarrow> bool" where
  "tune_accepts KBoolean (JBool b) = True"
| "tune_accepts KNumber (JNum v) = (v \<ge> 0)"
| "tune_accepts _ _ = False"

definition tune_step :: "jsval \<Rightarrow> jsstring \<times> tune_kind \<Rightarrow> (jsstring, jsval) jsmap \<Rightarrow> (jsstring, jsval) jsmap" where
  "tune_step raw e out =
     (let v = get_prop raw (fst e) in if tune_accepts (snd e) v then jm_set (fst e) v out else out)"

definition tuningOptions :: "jsval \<Rightarrow> (jsstring, jsval) jsmap" where
  "tuningOptions raw = (if \<not> is_object raw then [] else fold (tune_step raw) TUNABLE [])"

text \<open>Reading the result as \<open>ClientOptions\<close>, and \<open>{ ...tuningOptions(raw), ...clientOpts }\<close>.\<close>

definition tuned_num :: "(jsstring, jsval) jsmap \<Rightarrow> string \<Rightarrow> num option" where
  "tuned_num m k = (case jm_get m (js k) of Some (JNum v) \<Rightarrow> Some v | _ \<Rightarrow> None)"

definition tuned_bool :: "(jsstring, jsval) jsmap \<Rightarrow> string \<Rightarrow> bool option" where
  "tuned_bool m k = (case jm_get m (js k) of Some (JBool b) \<Rightarrow> Some b | _ \<Rightarrow> None)"

definition over :: "'a option \<Rightarrow> 'a option \<Rightarrow> 'a option" where
  "over x d = (case x of None \<Rightarrow> d | Some v \<Rightarrow> Some v)"

definition with_tuning :: "jsval \<Rightarrow> client_options \<Rightarrow> client_options" where
  "with_tuning raw op =
     (let m = tuningOptions raw in op
        \<lparr>op_budget := over (op_budget op) (tuned_num m ''budget''),
         op_budgetFloor := over (op_budgetFloor op) (tuned_num m ''budgetFloor''),
         op_budgetCap := over (op_budgetCap op) (tuned_num m ''budgetCap''),
         op_budgetK := over (op_budgetK op) (tuned_num m ''budgetK''),
         op_minIncrement := over (op_minIncrement op) (tuned_num m ''minIncrement''),
         op_initialGrant := over (op_initialGrant op) (tuned_num m ''initialGrant''),
         op_rtoFloorMs := over (op_rtoFloorMs op) (tuned_num m ''rtoFloorMs''),
         op_maxRecoveries := over (op_maxRecoveries op) (tuned_num m ''maxRecoveries''),
         op_reorderPackets := over (op_reorderPackets op) (tuned_num m ''reorderPackets''),
         op_streamHighWaterMark := over (op_streamHighWaterMark op) (tuned_num m ''streamHighWaterMark''),
         op_earlyResend := over (op_earlyResend op) (tuned_bool m ''earlyResend''),
         op_sessionSeq := over (op_sessionSeq op) (tuned_bool m ''sessionSeq'')\<rparr>)"

section \<open>Where the server is\<close>

definition DEFAULT_ASSET_PREFIX :: jsstring where "DEFAULT_ASSET_PREFIX = js ''/assets/''"
definition DEFAULT_CONNECT_TIMEOUT_MS :: num where "DEFAULT_CONNECT_TIMEOUT_MS = 5000"

record server_config =
  cfg_webTransportUrl :: "jsstring option"
  cfg_certHash :: "jsstring option"
  cfg_assetPrefix :: "jsstring option"
  cfg_tuning :: jsval
  cfg_classes :: jsval

definition empty_config :: server_config where
  "empty_config = \<lparr>cfg_webTransportUrl = None, cfg_certHash = None, cfg_assetPrefix = None,
     cfg_tuning = JUndefined, cfg_classes = JUndefined\<rparr>"

datatype open_error =
    NotAUrl jsstring
  | NotHttps jsstring
  | ConfigStatus num
  | ConfigUnreadable
  | NoWebTransport
  | NoServerUrl
  | BadCertHash
  | ConnectFailed
  | ConnectTimedOut num

type_synonym url_parser = "jsstring \<Rightarrow> jsstring \<Rightarrow> url option"

definition resolveWTUrl :: "url_parser \<Rightarrow> jsstring \<Rightarrow> jsstring \<Rightarrow> open_error + jsstring" where
  "resolveWTUrl parse raw base =
     (case parse raw base of
        None \<Rightarrow> Inl (NotAUrl raw)
      | Some u \<Rightarrow> if u_protocol u \<noteq> js ''https:'' then Inl (NotHttps (u_href u)) else Inr (u_href u))"

text \<open>\<open>inlineConfig\<close>: the text of the page's config block if it has one; \<open>trim\<close> is the string method. A block that is
  blank, does not parse or is no object counts as none.\<close>

definition js_space :: "jschar \<Rightarrow> bool" where
  "js_space u \<longleftrightarrow> (let n = unat u in (9 \<le> n \<and> n \<le> 13) \<or> (0x2000 \<le> n \<and> n \<le> 0x200A) \<or>
     n \<in> {0x20, 0xA0, 0x1680, 0x2028, 0x2029, 0x202F, 0x205F, 0x3000, 0xFEFF})"

definition trim :: "jsstring \<Rightarrow> jsstring" where
  "trim s = rev (dropWhile js_space (rev (dropWhile js_space s)))"

definition inlineConfig :: "(jsstring \<Rightarrow> jsval option) \<Rightarrow> jsstring option \<Rightarrow> jsval option" where
  "inlineConfig json_parse block =
     (case map_option trim block of
        None \<Rightarrow> None
      | Some txt \<Rightarrow>
          if txt = [] then None
          else (case json_parse txt of None \<Rightarrow> None | Some cfg \<Rightarrow> if is_object cfg then Some cfg else None))"

lemma trim_padded:
  assumes "list_all js_space ws" "list_all js_space ws'"
  shows "trim (ws @ s @ ws') = trim s"
proof -
  have pre: "dropWhile js_space (xs @ ys) = dropWhile js_space ys" if "list_all js_space xs" for xs ys
    using that by (induction xs) simp_all
  have gone: "dropWhile js_space xs = []" if "list_all js_space xs" for xs
    using that by (induction xs) simp_all
  have rws: "list_all js_space (rev ws')" using assms(2) by (simp add: list_all_iff)
  show ?thesis
  proof (cases "list_all js_space s")
    case True
    then show ?thesis by (simp add: trim_def pre assms gone)
  next
    case False
    then have "dropWhile js_space (s @ ws') = dropWhile js_space s @ ws'" by (induction s) auto
    then show ?thesis by (simp add: trim_def pre assms(1) pre [OF rws])
  qed
qed

text \<open>What counts as an inline config is an object, however the block is indented.\<close>

lemma inline_config_object: "inlineConfig json_parse block = Some cfg \<Longrightarrow> is_object cfg"
  by (auto simp: inlineConfig_def split: option.splits if_splits)

lemma inline_config_padded:
  "list_all js_space ws \<Longrightarrow> list_all js_space ws' \<Longrightarrow>
    inlineConfig json_parse (Some (ws @ s @ ws')) = inlineConfig json_parse (Some s)"
  by (simp add: inlineConfig_def trim_padded)

text \<open>What the browser knows: whether it has WebTransport, the inline config if there is one, and
  what fetching and parsing the config file gives (a status that is not ok, or an exception).\<close>

record browser =
  br_webTransport :: bool
  br_inline :: "server_config option"
  br_config :: "open_error + server_config"
  br_parse :: url_parser
  br_atob :: "jsstring \<Rightarrow> byte list option"

datatype cert = CertBytes "byte list" | CertText jsstring

text \<open>The part of \<open>openSession\<close> that runs without a \<open>webTransportUrl\<close> option: the config it leaves in
  \<open>cfgOut\<close>, and the error it stops with if any.\<close>

definition read_config :: "browser \<Rightarrow> jsstring \<Rightarrow> (open_error + unit) \<times> server_config" where
  "read_config br base =
     (let usable = (case br_inline br of
                      None \<Rightarrow> None
                    | Some inl \<Rightarrow>
                        (case cfg_webTransportUrl inl of
                           None \<Rightarrow> None
                         | Some raw \<Rightarrow>
                             (case resolveWTUrl (br_parse br) raw base of Inl _ \<Rightarrow> None | Inr href \<Rightarrow> Some (inl, href))))
      in case usable of
           Some (inl, href) \<Rightarrow> (Inr (), inl\<lparr>cfg_webTransportUrl := Some href\<rparr>)
         | None \<Rightarrow>
             (case br_config br of
                Inr cfg \<Rightarrow> (Inr (), cfg)
              | Inl e \<Rightarrow> (if br_webTransport br then Inl e else Inr (), empty_config)))"

text \<open>The arguments of \<open>Http4Client.connect\<close>.\<close>

record session_plan =
  sp_url :: jsstring
  sp_cert :: "byte list option"
  sp_options :: client_options

definition cert_bytes :: "browser \<Rightarrow> cert option \<Rightarrow> open_error + byte list option" where
  "cert_bytes br h =
     (case h of
        None \<Rightarrow> Inr None
      | Some (CertBytes b) \<Rightarrow> Inr (Some b)
      | Some (CertText s) \<Rightarrow> (case br_atob br s of None \<Rightarrow> Inl BadCertHash | Some b \<Rightarrow> Inr (Some b)))"

definition finish_plan ::
    "browser \<Rightarrow> jsstring \<Rightarrow> cert option \<Rightarrow> client_options \<Rightarrow> server_config \<Rightarrow> open_error + session_plan" where
  "finish_plan br href h op cfg =
     rbind (throw_if (\<not> br_webTransport br) NoWebTransport) (\<lambda>_.
     rbind (cert_bytes br h) (\<lambda>b.
     Inr \<lparr>sp_url = href, sp_cert = b, sp_options = with_tuning (cfg_tuning cfg) op\<rparr>))"

definition plan_session ::
    "browser \<Rightarrow> jsstring option \<Rightarrow> cert option \<Rightarrow> jsstring \<Rightarrow> client_options
      \<Rightarrow> (open_error + session_plan) \<times> server_config" where
  "plan_session br url h base op =
     (case url of
        Some href \<Rightarrow> (finish_plan br href h op empty_config, empty_config)
      | None \<Rightarrow>
          let (r, cfg) = read_config br base in
          (rbind r (\<lambda>_.
           rbind (throw_if (\<not> br_webTransport br) NoWebTransport) (\<lambda>_.
           rbind (throw_if (or_default (cfg_webTransportUrl cfg) [] = []) NoServerUrl) (\<lambda>_.
           rbind (resolveWTUrl (br_parse br) (or_default (cfg_webTransportUrl cfg) []) base) (\<lambda>href.
           let configured = (if or_default (cfg_certHash cfg) [] = [] then None
                             else map_option CertText (cfg_certHash cfg))
           in finish_plan br href (case h of None \<Rightarrow> configured | Some x \<Rightarrow> Some x) op cfg)))), cfg))"

section \<open>The race against the timeout\<close>

text \<open>What becomes of the connection attempt, in the order it happens. The promise and the timer each
  settle once; a session that connects after the timer is closed.\<close>

datatype connect_ev = Connects | Fails | TimerFires

record race =
  ra_result :: "(open_error + unit) option"
  ra_closed :: bool

definition new_race :: race where "new_race = \<lparr>ra_result = None, ra_closed = False\<rparr>"

fun race_step :: "num \<Rightarrow> connect_ev \<Rightarrow> race \<Rightarrow> race" where
  "race_step ms Connects r =
     (case ra_result r of
        None \<Rightarrow> r\<lparr>ra_result := Some (Inr ())\<rparr>
      | Some (Inl _) \<Rightarrow> r\<lparr>ra_closed := True\<rparr>
      | Some (Inr _) \<Rightarrow> r)"
| "race_step ms Fails r = (case ra_result r of None \<Rightarrow> r\<lparr>ra_result := Some (Inl ConnectFailed)\<rparr> | Some _ \<Rightarrow> r)"
| "race_step ms TimerFires r =
     (case ra_result r of None \<Rightarrow> r\<lparr>ra_result := Some (Inl (ConnectTimedOut ms))\<rparr> | Some _ \<Rightarrow> r)"

definition race_run :: "num \<Rightarrow> connect_ev list \<Rightarrow> race" where
  "race_run ms evs = fold (race_step ms) evs new_race"

section \<open>open\<close>

record connect_options =
  co_webTransportUrl :: "jsstring option"
  co_certHash :: "cert option"
  co_assetPrefix :: "jsstring option"
  co_pathToAssetId :: "(url \<Rightarrow> jsstring option) option"
  co_reportLimit :: "num option"
  co_stream :: "bool option"
  co_connectTimeoutMs :: "num option"
  co_client :: client_options

record opened =
  od_fetcher :: fetcher
  od_assetPrefix :: "jsstring option"

definition open_prefix :: "connect_options \<Rightarrow> server_config \<Rightarrow> jsstring option" where
  "open_prefix co cfg =
     (case co_pathToAssetId co of
        Some _ \<Rightarrow> None
      | None \<Rightarrow> Some (or_default (co_assetPrefix co) (or_default (cfg_assetPrefix cfg) DEFAULT_ASSET_PREFIX)))"

definition build_fetcher ::
    "jsstring \<Rightarrow> requester option \<Rightarrow> why option \<Rightarrow> jsstring option \<Rightarrow> (url \<Rightarrow> jsstring option) option
      \<Rightarrow> num option \<Rightarrow> bool option \<Rightarrow> class_map \<Rightarrow> fetcher" where
  "build_fetcher origin session reason prefx mapper limit stream classes =
     \<lparr>ft_session = session, ft_unavailable = reason, ft_baseOrigin = origin,
      ft_pathToAssetId = (case mapper of Some f \<Rightarrow> f | None \<Rightarrow> prefixMapper origin (or_default prefx [])),
      ft_reportLimit = limit, ft_stream = stream, ft_classes = (if classes = [] then None else Some classes),
      ft_log = []\<rparr>"

text \<open>\<open>describe\<close> gives an error's message, \<open>session\<close> is the requester of the client that connects. The
  result is \<open>None\<close> while the connection attempt is undecided: \<open>open\<close> is still waiting.\<close>

definition open_result ::
    "url \<Rightarrow> (open_error \<Rightarrow> jsstring) \<Rightarrow> requester \<Rightarrow> connect_options \<Rightarrow> server_config \<Rightarrow> open_error + unit \<Rightarrow> opened" where
  "open_result base describe session co cfg r =
     \<lparr>od_fetcher = build_fetcher (u_origin base)
        (case r of Inr _ \<Rightarrow> Some session | Inl _ \<Rightarrow> None)
        (case r of Inl e \<Rightarrow> Some (WhyGiven (describe e)) | Inr _ \<Rightarrow> None)
        (open_prefix co cfg) (co_pathToAssetId co) (co_reportLimit co) (co_stream co) (classMap (cfg_classes cfg)),
      od_assetPrefix = open_prefix co cfg\<rparr>"

definition open_http4 ::
    "browser \<Rightarrow> url \<Rightarrow> (open_error \<Rightarrow> jsstring) \<Rightarrow> connect_ev list \<Rightarrow> requester \<Rightarrow> connect_options \<Rightarrow> opened option" where
  "open_http4 br base describe evs session co =
     (let (plan, cfg) = plan_session br (co_webTransportUrl co) (co_certHash co) (u_href base) (co_client co);
          ms = or_default (co_connectTimeoutMs co) DEFAULT_CONNECT_TIMEOUT_MS
      in case plan of
           Inl e \<Rightarrow> Some (open_result base describe session co cfg (Inl e))
         | Inr _ \<Rightarrow> map_option (open_result base describe session co cfg) (ra_result (race_run ms evs)))"

text \<open>\<open>openDisabled\<close>: no session, no path is mapped.\<close>

definition openDisabled :: "url \<Rightarrow> jsstring \<Rightarrow> num option \<Rightarrow> bool option \<Rightarrow> fetcher" where
  "openDisabled base reason limit stream =
     build_fetcher (u_origin base) None (Some (WhyGiven reason)) None (Some (\<lambda>_. None)) limit stream []"

section \<open>Lemmas\<close>

lemma tuning_fold:
  "distinct (map fst ts) \<Longrightarrow> jm_get (fold (tune_step raw) ts out) k =
   (case map_of ts k of
      None \<Rightarrow> jm_get out k
    | Some kind \<Rightarrow> if tune_accepts kind (get_prop raw k) then Some (get_prop raw k) else jm_get out k)"
proof (induction ts arbitrary: out)
  case (Cons t ts)
  have n: "map_of ts (fst t) = None" using Cons.prems by (simp add: map_of_eq_None_iff)
  have "jm_get (tune_step raw t out) k = (if k = fst t \<and> tune_accepts (snd t) (get_prop raw k)
      then Some (get_prop raw k) else jm_get out k)"
    by (auto simp: tune_step_def Let_def)
  then show ?case using Cons n by (cases t) (auto split: option.split)
qed simp

lemma tunable_distinct: "distinct (map fst TUNABLE)"
  by (simp add: TUNABLE_def js_def)

lemma tuning_lookup:
  "jm_get (tuningOptions raw) k =
     (case map_of TUNABLE k of
        None \<Rightarrow> None
      | Some kind \<Rightarrow> if tune_accepts kind (get_prop raw k) then Some (get_prop raw k) else None)"
proof -
  have u: "\<not> is_object raw \<Longrightarrow> get_prop raw k = JUndefined" by (cases raw) auto
  show ?thesis
  proof (cases "is_object raw")
    case True
    have "jm_get ([] :: (jsstring \<times> jsval) list) k = None" by (simp add: jm_get_def)
    with True show ?thesis by (simp add: tuningOptions_def tuning_fold [OF tunable_distinct] split: option.split)
  next
    case False
    then show ?thesis using u by (auto simp: tuningOptions_def jm_get_def split: option.split tune_kind.split)
  qed
qed

text \<open>A session that connects is returned or closed, never left open unused.\<close>

lemma race_no_leak:
  assumes "Connects \<in> set evs"
  shows "ra_result (race_run ms evs) = Some (Inr ()) \<or> ra_closed (race_run ms evs)"
proof -
  have keep: "ra_result r = Some (Inr ()) \<or> ra_closed r \<Longrightarrow>
    ra_result (fold (race_step ms) evs r) = Some (Inr ()) \<or> ra_closed (fold (race_step ms) evs r)" for r evs
  proof (induction evs arbitrary: r)
    case (Cons ev evs)
    have "ra_result (race_step ms ev r) = Some (Inr ()) \<or> ra_closed (race_step ms ev r)"
      using Cons.prems by (cases ev) (auto split: option.split sum.split)
    then show ?case using Cons.IH by simp
  qed simp
  have "ra_result (fold (race_step ms) evs r) = Some (Inr ()) \<or> ra_closed (fold (race_step ms) evs r)" for r
    using assms
  proof (induction evs arbitrary: r)
    case (Cons ev evs)
    show ?case
    proof (cases "ev = Connects")
      case True
      have "ra_result (race_step ms Connects r) = Some (Inr ()) \<or> ra_closed (race_step ms Connects r)"
        by (auto split: option.split sum.split)
      then show ?thesis using keep True by simp
    qed (use Cons in auto)
  qed simp
  then show ?thesis by (simp add: race_run_def)
qed

text \<open>A fetcher without a session is the platform's fetch.\<close>

lemma fetch_without_session:
  assumes "ft_session f = None" "fc_url c = Some u"
  shows "fst (fetch c ms platform f) = map_sum id FromPlatform platform"
proof -
  have "\<exists>v why. outcome f u meth sig dest = Inr (PassTo v why)" for meth sig dest
    using assms(1) by (simp add: outcome_def split: option.split)
  then obtain v why where "outcome f u (call_method c) (fc_signal c) [] = Inr (PassTo v why)" by blast
  then show ?thesis using assms(2)
    by (simp add: fetch_def via_platform_def Let_def split: option.split sum.split)
qed

lemma race_settles:
  assumes "evs \<noteq> []"
  shows "ra_result (race_run ms evs) \<noteq> None"
proof -
  have s: "ra_result (race_step ms ev r) \<noteq> None" for ev r
    by (cases ev) (auto split: option.split sum.split)
  then have "ra_result (fold (race_step ms) evs r) \<noteq> None" if "ra_result r \<noteq> None" for evs r
    using that by (induction evs arbitrary: r) simp_all
  then show ?thesis using assms s by (cases evs) (simp_all add: race_run_def)
qed

section \<open>Properties\<close>

text \<open>C23: a page's data can set the listed options and no others, each only to a value of its type that is a
  boolean or a number that is finite and not negative; anything else is dropped.\<close>

theorem tuning_typed:
  "jm_get (tuningOptions raw) k =
     (case (map_of TUNABLE k, get_prop raw k) of
        (Some KNumber, JNum v) \<Rightarrow> if 0 \<le> v then Some (JNum v) else None
      | (Some KBoolean, JBool b) \<Rightarrow> Some (JBool b)
      | _ \<Rightarrow> None)"
  unfolding tuning_lookup by (auto split: option.split tune_kind.split jsval.split)

text \<open>C19: opening never breaks the page. Whatever the options, the config and the browser are, once the
  connection attempt or its timer has settled \<open>open\<close> returns a fetcher. Either the session connected in time and the
  fetcher uses it, or the fetcher has no session, tells why, and is the platform's fetch for every call; then
  a session that connects late has been closed.\<close>

theorem opening_falls_back:
  assumes "evs \<noteq> []" "fc_url c = Some u"
  shows "\<exists>od. open_http4 br base describe evs session co = Some od \<and>
    (ft_session (od_fetcher od) = Some session \<and>
        ra_result (race_run (or_default (co_connectTimeoutMs co) DEFAULT_CONNECT_TIMEOUT_MS) evs) = Some (Inr ()) \<or>
     ft_session (od_fetcher od) = None \<and> (\<exists>e. unavailableReason (od_fetcher od) = Some (WhyGiven (describe e))) \<and>
        fst (fetch c ms platform (od_fetcher od)) = map_sum id FromPlatform platform \<and>
        (Connects \<in> set evs \<and> (\<exists>pl. fst (plan_session br (co_webTransportUrl co) (co_certHash co) (u_href base) (co_client co)) = Inr pl)
          \<longrightarrow> ra_closed (race_run (or_default (co_connectTimeoutMs co) DEFAULT_CONNECT_TIMEOUT_MS) evs)))"
proof -
  let ?r = "race_run (or_default (co_connectTimeoutMs co) DEFAULT_CONNECT_TIMEOUT_MS) evs"
  obtain plan cfg where pl: "plan_session br (co_webTransportUrl co) (co_certHash co) (u_href base) (co_client co) = (plan, cfg)"
    by fastforce
  have none: "ft_session (od_fetcher (open_result base describe session co cfg (Inl e))) = None"
    "unavailableReason (od_fetcher (open_result base describe session co cfg (Inl e))) = Some (WhyGiven (describe e))" for e
    by (simp_all add: open_result_def build_fetcher_def unavailableReason_def or_default_def)
  obtain x where x: "ra_result ?r = Some x" using race_settles [OF assms(1)] by fastforce
  show ?thesis
  proof (cases plan)
    case (Inl e)
    then show ?thesis using pl none fetch_without_session [OF none(1) assms(2)] by (auto simp: open_http4_def)
  next
    case (Inr sp)
    show ?thesis
    proof (cases x)
      case (Inl e)
      then show ?thesis using pl Inr x none fetch_without_session [OF none(1) assms(2)]
          race_no_leak [of evs "or_default (co_connectTimeoutMs co) DEFAULT_CONNECT_TIMEOUT_MS"]
        by (auto simp: open_http4_def Let_def)
    next
      case (Inr v)
      then show ?thesis using pl \<open>plan = Inr sp\<close> x
        by (auto simp: open_http4_def Let_def open_result_def build_fetcher_def)
    qed
  qed
qed

definition bare_browser :: browser where
  "bare_browser = \<lparr>br_webTransport = True, br_inline = None, br_config = Inl (ConfigStatus 404),
     br_parse = (\<lambda>_ _. None), br_atob = (\<lambda>_. None)\<rparr>"

text \<open>The server has no config file.\<close>

theorem opening_falls_back_witness:
  "\<exists>od. open_http4 bare_browser sample_url (\<lambda>_. []) [TimerFires]
      \<lparr>rq_isOpen = True, rq_request = (\<lambda>_ _. Inl (Http4Error NoProgress None)), rq_requestStream = None\<rparr>
      \<lparr>co_webTransportUrl = None, co_certHash = None, co_assetPrefix = None, co_pathToAssetId = None,
       co_reportLimit = None, co_stream = None, co_connectTimeoutMs = Some 10, co_client = plain_options\<rparr> = Some od \<and>
     fst (fetch sample_call 5 (Inr \<lparr>pr_status = 200, pr_length = Some 3\<rparr>) (od_fetcher od)) =
       Inr (FromPlatform \<lparr>pr_status = 200, pr_length = Some 3\<rparr>)"
proof -
  have "fc_url sample_call = Some sample_url" by (simp add: sample_call_def)
  from opening_falls_back [OF _ this, of "[TimerFires]" bare_browser sample_url "\<lambda>_. []"
      "\<lparr>rq_isOpen = True, rq_request = (\<lambda>_ _. Inl (Http4Error NoProgress None)), rq_requestStream = None\<rparr>"
      "\<lparr>co_webTransportUrl = None, co_certHash = None, co_assetPrefix = None, co_pathToAssetId = None,
       co_reportLimit = None, co_stream = None, co_connectTimeoutMs = Some 10, co_client = plain_options\<rparr>"
      5 "Inr \<lparr>pr_status = 200, pr_length = Some 3\<rparr>"]
  show ?thesis by (auto simp: race_run_def new_race_def or_default_def)
qed

end
