(* ===== verification/Page.thy ===== *)
theory Page
  imports Worker Config
begin

text \<open>
  The page's side of the Service Worker bridge (\<open>client/src/page.ts\<close>) and the one-tag setup
  (\<open>client/src/auto.ts\<close>). The page is a state machine: the promise \<open>opened\<close>, the callbacks queued on it, the
  calls in progress and the mirrored report; what it posts is a log of effects. \<open>bridge\<close> composes it with the
  worker: messages travel between the two, each end also takes its own events.
\<close>

section \<open>Messages\<close>

text \<open>A port is named after what it was made for: the hello to a tab, or one forwarded request.\<close>

datatype port = HelloPort jsstring | ServePort int

text \<open>The URL of a \<open>serve\<close> message as \<open>new URL\<close> parses it.\<close>

datatype sw_message =
    HelloMsg
  | ServeMsg "url option" jsstring jsstring
  | ReportMsg bool
  | LogMsg sw_report

text \<open>What a message does once \<open>opened\<close> resolves.\<close>

datatype waiting = Greet port | Serve port "url option" jsstring jsstring

datatype page_effect =
    PortHello port hello_reply
  | PortReply port serve_reply
  | PortClose port
  | TellListeners sw_report num

record page =
  pg_prefix :: "jsstring option option"
  pg_waiting :: "waiting list"
  pg_calls :: "(port, fetch_error + http4_outcome) jsmap"
  pg_mirror :: "(sw_report \<times> num) list"
  pg_out :: "page_effect list"

text \<open>\<open>pg_prefix\<close> is \<open>None\<close> until \<open>opened\<close> resolves.\<close>

definition new_page :: page where
  "new_page = \<lparr>pg_prefix = None, pg_waiting = [], pg_calls = [], pg_mirror = [], pg_out = []\<rparr>"

section \<open>Answers to the worker\<close>

text \<open>\<open>f\<close> is the page's fetcher as it is at the time: its session can end.\<close>

definition page_post :: "page_effect \<Rightarrow> page \<Rightarrow> page" where
  "page_post x p = p\<lparr>pg_out := pg_out p @ [x]\<rparr>"

definition greet :: "fetcher \<Rightarrow> jsstring option \<Rightarrow> port \<Rightarrow> page \<Rightarrow> page" where
  "greet f prefx pt p = page_post (PortClose pt) (page_post (PortHello pt (Ready (readyMsg f prefx))) p)"

definition page_serve :: "fetcher \<Rightarrow> port \<Rightarrow> url option \<Rightarrow> jsstring \<Rightarrow> jsstring \<Rightarrow> page \<Rightarrow> page" where
  "page_serve f pt u meth dest p =
     p\<lparr>pg_calls := jm_set pt (case u of None \<Rightarrow> Inl BadUrl | Some x \<Rightarrow> outcome f x meth Quiet dest) (pg_calls p)\<rparr>"

text \<open>\<open>serveReply\<close> of the outcome, or the bridge's own error. \<open>view_of\<close> is the typed array of a body.\<close>

definition bridge_reply :: "fetch_error + http4_outcome \<Rightarrow> (byte list \<Rightarrow> byte_view) \<Rightarrow> serve_reply" where
  "bridge_reply res view_of =
     (case res of
        Inl _ \<Rightarrow> BridgeFailed
      | Inr out \<Rightarrow>
          fst (serveReply out (view_of (case out of Served s \<Rightarrow> or_default (sv_body s) [] | PassTo v why \<Rightarrow> []))))"

fun when_open :: "fetcher \<Rightarrow> jsstring option \<Rightarrow> waiting \<Rightarrow> page \<Rightarrow> page" where
  "when_open f prefx (Greet pt) p = greet f prefx pt p"
| "when_open f prefx (Serve pt u meth dest) p = page_serve f pt u meth dest p"

definition on_opened :: "fetcher \<Rightarrow> waiting \<Rightarrow> page \<Rightarrow> page" where
  "on_opened f x p =
     (case pg_prefix p of
        None \<Rightarrow> p\<lparr>pg_waiting := pg_waiting p @ [x]\<rparr>
      | Some prefx \<Rightarrow> when_open f prefx x p)"

text \<open>\<open>answer\<close>.\<close>

definition page_answer :: "fetcher \<Rightarrow> sw_message \<Rightarrow> port option \<Rightarrow> page \<Rightarrow> page" where
  "page_answer f m port p =
     (case port of
        None \<Rightarrow> p
      | Some pt \<Rightarrow>
          (case m of
             HelloMsg \<Rightarrow> on_opened f (Greet pt) (page_post (PortHello pt Connecting) p)
           | ServeMsg u meth dest \<Rightarrow> on_opened f (Serve pt u meth dest) p
           | _ \<Rightarrow> p))"

text \<open>The message listener. \<open>ours\<close> is \<open>fromOurWorker\<close>: the source is the worker whose script the page asked for.\<close>

definition fromOurWorker :: "jsstring option \<Rightarrow> jsstring \<Rightarrow> bool" where
  "fromOurWorker script href \<longleftrightarrow> script = Some href"

definition page_message :: "fetcher \<Rightarrow> num \<Rightarrow> bool \<Rightarrow> sw_message \<Rightarrow> port option \<Rightarrow> page \<Rightarrow> page" where
  "page_message f now ours m port p =
     (if \<not> ours then p
      else case m of
             LogMsg r \<Rightarrow> page_post (TellListeners r now) (p\<lparr>pg_mirror := mirror_entry now r (pg_mirror p)\<rparr>)
           | _ \<Rightarrow> page_answer f m port p)"

definition page_opened :: "fetcher \<Rightarrow> jsstring option \<Rightarrow> page \<Rightarrow> page" where
  "page_opened f prefx p =
     (case pg_prefix p of
        Some _ \<Rightarrow> p
      | None \<Rightarrow> fold (when_open f prefx) (pg_waiting p) (p\<lparr>pg_prefix := Some prefx, pg_waiting := []\<rparr>))"

definition page_settled :: "port \<Rightarrow> (byte list \<Rightarrow> byte_view) \<Rightarrow> page \<Rightarrow> page" where
  "page_settled pt view_of p =
     (case jm_get (pg_calls p) pt of
        None \<Rightarrow> p
      | Some res \<Rightarrow>
          page_post (PortClose pt) (page_post (PortReply pt (bridge_reply res view_of))
            (p\<lparr>pg_calls := jm_delete pt (pg_calls p)\<rparr>)))"

datatype page_ev =
    Message num bool sw_message "port option"
  | OpenResolves "jsstring option"
  | Settles port "byte list \<Rightarrow> byte_view"

fun page_step :: "fetcher \<Rightarrow> page_ev \<Rightarrow> page \<Rightarrow> page" where
  "page_step f (Message now ours m port) p = page_message f now ours m port p"
| "page_step f (OpenResolves prefx) p = page_opened f prefx p"
| "page_step f (Settles pt view_of) p = page_settled pt view_of p"

section \<open>install and the script tag\<close>

definition DISABLED_REASON :: jsstring where "DISABLED_REASON = js ''HTTP4 disabled for this page''"

record install_options =
  io_connect :: connect_options
  io_configUrl :: "jsstring option"
  io_session :: "int option"
  io_register :: "bool option"
  io_disabled :: "bool option"

datatype registration = Registers | LooksUp | NoContainer

definition install_registration :: "bool \<Rightarrow> install_options \<Rightarrow> registration" where
  "install_registration container io =
     (if container \<and> or_default (io_register io) True \<and> \<not> or_default (io_disabled io) False then Registers
      else if container then LooksUp else NoContainer)"

definition install_opened ::
    "browser \<Rightarrow> url \<Rightarrow> (open_error \<Rightarrow> jsstring) \<Rightarrow> connect_ev list \<Rightarrow> requester \<Rightarrow> install_options \<Rightarrow> opened option" where
  "install_opened br base describe evs session io =
     (if or_default (io_disabled io) False
      then Some \<lparr>od_fetcher = openDisabled base DISABLED_REASON (co_reportLimit (io_connect io)) (co_stream (io_connect io)),
                 od_assetPrefix = None\<rparr>
      else open_http4 br base describe evs session (io_connect io))"

text \<open>The tag's attributes, \<open>None\<close> when absent, and the page's \<open>http4\<close> query parameter. \<open>early\<close> is the
  WebTransport the page started itself.\<close>

record script_tag =
  tag_configUrl :: "jsstring option"
  tag_assetPrefix :: "jsstring option"
  tag_disabled :: "jsstring option"

definition non_empty :: "jsstring option \<Rightarrow> jsstring option" where
  "non_empty s = (if s = Some [] then None else s)"

definition no_options :: connect_options where
  "no_options = \<lparr>co_webTransportUrl = None, co_certHash = None, co_assetPrefix = None, co_pathToAssetId = None,
     co_reportLimit = None, co_stream = None, co_connectTimeoutMs = None,
     co_client = plain_options\<rparr>"

definition auto_options :: "script_tag option \<Rightarrow> jsstring option \<Rightarrow> int option \<Rightarrow> install_options" where
  "auto_options tag query early =
     (let off = (case tag of None \<Rightarrow> False | Some t \<Rightarrow> tag_disabled t \<noteq> None) \<or> query = Some (js ''off'')
      in \<lparr>io_connect = no_options\<lparr>co_assetPrefix := non_empty (case tag of None \<Rightarrow> None | Some t \<Rightarrow> tag_assetPrefix t)\<rparr>,
          io_configUrl = non_empty (case tag of None \<Rightarrow> None | Some t \<Rightarrow> tag_configUrl t),
          io_session = (if off then None else early),
          io_register = None,
          io_disabled = (if off then Some True else None)\<rparr>)"

section \<open>The worker and a page\<close>

text \<open>\<open>R\<close> holds the requests intercepted so far, \<open>cid\<close> is the page's client id, and \<open>F\<close> tells which states
  its fetcher can be in. What the worker hears from this page is what the page posted; other tabs may say
  anything.\<close>

definition elsewhere :: "jsstring \<Rightarrow> (int \<times> sw_request) set \<Rightarrow> sw_ev \<Rightarrow> bool" where
  "elsewhere cid R ev \<longleftrightarrow>
     (case ev of
        SwFetch i r \<Rightarrow> (\<forall>r. (i, r) \<notin> R)
      | TabSays c msg \<Rightarrow> c \<noteq> cid
      | PageReply i reply \<Rightarrow> (\<forall>r. (i, r) \<in> R \<longrightarrow> wr_client r \<noteq> cid)
      | _ \<Rightarrow> True)"

text \<open>A body's typed array shows the body.\<close>

definition shows_body :: "(byte list \<Rightarrow> byte_view) \<Rightarrow> bool" where
  "shows_body view_of \<longleftrightarrow> (\<forall>b. view_bytes (view_of b) = b)"

fun of_the_page :: "page_ev \<Rightarrow> bool" where
  "of_the_page (Message now ours m port) = (\<not> ours \<or> (\<exists>r. m = LogMsg r))"
| "of_the_page (OpenResolves prefx) = True"
| "of_the_page (Settles pt view_of) = shows_body view_of"

inductive bridge ::
    "(fetcher \<Rightarrow> bool) \<Rightarrow> jsstring \<Rightarrow> jsstring \<Rightarrow> (int \<times> sw_request) set \<Rightarrow> worker \<Rightarrow> page \<Rightarrow> bool"
  for F :: "fetcher \<Rightarrow> bool" and origin cid :: jsstring where
  bridge_start: "bridge F origin cid {} (new_worker origin) new_page"
| bridge_work: "bridge F origin cid R w p \<Longrightarrow> elsewhere cid R ev \<Longrightarrow>
    bridge F origin cid (intercepted ev \<union> R) (sw_step now ev w) p"
| bridge_page: "bridge F origin cid R w p \<Longrightarrow> F f \<Longrightarrow> of_the_page ev \<Longrightarrow> bridge F origin cid R w (page_step f ev p)"
| bridge_hello: "bridge F origin cid R w p \<Longrightarrow> F f \<Longrightarrow> PostHello cid \<in> set (wk_out w) \<Longrightarrow>
    bridge F origin cid R w (page_step f (Message now True HelloMsg (Some (HelloPort cid))) p)"
| bridge_serve: "bridge F origin cid R w p \<Longrightarrow> F f \<Longrightarrow> PostServe cid i \<in> set (wk_out w) \<Longrightarrow> (i, r) \<in> R \<Longrightarrow>
    bridge F origin cid R w
      (page_step f (Message now True (ServeMsg (Some (wr_url r)) (wr_method r) (wr_destination r)) (Some (ServePort i))) p)"
| bridge_told: "bridge F origin cid R w p \<Longrightarrow> PortHello (HelloPort cid) msg \<in> set (pg_out p) \<Longrightarrow>
    bridge F origin cid R (sw_step now (TabSays cid msg) w) p"
| bridge_replied: "bridge F origin cid R w p \<Longrightarrow> PortReply (ServePort i) reply \<in> set (pg_out p) \<Longrightarrow>
    bridge F origin cid R (sw_step now (PageReply i reply) w) p"

section \<open>What the page posts\<close>

text \<open>\<open>frank\<close> is what the page says of itself, \<open>asked\<close> what it does for a forwarded request.\<close>

definition frank :: "(fetcher \<Rightarrow> bool) \<Rightarrow> ready_info \<Rightarrow> bool" where
  "frank F info \<longleftrightarrow> (\<exists>f prefx. F f \<and> info = readyMsg f prefx)"

definition asked :: "(int \<times> sw_request) set \<Rightarrow> int \<Rightarrow> url option \<Rightarrow> jsstring \<Rightarrow> jsstring \<Rightarrow> bool" where
  "asked R i u meth dest \<longleftrightarrow> (\<exists>r. (i, r) \<in> R \<and> u = Some (wr_url r) \<and> meth = wr_method r \<and> dest = wr_destination r)"

definition called :: "(fetcher \<Rightarrow> bool) \<Rightarrow> (int \<times> sw_request) set \<Rightarrow> int \<Rightarrow> fetch_error + http4_outcome \<Rightarrow> bool" where
  "called F R i res \<longleftrightarrow>
     (\<exists>r f. (i, r) \<in> R \<and> F f \<and> res = outcome f (wr_url r) (wr_method r) Quiet (wr_destination r))"

fun posted :: "(fetcher \<Rightarrow> bool) \<Rightarrow> (int \<times> sw_request) set \<Rightarrow> page_effect \<Rightarrow> bool" where
  "posted F R (PortHello pt (Ready info)) = frank F info"
| "posted F R (PortReply (ServePort i) reply) = (\<exists>res view_of. called F R i res \<and> shows_body view_of \<and> reply = bridge_reply res view_of)"
| "posted F R _ = True"

definition honest_page :: "(fetcher \<Rightarrow> bool) \<Rightarrow> (int \<times> sw_request) set \<Rightarrow> page \<Rightarrow> bool" where
  "honest_page F R p \<longleftrightarrow>
     (\<forall>i u meth dest. Serve (ServePort i) u meth dest \<in> set (pg_waiting p) \<longrightarrow> asked R i u meth dest) \<and>
     (\<forall>i res. jm_get (pg_calls p) (ServePort i) = Some res \<longrightarrow> called F R i res) \<and>
     (\<forall>x \<in> set (pg_out p). posted F R x)"

lemma honest_post [simp]: "honest_page F R p \<Longrightarrow> posted F R x \<Longrightarrow> honest_page F R (page_post x p)"
  by (auto simp: honest_page_def page_post_def)

lemma honest_mirror [simp]: "honest_page F R (p\<lparr>pg_mirror := m\<rparr>) = honest_page F R p"
  by (simp add: honest_page_def)

lemma frank_ready [simp]: "F f \<Longrightarrow> frank F (readyMsg f prefx)"
  unfolding frank_def by blast

lemma honest_greet: "honest_page F R p \<Longrightarrow> F f \<Longrightarrow> honest_page F R (greet f prefx pt p)"
  by (simp add: greet_def)

lemma honest_serve:
  assumes "honest_page F R p" "F f" "\<And>i. pt = ServePort i \<Longrightarrow> asked R i u meth dest"
  shows "honest_page F R (page_serve f pt u meth dest p)"
proof -
  have "called F R i (case u of None \<Rightarrow> Inl BadUrl | Some x \<Rightarrow> outcome f x meth Quiet dest)" if "pt = ServePort i" for i
    using assms(2) assms(3) [OF that] unfolding asked_def called_def by auto blast
  then show ?thesis using assms(1) by (auto simp: honest_page_def page_serve_def split: if_splits)
qed

definition fair_wait :: "(int \<times> sw_request) set \<Rightarrow> waiting \<Rightarrow> bool" where
  "fair_wait R x \<longleftrightarrow> (\<forall>i u meth dest. x = Serve (ServePort i) u meth dest \<longrightarrow> asked R i u meth dest)"

lemma honest_open: "honest_page F R p \<Longrightarrow> F f \<Longrightarrow> fair_wait R x \<Longrightarrow> honest_page F R (when_open f prefx x p)"
  by (cases x) (simp_all add: honest_greet honest_serve fair_wait_def)

lemma honest_on_opened: "honest_page F R p \<Longrightarrow> F f \<Longrightarrow> fair_wait R x \<Longrightarrow> honest_page F R (on_opened f x p)"
  by (auto simp: on_opened_def honest_open split: option.split) (auto simp: honest_page_def fair_wait_def)

lemma honest_fold:
  "honest_page F R p \<Longrightarrow> F f \<Longrightarrow> list_all (fair_wait R) xs \<Longrightarrow> honest_page F R (fold (when_open f prefx) xs p)"
  by (induction xs arbitrary: p) (simp_all add: honest_open)

lemma honest_opened:
  assumes "honest_page F R p" "F f"
  shows "honest_page F R (page_opened f prefx p)"
proof -
  have "list_all (fair_wait R) (pg_waiting p)"
    using assms(1) by (auto simp: honest_page_def fair_wait_def list_all_iff)
  moreover have "honest_page F R (p\<lparr>pg_prefix := Some prefx, pg_waiting := []\<rparr>)"
    using assms(1) by (simp add: honest_page_def)
  ultimately show ?thesis using assms honest_fold by (simp add: page_opened_def split: option.split)
qed

lemma honest_settled:
  assumes "honest_page F R p" "shows_body view_of"
  shows "honest_page F R (page_settled pt view_of p)"
proof (cases "jm_get (pg_calls p) pt")
  case (Some res)
  have d: "honest_page F R (p\<lparr>pg_calls := jm_delete pt (pg_calls p)\<rparr>)"
    using assms(1) by (auto simp: honest_page_def split: if_splits)
  have "posted F R (PortReply pt (bridge_reply res view_of))"
  proof (cases pt)
    case (ServePort i)
    then have "called F R i res" using assms(1) Some by (simp add: honest_page_def)
    then show ?thesis using assms(2) unfolding ServePort posted.simps by blast
  qed simp
  then show ?thesis using Some d by (simp add: page_settled_def)
qed (simp add: page_settled_def assms)

lemma honest_own: "honest_page F R p \<Longrightarrow> F f \<Longrightarrow> of_the_page ev \<Longrightarrow> honest_page F R (page_step f ev p)"
  by (cases ev) (auto simp: page_message_def honest_opened honest_settled)

section \<open>What the worker does with it\<close>

text \<open>Steps only add to what the page may be asked.\<close>

lemma honest_more: "honest_page F R p \<Longrightarrow> R \<subseteq> R' \<Longrightarrow> honest_page F R' p"
proof -
  assume h: "honest_page F R p" and s: "R \<subseteq> R'"
  have c: "called F R i res \<Longrightarrow> called F R' i res" for i res using s unfolding called_def by blast
  have "asked R i u meth dest \<Longrightarrow> asked R' i u meth dest" for i u meth dest using s unfolding asked_def by blast
  moreover have "posted F R x \<Longrightarrow> posted F R' x" for x
    using c by (cases "(F, R, x)" rule: posted.cases) (simp_all, blast)
  ultimately show ?thesis using h c unfolding honest_page_def by blast
qed

text \<open>The worker answers over HTTP4 only when a page replies, and learns about a tab only from it.\<close>

lemma responds_step:
  "RespondHttp4 i s \<in> set (wk_out (sw_step now ev w)) \<Longrightarrow>
    RespondHttp4 i s \<in> set (wk_out w) \<or> ev = PageReply i (ReplyServed s) \<and> jm_get (wk_pending w) i \<noteq> None"
  by (cases ev)
     (auto simp: with_pending_def with_tab_def sw_fetch_def sw_record_def post_def sw_found_def known_tab_def hello_def
       network_def set_phase_def with_info_def put_tab_def sw_resume_def sw_acked_def sw_wait_over_def sw_timeout_def
       sw_reply_def sw_network_def end_request_def Let_def
       split: option.splits phase.splits serve_reply.splits if_splits)

definition knows :: "jsstring \<Rightarrow> ready_info \<Rightarrow> worker \<Rightarrow> bool" where
  "knows cid info w \<longleftrightarrow> (\<exists>t. jm_get (wk_tabs w) cid = Some t \<and> tb_info t = Some info)"

lemma knows_step: "knows cid info (sw_step now ev w) \<Longrightarrow> knows cid info w \<or> ev = TabSays cid (Ready info)"
  by (cases ev)
     (auto simp: knows_def with_pending_def with_tab_def sw_fetch_def sw_record_def post_def sw_found_def known_tab_def
       hello_def network_def set_phase_def with_info_def put_tab_def sw_resume_def sw_acked_def sw_wait_over_def
       sw_timeout_def sw_reply_def sw_network_def end_request_def tab_says_def Let_def
       split: option.splits phase.splits serve_reply.splits hello_reply.splits if_splits)

text \<open>The reply that the worker gets is the outcome, its body byte for byte.\<close>

definition hands_over :: "served \<Rightarrow> reply_served \<Rightarrow> bool" where
  "hands_over sv s \<longleftrightarrow> ry_status s = sv_status sv \<and> ry_headers s = sv_headers sv \<and> ry_length s = sv_length sv \<and>
     ry_stream s = sv_stream sv \<and> ry_body s = (if sv_stream sv = None then sv_body sv else None)"

lemma reply_hands_over:
  assumes "bridge_reply res view_of = ReplyServed s" "shows_body view_of"
  shows "\<exists>sv. res = Inr (Served sv) \<and> hands_over sv s"
proof -
  have "view_bytes v = bv_buffer v" if "bv_offset v = 0 \<and> bv_length v = length (bv_buffer v)" for v
    using that by (simp add: view_bytes_def subarray_def)
  moreover have "view_bytes (view_of b) = b" for b using assms(2) by (simp add: shows_body_def)
  ultimately show ?thesis
    using assms(1) by (auto simp: bridge_reply_def serveReply_def hands_over_def or_default_def Let_def
        split: sum.splits http4_outcome.splits option.splits if_splits) metis+
qed

definition backed :: "(fetcher \<Rightarrow> bool) \<Rightarrow> sw_request \<Rightarrow> reply_served \<Rightarrow> bool" where
  "backed F r s \<longleftrightarrow> (\<exists>f sv. F f \<and> genuine f (wr_url r) (wr_method r) (wr_destination r) sv \<and> hands_over sv s)"

definition unique_ids :: "(int \<times> sw_request) set \<Rightarrow> bool" where
  "unique_ids R \<longleftrightarrow> (\<forall>i r r'. (i, r) \<in> R \<longrightarrow> (i, r') \<in> R \<longrightarrow> r = r')"

definition bridged :: "(fetcher \<Rightarrow> bool) \<Rightarrow> jsstring \<Rightarrow> jsstring \<Rightarrow> (int \<times> sw_request) set \<Rightarrow> worker \<Rightarrow> page \<Rightarrow> bool" where
  "bridged F origin cid R w p \<longleftrightarrow>
     proper R w \<and> wk_origin w = origin \<and> unique_ids R \<and> honest_page F R p \<and>
     (\<forall>info. knows cid info w \<longrightarrow> frank F info) \<and>
     (\<forall>i s r. RespondHttp4 i s \<in> set (wk_out w) \<longrightarrow> (i, r) \<in> R \<longrightarrow> wr_client r = cid \<longrightarrow> backed F r s)"

lemma bridged_page: "bridged F origin cid R w p \<Longrightarrow> honest_page F R p' \<Longrightarrow> bridged F origin cid R w p'"
  by (simp add: bridged_def)

lemma proper_responded: "proper R w \<Longrightarrow> RespondHttp4 i s \<in> set (wk_out w) \<Longrightarrow> \<exists>r. (i, r) \<in> R"
  unfolding proper_def eligible_def by blast

lemma bridged_work:
  assumes b: "bridged F origin cid R w p" and e: "elsewhere cid R ev"
  shows "bridged F origin cid (intercepted ev \<union> R) (sw_step now ev w) p"
proof -
  let ?R = "intercepted ev \<union> R" and ?w = "sw_step now ev w"
  have pr: "proper R w" using b by (simp add: bridged_def)
  have "unique_ids ?R" using b e by (cases ev) (auto simp: bridged_def unique_ids_def elsewhere_def)
  moreover have "frank F info" if "knows cid info ?w" for info
    using knows_step [OF that] b e by (auto simp: bridged_def elsewhere_def)
  moreover have "backed F r s" if "RespondHttp4 i s \<in> set (wk_out ?w)" "(i, r) \<in> ?R" "wr_client r = cid" for i s r
  proof -
    have new: "(i, r) \<in> R" if "RespondHttp4 i s \<in> set (wk_out w)" "(i, r) \<in> ?R"
    proof -
      have "\<exists>r'. (i, r') \<in> R" by (rule proper_responded [OF pr that(1)])
      then show ?thesis using that(2) e by (cases ev) (auto simp: elsewhere_def)
    qed
    from responds_step [OF that(1)] show ?thesis
    proof
      assume "RespondHttp4 i s \<in> set (wk_out w)"
      then show ?thesis using new that(2,3) b by (auto simp: bridged_def)
    next
      assume "ev = PageReply i (ReplyServed s) \<and> jm_get (wk_pending w) i \<noteq> None"
      then show ?thesis using e that(2,3) by (auto simp: elsewhere_def)
    qed
  qed
  ultimately show ?thesis
    using b proper_step [OF pr, of ev now] honest_more [of F R p ?R] by (auto simp: bridged_def origin_step)
qed

lemma bridged_told:
  assumes b: "bridged F origin cid R w p" and m: "PortHello (HelloPort cid) msg \<in> set (pg_out p)"
  shows "bridged F origin cid R (sw_step now (TabSays cid msg) w) p"
proof -
  have "posted F R (PortHello (HelloPort cid) msg)" using b m by (auto simp: bridged_def honest_page_def)
  then have "frank F info" if "knows cid info (sw_step now (TabSays cid msg) w)" for info
    using knows_step [OF that] b by (auto simp: bridged_def)
  moreover have "backed F r s"
    if "RespondHttp4 i s \<in> set (wk_out (sw_step now (TabSays cid msg) w))" "(i, r) \<in> R" "wr_client r = cid" for i s r
    using responds_step [OF that(1)] that(2,3) b by (auto simp: bridged_def)
  ultimately show ?thesis
    using b proper_step [of R w "TabSays cid msg" now]
    by (auto simp: bridged_def origin_step simp del: sw_step.simps)
qed

lemma bridged_replied:
  assumes b: "bridged F origin cid R w p" and m: "PortReply (ServePort i) reply \<in> set (pg_out p)"
  shows "bridged F origin cid R (sw_step now (PageReply i reply) w) p"
proof -
  let ?w = "sw_step now (PageReply i reply) w"
  have "posted F R (PortReply (ServePort i) reply)" using b m by (auto simp: bridged_def honest_page_def)
  then obtain res view_of r f where k: "(i, r) \<in> R" "F f" "shows_body view_of"
    "res = outcome f (wr_url r) (wr_method r) Quiet (wr_destination r)" "reply = bridge_reply res view_of"
    by (auto simp: called_def)
  have "backed F r' s" if "RespondHttp4 j s \<in> set (wk_out ?w)" "(j, r') \<in> R" "wr_client r' = cid" for j s r'
    using responds_step [OF that(1)]
  proof
    assume "RespondHttp4 j s \<in> set (wk_out w)"
    then show ?thesis using that(2,3) b by (auto simp: bridged_def)
  next
    assume "PageReply i reply = PageReply j (ReplyServed s) \<and> jm_get (wk_pending w) j \<noteq> None"
    then have j: "i = j" "reply = ReplyServed s" by simp_all
    then have "r' = r" using b k(1) that(2) by (auto simp: bridged_def unique_ids_def)
    moreover obtain sv where "res = Inr (Served sv)" "hands_over sv s" using reply_hands_over k(3,5) j(2) by metis
    ultimately show ?thesis using k(2,4) outcome_served unfolding backed_def by metis
  qed
  moreover have "frank F info" if "knows cid info ?w" for info
    using knows_step [OF that] b by (auto simp: bridged_def)
  ultimately show ?thesis
    using b proper_step [of R w "PageReply i reply" now] by (auto simp: bridged_def origin_step simp del: sw_step.simps)
qed

lemma bridge_invariant: "bridge F origin cid R w p \<Longrightarrow> bridged F origin cid R w p"
proof (induction rule: bridge.induct)
  case bridge_start
  show ?case
    by (auto simp: bridged_def proper_def new_worker_def new_page_def unique_ids_def honest_page_def knows_def jm_get_def)
next
  case (bridge_hello R w p f now)
  have "honest_page F R p" using bridge_hello by (simp add: bridged_def)
  then have "honest_page F R (page_step f (Message now True HelloMsg (Some (HelloPort cid))) p)"
    using bridge_hello by (auto simp: page_message_def page_answer_def fair_wait_def intro!: honest_on_opened)
  then show ?case by (rule bridged_page [OF bridge_hello.IH])
next
  case (bridge_serve R w p f i r now)
  have "honest_page F R p" using bridge_serve by (simp add: bridged_def)
  moreover have "fair_wait R (Serve (ServePort i) (Some (wr_url r)) (wr_method r) (wr_destination r))"
    using bridge_serve unfolding fair_wait_def asked_def by blast
  ultimately have "honest_page F R
      (page_step f (Message now True (ServeMsg (Some (wr_url r)) (wr_method r) (wr_destination r)) (Some (ServePort i))) p)"
    using bridge_serve by (simp add: page_message_def page_answer_def honest_on_opened)
  then show ?case by (rule bridged_page [OF bridge_serve.IH])
next
  case (bridge_page R w p f ev)
  then have "honest_page F R (page_step f ev p)" using honest_own by (simp add: bridged_def)
  then show ?case by (rule bridged_page [OF bridge_page.IH])
qed (simp_all only: bridged_work bridged_told bridged_replied)

section \<open>A sample run\<close>

text \<open>A tab asks for one file while its session is opening; the worker learns from the tab how that went.\<close>

definition sample_worker :: worker where
  "sample_worker = sw_step 1 (ClientFound 1 True) (sw_step 0 (SwFetch 1 (sample_request [])) (new_worker (js ''https://a'')))"

definition greeted :: "fetcher \<Rightarrow> jsstring option \<Rightarrow> page" where
  "greeted f prefx = page_step f (OpenResolves prefx)
     (page_step f (Message 2 True HelloMsg (Some (HelloPort (js ''tab1'')))) new_page)"

definition informed :: "fetcher \<Rightarrow> jsstring option \<Rightarrow> worker" where
  "informed f prefx = sw_step 5 (Resume 1) (sw_step 5 (Resume 1)
     (sw_step 4 (TabSays (js ''tab1'') (Ready (readyMsg f prefx))) sample_worker))"

lemma sample_tab: "wr_client (sample_request dest) = js ''tab1''"
  by (simp add: sample_request_def)

lemma greeted_out: "pg_out (greeted f prefx) = [PortHello (HelloPort (js ''tab1'')) Connecting,
     PortHello (HelloPort (js ''tab1'')) (Ready (readyMsg f prefx)), PortClose (HelloPort (js ''tab1''))]"
  "pg_prefix (greeted f prefx) = Some prefx" "pg_waiting (greeted f prefx) = []" "pg_calls (greeted f prefx) = []"
  by (simp_all add: greeted_def page_message_def page_answer_def on_opened_def page_post_def new_page_def page_opened_def
      greet_def)

lemma sample_bridge:
  assumes "F f"
  shows "bridge F (js ''https://a'') (js ''tab1'') {(1, sample_request [])} (informed f prefx) (greeted f prefx)"
proof -
  let ?B = "bridge F (js ''https://a'') (js ''tab1'') {(1, sample_request [])}"
  have "bridge F (js ''https://a'') (js ''tab1'') (intercepted (SwFetch 1 (sample_request [])) \<union> {})
      (sw_step 0 (SwFetch 1 (sample_request [])) (new_worker (js ''https://a''))) new_page"
    by (rule bridge_work [OF bridge_start]) (simp add: elsewhere_def)
  from bridge_work [OF this, of "ClientFound 1 True" 1] have 1: "?B sample_worker new_page"
    by (simp add: elsewhere_def sample_worker_def)
  have "PostHello (js ''tab1'') \<in> set (wk_out sample_worker)"
    by (simp add: sample_worker_def sw_fetch_def sample_left new_worker_def with_pending_def sw_found_def known_tab_def
        hello_def post_def set_phase_def Let_def jm_get_Cons jm_set_def sample_tab)
  from bridge_page [OF bridge_hello [OF 1 assms this] assms, of "OpenResolves prefx"] have 2: "?B sample_worker (greeted f prefx)"
    by (simp add: greeted_def)
  have "PortHello (HelloPort (js ''tab1'')) (Ready (readyMsg f prefx)) \<in> set (pg_out (greeted f prefx))"
    by (simp add: greeted_out)
  from bridge_work [OF bridge_work [OF bridge_told [OF 2 this], of "Resume 1"], of "Resume 1"] show ?thesis
    by (simp add: elsewhere_def informed_def)
qed

section \<open>Properties\<close>

text \<open>C17: from the session to the tab. However the events of the worker and of a page interleave, a request
  of that page which the worker answers over HTTP4 carries what the page's session answered for the asset of
  its URL (a 404 only when the server said so), the status, the headers, the length and the body byte for
  byte; and it was a request that the worker may take.\<close>

theorem bridge_serves_genuine:
  assumes "bridge F origin cid R w p" "RespondHttp4 i s \<in> set (wk_out w)" "(i, r) \<in> R" "wr_client r = cid"
  shows "leaveToNetwork r origin = None \<and>
    (\<exists>f sv. F f \<and> genuine f (wr_url r) (wr_method r) (wr_destination r) sv \<and> hands_over sv s)"
proof -
  have b: "bridged F origin cid R w p" by (rule bridge_invariant [OF assms(1)])
  then obtain c where "PostServe c i \<in> set (wk_out w)" using assms(2) unfolding bridged_def proper_def by blast
  then obtain r' where "(i, r') \<in> R" "leaveToNetwork r' origin = None"
    using b unfolding bridged_def proper_def eligible_def by metis
  moreover have "r' = r" using b assms(3) calculation(1) by (auto simp: bridged_def unique_ids_def)
  moreover have "backed F r s" using b assms(2,3,4) by (simp add: bridged_def)
  ultimately show ?thesis by (simp add: backed_def)
qed

definition whole_view :: "byte list \<Rightarrow> byte_view" where
  "whole_view b = \<lparr>bv_buffer = b, bv_offset = 0, bv_length = length b\<rparr>"

definition served_fetcher :: fetcher where
  "served_fetcher = sample_fetcher (Inr \<lparr>hr_headers = [], hr_body = [1, 2]\<rparr>)"

lemma served_outcome:
  "outcome served_fetcher sample_url GET Quiet [] =
     Inr (Served \<lparr>sv_status = 200, sv_headers = headersFor \<lparr>hr_headers = [], hr_body = [1, 2]\<rparr>,
       sv_body = Some [1, 2], sv_stream = None, sv_length = None\<rparr>)"
proof -
  have "GET \<noteq> HEAD" by (simp add: GET_def HEAD_def js_def)
  then show ?thesis
    by (simp add: outcome_def served_fetcher_def sample_fetcher_def sample_map abortable_def or_default_def Let_def)
qed

lemma informed_serves:
  "PostServe (js ''tab1'') 1 \<in> set (wk_out (informed served_fetcher (Some (js ''/''))))"
  "jm_get (wk_pending (informed served_fetcher (Some (js ''/'')))) 1 =
     Some \<lparr>pd_request = sample_request [], pd_start = 0, pd_phase = Forwarded\<rparr>"
proof -
  have "startsWith (u_pathname (wr_url (sample_request []))) (js ''/'')"
    by (simp add: sample_request_def sample_url_def startsWith_def js_def)
  moreover have "readyMsg served_fetcher (Some (js ''/'')) = sample_ready"
    by (simp add: readyMsg_def served_fetcher_def sample_fetcher_def available_def unavailableReason_def sample_ready_def)
  ultimately show "PostServe (js ''tab1'') 1 \<in> set (wk_out (informed served_fetcher (Some (js ''/''))))"
    "jm_get (wk_pending (informed served_fetcher (Some (js ''/'')))) 1 =
     Some \<lparr>pd_request = sample_request [], pd_start = 0, pd_phase = Forwarded\<rparr>"
    by (simp_all add: informed_def sample_worker_def sw_fetch_def sample_left new_worker_def with_pending_def sw_found_def
        known_tab_def hello_def post_def with_tab_def put_tab_def tab_says_def sw_resume_def sw_acked_def set_phase_def with_info_def
        or_default_def Let_def jm_get_Cons jm_set_def sample_tab sample_ready_def)
qed

definition sample_reply :: serve_reply where
  "sample_reply = bridge_reply (outcome served_fetcher sample_url GET Quiet []) whole_view"

definition sample_page :: page where
  "sample_page = page_step served_fetcher (Settles (ServePort 1) whole_view)
     (page_step served_fetcher (Message 6 True (ServeMsg (Some sample_url) GET []) (Some (ServePort 1)))
       (greeted served_fetcher (Some (js ''/''))))"

lemma sample_replies: "PortReply (ServePort 1) sample_reply \<in> set (pg_out sample_page)"
  by (simp add: sample_page_def page_message_def page_answer_def on_opened_def greeted_out page_serve_def page_settled_def
      page_post_def sample_reply_def)

theorem bridge_serves_genuine_witness:
  "\<exists>s sv. RespondHttp4 1 s \<in> set (wk_out (sw_step 9 (PageReply 1 sample_reply) (informed served_fetcher (Some (js ''/''))))) \<and>
     genuine served_fetcher sample_url GET [] sv \<and> hands_over sv s"
proof -
  let ?F = "\<lambda>f. f = served_fetcher" and ?w = "informed served_fetcher (Some (js ''/''))"
  have r: "wr_url (sample_request []) = sample_url" "wr_method (sample_request []) = GET" "wr_destination (sample_request []) = []"
    by (simp_all add: sample_request_def)
  have 1: "bridge ?F (js ''https://a'') (js ''tab1'') {(1, sample_request [])} ?w (greeted served_fetcher (Some (js ''/'')))"
    by (rule sample_bridge) simp
  have 2: "bridge ?F (js ''https://a'') (js ''tab1'') {(1, sample_request [])} ?w sample_page"
    using bridge_page [OF bridge_serve [OF 1, of served_fetcher 1 "sample_request []" 6], of served_fetcher
        "Settles (ServePort 1) whole_view"]
    by (simp add: informed_serves r sample_page_def shows_body_def whole_view_def view_bytes_def subarray_def)
  obtain s where e: "sample_reply = ReplyServed s"
    by (simp add: sample_reply_def served_outcome bridge_reply_def serveReply_def Let_def)
  have s: "RespondHttp4 1 s \<in> set (wk_out (sw_step 9 (PageReply 1 sample_reply) ?w))"
    unfolding e by (simp add: with_pending_def informed_serves sw_reply_def post_def)
  from bridge_serves_genuine [OF bridge_replied [OF 2 sample_replies] s]
  show ?thesis using s by (auto simp: r sample_tab)
qed

text \<open>C18: the off switch. With \<open>data-disabled\<close> on the tag or \<open>?http4=off\<close> in the address, the page adopts no session
  and registers no worker; a worker that is already there is told so, never forwards a request of the page
  and never answers one over HTTP4; and the page's own \<open>fetch\<close> is the platform's.\<close>

theorem off_switch:
  assumes "(\<exists>t. tag = Some t \<and> tag_disabled t \<noteq> None) \<or> query = Some (js ''off'')" "io = auto_options tag query early"
    "install_opened br base describe evs session io = Some od"
    "bridge (\<lambda>f. \<exists>lg. f = (od_fetcher od)\<lparr>ft_log := lg\<rparr>) origin cid R w p" "fc_url c = Some u"
  shows "io_session io = None \<and> install_registration container io \<noteq> Registers \<and>
    PostServe cid i \<notin> set (wk_out w) \<and> (RespondHttp4 i s \<notin> set (wk_out w) \<or> (i, r) \<notin> R \<or> wr_client r \<noteq> cid) \<and>
    fst (fetch c ms platform (od_fetcher od)) = map_sum id FromPlatform platform"
proof -
  let ?F = "\<lambda>f. \<exists>lg. f = (od_fetcher od)\<lparr>ft_log := lg\<rparr>"
  have off: "io_session io = None" "io_disabled io = Some True"
    using assms(1,2) by (auto simp: auto_options_def Let_def split: option.splits)
  then have none: "ft_session (od_fetcher od) = None"
    using assms(3) by (auto simp: install_opened_def or_default_def openDisabled_def build_fetcher_def)
  have b: "bridged ?F origin cid R w p" by (rule bridge_invariant [OF assms(4)])
  have u: "\<not> ri_available info" if "knows cid info w" for info
    using b that none by (auto simp: bridged_def frank_def readyMsg_def available_def)
  have serve: "PostServe cid j \<notin> set (wk_out w)" for j
    using b u unfolding bridged_def proper_def serves_def knows_def by blast
  have "RespondHttp4 i s \<notin> set (wk_out w) \<or> (i, r) \<notin> R \<or> wr_client r \<noteq> cid"
  proof (rule ccontr)
    assume "\<not> ?thesis"
    moreover from this obtain d where "PostServe d i \<in> set (wk_out w)" using b unfolding bridged_def proper_def by blast
    moreover from this obtain r' where "(i, r') \<in> R" "wr_client r' = d"
      using b unfolding bridged_def proper_def eligible_def by blast
    ultimately show False using b serve unfolding bridged_def unique_ids_def by blast
  qed
  then show ?thesis using off serve fetch_without_session [OF none assms(5)]
    by (simp add: install_registration_def or_default_def)
qed

definition off_options :: install_options where
  "off_options = auto_options None (Some (js ''off'')) (Some 1)"

definition off_fetcher :: fetcher where
  "off_fetcher = openDisabled sample_url DISABLED_REASON None None"

theorem off_switch_witness:
  "PostServe (js ''tab1'') 1 \<notin> set (wk_out (informed off_fetcher None)) \<and> io_session off_options = None \<and>
     fst (fetch sample_call 5 (Inl PlatformError) off_fetcher) = Inl PlatformError"
proof -
  have o: "install_opened br sample_url describe evs session off_options = Some \<lparr>od_fetcher = off_fetcher, od_assetPrefix = None\<rparr>"
    for br describe evs session
    by (simp add: install_opened_def off_options_def auto_options_def off_fetcher_def or_default_def no_options_def Let_def)
  have "bridge (\<lambda>f. \<exists>lg. f = (od_fetcher \<lparr>od_fetcher = off_fetcher, od_assetPrefix = None\<rparr>)\<lparr>ft_log := lg\<rparr>)
      (js ''https://a'') (js ''tab1'') {(1, sample_request [])} (informed off_fetcher None) (greeted off_fetcher None)"
    by (rule sample_bridge) (rule exI [of _ "ft_log off_fetcher"], simp)
  from off_switch [OF _ off_options_def o this, of sample_call sample_url] show ?thesis
    by (simp add: sample_call_def)
qed

end
