(* ===== verification/Silence.thy ===== *)
theory Silence
  imports Watch
begin

text \<open>
  A request of \<open>client/src/transport.ts\<close> that the server never answers comes to an end. The stall timer
  counts an attempt at the latest ten seconds after the one before, and \<open>recover\<close> gives up after
  \<open>maxRecoveries\<close>; nothing else the client does, for this request or another, puts the timer off.
\<close>

section \<open>What the stall timer goes by\<close>

type_synonym patience = "bool \<times> bool \<times> num \<times> nat"

definition watched :: "transfer \<Rightarrow> patience" where
  "watched t =
     (tr_headers t \<noteq> None, (case tr_stream t of None \<Rightarrow> False | Some st \<Rightarrow> st_paused st), tr_lastProgress t, tr_recoveries t)"

lemma watched_upd [simp]:
  "watched (t\<lparr>tr_asm := v0\<rparr>) = watched t" "watched (t\<lparr>tr_repair := v1\<rparr>) = watched t"
  "watched (t\<lparr>tr_lastDetect := v2\<rparr>) = watched t" "watched (t\<lparr>tr_tailProbed := v3\<rparr>) = watched t"
  "watched (t\<lparr>tr_replied := v4\<rparr>) = watched t" "watched (t\<lparr>tr_settled := v5\<rparr>) = watched t"
  "watched (t\<lparr>tr_reqRetransmitted := v6\<rparr>) = watched t" "watched (t\<lparr>tr_ceiling := v7\<rparr>) = watched t"
  "watched (t\<lparr>tr_probe := v8\<rparr>) = watched t"
  by (simp_all add: watched_def)

interpretation patience: request_view watched
  by unfold_locales (simp_all add: watched_def)

abbreviation spared where "spared \<equiv> patience.spared"
abbreviation gone where "gone \<equiv> patience.gone"

section \<open>The timer on the request\<close>

text \<open>Each attempt comes at most \<open>MAX_DRAIN_MS\<close> and one tick after the one before; \<open>p\<close> is the time of the last
  tick, \<open>s\<close> the start, \<open>d\<close> the longest pause between ticks.\<close>

definition ignored :: "num \<Rightarrow> num \<Rightarrow> num \<Rightarrow> num \<Rightarrow> patience \<Rightarrow> bool" where
  "ignored m s d p = (\<lambda>(answering, paused, since_ms, attempts).
     \<not> answering \<and> \<not> paused \<and> since_ms \<le> s + of_nat attempts * (MAX_DRAIN_MS + d) \<and>
     p < since_ms + MAX_DRAIN_MS \<and> (attempts = 0 \<or> of_nat attempts \<le> m))"

lemma stall_timeout_max: "stall_timeout c t \<le> MAX_DRAIN_MS"
  by (simp add: stall_timeout_def drainMs_def Let_def MAX_DRAIN_MS_def MAX_RTO_MS_def min.coboundedI1)

lemma ignored_waits:
  assumes "ignored m s d p (watched t)" "\<not> ev_now e - tr_lastProgress t \<ge> stall_timeout c u"
  shows "ignored m s d (ev_now e) (watched t)"
  using assms stall_timeout_max [of c u] by (auto simp: ignored_def watched_def)

lemma ignored_attempt:
  assumes "ignored m s d p (watched t)" "ev_now e \<le> p + d" "of_nat (tr_recoveries t + 1) \<le> m"
  shows "ignored m s d (ev_now e) (watched (t\<lparr>tr_recoveries := tr_recoveries t + 1, tr_probe := None, tr_lastProgress := ev_now e\<rparr>))"
  using assms by (auto simp: ignored_def watched_def algebra_simps MAX_DRAIN_MS_def split: option.splits)

abbreviation hangs :: "int \<Rightarrow> num \<Rightarrow> num \<Rightarrow> num \<Rightarrow> num \<Rightarrow> client \<Rightarrow> bool" where
  "hangs rpc m s d p \<equiv> spared rpc m True (ignored m s d p)"

lemma recover_own:
  assumes "ev_now e \<le> p + d"
  shows "hold (hangs rpc m s d p) (recover e rpc g) (hangs rpc m s d (ev_now e)) (\<lambda>_. True)"
  unfolding recover_def
proof (rule hold_transfer, erule (1) patience.spared_gone, rule hold_read, unfold Let_def)
  fix t :: transfer and d0
  let ?t = "t\<lparr>tr_recoveries := tr_recoveries t + 1\<rparr>"
  let ?P = "\<lambda>c. c = d0 \<and> hangs rpc m s d p d0 \<and> jm_get (cl_transfers d0) rpc = Some t"
  let ?Q = "hangs rpc m s d (ev_now e)"
  show "hold ?P
      (if cl_maxRecoveries d0 < of_nat (tr_recoveries ?t) then finish e ?t (Some (Http4Error NoProgress None))
       else thenA (doA (recover_prepare e ?t)) (recover_again e rpc g)) ?Q (\<lambda>_. True)"
  proof (rule hold_because [where F = "tr_rpc t = rpc \<and> cl_maxRecoveries d0 = m \<and> ignored m s d p (watched t)"])
    fix c assume "?P c"
    then show "tr_rpc t = rpc \<and> cl_maxRecoveries d0 = m \<and> ignored m s d p (watched t)"
      by (auto simp: patience.spared_def dest: keyed_get)
  next
    assume f: "tr_rpc t = rpc \<and> cl_maxRecoveries d0 = m \<and> ignored m s d p (watched t)"
    have fin: "hold ?P (finish e ?t (Some (Http4Error NoProgress None))) ?Q (\<lambda>_. True)"
      unfolding finish_def
    proof (rule hold_then [OF hold_do])
      fix c assume "?P c"
      then show "?Q (finish_core e ?t (Some (Http4Error NoProgress None)) c)"
        using f by (auto simp: patience.spared_def keyed_def finish_core_rest finish_core_transfers)
    qed (rule hold_post [OF patience.spares_pump [unfolded upholding_def]], simp_all)
    show ?thesis
    proof (cases "cl_maxRecoveries d0 < of_nat (tr_recoveries ?t)")
      case True
      then show ?thesis using fin by simp
    next
      case False
      have "?Q (recover_prepare e ?t c)" if "?P c" for c
      proof -
        have "ignored m s d (ev_now e) (watched (t\<lparr>tr_recoveries := tr_recoveries t + 1, tr_probe := None, tr_lastProgress := ev_now e\<rparr>))"
          by (rule ignored_attempt) (use f False assms in auto)
        then show ?thesis using that f
          by (auto simp: recover_prepare_def Let_def patience.spared_def keyed_def put_transfer_def lossBackoff_def upd_stats_def)
      qed
      then have "hold ?P (thenA (doA (recover_prepare e ?t)) (recover_again e rpc g)) ?Q (\<lambda>_. True)"
        by (intro hold_then [OF hold_do hold_post [OF patience.spares_again [unfolded upholding_def]]]) simp_all
      then show ?thesis using False by simp
    qed
  qed
qed

lemma ignored_not_waiting: "ignored m s d p (watched t) \<Longrightarrow> \<not> waiting c t"
  by (auto simp: ignored_def watched_def waiting_def split: option.splits)

lemma attempt_own:
  assumes "ev_now e \<le> p + d"
  shows "hold (hangs rpc m s d p) (with_transfer rpc (\<lambda>t. readA (\<lambda>c.
      whenA (ev_now e - tr_lastProgress t \<ge> stall_timeout c t) (recover e rpc g)))) (hangs rpc m s d (ev_now e)) (\<lambda>_. True)"
proof (rule hold_transfer, erule (1) patience.spared_gone, rule hold_read, rule hold_when)
  fix t d0
  show "hold (\<lambda>c. c = d0 \<and> hangs rpc m s d p d0 \<and> jm_get (cl_transfers d0) rpc = Some t) (recover e rpc g)
      (hangs rpc m s d (ev_now e)) (\<lambda>_. True)"
    by (rule hold_pre [OF recover_own [OF assms]]) simp
next
  fix t d0 c
  assume "\<not> ev_now e - tr_lastProgress t \<ge> stall_timeout d0 t"
    "c = d0 \<and> hangs rpc m s d p d0 \<and> jm_get (cl_transfers d0) rpc = Some t"
  then show "hangs rpc m s d (ev_now e) c" using ignored_waits by (auto simp: patience.spared_def)
qed

lemma tick_own:
  assumes "ev_now e \<le> p + d"
  shows "hold (hangs rpc m s d p) (tick_transfer e rpc) (hangs rpc m s d (ev_now e)) (\<lambda>_. True)"
  unfolding tick_transfer_def Let_def
proof (rule hold_transfer, erule (1) patience.spared_gone)
  fix t0
  let ?P = "hangs rpc m s d p" and ?Q = "hangs rpc m s d (ev_now e)"
  let ?f = "\<lambda>t c. if waiting c t then doA (put_transfer (t\<lparr>tr_lastProgress := ev_now e\<rparr>))
          else
            thenA (tail_probe e rpc (granted_now c t))
              (with_transfer rpc (\<lambda>u. readA (\<lambda>d.
                 whenA (ev_now e - tr_lastProgress u \<ge> stall_timeout d u) (recover e rpc (granted_now c t)))))"
  have f: "hold (\<lambda>c. c = d0 \<and> ?P d0 \<and> jm_get (cl_transfers d0) rpc = Some t) (?f t d0) ?Q (\<lambda>_. True)" for t d0
  proof (rule hold_because [where F = "\<not> waiting d0 t"])
    fix c assume "c = d0 \<and> ?P d0 \<and> jm_get (cl_transfers d0) rpc = Some t"
    then show "\<not> waiting d0 t" using ignored_not_waiting by (auto simp: patience.spared_def)
  next
    assume w: "\<not> waiting d0 t"
    have "hold (\<lambda>c. c = d0 \<and> ?P d0 \<and> jm_get (cl_transfers d0) rpc = Some t) (tail_probe e rpc (granted_now d0 t)) ?P (\<lambda>_. True)"
      by (rule hold_post [OF hold_pre [OF patience.spares_probe [unfolded upholding_def]]]) simp_all
    then show "hold (\<lambda>c. c = d0 \<and> ?P d0 \<and> jm_get (cl_transfers d0) rpc = Some t) (?f t d0) ?Q (\<lambda>_. True)"
      using w hold_then [OF _ attempt_own [OF assms]] by simp
  qed
  have "hold ?P (with_transfer rpc (\<lambda>t. readA (?f t))) ?Q (\<lambda>_. True)"
    by (rule hold_transfer, erule (1) patience.spared_gone, rule hold_read, rule f)
  moreover have "hold (\<lambda>c. ?P c \<and> jm_get (cl_transfers c) rpc = Some t0) (whenA (tr_asm t0 \<noteq> None) (detectLoss e rpc)) ?P (\<lambda>_. True)"
    by (rule hold_post [OF hold_pre [OF upholding_when [OF patience.spares_detect, unfolded upholding_def]]]) simp_all
  ultimately show "hold (\<lambda>c. ?P c \<and> jm_get (cl_transfers c) rpc = Some t0)
     (thenA (whenA (tr_asm t0 \<noteq> None) (detectLoss e rpc)) (with_transfer rpc (\<lambda>t. readA (?f t)))) ?Q (\<lambda>_. True)"
    by (intro hold_then)
qed

text \<open>A whole round over the table. A request that is in the table gets its turn.\<close>

lemma tick_rest:
  assumes "0 \<le> d"
  shows "hold (hangs rpc m s d (ev_now e)) (eachA (tick_transfer e) ks) (hangs rpc m s d (ev_now e)) (\<lambda>_. True)"
proof (rule hold_each)
  fix r
  show "hold (hangs rpc m s d (ev_now e)) (tick_transfer e r) (hangs rpc m s d (ev_now e)) (\<lambda>_. True)"
  proof (cases "r = rpc")
    case True
    then show ?thesis using tick_own [of e "ev_now e" d] assms by simp
  next
    case False
    show ?thesis by (rule hold_post [OF patience.spares_tick_other [OF False, unfolded upholding_def]]) simp_all
  qed
qed

lemma tick_each:
  assumes "ev_now e \<le> p + d" "0 \<le> d" "rpc \<in> set ks"
  shows "hold (hangs rpc m s d p) (eachA (tick_transfer e) ks) (hangs rpc m s d (ev_now e)) (\<lambda>_. True)"
  using assms(3)
proof (induction ks)
  case (Cons k ks)
  show ?case
  proof (cases "k = rpc")
    case True
    show ?thesis unfolding eachA.simps True by (rule hold_then [OF tick_own [OF assms(1)] tick_rest [OF assms(2)]])
  next
    case False
    have "hold (hangs rpc m s d p) (tick_transfer e k) (hangs rpc m s d p) (\<lambda>_. True)"
      by (rule hold_post [OF patience.spares_tick_other [OF False, unfolded upholding_def]]) simp_all
    then show ?thesis unfolding eachA.simps by (rule hold_then) (use Cons False in simp)
  qed
qed simp

text \<open>The request hangs, or it is over.\<close>

definition ending :: "int \<Rightarrow> num \<Rightarrow> num \<Rightarrow> num \<Rightarrow> num \<Rightarrow> client \<Rightarrow> bool" where
  "ending rpc m s d p c \<longleftrightarrow> hangs rpc m s d p c \<or> gone rpc m c"

lemma hangs_tick:
  assumes "ev_now e \<le> p + d" "0 \<le> d"
  shows "hold (hangs rpc m s d p) (tick e) (ending rpc m s d (ev_now e)) (\<lambda>_. True)"
proof -
  let ?P = "hangs rpc m s d p" and ?Q = "hangs rpc m s d (ev_now e)"
  let ?done = "doA (\<lambda>c. if cl_transfers c = [] then c\<lparr>cl_ticker := False\<rparr> else c)"
  have fin: "hold ?Q ?done (ending rpc m s d (ev_now e)) (\<lambda>_. True)"
    by (rule hold_do) (auto simp: ending_def patience.gone_iff patience.spared_def keyed_def)
  have each: "hold (\<lambda>c. c = d0 \<and> ?P d0) (eachA (tick_transfer e) (map fst (cl_transfers d0))) ?Q (\<lambda>_. True)" for d0
  proof (cases "jm_get (cl_transfers d0) rpc")
    case None
    then have "hold (\<lambda>c. c = d0 \<and> ?P d0) (eachA (tick_transfer e) (map fst (cl_transfers d0))) ?Q (\<lambda>_. True)"
      by (intro hold_pre [OF tick_rest [OF assms(2)]]) (auto intro: patience.spared_gone)
    then show ?thesis .
  next
    case (Some t)
    have "rpc \<in> set (map fst (cl_transfers d0))" 
      using Some jm_get_keys [of "cl_transfers d0" rpc] by (simp add: jm_keys_fst)
    show ?thesis by (rule hold_pre [OF tick_each [OF assms \<open>rpc \<in> _\<close>]]) simp
  qed
  have seq: "hold ?P (whenA (seqNegotiated (cl_stats d0)) (detectSeqLoss e)) ?P (\<lambda>_. True)" for d0
    by (rule hold_post [OF upholding_when [OF patience.spares_detect_seq, unfolded upholding_def]]) simp_all
  show ?thesis unfolding tick_def
    by (rule hold_read, rule hold_then [OF hold_pre [OF seq]], simp, rule hold_read, rule hold_then [OF each fin])
qed

section \<open>Events\<close>

lemma ignored_reading: "patience.unpauses (ignored m s d p)" "patience.unpauses (\<lambda>_. False)"
  by (auto simp: patience.unpauses_def ignored_def watched_def)

lemma ending_step:
  assumes "silent rpc ev" "ev \<noteq> Tick" "ending rpc m s d p c"
  shows "ending rpc m s d p (snd (client_step e ev c))"
  using assms(3) unfolding ending_def
proof
  assume h: "hangs rpc m s d p c"
  show "hangs rpc m s d p (snd (client_step e ev c)) \<or> gone rpc m (snd (client_step e ev c))"
    by (rule patience.quiet_step [OF assms(1,2) ignored_reading(1) h])
next
  assume "gone rpc m c"
  from patience.quiet_step [OF assms(1,2) ignored_reading(2) this] show "hangs rpc m s d p (snd (client_step e ev c)) \<or> gone rpc m (snd (client_step e ev c))"
    by simp
qed

lemma gone_tick: "upholding (gone rpc m) (gone rpc m) (tick e)"
proof -
  have "upholding (gone rpc m) (gone rpc m) (tick_transfer e r)" for r
    unfolding tick_transfer_def recover_def Let_def
    by (intro upholds) (simp_all add: patience.fits_def recover_prepare_def Let_def)
  then show ?thesis unfolding tick_def by (intro upholds) (simp_all add: patience.spared_def keyed_def)
qed

lemma ending_tick:
  assumes "sound c" "ending rpc m s d p c" "ev_now e \<le> p + d" "0 \<le> d"
  shows "ending rpc m s d (ev_now e) (snd (client_step e Tick c))"
  using assms(2) unfolding ending_def
proof
  assume h: "hangs rpc m s d p c"
  then have "cl_ticker c" by (simp add: patience.spared_def)
  moreover have "fst (tick e c) = Inr ()" using safe_result [OF safe_tick assms(1)] by blast
  ultimately have "ending rpc m s d (ev_now e) (snd (client_step e Tick c))"
    using hangs_tick [OF assms(3,4), of rpc m s] h
    by (cases "tick e c") (auto simp: readA_def whenA_def hold_def split: prod.splits)
  then show "hangs rpc m s d (ev_now e) (snd (client_step e Tick c)) \<or> gone rpc m (snd (client_step e Tick c))"
    by (simp add: ending_def)
next
  assume "gone rpc m c"
  then show "hangs rpc m s d (ev_now e) (snd (client_step e Tick c)) \<or> gone rpc m (snd (client_step e Tick c))"
    using upholding_state [OF gone_tick] by (simp add: readA_def whenA_def retA_def)
qed

text \<open>No tick comes more than \<open>d\<close> after the one before; the first after \<open>p\<close>.\<close>

fun paced :: "num \<Rightarrow> num \<Rightarrow> (env \<times> client_ev) list \<Rightarrow> bool" where
  "paced d p [] = True"
| "paced d p ((e, ev) # evs) = (if ev = Tick then ev_now e \<le> p + d \<and> paced d (ev_now e) evs else paced d p evs)"

fun last_tick :: "num \<Rightarrow> (env \<times> client_ev) list \<Rightarrow> num" where
  "last_tick p [] = p"
| "last_tick p ((e, ev) # evs) = last_tick (if ev = Tick then ev_now e else p) evs"

lemma ending_run:
  assumes "sound c" "ending rpc m s d p c" "paced d p evs" "0 \<le> d" "list_all (\<lambda>x. silent rpc (snd x)) evs"
  shows "ending rpc m s d (last_tick p evs) (client_run evs c)"
  using assms
proof (induction evs arbitrary: c p)
  case (Cons x evs)
  obtain e ev where x: "x = (e, ev)" by fastforce
  have s: "sound (snd (client_step e ev c))" using sound_run [OF Cons.prems(1), of "[x]"] x by simp
  have "ending rpc m s d (if ev = Tick then ev_now e else p) (snd (client_step e ev c))"
    using Cons.prems x ending_step [of rpc ev] ending_tick [OF Cons.prems(1,2)] by (auto split: if_splits)
  from Cons.IH [OF s this] show ?case using Cons.prems x by (auto split: if_splits)
qed simp

lemma ending_over:
  assumes "ending rpc m s d p c" "0 \<le> d" "s + (max 0 m + 1) * (MAX_DRAIN_MS + d) \<le> p"
  shows "jm_get (cl_transfers c) rpc = None"
proof (rule ccontr)
  assume "jm_get (cl_transfers c) rpc \<noteq> None"
  then obtain t where "jm_get (cl_transfers c) rpc = Some t" by auto
  then have "ignored m s d p (watched t)" using assms(1) by (auto simp: ending_def patience.spared_def)
  then have t: "tr_lastProgress t \<le> s + of_nat (tr_recoveries t) * (MAX_DRAIN_MS + d)"
    "p < tr_lastProgress t + MAX_DRAIN_MS" "of_nat (tr_recoveries t) \<le> max 0 m"
    by (auto simp: ignored_def watched_def)
  have "0 \<le> MAX_DRAIN_MS + d" using assms(2) by (simp add: MAX_DRAIN_MS_def)
  with t(3) have "of_nat (tr_recoveries t) * (MAX_DRAIN_MS + d) \<le> max 0 m * (MAX_DRAIN_MS + d)"
    by (intro mult_right_mono)
  then show False using t(1,2) assms(2,3) by (simp add: distrib_right)
qed

section \<open>A request nobody answers\<close>

lemma started_hangs:
  assumes "sound c" "jm_get (cl_transfers c) rpc = None"
  shows "ending rpc (cl_maxRecoveries c) (ev_now e) d (ev_now e) (snd (start_request e rpc aid streaming cls c))"
proof -
  let ?m = "cl_maxRecoveries c" and ?g = "nextInitialGrant c"
  let ?P = "ignored ?m (ev_now e) d (ev_now e)"
  let ?t = "new_transfer (ev_now e) rpc aid streaming cls ?g"
  let ?rest = "thenA (doA (\<lambda>c. c\<lparr>cl_ticker := True\<rparr>))
      (thenA (doA (upd_stats (\<lambda>s. s\<lparr>reqsSent := reqsSent s + 1\<rparr>))) (thenA sendHello (send (Req rpc ?g aid))))"
  let ?a = "catchA (thenA (doA (\<lambda>c. put_transfer (?t c) c)) ?rest) (\<lambda>x. doA (emit (RejectWith rpc x)))"
  have k: "keyed c" by (rule sound_keyed [OF assms(1)])
  let ?H = "spared rpc ?m True ?P"
  let ?sent = "thenA (doA (upd_stats (\<lambda>s. s\<lparr>reqsSent := reqsSent s + 1\<rparr>))) (thenA sendHello (send (Req rpc ?g aid)))"
  have sent: "hold ?H ?sent ?H ?H"
    by (rule upholding_def [THEN iffD1]) (intro upholds, simp)
  have tick: "hold (spared rpc ?m False ?P) (doA (\<lambda>c. c\<lparr>cl_ticker := True\<rparr>)) ?H ?H"
    by (rule hold_do) (simp add: patience.spared_def keyed_def)
  have put: "hold (\<lambda>c'. c' = c) (doA (\<lambda>c. put_transfer (?t c) c)) (spared rpc ?m False ?P) ?H"
    using k by (intro hold_do) (auto simp: patience.spared_def keyed_def put_transfer_def new_transfer_def watched_def ignored_def MAX_DRAIN_MS_def)
  have "hold ?H (doA (emit (RejectWith rpc x))) ?H (\<lambda>_. True)" for x by (rule hold_do) simp
  then have "hold (\<lambda>c'. c' = c) ?a ?H (\<lambda>_. True)"
    by (rule hold_catch [OF hold_then [OF put hold_then [OF tick sent]]])
  then have "hangs rpc ?m (ev_now e) d (ev_now e) (snd (?a c))" if "fst (?a c) = Inr ()"
    using that by (cases "?a c") (auto simp: hold_def split: sum.splits)
  moreover have "fst (?a c) = Inr ()" by (auto simp: catchA_def doA_def split: prod.split sum.split)
  moreover have "gone rpc ?m (emit x c)" "gone rpc ?m c" for x using k assms(2) by (simp_all add: patience.gone_iff keyed_def)
  ultimately show ?thesis
    by (auto simp: start_request_def readA_def doA_def throwA_def Let_def ending_def split: sum.split)
qed



end
