(* ===== verification/EndToEnd.thy ===== *)
theory EndToEnd
  imports Page Silence
begin

text \<open>
  A whole stack: \<open>Http4Fetcher\<close> (\<open>client/src/fetcher.ts\<close>) on a session of \<open>Http4Client\<close>
  (\<open>client/src/transport.ts\<close>), against a server that holds a site, over a network that may lose, repeat
  and reorder datagrams.
\<close>

section \<open>The session as a requester\<close>

text \<open>\<open>request\<close> and \<open>requestStream\<close> are \<open>start\<close> with the flag. A promise's value is read off the log of the
  session: \<open>evs\<close> is what happens in it, up to a point where the promise has settled (each does, by the end of
  the session at the latest), \<open>c\<close> the client then, and \<open>pick\<close> the id that \<open>newRpcId\<close> draws for a call.\<close>

definition settled_as :: "(env \<times> client_ev) list \<Rightarrow> client \<Rightarrow> (jsstring \<Rightarrow> bool \<Rightarrow> priority_class \<Rightarrow> int) \<Rightarrow> jsstring
    \<Rightarrow> bool \<Rightarrow> priority_class \<Rightarrow> effect option" where
  "settled_as evs c pick aid streaming cls =
     (let rpc = pick aid streaming cls
      in if Start rpc aid streaming cls \<in> set (map snd evs)
         then (case answers (log_of rpc c) of [] \<Rightarrow> None | x # _ \<Rightarrow> Some x)
         else None)"

definition request :: "(env \<times> client_ev) list \<Rightarrow> client \<Rightarrow> (jsstring \<Rightarrow> bool \<Rightarrow> priority_class \<Rightarrow> int) \<Rightarrow> jsstring
    \<Rightarrow> priority_class \<Rightarrow> js_error + http4_response" where
  "request evs c pick aid cls =
     (case settled_as evs c pick aid False cls of
        Some (Resolve rpc b h) \<Rightarrow> Inr \<lparr>hr_headers = h, hr_body = b\<rparr>
      | Some (RejectWith rpc e) \<Rightarrow> Inl e
      | _ \<Rightarrow> Inl (Http4Error SessionClosed None))"

definition requestStream :: "(env \<times> client_ev) list \<Rightarrow> client \<Rightarrow> (jsstring \<Rightarrow> bool \<Rightarrow> priority_class \<Rightarrow> int) \<Rightarrow> jsstring
    \<Rightarrow> priority_class \<Rightarrow> js_error + http4_stream" where
  "requestStream evs c pick aid cls =
     (case settled_as evs c pick aid True cls of
        Some (ResolveStream rpc n h) \<Rightarrow> Inr \<lparr>hs_headers = h, hs_size = n, hs_stream = rpc\<rparr>
      | Some (RejectWith rpc e) \<Rightarrow> Inl e
      | _ \<Rightarrow> Inl (Http4Error SessionClosed None))"

definition session_requester :: "bool \<Rightarrow> (env \<times> client_ev) list \<Rightarrow> client \<Rightarrow> (jsstring \<Rightarrow> bool \<Rightarrow> priority_class \<Rightarrow> int) \<Rightarrow> requester" where
  "session_requester opn evs c pick =
     \<lparr>rq_isOpen = opn, rq_request = request evs c pick, rq_requestStream = Some (requestStream evs c pick)\<rparr>"

section \<open>A server with a site\<close>

text \<open>\<open>S\<close> and \<open>M\<close> give a file's bytes and metadata; each request is answered with those of its asset.\<close>

fun of_site :: "(jsstring \<Rightarrow> byte list) \<Rightarrow> (jsstring \<Rightarrow> headers) \<Rightarrow> (int \<Rightarrow> byte list) \<Rightarrow> (int \<Rightarrow> headers) \<Rightarrow> client_ev \<Rightarrow> bool" where
  "of_site S M A H (Start rpc aid streaming cls) = (A rpc = S aid \<and> H rpc = M aid)"
| "of_site S M A H ev = truthful A H ev"

definition site_session :: "(jsstring \<Rightarrow> byte list) \<Rightarrow> (jsstring \<Rightarrow> headers) \<Rightarrow> (env \<times> client_ev) list \<Rightarrow> bool" where
  "site_session S M evs \<longleftrightarrow> fresh_ids {} (map snd evs) \<and> (\<exists>A H. list_all (of_site S M A H) (map snd evs))"

lemma of_site_truthful: "of_site S M A H ev \<Longrightarrow> truthful A H ev"
  by (cases ev) simp_all

text \<open>What the reader of stream \<open>i\<close> gets of the file.\<close>

definition streams_file :: "byte list \<Rightarrow> int \<Rightarrow> client \<Rightarrow> bool" where
  "streams_file b i c \<longleftrightarrow>
     (if StreamClose i \<in> set (cl_log c) then chunks (log_of i c) = b else startsWith b (chunks (log_of i c)))"

lemma settled_true:
  assumes "list_all (of_site S M A H) (map snd evs)" "fresh_ids {} (map snd evs)"
    "c = client_run evs (snd (new_client op n queue))" "settled_as evs c pick aid streaming cls = Some x"
  shows "case x of
      Resolve rpc b h \<Rightarrow> b = S aid \<and> h = M aid
    | ResolveStream rpc sz h \<Rightarrow> sz = len (S aid) \<and> h = M aid \<and> streams_file (S aid) rpc c
    | RejectWith rpc e \<Rightarrow> rpc = pick aid streaming cls \<and> x \<in> set (cl_log c)
    | _ \<Rightarrow> True"
proof -
  let ?rpc = "pick aid streaming cls"
  have s: "Start ?rpc aid streaming cls \<in> set (map snd evs)" "x \<in> set (answers (log_of ?rpc c))"
    using assms(4) by (auto simp: settled_as_def Let_def split: if_splits list.splits)
  have t: "list_all (truthful A H) (map snd evs)" using assms(1) of_site_truthful by (auto simp: list_all_iff)
  obtain used where "delivery A H used c" using delivery_run [OF delivery_new t assms(2)] assms(3) by blast
  then have h: "honest A H ?rpc (log_of ?rpc c)" by (rule delivery_honest)
  have x: "about ?rpc x" "x \<in> set (cl_log c)" "x \<in> set (log_of ?rpc c)"
    using s(2) by (auto simp: answers_def log_of_def)
  have "A ?rpc = S aid \<and> H ?rpc = M aid" using assms(1) s(1) by (fastforce simp: list_all_iff)
  moreover have "true_effect A H x" using h x(3) by (auto simp: honest_def list_all_iff)
  moreover have "streams_file (A ?rpc) ?rpc c" using h by (auto simp: honest_def streams_file_def log_of_def)
  ultimately show ?thesis using x(1,2) by (cases x) auto
qed

section \<open>Responses\<close>

text \<open>The response is the file, or a 404 that answers the server's own.\<close>

definition file_served ::
    "(jsstring \<Rightarrow> byte list) \<Rightarrow> (jsstring \<Rightarrow> headers) \<Rightarrow> (env \<times> client_ev) list \<Rightarrow> client \<Rightarrow> jsstring \<Rightarrow> jsstring \<Rightarrow> served \<Rightarrow> bool" where
  "file_served S M evs c meth aid sv \<longleftrightarrow>
     (if sv_status sv = 404
      then sv_body sv = None \<and> sv_stream sv = None \<and>
        (\<exists>rpc streaming cls x. Start rpc aid streaming cls \<in> set (map snd evs) \<and>
          RejectWith rpc (Http4Error x (Some NOT_FOUND)) \<in> set (cl_log c))
      else sv_status sv = 200 \<and> sv_headers sv = metaHeaders (M aid) (len (S aid)) \<and>
        (case sv_stream sv of
           None \<Rightarrow> sv_body sv = (if meth = HEAD then None else Some (S aid))
         | Some i \<Rightarrow> meth \<noteq> HEAD \<and> streams_file (S aid) i c))"

lemma request_true:
  assumes "site_session S M evs" "c = client_run evs (snd (new_client op n queue))" "request evs c pick aid cls = x"
  shows "case x of
      Inr r \<Rightarrow> hr_body r = S aid \<and> hr_headers r = M aid
    | Inl e \<Rightarrow> e = Http4Error SessionClosed None \<or>
        (Start (pick aid False cls) aid False cls \<in> set (map snd evs) \<and> RejectWith (pick aid False cls) e \<in> set (cl_log c))"
proof (cases "settled_as evs c pick aid False cls")
  case (Some v)
  obtain A H where "list_all (of_site S M A H) (map snd evs)" "fresh_ids {} (map snd evs)"
    using assms(1) by (auto simp: site_session_def)
  note v = settled_true [OF this assms(2) Some]
  have "Start (pick aid False cls) aid False cls \<in> set (map snd evs)"
    using Some by (simp add: settled_as_def Let_def split: if_splits)
  then show ?thesis using assms(3) Some v by (cases v) (auto simp: request_def simp del: set_map)
qed (use assms(3) in \<open>auto simp: request_def\<close>)

lemma requestStream_true:
  assumes "site_session S M evs" "c = client_run evs (snd (new_client op n queue))" "requestStream evs c pick aid cls = x"
  shows "case x of
      Inr r \<Rightarrow> hs_size r = len (S aid) \<and> hs_headers r = M aid \<and> streams_file (S aid) (hs_stream r) c
    | Inl e \<Rightarrow> e = Http4Error SessionClosed None \<or>
        (Start (pick aid True cls) aid True cls \<in> set (map snd evs) \<and> RejectWith (pick aid True cls) e \<in> set (cl_log c))"
proof (cases "settled_as evs c pick aid True cls")
  case (Some v)
  obtain A H where "list_all (of_site S M A H) (map snd evs)" "fresh_ids {} (map snd evs)"
    using assms(1) by (auto simp: site_session_def)
  note v = settled_true [OF this assms(2) Some]
  have "Start (pick aid True cls) aid True cls \<in> set (map snd evs)"
    using Some by (simp add: settled_as_def Let_def split: if_splits)
  then show ?thesis using assms(3) Some v by (cases v) (auto simp: requestStream_def simp del: set_map)
qed (use assms(3) in \<open>auto simp: requestStream_def\<close>)

text \<open>What \<open>genuine\<close> says when the session is a client of a site's server.\<close>

lemma genuine_file:
  assumes "site_session S M evs" "c = client_run evs (snd (new_client op n queue))"
    "ft_session f = Some (session_requester opn evs c pick)" "genuine f u meth dest sv"
  shows "\<exists>aid. ft_pathToAssetId f u = Some aid \<and> file_served S M evs c meth aid sv"
proof -
  obtain aid where aid: "ft_pathToAssetId f u = Some aid"
    using assms(4) by (auto simp: genuine_def split: option.splits)
  let ?cls = "classFor (u_pathname u) dest (or_default (ft_classes f) [])"
  note g = assms(4) [unfolded genuine_def aid assms(3), simplified, unfolded Let_def]
  show ?thesis
  proof (cases "sv_status sv = 404")
    case True
    then obtain x where "sv_body sv = None" "sv_stream sv = None"
      "request evs c pick aid ?cls = Inl (Http4Error x (Some NOT_FOUND)) \<or>
       requestStream evs c pick aid ?cls = Inl (Http4Error x (Some NOT_FOUND))"
      using g by (auto simp: session_requester_def)
    then show ?thesis
      using True aid request_true [OF assms(1,2), of pick aid ?cls] requestStream_true [OF assms(1,2), of pick aid ?cls]
      by (fastforce simp: file_served_def)
  next
    case False
    then show ?thesis
      using g aid request_true [OF assms(1,2), of pick aid ?cls] requestStream_true [OF assms(1,2), of pick aid ?cls]
      by (auto simp: file_served_def session_requester_def headersFor_def split: option.splits)
  qed
qed

text \<open>\<open>fetch\<close> passes the call to the platform unless the session answered it.\<close>

lemma fetch_result:
  assumes "fc_url call = Some u" "fetch call ms platform f = (r, f')"
  shows "case r of
      Inl e \<Rightarrow> platform = Inl e \<or> e = AbortReason \<and> fc_signal call \<noteq> Quiet
    | Inr (FromPlatform p) \<Rightarrow> platform = Inr p
    | Inr (FromHttp4 s) \<Rightarrow> genuine f u (call_method call) [] s"
  using assms outcome_error [of f u "call_method call" "fc_signal call" "[]"] outcome_served [of f u "call_method call" "fc_signal call" "[]"]
  by (auto simp: fetch_def via_platform_def Let_def split: option.splits sum.splits http4_outcome.splits response.splits)

section \<open>Properties\<close>

text \<open>C1: end to end. On a session with a server that holds a site, over a network that loses, repeats and
  reorders datagrams at will, \<open>fetch\<close> gives a path's own file: its bytes (or a stream of a gap-free prefix of
  them that ends only with all of them), its metadata and length; or a 404 that the server sent for it; or
  whatever the platform's fetch gives. A call fails only as the platform's does or because its signal fired.\<close>

theorem fetch_carries_file:
  assumes "site_session S M evs" "c = client_run evs (snd (new_client op n queue))"
    "ft_session f = Some (session_requester opn evs c pick)" "ft_pathToAssetId f = prefixMapper origin prefx"
    "fc_url call = Some u" "fetch call ms platform f = (r, f')"
  shows "case r of
      Inr (FromHttp4 sv) \<Rightarrow> \<exists>aid. prefixMapper origin prefx u = Some aid \<and> file_served S M evs c (call_method call) aid sv
    | Inr (FromPlatform p) \<Rightarrow> platform = Inr p
    | Inl e \<Rightarrow> platform = Inl e \<or> e = AbortReason \<and> fc_signal call \<noteq> Quiet"
  using fetch_result [OF assms(5,6)] genuine_file [OF assms(1-3)] assms(4)
  by (auto split: sum.splits response.splits)

definition site_url :: url where
  "site_url = \<lparr>u_href = js ''https://a/a'', u_origin = js ''https://a'', u_protocol = js ''https:'', u_pathname = js ''/a''\<rparr>"

definition site_fetcher :: fetcher where
  "site_fetcher = \<lparr>ft_session = Some (session_requester True (sample_session False) (client_run (sample_session False) sample_client) (\<lambda>_ _ _. 7)),
     ft_unavailable = None, ft_baseOrigin = js ''https://a'', ft_pathToAssetId = prefixMapper (js ''https://a'') (js ''/''),
     ft_reportLimit = None, ft_stream = Some False, ft_classes = None, ft_log = []\<rparr>"

lemma site_map: "prefixMapper (js ''https://a'') (js ''/'') site_url = Some [97]"
  by (simp add: prefixMapper_def site_url_def startsWith_def js_def slash_def percent_def dot_def map_segment_def
      decodeURIComponent.simps decode_char_def Let_def)

lemma site_outcome:
  "\<exists>sv. outcome site_fetcher site_url GET Quiet [] = Inr (Served sv) \<and> sv_status sv = 200 \<and> sv_stream sv = None"
proof -
  have "Start 7 [97] False Normal \<in> set (map snd (sample_session False))" by (simp add: sample_session_def)
  moreover have "answers (log_of 7 (client_run (sample_session False) sample_client)) = [Resolve 7 [10, 20] []]"
    by (simp add: answers_def log_of_def sample_run_log)
  ultimately have "request (sample_session False) (client_run (sample_session False) sample_client) (\<lambda>_ _ _. 7) [97] Normal =
      Inr \<lparr>hr_headers = [], hr_body = [10, 20]\<rparr>"
    by (simp add: request_def settled_as_def)
  moreover have "classFor (u_pathname site_url) [] [] = Normal"
    by (simp add: classForDestination_def DEFAULT_CLASS_def js_def)
  ultimately show ?thesis
    by (simp add: outcome_def site_fetcher_def session_requester_def site_map abortable_def or_default_def Let_def)
qed

text \<open>A file of two bytes.\<close>

theorem fetch_carries_file_witness:
  "case fst (fetch (sample_call\<lparr>fc_url := Some site_url\<rparr>) 5 (Inl PlatformError) site_fetcher) of
     Inr (FromHttp4 sv) \<Rightarrow> sv_body sv = Some [10, 20] | _ \<Rightarrow> False"
proof -
  let ?call = "sample_call\<lparr>fc_url := Some site_url\<rparr>"
  have g: "call_method ?call = GET" "GET \<noteq> HEAD"
    by (simp_all add: call_method_def upper_def or_default_def sample_call_def GET_def HEAD_def js_def)
  have "ineligible site_fetcher GET site_url ?call = None"
    by (simp add: ineligible_def site_fetcher_def site_url_def sample_call_def or_default_def)
  moreover obtain sv where sv: "outcome site_fetcher site_url GET Quiet [] = Inr (Served sv)" "sv_status sv = 200" "sv_stream sv = None"
    using site_outcome by blast
  ultimately obtain f' where e: "fetch ?call 5 (Inl PlatformError) site_fetcher = (Inr (FromHttp4 sv), f')"
    using g(1) by (simp add: fetch_def sample_call_def)
  have "list_all (of_site (\<lambda>_. [10, 20]) (\<lambda>_. []) (\<lambda>_. [10, 20]) (\<lambda>_. [])) (map snd (sample_session False))"
    using sample_truthful(1) [of False] by (simp add: sample_session_def)
  then have "site_session (\<lambda>_. [10, 20]) (\<lambda>_. []) (sample_session False)"
    unfolding site_session_def using sample_truthful(2) [of False] by blast
  from fetch_carries_file [OF this sample_client_run _ _ _ e, of True "\<lambda>_ _ _. 7" "js ''https://a''" "js ''/''" site_url]
  show ?thesis using e g sv by (simp add: site_fetcher_def file_served_def)
qed

text \<open>The same through the Service Worker: what it answers over HTTP4 for a request of the page.\<close>

lemma worker_carries_file:
  assumes "site_session S M evs" "c = client_run evs (snd (new_client op n queue))"
    "bridge (\<lambda>f. (\<exists>opn. ft_session f = Some (session_requester opn evs c pick)) \<and> ft_pathToAssetId f = prefixMapper origin prefx)
       origin cid R w p"
    "RespondHttp4 i s \<in> set (wk_out w)" "(i, r) \<in> R" "wr_client r = cid"
  shows "\<exists>aid sv. prefixMapper origin prefx (wr_url r) = Some aid \<and> hands_over sv s \<and>
    file_served S M evs c (wr_method r) aid sv"
proof -
  obtain f sv opn where k: "ft_session f = Some (session_requester opn evs c pick)" "ft_pathToAssetId f = prefixMapper origin prefx"
    "genuine f (wr_url r) (wr_method r) (wr_destination r) sv" "hands_over sv s"
    using bridge_invariant [OF assms(3)] assms(4-6) unfolding bridged_def backed_def by blast
  from genuine_file [OF assms(1,2) k(1,3)] show ?thesis using k(2,4) by auto
qed

end
