(* ===== verification/Reports.thy ===== *)
theory Reports
  imports Page
begin

text \<open>
  What a page can find out about its requests (\<open>client/src/page.ts\<close>, \<open>client/src/index.ts\<close>): the report of
  \<open>install\<close>'s handle, its listeners, and the worker's own log on request. The entries that a page has heard
  of are the \<open>TellListeners\<close> effects of the page's state machine.
\<close>

section \<open>The handle\<close>

text \<open>Listeners are named by numbers; the code keeps them in a \<open>Set\<close>, which iterates in insertion order and
  holds no element twice. \<open>vw_heard\<close> logs the calls \<open>l(r)\<close>.\<close>

record page_view =
  vw_page :: page
  vw_listeners :: "int list"
  vw_heard :: "(int \<times> sw_report \<times> num) list"

definition new_view :: page_view where
  "new_view = \<lparr>vw_page = new_page, vw_listeners = [], vw_heard = []\<rparr>"

definition onReport :: "int \<Rightarrow> page_view \<Rightarrow> page_view" where
  "onReport l v = (if l \<in> set (vw_listeners v) then v else v\<lparr>vw_listeners := vw_listeners v @ [l]\<rparr>)"

definition unsubscribe :: "int \<Rightarrow> page_view \<Rightarrow> page_view" where
  "unsubscribe l v = v\<lparr>vw_listeners := filter (\<lambda>k. k \<noteq> l) (vw_listeners v)\<rparr>"

text \<open>The entry that a message makes the page report, with the time it comes.\<close>

fun entry_of :: "page_ev \<Rightarrow> (sw_report \<times> num) list" where
  "entry_of (Message now ours (LogMsg r) port) = (if ours then [(r, now)] else [])"
| "entry_of _ = []"

definition view_step :: "fetcher \<Rightarrow> page_ev \<Rightarrow> page_view \<Rightarrow> page_view" where
  "view_step f ev v =
     v\<lparr>vw_page := page_step f ev (vw_page v),
       vw_heard := vw_heard v @ concat (map (\<lambda>x. map (\<lambda>l. (l, x)) (vw_listeners v)) (entry_of ev))\<rparr>"

text \<open>\<open>report()\<close> copies the mirror; \<open>report({ all: true })\<close> asks the worker in control, if there is one, and
  resolves with what it posts back.\<close>

datatype report_call = Mirrored "(sw_report \<times> num) list" | Nobody | AskWorker

definition page_report :: "bool \<Rightarrow> bool \<Rightarrow> page_view \<Rightarrow> report_call" where
  "page_report all_tabs controlled v =
     (if all_tabs then (if controlled then AskWorker else Nobody) else Mirrored (pg_mirror (vw_page v)))"

text \<open>The message \<open>askReport\<close> posts, and the worker's answer to it.\<close>

definition ask_message :: "bool \<Rightarrow> jsval" where
  "ask_message all_tabs = JObj [(js ''http4'', JStr (js ''report'')), (js ''all'', JBool all_tabs)]"

definition askReport :: "worker option \<Rightarrow> bool \<Rightarrow> jsstring \<Rightarrow> sw_report list option" where
  "askReport controller all_tabs cid =
     (case controller of None \<Rightarrow> Some [] | Some w \<Rightarrow> report_for (ask_message all_tabs) True cid w)"

datatype view_ev = OnPage page_ev | Subscribe int | Unsubscribe int

fun view_run :: "fetcher \<Rightarrow> view_ev list \<Rightarrow> page_view \<Rightarrow> page_view" where
  "view_run f [] v = v"
| "view_run f (OnPage ev # evs) v = view_run f evs (view_step f ev v)"
| "view_run f (Subscribe l # evs) v = view_run f evs (onReport l v)"
| "view_run f (Unsubscribe l # evs) v = view_run f evs (unsubscribe l v)"

definition entries_in :: "view_ev list \<Rightarrow> (sw_report \<times> num) list" where
  "entries_in evs = concat (map (\<lambda>e. case e of OnPage ev \<Rightarrow> entry_of ev | _ \<Rightarrow> []) evs)"

lemma entries_in_simps [simp]:
  "entries_in [] = []" "entries_in (OnPage ev # evs) = entry_of ev @ entries_in evs"
  "entries_in (Subscribe l # evs) = entries_in evs" "entries_in (Unsubscribe l # evs) = entries_in evs"
  by (simp_all add: entries_in_def)

section \<open>The mirror holds the latest entries\<close>

definition newest :: "nat \<Rightarrow> 'a list \<Rightarrow> 'a list" where
  "newest n xs = drop (length xs - n) xs"

lemma newest_snoc:
  assumes "0 < n"
  shows "newest n (xs @ [x]) = (let m = newest n xs @ [x] in if length m > n then tl m else m)"
proof (cases "length xs < n")
  case True
  then show ?thesis by (simp add: newest_def Let_def)
next
  case False
  then have "Suc (length xs) - n = Suc (length xs - n)" by (simp add: Suc_diff_le)
  then show ?thesis using False assms by (simp add: newest_def Let_def drop_Suc tl_drop)
qed

lemma mirror_newest: "mirror_entry now r (newest MIRROR_LIMIT xs) = newest MIRROR_LIMIT (xs @ [(r, now)])"
  by (simp add: mirror_entry_def newest_snoc MIRROR_LIMIT_def)

lemma mirror_of_open: "pg_mirror (when_open f prefx x p) = pg_mirror p"
  by (cases x) (simp_all add: greet_def page_serve_def page_post_def)

lemma mirror_of_fold: "pg_mirror (fold (when_open f prefx) xs p) = pg_mirror p"
  by (induction xs arbitrary: p) (simp_all add: mirror_of_open)

lemma mirror_of_answer: "pg_mirror (page_answer f m port p) = pg_mirror p"
  by (simp add: page_answer_def on_opened_def mirror_of_open page_post_def
      split: option.split sw_message.split) (simp add: greet_def page_serve_def page_post_def)

lemma mirror_step: "pg_mirror p = newest MIRROR_LIMIT xs \<Longrightarrow>
    pg_mirror (page_step f ev p) = newest MIRROR_LIMIT (xs @ entry_of ev)"
proof (cases ev)
  case (Message now ours m port)
  assume "pg_mirror p = newest MIRROR_LIMIT xs"
  then show ?thesis unfolding Message
    by (cases m) (simp_all add: page_message_def mirror_of_answer mirror_newest page_post_def)
next
  case (OpenResolves prefx)
  assume "pg_mirror p = newest MIRROR_LIMIT xs"
  then show ?thesis unfolding OpenResolves by (simp add: page_opened_def mirror_of_fold split: option.split)
next
  case (Settles pt view_of)
  assume "pg_mirror p = newest MIRROR_LIMIT xs"
  then show ?thesis unfolding Settles by (simp add: page_settled_def page_post_def split: option.split)
qed

lemma view_parts [simp]:
  "vw_page (onReport l v) = vw_page v" "vw_page (unsubscribe l v) = vw_page v"
  "vw_heard (onReport l v) = vw_heard v" "vw_heard (unsubscribe l v) = vw_heard v"
  by (simp_all add: onReport_def unsubscribe_def)

lemma mirror_run:
  "pg_mirror (vw_page v) = newest MIRROR_LIMIT xs \<Longrightarrow>
    pg_mirror (vw_page (view_run f evs v)) = newest MIRROR_LIMIT (xs @ entries_in evs)"
proof (induction evs arbitrary: v xs)
  case (Cons e evs)
  show ?case
  proof (cases e)
    case (OnPage ev)
    have "pg_mirror (vw_page (view_step f ev v)) = newest MIRROR_LIMIT (xs @ entry_of ev)"
      using mirror_step [OF Cons.prems] by (simp add: view_step_def)
    from Cons.IH [OF this] show ?thesis unfolding OnPage by simp
  qed (use Cons in simp_all)
qed simp

text \<open>A page's report is the newest 2000 entries the worker sent it, in the order they came, whether or not
  the worker still runs.\<close>

lemma report_newest: "page_report False ctl (view_run f evs new_view) = Mirrored (newest MIRROR_LIMIT (entries_in evs))"
proof -
  have "pg_mirror (vw_page new_view) = newest MIRROR_LIMIT []" by (simp add: new_view_def new_page_def newest_def)
  from mirror_run [OF this] show ?thesis by (simp add: page_report_def)
qed

section \<open>Listeners\<close>

definition heard_by :: "int \<Rightarrow> page_view \<Rightarrow> (sw_report \<times> num) list" where
  "heard_by l v = map snd (filter (\<lambda>h. fst h = l) (vw_heard v))"

lemma heard_step:
  assumes "distinct (vw_listeners v)"
  shows "heard_by l (view_step f ev v) = heard_by l v @ (if l \<in> set (vw_listeners v) then entry_of ev else [])"
proof -
  have one: "map snd (filter (\<lambda>h. fst h = l) (map (\<lambda>k. (k, x)) ls)) = (if l \<in> set ls then [x] else [])"
    if "distinct ls" for ls and x :: "sw_report \<times> num"
    using that by (induction ls) auto
  have "map snd (filter (\<lambda>h. fst h = l) (concat (map (\<lambda>x. map (\<lambda>k. (k, x)) (vw_listeners v)) xs))) =
      (if l \<in> set (vw_listeners v) then xs else [])" for xs :: "(sw_report \<times> num) list"
  proof (induction xs)
    case (Cons x xs)
    then show ?case using one [OF assms, of x] by (cases x) auto
  qed simp
  then show ?thesis by (simp add: heard_by_def view_step_def)
qed

lemma step_listeners [simp]: "vw_listeners (view_step f ev v) = vw_listeners v"
  by (simp add: view_step_def)

lemma heard_same [simp]: "heard_by l (onReport k v) = heard_by l v" "heard_by l (unsubscribe k v) = heard_by l v"
  by (simp_all add: heard_by_def)

lemma listeners_set [simp]:
  "set (vw_listeners (onReport l v)) = insert l (set (vw_listeners v))"
  "set (vw_listeners (unsubscribe l v)) = set (vw_listeners v) - {l}"
  by (auto simp: onReport_def unsubscribe_def)

lemma listeners_distinct [simp]:
  "distinct (vw_listeners (onReport l v)) = distinct (vw_listeners v)"
  "distinct (vw_listeners v) \<Longrightarrow> distinct (vw_listeners (unsubscribe l v))"
  by (simp_all add: onReport_def unsubscribe_def)

text \<open>A listener is called once for each entry that comes while it is subscribed, in order, and for no other.\<close>

lemma heard_while_subscribed:
  assumes "distinct (vw_listeners v)" "l \<in> set (vw_listeners v)" "Unsubscribe l \<notin> set evs"
  shows "heard_by l (view_run f evs v) = heard_by l v @ entries_in evs"
  using assms
proof (induction evs arbitrary: v)
  case (Cons e evs)
  show ?case
  proof (cases e)
    case (OnPage ev)
    then show ?thesis using Cons by (simp add: heard_step)
  next
    case (Subscribe k)
    then show ?thesis using Cons by simp
  next
    case (Unsubscribe k)
    then show ?thesis using Cons by simp
  qed
qed simp

lemma heard_while_unsubscribed:
  assumes "distinct (vw_listeners v)" "l \<notin> set (vw_listeners v)" "Subscribe l \<notin> set evs"
  shows "heard_by l (view_run f evs v) = heard_by l v"
  using assms
proof (induction evs arbitrary: v)
  case (Cons e evs)
  show ?case
  proof (cases e)
    case (OnPage ev)
    then show ?thesis using Cons by (simp add: heard_step)
  next
    case (Subscribe k)
    then show ?thesis using Cons by simp
  next
    case (Unsubscribe k)
    then show ?thesis using Cons by simp
  qed
qed simp

section \<open>The worker's answer\<close>

text \<open>A page that asks for every tab gets the worker's whole log; one that does not would get its own entries.\<close>

lemma ask_answered:
  "askReport (Some w) True cid = Some (wk_log w)"
  "askReport (Some w) False cid = Some (filter (\<lambda>r. wr_client (wp_request r) = cid) (wk_log w))"
  "askReport None all_tabs cid = Some []"
  by (simp_all add: askReport_def report_for_def ask_message_def isSwMessage_def js_def)

end
