(* ===== verification/Forwarding.thy ===== *)
theory Forwarding
  imports Worker
begin

text \<open>
  \<open>forward\<close> of the worker (\<open>sw.ts\<close>): one request posted to a tab over a port of its own, with a watchdog that looks
  whether the tab is still there. A lookup is a wait of its own, so one that began before the reply can end
  after it. The theory shows that the two ways out never both count, and which events of \<open>sw_step\<close> they are.
\<close>

section \<open>The promise of forward\<close>

definition WATCHDOG_MS :: num where "WATCHDOG_MS = 1000"

datatype outcome = Resolved serve_reply | TabClosed

record forwarding =
  fw_outcome :: "outcome option"
  fw_watching :: bool
  fw_portOpen :: bool
  fw_lookups :: nat

definition forward :: forwarding where
  "forward = \<lparr>fw_outcome = None, fw_watching = True, fw_portOpen = True, fw_lookups = 0\<rparr>"

text \<open>\<open>done\<close>: a promise that is settled stays as it is.\<close>

definition forward_done :: "outcome \<Rightarrow> forwarding \<Rightarrow> forwarding" where
  "forward_done res f = f\<lparr>fw_watching := False, fw_portOpen := False,
     fw_outcome := (case fw_outcome f of None \<Rightarrow> Some res | Some x \<Rightarrow> Some x)\<rparr>"

text \<open>The tab answers on the port, the interval fires, a lookup of the tab ends.\<close>

datatype forward_ev = PortSays serve_reply | WatchdogFires | LookedUp bool

fun forward_step :: "forward_ev \<Rightarrow> forwarding \<Rightarrow> forwarding" where
  "forward_step (PortSays reply) f = (if fw_portOpen f then forward_done (Resolved reply) f else f)"
| "forward_step WatchdogFires f = (if fw_watching f then f\<lparr>fw_lookups := fw_lookups f + 1\<rparr> else f)"
| "forward_step (LookedUp there) f =
     (if fw_lookups f = 0 then f
      else let f1 = f\<lparr>fw_lookups := fw_lookups f - 1\<rparr> in if there then f1 else forward_done TabClosed f1)"

definition forward_run :: "forward_ev list \<Rightarrow> forwarding" where
  "forward_run evs = fold forward_step evs forward"

lemma forward_run_Nil [simp]: "forward_run [] = forward"
  by (simp add: forward_run_def)

lemma forward_run_snoc [simp]: "forward_run (evs @ [ev]) = forward_step ev (forward_run evs)"
  by (simp add: forward_run_def)

text \<open>The promise is open exactly as long as the port and the watchdog are.\<close>

definition fw_ok :: "forwarding \<Rightarrow> bool" where
  "fw_ok f \<longleftrightarrow> fw_portOpen f = (fw_outcome f = None) \<and> fw_watching f = (fw_outcome f = None)"

lemma fw_ok_step: "fw_ok f \<Longrightarrow> fw_ok (forward_step ev f)"
  by (cases ev) (auto simp: fw_ok_def forward_done_def Let_def split: option.splits)

lemma fw_ok_run: "fw_ok (forward_run evs)"
  by (induction evs rule: rev_induct) (simp_all add: fw_ok_step, simp add: fw_ok_def forward_def)

lemma outcome_stays: "fw_outcome f = Some x \<Longrightarrow> fw_outcome (forward_step ev f) = Some x"
  by (cases ev) (auto simp: forward_done_def Let_def)

lemma outcome_stays_fold: "fw_outcome f = Some x \<Longrightarrow> fw_outcome (fold forward_step evs f) = Some x"
  by (induction evs arbitrary: f) (simp_all add: outcome_stays)

text \<open>The interval is cleared: once settled, no lookup begins, and each event leaves fewer of them.\<close>

lemma settled_lookups: "fw_ok f \<Longrightarrow> fw_outcome f \<noteq> None \<Longrightarrow> fw_lookups (forward_step ev f) \<le> fw_lookups f"
  by (cases ev) (auto simp: fw_ok_def forward_done_def Let_def)

section \<open>What settles it\<close>

text \<open>The first thing the tab said, or the first lookup that did not find it, in the order of the events.\<close>

definition decides :: "forward_ev list \<Rightarrow> forward_ev \<Rightarrow> outcome option" where
  "decides evs ev =
     (case ev of
        PortSays reply \<Rightarrow> Some (Resolved reply)
      | WatchdogFires \<Rightarrow> None
      | LookedUp there \<Rightarrow> if there \<or> fw_lookups (forward_run evs) = 0 then None else Some TabClosed)"

lemma outcome_step:
  "fw_outcome (forward_run (evs @ [ev])) =
     (case fw_outcome (forward_run evs) of None \<Rightarrow> decides evs ev | Some x \<Rightarrow> Some x)"
  using fw_ok_run [of evs]
  by (cases ev) (auto simp: decides_def fw_ok_def forward_done_def Let_def split: option.splits)

lemma forward_outcome:
  "fw_outcome (forward_run evs) = Some x \<longleftrightarrow>
     (\<exists>as ev bs. evs = as @ ev # bs \<and> fw_outcome (forward_run as) = None \<and> decides as ev = Some x)"
proof
  assume "fw_outcome (forward_run evs) = Some x"
  then show "\<exists>as ev bs. evs = as @ ev # bs \<and> fw_outcome (forward_run as) = None \<and> decides as ev = Some x"
  proof (induction evs rule: rev_induct)
    case (snoc ev evs)
    show ?case
    proof (cases "fw_outcome (forward_run evs)")
      case None
      then show ?thesis using snoc.prems outcome_step [of evs ev] by auto
    next
      case (Some y)
      then have "fw_outcome (forward_run evs) = Some x" using snoc.prems outcome_step [of evs ev] by simp
      from snoc.IH [OF this] show ?thesis by force
    qed
  qed (simp add: forward_def)
next
  assume "\<exists>as ev bs. evs = as @ ev # bs \<and> fw_outcome (forward_run as) = None \<and> decides as ev = Some x"
  then obtain as ev bs where e: "evs = (as @ [ev]) @ bs" "fw_outcome (forward_run as) = None" "decides as ev = Some x"
    by auto
  then have "fw_outcome (forward_run (as @ [ev])) = Some x" using outcome_step [of as ev] by simp
  from outcome_stays_fold [OF this, of bs] show "fw_outcome (forward_run evs) = Some x" by (simp add: e(1) forward_run_def)
qed

text \<open>A tab that is gone is noticed: after the next tick of the watchdog and its lookup the promise is settled.\<close>

lemma closed_tab_noticed:
  "fw_outcome (forward_run (evs @ [WatchdogFires, LookedUp False])) \<noteq> None"
proof -
  have "fw_outcome (forward_step (LookedUp False) (forward_step WatchdogFires f)) \<noteq> None" if "fw_ok f" for f
    using that by (auto simp: fw_ok_def forward_done_def Let_def split: option.splits)
  from this [OF fw_ok_run [of evs]] show ?thesis
    using forward_run_snoc [of "evs @ [WatchdogFires]" "LookedUp False"] by simp
qed

section \<open>What the worker makes of it\<close>

text \<open>The event by which the waiting request goes on.\<close>

fun resumption :: "int \<Rightarrow> outcome \<Rightarrow> sw_ev" where
  "resumption i (Resolved reply) = PageReply i reply"
| "resumption i TabClosed = TabGone i"

text \<open>The events of the worker that a run of \<open>forward\<close> stands for: one for each change of the outcome.\<close>

fun resumptions :: "int \<Rightarrow> forwarding \<Rightarrow> forward_ev list \<Rightarrow> sw_ev list" where
  "resumptions i f [] = []"
| "resumptions i f (ev # evs) =
     (let f' = forward_step ev f
      in (if fw_outcome f' = fw_outcome f then [] else [resumption i (the (fw_outcome f'))]) @ resumptions i f' evs)"

lemma resumed_never_again: "fw_outcome f = Some x \<Longrightarrow> resumptions i f evs = []"
  by (induction evs arbitrary: f) (simp_all add: outcome_stays)

lemma resumed_once:
  "resumptions i forward evs =
     (case fw_outcome (forward_run evs) of None \<Rightarrow> [] | Some x \<Rightarrow> [resumption i x])"
proof -
  have "resumptions i f evs = (case fw_outcome (fold forward_step evs f) of None \<Rightarrow> [] | Some x \<Rightarrow> [resumption i x])"
    if "fw_outcome f = None" for f
    using that
  proof (induction evs arbitrary: f)
    case (Cons ev evs)
    show ?case
    proof (cases "fw_outcome (forward_step ev f)")
      case None
      then show ?thesis using Cons by (simp add: Let_def)
    next
      case (Some x)
      then show ?thesis using Cons.prems by (simp add: Let_def resumed_never_again outcome_stays_fold)
    qed
  qed simp
  from this [of forward] show ?thesis by (simp add: forward_run_def, simp add: forward_def)
qed

text \<open>A tab that closed costs the request nothing but the network's answer.\<close>

lemma closed_tab_falls_back:
  assumes "jm_get (wk_pending w) i = Some p" "pd_phase p = Forwarded" "fw_outcome (forward_run evs) = Some TabClosed"
  shows "fold (sw_step now) (resumptions i forward evs) w = network i ViaFallback ForwardFailed w"
  using assms by (simp add: resumed_once with_pending_def)

end
