(* ===== verification/Loads.thy ===== *)
theory Loads
  imports Fetcher
begin

text \<open>
  The benchmark page (\<open>client/bench/bench.ts\<close>): the schedule of requests over HTTP/3 and HTTP4, the check that
  the baseline was HTTP/3, the background load and the foreground arrivals. Clock, network and Resource
  Timing are the environment; what they give is an argument or an event.
\<close>

section \<open>Addresses\<close>

text \<open>\<open>encodeURIComponent\<close> of the language; \<open>None\<close> is its \<open>URIError\<close> at a lone surrogate.\<close>

definition unreserved :: "nat \<Rightarrow> bool" where
  "unreserved n \<longleftrightarrow> (0x41 \<le> n \<and> n \<le> 0x5A) \<or> (0x61 \<le> n \<and> n \<le> 0x7A) \<or> (0x30 \<le> n \<and> n \<le> 0x39) \<or>
     n \<in> {0x2D, 0x5F, 0x2E, 0x21, 0x7E, 0x2A, 0x27, 0x28, 0x29}"

definition encode_scalar :: "nat \<Rightarrow> jsstring" where
  "encode_scalar c = (if unreserved c then [of_nat c] else concat (map pct_of (utf8_of c)))"

definition encodeURIComponent :: "jsstring \<Rightarrow> jsstring option" where
  "encodeURIComponent s = (if is_well_formed s then Some (concat (map encode_scalar (scalars s))) else None)"

fun encode_parts :: "jsstring list \<Rightarrow> jsstring list option" where
  "encode_parts [] = Some []"
| "encode_parts (p # ps) =
     (case encodeURIComponent p of None \<Rightarrow> None | Some q \<Rightarrow> map_option ((#) q) (encode_parts ps))"

text \<open>The template of \<open>one\<close> and \<open>fetchBytes\<close>, up to the query.\<close>

definition asset_url :: "jsstring \<Rightarrow> jsstring \<Rightarrow> jsstring option" where
  "asset_url h3Url aid = map_option (\<lambda>ps. h3Url @ join_with slash ps) (encode_parts (split_on slash aid))"

definition run_url :: "jsstring \<Rightarrow> jsstring \<Rightarrow> nat \<Rightarrow> nat \<Rightarrow> jsstring option" where
  "run_url h3Url aid run i =
     map_option (\<lambda>u. u @ js ''?run='' @ decimal run @ js ''&i='' @ decimal i) (asset_url h3Url aid)"

definition load_url :: "jsstring \<Rightarrow> jsstring \<Rightarrow> jsstring \<Rightarrow> nat \<Rightarrow> jsstring option" where
  "load_url h3Url aid tag n =
     map_option (\<lambda>u. u @ js ''?'' @ tag @ js ''='' @ decimal n) (asset_url h3Url aid)"

definition hex_low :: "nat \<Rightarrow> jschar" where
  "hex_low n = (if n < 10 then of_nat (0x30 + n) else of_nat (0x57 + n))"

definition hex :: "byte list \<Rightarrow> jsstring" where
  "hex bs = concat (map (\<lambda>b. [hex_low (unat b div 16), hex_low (unat b mod 16)]) bs)"

text \<open>What an address is made of: it names the asset, part by part.\<close>

lemma decode_scalar:
  assumes "is_scalar c"
  shows "decodeURIComponent (encode_scalar c @ us) = map_option ((@) (utf16_of c)) (decodeURIComponent us)"
proof (cases "unreserved c")
  case True
  then have c: "c < 0x80" "c \<noteq> 0x25" by (auto simp: unreserved_def)
  have "unat (unit_of c) = c" "unat percent = 0x25" using c by (simp_all add: unat_jschar percent_def)
  then have "(of_nat c :: jschar) \<noteq> percent" using c by (auto simp: unit_of_def)
  moreover have "utf16_of c = [of_nat c]" using c by (simp add: utf16_of_def unit_of_def)
  ultimately show ?thesis using True by (simp add: encode_scalar_def decodeURIComponent_step decode_char_def)
next
  case False
  then show ?thesis using decode_escaped [OF assms] by (simp add: encode_scalar_def)
qed

lemma decode_scalars:
  "\<forall>c \<in> set cs. is_scalar c \<Longrightarrow> decodeURIComponent (concat (map encode_scalar cs)) = Some (concat (map utf16_of cs))"
  by (induction cs) (simp_all add: decode_scalar)

lemma decode_encoded: "encodeURIComponent s = Some e \<Longrightarrow> decodeURIComponent e = Some s"
  using scalars_well_formed [of s] decode_scalars [of "scalars s"]
  by (auto simp: encodeURIComponent_def split: if_splits)

definition url_char :: "jschar \<Rightarrow> bool" where
  "url_char u \<longleftrightarrow> unreserved (unat u) \<or> u = percent"

lemma url_char_digit: "n < 16 \<Longrightarrow> url_char (hex_digit n)"
proof -
  assume "n < 16"
  then have "n \<in> {..<16}" by simp
  then show ?thesis
    by (simp add: lessThan_nat_numeral lessThan_Suc hex_digit_def url_char_def unreserved_def) (elim disjE; simp)
qed

lemma url_char_scalar: "u \<in> set (encode_scalar c) \<Longrightarrow> url_char u"
proof (cases "unreserved c")
  case True
  assume "u \<in> set (encode_scalar c)"
  then have "u = unit_of c" using True by (simp add: encode_scalar_def unit_of_def)
  moreover have "unat (unit_of c) = c" using True by (intro unat_jschar) (auto simp: unreserved_def)
  ultimately show ?thesis using True by (simp add: url_char_def)
next
  case False
  assume "u \<in> set (encode_scalar c)"
  then obtain b where "u \<in> set (pct_of b)" using False by (auto simp: encode_scalar_def)
  moreover have "unat b div 16 < 16" using unat_byte_less [of b] by simp
  ultimately show ?thesis by (auto simp: pct_of_def url_char_digit) (simp add: url_char_def)
qed

lemma url_char_encoded: "encodeURIComponent s = Some e \<Longrightarrow> u \<in> set e \<Longrightarrow> url_char u"
  by (auto simp: encodeURIComponent_def url_char_scalar split: if_splits)

lemma encode_parts_some:
  "encode_parts ps = Some es \<Longrightarrow> map decodeURIComponent es = map Some ps \<and> (\<forall>e \<in> set es. \<forall>u \<in> set e. url_char u)"
proof (induction ps arbitrary: es)
  case (Cons p ps)
  then obtain e es' where "encodeURIComponent p = Some e" "encode_parts ps = Some es'" "es = e # es'"
    by (auto split: option.splits)
  then show ?case using Cons.IH decode_encoded url_char_encoded by auto
qed simp

lemma slash_not_url: "\<not> url_char slash"
  by (simp add: url_char_def slash_def percent_def unreserved_def)

text \<open>The path decodes to the parts of the asset id, and holds no character that a URL reads otherwise.\<close>

lemma asset_url_names:
  assumes "asset_url h3Url aid = Some u"
  shows "\<exists>path. u = h3Url @ path \<and> map decodeURIComponent (split_on slash path) = map Some (split_on slash aid) \<and>
    (\<forall>ch \<in> set path. url_char ch \<or> ch = slash)"
proof -
  obtain es where es: "encode_parts (split_on slash aid) = Some es" "u = h3Url @ join_with slash es"
    using assms by (auto simp: asset_url_def)
  note k = encode_parts_some [OF es(1)]
  have "length es = length (split_on slash aid)" using k by (metis length_map)
  then have "es \<noteq> []" using split_on_nonempty [of slash aid] by auto
  moreover have "\<forall>e \<in> set es. slash \<notin> set e" using k slash_not_url by blast
  ultimately have s: "split_on slash (join_with slash es) = es" by (rule split_join)
  have "set (join_with slash ps) \<subseteq> \<Union> (set ` set ps) \<union> {slash}" for ps :: "jsstring list"
    by (induction slash ps rule: join_with.induct) auto
  then have "\<forall>ch \<in> set (join_with slash es). url_char ch \<or> ch = slash" using k by blast
  then show ?thesis using es(2) k s by auto
qed

lemma asset_url_total: "asset_url h3Url aid = None \<longleftrightarrow> (\<exists>p \<in> set (split_on slash aid). \<not> is_well_formed p)"
proof -
  have "encode_parts ps = None \<longleftrightarrow> (\<exists>p \<in> set ps. \<not> is_well_formed p)" for ps
    by (induction ps) (auto simp: encodeURIComponent_def split: option.splits)
  then show ?thesis by (simp add: asset_url_def)
qed

section \<open>Requests of a schedule\<close>

datatype stack = H3 | HTTP4

datatype bench_error = UriMalformed | HttpStatus nat | Failed jsstring

record scheduled_request =
  sr_at :: num
  sr_id :: jsstring
  sr_stack :: stack
  sr_priority :: "jsstring option"
  sr_tag :: "jsstring option"

record request_result =
  rr_index :: nat
  rr_id :: jsstring
  rr_stack :: stack
  rr_priority :: "jsstring option"
  rr_tag :: "jsstring option"
  rr_at :: num
  rr_start :: num
  rr_end :: num
  rr_ms :: num
  rr_bytes :: num
  rr_sha256 :: "jsstring option"
  rr_protocol :: "jsstring option"
  rr_ok :: bool
  rr_error :: "bench_error option"

text \<open>What \<open>fetch\<close> gave: it rejects, or a status with the body.\<close>

datatype platform_answer = Rejects jsstring | Answers nat "byte list"

definition h3_body :: "jsstring option \<Rightarrow> platform_answer \<Rightarrow> bench_error + byte list" where
  "h3_body u ans =
     (case u of
        None \<Rightarrow> Inl UriMalformed
      | Some _ \<Rightarrow>
          (case ans of
             Rejects m \<Rightarrow> Inl (Failed m)
           | Answers st b \<Rightarrow> if 200 \<le> st \<and> st \<le> 299 then Inr b else Inl (HttpStatus st)))"

text \<open>The lookups of \<open>timingEntry\<close>, one per poll; it gives up after twenty.\<close>

definition timingEntry :: "jsstring option list \<Rightarrow> jsstring option" where
  "timingEntry polls = (case dropWhile (\<lambda>p. p = None) (take 20 polls) of [] \<Rightarrow> None | p # _ \<Rightarrow> p)"

definition truthy :: "jsstring option \<Rightarrow> jsstring option" where
  "truthy s = (if s = Some [] then None else s)"

text \<open>\<open>one\<close>: the clock stops before the lookup. \<open>sha\<close> is the digest.\<close>

definition one ::
    "(byte list \<Rightarrow> byte list) \<Rightarrow> bool \<Rightarrow> scheduled_request \<Rightarrow> nat \<Rightarrow> num \<Rightarrow> num \<Rightarrow>
      bench_error + byte list \<Rightarrow> jsstring option list \<Rightarrow> request_result" where
  "one sha hash req i start en got polls =
     \<lparr>rr_index = i, rr_id = sr_id req, rr_stack = sr_stack req, rr_priority = truthy (sr_priority req),
      rr_tag = truthy (sr_tag req), rr_at = sr_at req, rr_start = start, rr_end = en, rr_ms = en - start,
      rr_bytes = (case got of Inl _ \<Rightarrow> 0 | Inr b \<Rightarrow> len b),
      rr_sha256 = (case got of Inl _ \<Rightarrow> None | Inr b \<Rightarrow> if hash then Some (hex (sha b)) else None),
      rr_protocol = (if sr_stack req = H3 \<and> \<not> isl got then Some (or_default (timingEntry polls) (js ''no-timing-entry'')) else None),
      rr_ok = \<not> isl got, rr_error = (case got of Inl x \<Rightarrow> Some x | Inr _ \<Rightarrow> None)\<rparr>"

text \<open>When a request is issued: at once, or after a timer.\<close>

definition start_delay :: "num \<Rightarrow> num \<Rightarrow> num option" where
  "start_delay at_ms elapsed = (if at_ms \<le> 0 then None else Some (max 0 (at_ms - elapsed)))"

definition not_h3 :: "request_result \<Rightarrow> bool" where
  "not_h3 r \<longleftrightarrow> rr_stack r = H3 \<and> rr_ok r \<and> rr_protocol r \<noteq> Some (js ''h3'')"

text \<open>The end of \<open>run\<close>: the results, or how many were not HTTP/3 and the first five.\<close>

definition run_results :: "bool \<Rightarrow> request_result list \<Rightarrow> nat \<times> request_result list + request_result list" where
  "run_results allow rs =
     (let bad = filter not_h3 rs
      in if \<not> allow \<and> bad \<noteq> [] then Inl (length bad, take 5 bad) else Inr rs)"

text \<open>What a run gives is about HTTP/3 where it says so.\<close>

lemma run_baseline:
  assumes "run_results False (map (\<lambda>(req, i, start, en, got, polls). one sha hash req i start en got polls) xs) = Inr rs"
    "(req, i, start, en, Inr b, polls) \<in> set xs" "sr_stack req = H3"
  shows "timingEntry polls = Some (js ''h3'')"
proof -
  let ?r = "one sha hash req i start en (Inr b) polls"
  have "\<not> not_h3 ?r" using assms(1,2) by (fastforce simp: run_results_def Let_def filter_empty_conv split: if_splits)
  then have "or_default (timingEntry polls) (js ''no-timing-entry'') = js ''h3''" using assms(3) by (simp add: not_h3_def one_def)
  then show ?thesis by (cases "timingEntry polls") (auto simp: or_default_def js_def)
qed

section \<open>The background load\<close>

text \<open>\<open>st.bytes += await fetchBytes(..)\<close> reads \<open>st.bytes\<close> before it waits: a loop that downloads holds the value
  it read.\<close>

datatype load_loop = Loading num | Pacing | Ended

record load =
  ld_stopping :: bool
  ld_loops :: "load_loop list"
  ld_startedAt :: num
  ld_completed :: nat
  ld_failed :: nat
  ld_aborted :: nat
  ld_bytes :: num
  ld_seconds :: num
  ld_errors :: "jsstring list"

text \<open>The first few distinct failures.\<close>

definition note_error :: "jsstring \<Rightarrow> jsstring list \<Rightarrow> jsstring list" where
  "note_error s errors = (if length errors < 5 \<and> s \<notin> set errors then errors @ [s] else errors)"

definition startBackground :: "nat \<Rightarrow> num \<Rightarrow> load" where
  "startBackground concurrency now =
     \<lparr>ld_stopping = False, ld_loops = replicate concurrency (Loading 0), ld_startedAt = now, ld_completed = 0,
      ld_failed = 0, ld_aborted = 0, ld_bytes = 0, ld_seconds = 0, ld_errors = []\<rparr>"

text \<open>The head of the \<open>while\<close>.\<close>

definition next_turn :: "load \<Rightarrow> load_loop" where
  "next_turn st = (if ld_stopping st then Ended else Loading (ld_bytes st))"

definition put_loop :: "nat \<Rightarrow> load_loop \<Rightarrow> load \<Rightarrow> load" where
  "put_loop i l st = st\<lparr>ld_loops := (ld_loops st)[i := l]\<rparr>"

datatype load_ev = Downloaded nat num | Failing nat jsstring | Paced nat | Stop num

fun load_step :: "load_ev \<Rightarrow> load \<Rightarrow> load" where
  "load_step (Downloaded i n) st =
     (case drop i (ld_loops st) of
        Loading seen # _ \<Rightarrow>
          let st1 = st\<lparr>ld_bytes := seen + n, ld_completed := ld_completed st + 1\<rparr>
          in put_loop i (next_turn st1) st1
      | _ \<Rightarrow> st)"
| "load_step (Failing i x) st =
     (case drop i (ld_loops st) of
        Loading _ # _ \<Rightarrow>
          if ld_stopping st then put_loop i Ended (st\<lparr>ld_aborted := ld_aborted st + 1\<rparr>)
          else put_loop i Pacing (st\<lparr>ld_failed := ld_failed st + 1, ld_errors := note_error x (ld_errors st)\<rparr>)
      | _ \<Rightarrow> st)"
| "load_step (Paced i) st =
     (case drop i (ld_loops st) of Pacing # _ \<Rightarrow> put_loop i (next_turn st) st | _ \<Rightarrow> st)"
| "load_step (Stop now) st = st\<lparr>ld_stopping := True, ld_seconds := (now - ld_startedAt st) / 1000\<rparr>"

fun load_run :: "load_ev list \<Rightarrow> load \<Rightarrow> load" where
  "load_run [] st = st"
| "load_run (ev # evs) st = load_run evs (load_step ev st)"

text \<open>\<open>stopBackground\<close> waits for the loops.\<close>

definition stopped :: "load \<Rightarrow> bool" where
  "stopped st \<longleftrightarrow> ld_stopping st \<and> list_all (\<lambda>l. l = Ended) (ld_loops st)"

lemma drop_loop: "drop i ls = l # ys \<Longrightarrow> i < length ls \<and> ls ! i = l"
  by (metis drop_eq_Nil2 hd_drop_conv_nth leI list.distinct(1) list.sel(1))

lemma load_loops: "length (ld_loops (load_step ev st)) = length (ld_loops st)"
  by (cases ev) (auto simp: put_loop_def Let_def split: list.split load_loop.split)

lemma load_errors:
  "length (ld_errors st) \<le> 5 \<and> distinct (ld_errors st) \<Longrightarrow>
  length (ld_errors (load_step ev st)) \<le> 5 \<and> distinct (ld_errors (load_step ev st))"
  by (cases ev) (auto simp: put_loop_def note_error_def Let_def split: list.split load_loop.split)

text \<open>The sizes of the downloads that were counted as completed.\<close>

fun delivered :: "load_ev list \<Rightarrow> load \<Rightarrow> num" where
  "delivered [] st = 0"
| "delivered (ev # evs) st =
     (case ev of
        Downloaded i n \<Rightarrow> (case drop i (ld_loops st) of Loading _ # _ \<Rightarrow> n | _ \<Rightarrow> 0)
      | _ \<Rightarrow> 0) + delivered evs (load_step ev st)"

definition capped :: "num \<Rightarrow> load \<Rightarrow> bool" where
  "capped T st \<longleftrightarrow> ld_bytes st \<le> T \<and> (\<forall>seen. Loading seen \<in> set (ld_loops st) \<longrightarrow> seen \<le> T)"

fun sized_ev :: "load_ev \<Rightarrow> bool" where
  "sized_ev (Downloaded i n) = (0 \<le> n)"
| "sized_ev _ = True"

lemma capped_put: "capped T st \<Longrightarrow> (\<And>s. l = Loading s \<Longrightarrow> s \<le> T) \<Longrightarrow> capped T (put_loop i l st)"
  by (auto simp: capped_def put_loop_def dest!: set_update_subset_insert [THEN subsetD])

lemma capped_turn: "capped T st \<Longrightarrow> capped T (put_loop i (next_turn st) st)"
  by (rule capped_put) (auto simp: next_turn_def capped_def split: if_splits)

lemma capped_same: "capped T st \<Longrightarrow> ld_bytes st' = ld_bytes st \<Longrightarrow> ld_loops st' = ld_loops st \<Longrightarrow> capped T st'"
  by (simp add: capped_def)

lemma capped_step:
  assumes "capped T st" "sized_ev ev"
  shows "capped (T + delivered [ev] st) (load_step ev st)"
proof (cases ev)
  case (Downloaded i n)
  show ?thesis
  proof (cases "\<exists>seen ys. drop i (ld_loops st) = Loading seen # ys")
    case True
    then obtain seen ys where d: "drop i (ld_loops st) = Loading seen # ys" by blast
    then have "Loading seen \<in> set (ld_loops st)" using drop_loop nth_mem by metis
    then have "capped (T + n) (st\<lparr>ld_bytes := seen + n, ld_completed := ld_completed st + 1\<rparr>)"
      using assms Downloaded by (fastforce simp: capped_def)
    from capped_turn [OF this, of i] show ?thesis by (simp add: Downloaded d Let_def)
  next
    case False
    then show ?thesis using assms(1) by (auto simp: Downloaded split: list.split load_loop.split)
  qed
next
  case (Failing i x)
  have "capped T (put_loop i Ended (st\<lparr>ld_aborted := ld_aborted st + 1\<rparr>))"
    "capped T (put_loop i Pacing (st\<lparr>ld_failed := ld_failed st + 1, ld_errors := note_error x (ld_errors st)\<rparr>))"
    by (rule capped_put; use assms(1) in \<open>simp add: capped_def\<close>)+
  then show ?thesis using assms(1) by (simp add: Failing split: list.split load_loop.split)
next
  case (Paced i)
  then show ?thesis using assms(1) capped_turn by (simp split: list.split load_loop.split)
next
  case (Stop now)
  then show ?thesis using assms(1) by (simp add: capped_def)
qed

lemma delivered_Cons: "delivered (ev # evs) st = delivered [ev] st + delivered evs (load_step ev st)"
  by simp

lemma capped_run: "capped T st \<Longrightarrow> list_all sized_ev evs \<Longrightarrow> capped (T + delivered evs st) (load_run evs st)"
proof (induction evs arbitrary: T st)
  case (Cons ev evs)
  have "capped (T + delivered [ev] st + delivered evs (load_step ev st)) (load_run evs (load_step ev st))"
    by (rule Cons.IH [OF capped_step]) (use Cons.prems in auto)
  then show ?case by (simp add: delivered_Cons [of ev evs] add.assoc del: delivered.simps)
qed simp

text \<open>A single loop reads what it wrote.\<close>

definition alone :: "num \<Rightarrow> load \<Rightarrow> bool" where
  "alone T st \<longleftrightarrow> ld_bytes st = T \<and> length (ld_loops st) \<le> 1 \<and> (\<forall>seen. Loading seen \<in> set (ld_loops st) \<longrightarrow> seen = T)"

lemma alone_step:
  assumes "alone T st"
  shows "alone (T + delivered [ev] st) (load_step ev st)"
proof -
  consider "ld_loops st = []" | l where "ld_loops st = [l]"
    using assms by (cases "ld_loops st") (auto simp: alone_def)
  then show ?thesis
  proof cases
    case 1
    then show ?thesis using assms by (cases ev) (auto simp: alone_def)
  next
    case (2 l)
    show ?thesis
    proof (cases ev)
      case (Downloaded i n)
      then show ?thesis using assms 2
        by (cases i; cases l) (auto simp: alone_def put_loop_def next_turn_def Let_def)
    next
      case (Failing i x)
      then show ?thesis using assms 2 by (cases i; cases l) (auto simp: alone_def put_loop_def)
    next
      case (Paced i)
      then show ?thesis using assms 2 by (cases i; cases l) (auto simp: alone_def put_loop_def next_turn_def)
    next
      case (Stop now)
      then show ?thesis using assms by (simp add: alone_def)
    qed
  qed
qed

lemma alone_run: "alone T st \<Longrightarrow> alone (T + delivered evs st) (load_run evs st)"
proof (induction evs arbitrary: T st)
  case (Cons ev evs)
  from Cons.IH [OF alone_step [OF Cons.prems, of ev]] show ?case
    by (simp add: delivered_Cons [of ev evs] add.assoc del: delivered.simps)
qed simp

text \<open>C39: the bytes the background load reports never exceed the bytes of the downloads it counts as completed,
  and are those bytes when it has at most one loop. With two loops they can be fewer: each downloaded five,
  and five is what is reported.\<close>

theorem load_bytes:
  assumes "list_all sized_ev evs" "st = startBackground k now"
  shows "ld_bytes (load_run evs st) \<le> delivered evs st \<and> (k \<le> 1 \<longrightarrow> ld_bytes (load_run evs st) = delivered evs st)"
proof
  have "capped 0 st" by (simp add: assms(2) startBackground_def capped_def)
  from capped_run [OF this assms(1)] show "ld_bytes (load_run evs st) \<le> delivered evs st" by (simp add: capped_def)
  have "alone 0 st" if "k \<le> 1" using that by (auto simp: assms(2) startBackground_def alone_def)
  from alone_run [OF this, of evs] show "k \<le> 1 \<longrightarrow> ld_bytes (load_run evs st) = delivered evs st" by (simp add: alone_def)
qed

theorem load_bytes_witness:
  "let evs = [Downloaded 0 5, Downloaded 1 5]; st = startBackground 2 0
   in ld_bytes (load_run evs st) = 5 \<and> ld_completed (load_run evs st) = 2 \<and> delivered evs st = 10 \<and>
      ld_bytes (load_run [Downloaded 0 5, Downloaded 0 5] (startBackground 1 0)) = 10"
proof -
  have "ld_bytes (load_run [Downloaded 0 5, Downloaded 0 5] (startBackground 1 0)) =
      delivered [Downloaded 0 5, Downloaded 0 5] (startBackground 1 0)"
    using load_bytes [OF _ refl, of "[Downloaded 0 5, Downloaded 0 5]" 1 0] by simp
  then show ?thesis
    by (simp add: startBackground_def put_loop_def next_turn_def Let_def numeral_2_eq_2)
qed

text \<open>Each download that ended is counted once, as what it was.\<close>

fun ended_downloads :: "load_ev list \<Rightarrow> load \<Rightarrow> nat" where
  "ended_downloads [] st = 0"
| "ended_downloads (ev # evs) st =
     (case ev of
        Downloaded i n \<Rightarrow> (case drop i (ld_loops st) of Loading _ # _ \<Rightarrow> 1 | _ \<Rightarrow> 0)
      | Failing i x \<Rightarrow> (case drop i (ld_loops st) of Loading _ # _ \<Rightarrow> 1 | _ \<Rightarrow> 0)
      | _ \<Rightarrow> 0) + ended_downloads evs (load_step ev st)"

definition counted :: "load \<Rightarrow> nat" where
  "counted st = ld_completed st + ld_failed st + ld_aborted st"

lemma counted_step: "counted (load_step ev st) = counted st + ended_downloads [ev] st"
  by (cases ev) (simp_all add: counted_def put_loop_def Let_def split: list.split load_loop.split)

lemma counted_run: "counted (load_run evs st) = counted st + ended_downloads evs st"
proof (induction evs arbitrary: st)
  case (Cons ev evs)
  show ?case using Cons.IH [of "load_step ev st"] counted_step [of ev st] by (cases ev) simp_all
qed simp

text \<open>What \<open>stopBackground\<close> returns once the loops have ended; without a load, zeros.\<close>

record background_stats =
  bs_completed :: nat
  bs_failed :: nat
  bs_aborted :: nat
  bs_bytes :: num
  bs_seconds :: num
  bs_errors :: "jsstring list"

definition background_result :: "load option \<Rightarrow> background_stats" where
  "background_result background =
     (case background of
        None \<Rightarrow> \<lparr>bs_completed = 0, bs_failed = 0, bs_aborted = 0, bs_bytes = 0, bs_seconds = 0, bs_errors = []\<rparr>
      | Some st \<Rightarrow> \<lparr>bs_completed = ld_completed st, bs_failed = ld_failed st, bs_aborted = ld_aborted st,
          bs_bytes = ld_bytes st, bs_seconds = ld_seconds st, bs_errors = ld_errors st\<rparr>)"

lemma background_result_counts:
  assumes "r = background_result (Some (load_run evs (startBackground k now)))"
  shows "bs_completed r + bs_failed r + bs_aborted r = ended_downloads evs (startBackground k now)"
  using counted_run [of evs "startBackground k now"]
  by (simp add: assms background_result_def counted_def startBackground_def)

text \<open>After \<open>stopBackground\<close> every loop ends with its next event: nothing starts again.\<close>

fun loop_of :: "load_ev \<Rightarrow> nat option" where
  "loop_of (Downloaded i n) = Some i"
| "loop_of (Failing i x) = Some i"
| "loop_of (Paced i) = Some i"
| "loop_of (Stop now) = None"

text \<open>The event that loop \<open>i\<close> waits for.\<close>

definition awaited :: "load \<Rightarrow> load_ev \<Rightarrow> bool" where
  "awaited st ev \<longleftrightarrow> (\<exists>i < length (ld_loops st). loop_of ev = Some i \<and>
     (case ev of Paced _ \<Rightarrow> ld_loops st ! i = Pacing | _ \<Rightarrow> \<exists>seen. ld_loops st ! i = Loading seen))"

definition under_way :: "load \<Rightarrow> nat" where
  "under_way st = length (filter (\<lambda>l. l \<noteq> Ended) (ld_loops st))"

lemma update_ended: "i < length ls \<Longrightarrow> ls ! i \<noteq> Ended \<Longrightarrow>
  Suc (length (filter (\<lambda>l. l \<noteq> Ended) (ls[i := Ended]))) = length (filter (\<lambda>l. l \<noteq> Ended) ls)"
  by (induction ls arbitrary: i) (auto split: nat.split simp: less_Suc_eq_0_disj)

lemma stop_drains:
  assumes "ld_stopping st" "awaited st ev"
  shows "ld_stopping (load_step ev st) \<and> Suc (under_way (load_step ev st)) = under_way st"
proof -
  obtain i where i: "i < length (ld_loops st)" "loop_of ev = Some i" "ld_loops st ! i \<noteq> Ended"
    "case ev of Paced _ \<Rightarrow> ld_loops st ! i = Pacing | _ \<Rightarrow> \<exists>seen. ld_loops st ! i = Loading seen"
    using assms(2) unfolding awaited_def by (cases ev) auto
  then have "drop i (ld_loops st) = ld_loops st ! i # drop (Suc i) (ld_loops st)" by (simp add: Cons_nth_drop_Suc)
  then have "ld_stopping (load_step ev st) \<and> ld_loops (load_step ev st) = (ld_loops st)[i := Ended]"
    using assms(1) i by (cases ev) (auto simp: put_loop_def next_turn_def Let_def)
  then show ?thesis using update_ended [OF i(1,3)] by (simp add: under_way_def)
qed

lemma stopped_iff: "stopped st \<longleftrightarrow> ld_stopping st \<and> under_way st = 0"
  by (auto simp: stopped_def under_way_def list_all_iff filter_empty_conv)

section \<open>Foreground arrivals\<close>

text \<open>The generator of \<open>arrivals\<close>: \<open>Math.imul\<close> and \<open>>>> 0\<close> are arithmetic on 32-bit words.\<close>

definition lcg :: "32 word \<Rightarrow> 32 word" where
  "lcg s = s * 1103515245 + 12345"

definition unit_interval :: "32 word \<Rightarrow> num" where
  "unit_interval s = of_nat (unat s) / 2 ^ 32"

text \<open>\<open>logarithm\<close> is \<open>Math.log\<close>; times are in milliseconds.\<close>

fun arrivals_from :: "(num \<Rightarrow> num) \<Rightarrow> num \<Rightarrow> nat \<Rightarrow> 32 word \<Rightarrow> num \<Rightarrow> num list" where
  "arrivals_from logarithm rateHz 0 s t = []"
| "arrivals_from logarithm rateHz (Suc n) s t =
     (let s' = lcg s;
          t' = t + - logarithm (1 - unit_interval s' * (999999 / 1000000)) / (rateHz / 1000)
      in t' # arrivals_from logarithm rateHz n s' t')"

definition arrivals :: "(num \<Rightarrow> num) \<Rightarrow> nat \<Rightarrow> num \<Rightarrow> int \<Rightarrow> num list" where
  "arrivals logarithm n rateHz seed = arrivals_from logarithm rateHz n (word_of_int seed) 0"

lemma unit_interval_bounds: "0 \<le> unit_interval s" "unit_interval s < 1"
proof -
  have "(of_nat (unat s) :: num) < of_nat (2 ^ 32)"
    unfolding of_nat_less_iff using unsigned_less [of s, where ?'a = nat] by simp
  moreover have "0 \<le> (of_nat (unat s) :: num)" by (rule of_nat_0_le_iff)
  ultimately show "0 \<le> unit_interval s" "unit_interval s < 1" by (simp_all add: unit_interval_def)
qed

text \<open>The logarithm is never taken outside \<open>(0, 1]\<close>, where it is not positive, so no request is due before
  the one before it.\<close>

definition falling :: "(num \<Rightarrow> num) \<Rightarrow> bool" where
  "falling logarithm \<longleftrightarrow> (\<forall>x. 0 < x \<and> x \<le> 1 \<longrightarrow> logarithm x \<le> 0)"

lemma arrivals_from_sorted:
  "falling logarithm \<Longrightarrow> 0 < rateHz \<Longrightarrow>
    sorted (arrivals_from logarithm rateHz n s t) \<and> (\<forall>x \<in> set (arrivals_from logarithm rateHz n s t). t \<le> x)"
proof (induction n arbitrary: s t)
  case (Suc n)
  let ?u = "1 - unit_interval (lcg s) * (999999 / 1000000)"
  let ?t = "t + - logarithm ?u / (rateHz / 1000)"
  have "0 < ?u" "?u \<le> 1" using unit_interval_bounds [of "lcg s"] by simp_all
  then have "logarithm ?u \<le> 0" using Suc.prems(1) by (simp add: falling_def)
  then have "0 \<le> - logarithm ?u / (rateHz / 1000)" using Suc.prems(2) by (intro divide_nonneg_pos) simp_all
  then have "t \<le> ?t" by simp
  then show ?case using Suc.IH [OF Suc.prems, of "lcg s" ?t] by (auto simp: Let_def)
qed simp

lemma arrivals_sorted:
  assumes "falling logarithm" "0 < rateHz"
  shows "sorted (arrivals logarithm n rateHz seed)" "\<forall>x \<in> set (arrivals logarithm n rateHz seed). 0 \<le> x"
  using arrivals_from_sorted [OF assms] by (auto simp: arrivals_def)

lemma arrivals_length: "length (arrivals logarithm n rateHz seed) = n"
proof -
  have "length (arrivals_from logarithm rateHz n s t) = n" for s t by (induction n arbitrary: s t) (simp_all add: Let_def)
  then show ?thesis by (simp add: arrivals_def)
qed

section \<open>The measured window\<close>

record window =
  wn_ms :: "num list"
  wn_failed :: nat
  wn_bytes :: num
  wn_errors :: "jsstring list"

definition new_window :: window where
  "new_window = \<lparr>wn_ms = [], wn_failed = 0, wn_bytes = 0, wn_errors = []\<rparr>"

text \<open>The asset of arrival \<open>i\<close>.\<close>

definition cycled :: "jsstring list \<Rightarrow> nat \<Rightarrow> jsstring" where
  "cycled ids i = ids ! (i mod length ids)"

text \<open>How a request of the window ends: its time and size, or an error. Here the size is added after the wait.\<close>

fun window_step :: "(num \<times> num) + jsstring \<Rightarrow> window \<Rightarrow> window" where
  "window_step (Inl (ms, n)) w = w\<lparr>wn_ms := wn_ms w @ [ms], wn_bytes := wn_bytes w + n\<rparr>"
| "window_step (Inr x) w = w\<lparr>wn_failed := wn_failed w + 1, wn_errors := note_error x (wn_errors w)\<rparr>"

definition foreground :: "((num \<times> num) + jsstring) list \<Rightarrow> window" where
  "foreground ends = fold window_step ends new_window"

text \<open>The tally of protocols: entries of Resource Timing as start, name and protocol.\<close>

definition contains :: "'a list \<Rightarrow> 'a list \<Rightarrow> bool" where
  "contains s p \<longleftrightarrow> list_ex (\<lambda>i. startsWith (drop i s) p) [0..<length s + 1]"

definition in_window :: "num \<Rightarrow> jsstring \<Rightarrow> num \<times> jsstring \<times> jsstring \<Rightarrow> bool" where
  "in_window from_ms h3Url = (\<lambda>(start, name, proto).
     start \<ge> from_ms \<and> startsWith name h3Url \<and> contains name (js ''fg=''))"

definition count_protocol :: "jsstring \<Rightarrow> (jsstring, nat) jsmap \<Rightarrow> (jsstring, nat) jsmap" where
  "count_protocol proto m =
     (let k = (if proto = [] then js ''unknown'' else proto)
      in jm_set k (or_default (jm_get m k) 0 + 1) m)"

definition protocols :: "num \<Rightarrow> jsstring \<Rightarrow> (num \<times> jsstring \<times> jsstring) list \<Rightarrow> (jsstring, nat) jsmap" where
  "protocols from_ms h3Url entries =
     fold (\<lambda>(start, name, proto). count_protocol proto) (filter (in_window from_ms h3Url) entries) []"

text \<open>Every request that ended is counted once, its bytes too, and every entry of the window.\<close>

lemma foreground_accounts:
  "length (wn_ms (foreground ends)) + wn_failed (foreground ends) = length ends"
  "wn_bytes (foreground ends) = sum_list (map (\<lambda>x. case x of Inl (ms, n) \<Rightarrow> n | Inr _ \<Rightarrow> 0) ends)"
proof -
  have "length (wn_ms (fold window_step ends w)) + wn_failed (fold window_step ends w) = length (wn_ms w) + wn_failed w + length ends \<and>
    wn_bytes (fold window_step ends w) = wn_bytes w + sum_list (map (\<lambda>x. case x of Inl (ms, n) \<Rightarrow> n | Inr _ \<Rightarrow> 0) ends)" for w
  proof (induction ends arbitrary: w)
    case (Cons x ends)
    then show ?case by (cases x) (auto split: prod.split)
  qed simp
  then show "length (wn_ms (foreground ends)) + wn_failed (foreground ends) = length ends"
    "wn_bytes (foreground ends) = sum_list (map (\<lambda>x. case x of Inl (ms, n) \<Rightarrow> n | Inr _ \<Rightarrow> 0) ends)"
    by (simp_all add: foreground_def new_window_def)
qed

lemma sum_update_count:
  "sum_list (map snd (AList.update k (or_default (map_of m k) 0 + 1) m)) = sum_list (map snd m) + (1::nat)"
  by (induction m) (auto simp: or_default_def)

lemma protocols_count:
  "sum_list (map snd (protocols from_ms h3Url entries)) = length (filter (in_window from_ms h3Url) entries)"
proof -
  have "sum_list (map snd (fold (\<lambda>(start, name, proto). count_protocol proto) xs m)) = sum_list (map snd m) + length xs"
    for xs :: "(num \<times> jsstring \<times> jsstring) list" and m
    by (induction xs arbitrary: m)
       (auto simp: count_protocol_def Let_def jm_set_def jm_get_def sum_update_count simp del: One_nat_def)
  then show ?thesis by (simp add: protocols_def)
qed

end
