(* ===== verification/Sandbox.thy ===== *)
theory Sandbox
  imports Fetcher
begin

text \<open>
  The sandbox page (\<open>client/src/main.ts\<close>): the datagram echo that checks connectivity, and what the page
  publishes. The network and the clock are the environment: an echo attempt ends with what the pending read
  or the timer gave.
\<close>

section \<open>The echo\<close>

definition ATTEMPTS :: nat where "ATTEMPTS = 25"
definition ATTEMPT_TIMEOUT_MS :: num where "ATTEMPT_TIMEOUT_MS = 200"

datatype echo_error = StreamOver | EchoWas "byte list" | NoEcho nat | Raised jsstring

datatype echo_result = EchoOk nat int num | EchoFailed echo_error

text \<open>How one attempt ends: the timer, the end of the datagram stream, a datagram, an exception.\<close>

datatype echo_read = TimedOut | Finished | Got "byte list" | Threw jsstring

text \<open>\<open>Math.round\<close>.\<close>

definition round_ms :: "num \<Rightarrow> int" where
  "round_ms x = \<lfloor>x + 1 / 2\<rfloor>"

text \<open>The decoder is not fatal, but a replacement character is not in the text it is compared with.\<close>

definition is_ping :: "byte list \<Rightarrow> bool" where
  "is_ping b \<longleftrightarrow> utf8_decode b = Some (js ''ping'')"

text \<open>The reads with the time each came; \<open>n\<close> is the attempt.\<close>

fun echo_loop :: "num \<Rightarrow> num \<Rightarrow> nat \<Rightarrow> (echo_read \<times> num) list \<Rightarrow> echo_result" where
  "echo_loop start sz n [] = EchoFailed (NoEcho ATTEMPTS)"
| "echo_loop start sz n ((r, now) # rs) =
     (case r of
        TimedOut \<Rightarrow> echo_loop start sz (n + 1) rs
      | Finished \<Rightarrow> EchoFailed StreamOver
      | Got b \<Rightarrow> if is_ping b then EchoOk n (round_ms (now - start)) sz else EchoFailed (EchoWas b)
      | Threw x \<Rightarrow> EchoFailed (Raised x))"

definition echoOnce :: "num \<Rightarrow> num \<Rightarrow> (echo_read \<times> num) list \<Rightarrow> echo_result" where
  "echoOnce start sz reads = echo_loop start sz 1 (take ATTEMPTS reads)"

text \<open>\<open>runEcho\<close>: an exception on the way to the session is a result too.\<close>

definition runEcho :: "jsstring option \<Rightarrow> num \<Rightarrow> num \<Rightarrow> (echo_read \<times> num) list \<Rightarrow> echo_result" where
  "runEcho refused start sz reads =
     (case refused of Some x \<Rightarrow> EchoFailed (Raised x) | None \<Rightarrow> echoOnce start sz reads)"

lemma echo_loop_ok:
  "echo_loop start sz n rs = EchoOk m rtt sz' \<longleftrightarrow>
     (\<exists>k < length rs. \<exists>b. fst (rs ! k) = Got b \<and> is_ping b \<and> (\<forall>j < k. fst (rs ! j) = TimedOut) \<and>
        m = n + k \<and> rtt = round_ms (snd (rs ! k) - start) \<and> sz' = sz)"
proof (induction rs arbitrary: n)
  case (Cons x rs)
  obtain r now where x: "x = (r, now)" by fastforce
  have late: "(\<exists>k < length (x # rs). \<exists>b. fst ((x # rs) ! k) = Got b \<and> is_ping b \<and> (\<forall>j < k. fst ((x # rs) ! j) = TimedOut) \<and>
        m = n + k \<and> rtt = round_ms (snd ((x # rs) ! k) - start) \<and> sz' = sz) \<longleftrightarrow>
      (\<exists>k < length rs. \<exists>b. fst (rs ! k) = Got b \<and> is_ping b \<and> (\<forall>j < k. fst (rs ! j) = TimedOut) \<and>
        m = n + 1 + k \<and> rtt = round_ms (snd (rs ! k) - start) \<and> sz' = sz)" if "r = TimedOut"
    unfolding Ex_less_Suc2 length_Cons using that x by (auto simp: All_less_Suc2)
  show ?case
  proof (cases "r = TimedOut")
    case True
    show ?thesis unfolding late [OF True] using Cons.IH [of "n + 1"] True x by simp
  next
    case False
    then show ?thesis unfolding Ex_less_Suc2 length_Cons x by (cases r) (auto simp: All_less_Suc2)
  qed
qed simp

text \<open>The echo succeeds exactly when the first read that is not a timer within the attempts is a ping.\<close>

lemma echo_exact:
  "echoOnce start sz reads = EchoOk m rtt sz' \<longleftrightarrow>
     (\<exists>k < min ATTEMPTS (length reads). \<exists>b. fst (reads ! k) = Got b \<and> is_ping b \<and> (\<forall>j < k. fst (reads ! j) = TimedOut) \<and>
        m = k + 1 \<and> rtt = round_ms (snd (reads ! k) - start) \<and> sz' = sz)"
  unfolding echoOnce_def echo_loop_ok by (intro ex_cong1) auto

section \<open>The page\<close>

datatype http4_slot = SessionOpen | SessionError jsstring

record sandbox =
  sb_echo :: "echo_result"
  sb_http4 :: http4_slot
  sb_status :: jsstring
  sb_ok :: "jsstring option"

text \<open>\<open>loadConfig\<close>: the request fails, a status, or a body that parses to a config or not.\<close>

datatype 'a config_answer = Unreachable jsstring | Replies nat "jsstring + 'a"

definition loadConfig :: "'a config_answer \<Rightarrow> jsstring + 'a" where
  "loadConfig a =
     (case a of
        Unreachable x \<Rightarrow> Inl x
      | Replies st body \<Rightarrow>
          if 200 \<le> st \<and> st \<le> 299 then body else Inl (js ''GET /config.json: '' @ decimal st))"

definition echo_status :: "(echo_error \<Rightarrow> jsstring) \<Rightarrow> (num \<Rightarrow> jsstring) \<Rightarrow> echo_result \<Rightarrow> jsstring" where
  "echo_status msg shown r =
     (case r of
        EchoOk n rtt sz \<Rightarrow> js ''echo ok in '' @ shown (of_int rtt) @ js '' ms ('' @ decimal n @
          js '' attempt(s)), maxDatagramSize '' @ shown sz
      | EchoFailed x \<Rightarrow> js ''echo failed: '' @ msg x)"

text \<open>\<open>main\<close>: \<open>atob_hash\<close> is \<open>base64ToBytes\<close> of the config's hash, \<open>session\<close> how opening the HTTP4 session ended;
  \<open>msg\<close> gives the messages of errors, \<open>shown\<close> numbers. A hash that is not base64 ends \<open>main\<close> with nothing
  published: \<open>None\<close>.\<close>

definition sandbox_page ::
    "(echo_error \<Rightarrow> jsstring) \<Rightarrow> (num \<Rightarrow> jsstring) \<Rightarrow> 'a config_answer \<Rightarrow> ('a \<Rightarrow> byte list option) \<Rightarrow>
      ('a \<Rightarrow> byte list \<Rightarrow> echo_result) \<Rightarrow> ('a \<Rightarrow> byte list \<Rightarrow> jsstring option) \<Rightarrow> sandbox option" where
  "sandbox_page msg shown answer atob_hash echo session =
     (case loadConfig answer of
        Inl x \<Rightarrow> Some \<lparr>sb_echo = EchoFailed (Raised x), sb_http4 = SessionError x, sb_status = x, sb_ok = None\<rparr>
      | Inr cfg \<Rightarrow>
          (case atob_hash cfg of
             None \<Rightarrow> None
           | Some hash \<Rightarrow>
               let r = echo cfg hash;
                   ok = (case r of EchoOk _ _ _ \<Rightarrow> True | EchoFailed _ \<Rightarrow> False);
                   s = echo_status msg shown r;
                   (slot, text_content) =
                     (case session cfg hash of
                        None \<Rightarrow> (SessionOpen, s @ 0x20 # 0xB7 # js '' HTTP4 session open'')
                      | Some x \<Rightarrow> (SessionError x, s))
               in Some \<lparr>sb_echo = r, sb_http4 = slot, sb_status = text_content,
                    sb_ok = Some (if ok then js ''true'' else js ''false'')\<rparr>))"

text \<open>The session is tried whenever there is a config with a hash that decodes, whatever the echo gave, and only
  then; without a readable config both results say why.\<close>

lemma sandbox_session:
  "(\<exists>p. sandbox_page msg shown answer atob_hash echo session = Some p \<and> sb_http4 p = SessionOpen) \<longleftrightarrow>
     (\<exists>cfg hash. loadConfig answer = Inr cfg \<and> atob_hash cfg = Some hash \<and> session cfg hash = None)"
  by (auto simp: sandbox_page_def Let_def split: sum.split option.split)

lemma sandbox_unconfigured:
  "loadConfig answer = Inl x \<Longrightarrow> \<exists>p. sandbox_page msg shown answer atob_hash echo session = Some p \<and>
     sb_echo p = EchoFailed (Raised x) \<and> sb_http4 p = SessionError x"
  by (simp add: sandbox_page_def)

end
