(* ===== verification/Once.thy ===== *)
theory Once
  imports Answers
begin

text \<open>
  Nothing is answered twice (\<open>client/src/transport.ts\<close>), whatever the server sends: sizes that change, pieces that
  do not fit, errors in the middle of a body. An operation that holds a transfer of the request may still
  answer it when it is not settled, and may still end its stream; \<open>due\<close> is what it can rely on meanwhile. The
  flag tells whether the request has been made.
\<close>

section \<open>The invariant\<close>

definition unsaid :: "transfer \<Rightarrow> effect list \<Rightarrow> bool" where
  "unsaid t lg \<longleftrightarrow> endings lg = [] \<and> (tr_settled t \<or> answers lg = [])"

definition counts :: "int \<Rightarrow> bool \<Rightarrow> client \<Rightarrow> bool" where
  "counts rpc b c \<longleftrightarrow> keyed c \<and> length (answers (log_of rpc c)) \<le> of_bool b \<and> length (endings (log_of rpc c)) \<le> of_bool b"

definition open_ok :: "int \<Rightarrow> bool \<Rightarrow> client \<Rightarrow> bool" where
  "open_ok rpc b c \<longleftrightarrow> (case jm_get (cl_transfers c) rpc of None \<Rightarrow> True | Some t \<Rightarrow> b \<and> unsaid t (log_of rpc c))"

definition once :: "int \<Rightarrow> bool \<Rightarrow> client \<Rightarrow> bool" where
  "once rpc b c \<longleftrightarrow> counts rpc b c \<and> open_ok rpc b c"

text \<open>The transfer at hand goes back into the table, or it has left it.\<close>

definition due :: "int \<Rightarrow> bool \<Rightarrow> transfer \<Rightarrow> client \<Rightarrow> bool" where
  "due rpc b t c \<longleftrightarrow> counts rpc b c \<and> (if tr_rpc t = rpc then b \<and> unsaid t (log_of rpc c) else open_ok rpc b c)"

lemma once_core: "core c = core d \<Longrightarrow> once rpc b c = once rpc b d"
proof -
  assume c: "core c = core d"
  have l: "log_of rpc c = log_of rpc d" using c by (simp add: log_of_core)
  have "map_option core_of (jm_get (cl_transfers c) rpc) = map_option core_of (jm_get (cl_transfers d) rpc)"
    using c by (metis caller.core_get)
  then have "open_ok rpc b c = open_ok rpc b d" unfolding open_ok_def unsaid_def l
    by (cases "jm_get (cl_transfers c) rpc"; cases "jm_get (cl_transfers d) rpc")
       (auto simp: core_of_def dest: arg_cong [where f = tr_settled])
  then show ?thesis using caller.keyed_cong [OF c] l by (simp add: once_def counts_def)
qed

lemma once_keyed: "once rpc b c \<Longrightarrow> keyed c"
  by (simp add: once_def counts_def)

lemma due_same: "tr_rpc t' = tr_rpc t \<Longrightarrow> tr_settled t' = tr_settled t \<Longrightarrow> due rpc b t' c = due rpc b t c"
  by (simp add: due_def unsaid_def)

lemma due_rest: "cl_transfers d = cl_transfers c \<Longrightarrow> log_of rpc d = log_of rpc c \<Longrightarrow> due rpc b t d = due rpc b t c"
  by (simp add: due_def counts_def open_ok_def keyed_def cong: option.case_cong)

lemma once_due: "once rpc b c \<Longrightarrow> jm_get (cl_transfers c) (tr_rpc t) = Some t \<Longrightarrow> due rpc b t c"
  by (cases "tr_rpc t = rpc"; cases b) (simp_all add: once_def due_def open_ok_def)

lemma due_put: "due rpc b t c \<Longrightarrow> once rpc b (put_transfer t c)"
  by (auto simp: due_def once_def counts_def open_ok_def put_transfer_def keyed_def log_of_def split: if_splits option.splits)

lemma due_start:
  assumes "due rpc b t c"
  shows "due rpc b (fst (maybeStart t c)) (snd (maybeStart t c))"
  using assms
  by (auto simp: maybeStart_def due_def counts_def open_ok_def unsaid_def keyed_def log_of_emit split: option.split if_splits)

lemma due_flush:
  assumes "due rpc b t c"
  shows "due rpc b (fst (flushStream e t c)) (snd (flushStream e t c))"
proof -
  have e: "due rpc b t (emit (Enqueue r x) c) = due rpc b t c" for r x
    by (simp add: due_def counts_def open_ok_def unsaid_def keyed_def log_of_emit cong: option.case_cong)
  have "due rpc b t (snd (flush_chunk t st a c))" for st a
    using assms by (simp add: flush_chunk_def Let_def e)
  moreover have "due rpc b t (upd_stats f (c'\<lparr>cl_sched := s\<rparr>)) = due rpc b t c'" for f c' s
    by (rule due_rest) (simp_all add: upd_stats_def log_of_def)
  ultimately have "due rpc b t (snd (flushStream e t c))"
    using assms by (simp add: flushStream_def Let_def split_def split: option.split)
  then show ?thesis by (subst due_same [of _ t]) (simp_all add: flush_same)
qed

text \<open>\<open>finish\<close> takes the transfer out of the table, then ends its stream and settles it.\<close>


lemma once_finish:
  assumes "due rpc b t c"
  shows "once rpc b (finish_core e t err c)"
proof -
  define c1 where "c1 = c\<lparr>cl_transfers := jm_delete (tr_rpc t) (cl_transfers c), cl_sched := sched_remove (tr_rpc t) (cl_sched c)\<rparr>"
  define r where "r = (if err = None then flushStream e t c1 else (t, c1))"
  have "due rpc b t c1"
    using assms by (auto simp: due_def counts_def open_ok_def keyed_def c1_def log_of_def split: option.splits)
  then have d: "due rpc b (fst r) (snd r)" using due_flush by (simp add: r_def)
  have g: "jm_get (cl_transfers (snd r)) (tr_rpc (fst r)) = None"
    using flush_log [of e t c1] by (auto simp: r_def c1_def flush_same)
  have s: "once rpc b (settle_transfer err u (close_stream err u d))"
    if "due rpc b u d" "jm_get (cl_transfers d) (tr_rpc u) = None" for u d
  proof (cases "tr_rpc u = rpc")
    case True
    then show ?thesis using that
      by (auto simp: settle_transfer_def close_stream_def once_def due_def counts_def open_ok_def unsaid_def keyed_def
          log_of_emit answers_def endings_def split: option.split)
  next
    case False
    then show ?thesis using that
      by (auto simp: settle_transfer_def close_stream_def once_def due_def counts_def open_ok_def keyed_def
          log_of_emit split: option.split)
  qed
  have "finish_core e t err c = settle_transfer err (fst r) (close_stream err (fst r) (snd r))"
    by (simp add: finish_core_def Let_def split_def r_def c1_def)
  with s [OF d g] show ?thesis by simp
qed

section \<open>Operations\<close>

abbreviation tells :: "int \<Rightarrow> bool \<Rightarrow> unit act \<Rightarrow> bool" where
  "tells rpc b \<equiv> upholding (once rpc b) (once rpc b)"

named_theorems handles \<open>actions on a transfer that was just looked up\<close>

definition handling :: "int \<Rightarrow> bool \<Rightarrow> transfer \<Rightarrow> unit act \<Rightarrow> bool" where
  "handling rpc b t m \<longleftrightarrow> hold (\<lambda>c. once rpc b c \<and> due rpc b t c) m (once rpc b) (once rpc b)"

lemma handling_keep: "tells rpc b m \<Longrightarrow> handling rpc b t m"
  unfolding handling_def upholding_def by (rule hold_pre [where P' = "once rpc b"]) simp_all

lemma handling_do [handles]: "(\<And>c. due rpc b t c \<Longrightarrow> once rpc b (f c)) \<Longrightarrow> handling rpc b t (doA f)"
  unfolding handling_def by (rule hold_do) simp

lemma handling_ret [handles]: "handling rpc b t (retA ())"
  by (rule handling_keep) (rule upholding_ret)

lemma handling_then [handles]: "handling rpc b t m \<Longrightarrow> tells rpc b n \<Longrightarrow> handling rpc b t (thenA m n)"
  unfolding handling_def upholding_def by (rule hold_then)

lemma handling_read [handles]: "(\<And>d. handling rpc b t (f d)) \<Longrightarrow> handling rpc b t (readA f)"
  unfolding handling_def by (rule hold_read, rule hold_pre [where P' = "\<lambda>c. once rpc b c \<and> due rpc b t c"]) auto

lemma handling_when [handles]: "(p \<Longrightarrow> handling rpc b t m) \<Longrightarrow> handling rpc b t (whenA p m)"
  by (simp add: whenA_def handling_ret)

lemma handling_if [handles]: "(p \<Longrightarrow> handling rpc b t m) \<Longrightarrow> (\<not> p \<Longrightarrow> handling rpc b t n) \<Longrightarrow> handling rpc b t (if p then m else n)"
  by simp

lemma tells_quiet: "quiet m \<Longrightarrow> tells rpc b m"
proof -
  assume q: "quiet m"
  have "once rpc b (snd (m c))" if k: "once rpc b c" for c
    using caller.quiet_core [OF q once_keyed [OF k]] once_core k by blast
  then show ?thesis unfolding upholding_def hold_def by (auto split: prod.split sum.split) (metis snd_conv)+
qed

lemmas tells_quietly [upholds] = tells_quiet [OF caller.quiet_detect] tells_quiet [OF caller.quiet_probe]
  tells_quiet [OF caller.quiet_detect_seq] tells_quiet [OF caller.quiet_pump] tells_quiet [OF caller.quiet_hello]
  tells_quiet [OF caller.quiet_send] tells_quiet [OF quiet_again] tells_quiet [OF quiet_note_reply]
  tells_quiet [OF quiet_pull] tells_quiet [OF quiet_arrived]

lemma once_rest [simp]:
  "once rpc b (c\<lparr>cl_ticker := v1\<rparr>) = once rpc b c" "once rpc b (c\<lparr>cl_reading := v2\<rparr>) = once rpc b c"
  "once rpc b (c\<lparr>cl_closed := v3\<rparr>) = once rpc b c" "once rpc b (c\<lparr>cl_sessionClosed := v4\<rparr>) = once rpc b c"
  "once rpc b (upd_stats f c) = once rpc b c"
  by (rule once_core; simp)+

lemma tells_transfer [upholds]:
  assumes "\<And>t. tr_rpc t = r \<Longrightarrow> handling rpc b t (f t)"
  shows "tells rpc b (with_transfer r f)"
  unfolding upholding_def
proof (rule hold_transfer)
  fix t
  show "hold (\<lambda>c. once rpc b c \<and> jm_get (cl_transfers c) r = Some t) (f t) (once rpc b) (once rpc b)"
  proof (cases "tr_rpc t = r")
    case True
    then show ?thesis using assms [OF True] once_due unfolding handling_def by (elim hold_pre) blast
  next
    case False
    then show ?thesis using once_keyed keyed_get by (fastforce simp: hold_def)
  qed
qed simp

lemma handling_finish [handles]: "handling rpc b t (finish e t err)"
  unfolding finish_def by (intro handles once_finish tells_quietly)

lemma handling_finish_same [handles]:
  "tr_rpc t' = tr_rpc t \<Longrightarrow> tr_settled t' = tr_settled t \<Longrightarrow> handling rpc b t (finish e t' err)"
  using handling_finish [of rpc b t' e err] due_same [of t' t rpc b] by (simp add: handling_def)

lemma tells_fail [upholds]: "tells rpc b (failAll e x)"
  unfolding failAll_def by (intro upholds handles) simp_all

lemma due_timing [simp]:
  "due rpc b t (upd_stats f c) = due rpc b t c" "due rpc b t (lossBackoff now c) = due rpc b t c"
  "due rpc b t (noteSpurious now c) = due rpc b t c" "due rpc b t (c\<lparr>cl_sched := s\<rparr>) = due rpc b t c"
  "due rpc b t (c\<lparr>cl_budget := v\<rparr>) = due rpc b t c" "due rpc b t (c\<lparr>cl_payloadSeen := p\<rparr>) = due rpc b t c"
  "due rpc b t (c\<lparr>cl_initialRto := v1, cl_lastBackoffAt := v2\<rparr>) = due rpc b t c"
  by (rule due_rest; simp add: lossBackoff_def Let_def log_of_def upd_stats_def noteSpurious_def)+

lemma handling_put [handles]:
  "tr_rpc t' = tr_rpc t \<Longrightarrow> tr_settled t' = tr_settled t \<Longrightarrow> handling rpc b t (doA (put_transfer t'))"
  using due_same [of t' t rpc b] by (intro handling_do due_put) simp

lemma tells_recover [upholds]: "tells rpc b (recover e r granted)"
proof -
  have "once rpc b (recover_prepare e (t\<lparr>tr_recoveries := n\<rparr>) c)" if "due rpc b t c" for t n c
    using that due_same [of "t\<lparr>tr_recoveries := n, tr_probe := None, tr_lastProgress := ev_now e\<rparr>" t rpc b]
    unfolding recover_prepare_def Let_def by (intro due_put) simp
  then show ?thesis unfolding recover_def Let_def by (intro upholds handles) simp_all
qed

lemma tells_tick_transfer [upholds]: "tells rpc b (tick_transfer e r)"
  unfolding tick_transfer_def Let_def by (intro upholds handles handling_keep) simp_all

lemma tells_tick [upholds]: "tells rpc b (tick e)"
  unfolding tick_def by (intro upholds) simp

section \<open>Datagrams\<close>

lemma due_start_body: "due rpc b t c \<Longrightarrow> once rpc b (start_body t c)"
  using due_put [OF due_start] by (simp add: start_body_def split_def Let_def)

lemma tells_meta [upholds]: "tells rpc b (handle_meta e r flds)"
proof -
  have "once rpc b (start_body (t\<lparr>tr_headers := h, tr_lastProgress := n, tr_recoveries := 0\<rparr>) c)" if "due rpc b t c" for t h n c
    using that due_same [of "t\<lparr>tr_headers := h, tr_lastProgress := n, tr_recoveries := 0\<rparr>" t rpc b]
    by (intro due_start_body) simp
  then show ?thesis unfolding handle_meta_def by (intro upholds handles) simp_all
qed

lemma due_progress:
  assumes "due rpc b t c"
  shows "due rpc b (fst (probe_hit e n t c)) (snd (probe_hit e n t c))"
    "due rpc b (fst (progress e fresh t c)) (snd (progress e fresh t c))"
  using assms due_same [of "t\<lparr>tr_probe := None\<rparr>" t rpc b]
    due_same [of "t\<lparr>tr_lastProgress := ev_now e, tr_recoveries := 0, tr_tailProbed := False\<rparr>" t rpc b]
  by (simp_all add: probe_hit_def progress_def Let_def split: option.split)

lemma once_data_arrived:
  assumes "due rpc b t c"
  shows "once rpc b (data_arrived e off p fresh a rp t c)"
proof -
  have "due rpc b (t\<lparr>tr_asm := Some a\<rparr>) c" using assms due_same [of "t\<lparr>tr_asm := Some a\<rparr>" t rpc b] by simp
  then show ?thesis unfolding data_arrived_def Let_def split_def
    by (intro due_put due_flush due_start due_progress) (simp add: count_payload_def Let_def)
qed

lemma tells_payload [upholds]: "tells rpc b (take_payload e r off p)"
  unfolding take_payload_def
proof (rule tells_transfer)
  fix t
  have "tells rpc b (with_transfer r (\<lambda>t.
      if (case tr_asm t of None \<Rightarrow> False | Some a \<Rightarrow> asm_complete a) \<and> tr_headers t \<noteq> None
      then finish e t None
      else whenA (since (ev_now e) (tr_lastDetect t) DETECT_INTERVAL_MS) (detectLoss e r)))"
    by (intro upholds handles handling_keep)
  then show "handling rpc b t (case (tr_asm t, tr_repair t) of
       (Some a, Some rp) \<Rightarrow>
         (case asm_add off p a of
            Inl _ \<Rightarrow> finish e t (Some ReassemblyRangeError)
          | Inr (fresh, a') \<Rightarrow>
              thenA (doA (data_arrived e off p fresh a' rp t))
               (with_transfer r (\<lambda>t.
                  if (case tr_asm t of None \<Rightarrow> False | Some a \<Rightarrow> asm_complete a) \<and> tr_headers t \<noteq> None
                  then finish e t None
                  else whenA (since (ev_now e) (tr_lastDetect t) DETECT_INTERVAL_MS) (detectLoss e r))))
     | _ \<Rightarrow> retA ())"
    by (auto split: option.splits sum.split simp del: not_None_eq intro!: handles once_data_arrived)
qed

lemma once_open: "due rpc b t c \<Longrightarrow> once rpc b (open_body tot t c)"
  using due_same [of "t\<lparr>tr_asm := Some (new_reassembly tot), tr_repair := Some new_repair\<rparr>" t rpc b]
  unfolding open_body_def by (intro due_put) simp

lemma tells_data [upholds]: "tells rpc b (handle_data e r tot off p)"
  unfolding handle_data_def
proof (rule tells_transfer)
  fix t
  have "handling rpc b t (thenA (doA (open_body tot t)) (take_payload e r off p))" by (intro handles once_open tells_payload)
  moreover have "handling rpc b t (finish e t x)" "handling rpc b t (take_payload e r off p)" for x
    by (intro handles, intro handling_keep tells_payload)
  ultimately show "handling rpc b t (case tr_asm t of
       None \<Rightarrow> thenA (doA (open_body tot t)) (take_payload e r off p)
     | Some a \<Rightarrow>
         if tot \<noteq> asm_size a then finish e t (Some (Http4Error TotalSizeChanged None))
         else take_payload e r off p)"
    by (simp split: option.split)
qed

lemma tells_deliver [upholds]: "tells rpc b (deliver e p)"
  unfolding deliver_def
  by (rule tells_transfer) (cases p; simp; intro handles handling_keep upholds; simp)

lemma tells_handle [upholds]: "tells rpc b (handle e p)"
  by (cases p) (simp_all add: handle_def upholds)

lemma tells_throw [upholds]: "tells rpc b (throwA x)"
  unfolding upholding_def by (intro hold_throw)

lemma tells_catch [upholds]: "tells rpc b m \<Longrightarrow> (\<And>x. tells rpc b (h x)) \<Longrightarrow> tells rpc b (catchA m h)"
  unfolding upholding_def by (rule hold_catch)

lemma tells_read_one [upholds]: "tells rpc b (read_one e d)"
  unfolding read_one_def
  by (intro upholds) (auto split: sum.split wire_error.split intro!: upholds)

lemma tells_receive [upholds]: "tells rpc b (receive e d)"
  unfolding receive_def by (intro upholds) simp

section \<open>Requests\<close>

lemma once_made: "once rpc False c \<Longrightarrow> once rpc True c"
  by (auto simp: once_def counts_def open_ok_def split: option.splits)

text \<open>A request for another id says nothing about this one.\<close>

lemma tells_other_start:
  assumes "r \<noteq> rpc"
  shows "tells rpc b (start_request e r aid streaming cls)"
proof -
  have p: "once rpc b (put_transfer (new_transfer now r aid streaming cls g c') c)" if "once rpc b c" for now g c c'
    using that assms by (intro due_put) (simp add: due_def once_def new_transfer_def)
  have e: "once rpc b (emit (RejectWith r x) c)" if "once rpc b c" for x c
    using that assms by (simp add: once_def counts_def open_ok_def keyed_def log_of_emit cong: option.case_cong)
  show ?thesis unfolding start_request_def Let_def
    by (intro upholds) (auto split: sum.split intro!: upholds simp: p e)
qed

lemma once_start: "hold (once rpc False) (start_request e rpc aid streaming cls) (once rpc True) (once rpc True)"
proof (rule hold_start)
  fix c now g c' x
  assume o: "once rpc False c"
  then have l: "answers (log_of rpc c) = []" "endings (log_of rpc c) = []" "jm_get (cl_transfers c) rpc = None" "keyed c"
    by (auto simp: once_def counts_def open_ok_def split: option.splits)
  then show "once rpc True (emit (RejectWith rpc x) c)"
    by (simp add: once_def counts_def open_ok_def keyed_def log_of_emit)
  show "once rpc True (put_transfer (new_transfer now rpc aid streaming cls g c') c)"
    using l by (intro due_put) (simp add: due_def counts_def unsaid_def new_transfer_def)
qed (use once_made tells_quiet in \<open>simp_all add: upholding_def\<close>)

lemma once_step:
  assumes "once rpc b c" "rpc \<notin> starts ev \<or> \<not> b"
  shows "once rpc (b \<or> rpc \<in> starts ev) (snd (client_step e ev c))"
proof (cases ev)
  case (Start r aid streaming cls)
  show ?thesis
  proof (cases "r = rpc")
    case True
    then have "\<not> b" using assms(2) Start by simp
    then show ?thesis using hold_state [OF once_start, where R = "once rpc True"] assms(1) Start True by simp
  next
    case False
    then show ?thesis using upholding_state [OF tells_other_start assms(1)] Start by simp
  qed
next
  case (Cancel r)
  have "tells rpc b (stream_cancel e r)"
  proof -
    have "once rpc b (c\<lparr>cl_transfers := jm_delete r (cl_transfers c), cl_sched := s\<rparr>)" if "once rpc b c" for c s
      using that by (auto simp: once_def counts_def open_ok_def keyed_def log_of_def split: option.splits if_splits)
    then show ?thesis unfolding stream_cancel_def drop_transfer_def by (intro upholds)
  qed
  then show ?thesis using upholding_state assms(1) Cancel by simp
next
  case Close
  have "once rpc b (emit CloseSession c) = once rpc b c" for c
    by (simp add: once_def counts_def open_ok_def keyed_def log_of_emit cong: option.case_cong)
  then show ?thesis using assms(1) Close by (simp add: close_client_def doA_def)
next
  case SessionEnd
  have "tells rpc b (session_end e)" unfolding session_end_def by (intro upholds) simp
  then show ?thesis using upholding_state assms(1) SessionEnd by simp
next
  case (Datagram d)
  then show ?thesis using upholding_state [OF tells_receive assms(1)] by simp
next
  case Tick
  have "tells rpc b (readA (\<lambda>c. whenA (cl_ticker c) (tick e)))" by (intro upholds)
  then show ?thesis using upholding_state assms(1) Tick by simp
next
  case (Pull r)
  then show ?thesis using upholding_state [OF tells_quiet [OF quiet_pull] assms(1)] by simp
qed

text \<open>How often a run draws an id.\<close>

definition drawn :: "int \<Rightarrow> client_ev list \<Rightarrow> nat" where
  "drawn rpc evs = length (filter (\<lambda>ev. rpc \<in> starts ev) evs)"

lemma drawn_Cons: "drawn rpc (ev # evs) = of_bool (rpc \<in> starts ev) + drawn rpc evs"
  by (simp add: drawn_def)

lemma once_run:
  "once rpc b c \<Longrightarrow> of_bool b + drawn rpc (map snd evs) \<le> 1 \<Longrightarrow>
    once rpc (b \<or> drawn rpc (map snd evs) = 1) (client_run evs c)"
proof (induction evs arbitrary: b c)
  case (Cons x evs)
  obtain e ev where x: "x = (e, ev)" by (cases x)
  have "once rpc (b \<or> rpc \<in> starts ev) (snd (client_step e ev c))"
    using Cons.prems by (intro once_step) (auto simp: x drawn_Cons split: if_splits)
  from Cons.IH [OF this] Cons.prems show ?case by (cases "rpc \<in> starts ev"; cases b) (auto simp: x drawn_Cons)
qed (simp add: drawn_def)

lemma once_new: "once rpc False (snd (new_client op n queue))"
proof -
  have "delivery A H {} (snd (new_client op n queue))" for A H by (rule delivery_new)
  then have "jm_get (cl_transfers (snd (new_client op n queue))) rpc = None \<and> log_of rpc (snd (new_client op n queue)) = []"
    "keyed (snd (new_client op n queue))"
    using delivery_keyed by (auto simp: delivery_def)
  then show ?thesis by (simp add: once_def counts_def open_ok_def)
qed

section \<open>The property\<close>

text \<open>C6: a request is answered at most once, resolved or rejected, and its stream ends at most once, over any session
  in which its id is drawn once and whatever the server and the network send: sizes that change, payloads
  that do not fit, errors, repeated and reordered datagrams. A request that was never made is not answered.\<close>

theorem answered_once:
  assumes "drawn rpc (map snd evs) \<le> 1" "c = client_run evs (snd (new_client op n queue))"
  shows "length (answers (log_of rpc c)) \<le> drawn rpc (map snd evs) \<and> length (endings (log_of rpc c)) \<le> drawn rpc (map snd evs)"
proof -
  have "once rpc (drawn rpc (map snd evs) = 1) c"
    using once_run [OF once_new [of rpc op n queue], of evs] assms by simp
  then show ?thesis using assms(1) by (cases "drawn rpc (map snd evs) = 1") (auto simp: once_def counts_def)
qed

text \<open>A server that changes its mind about the size of a body that is being streamed.\<close>

definition lying_session :: "(env \<times> client_ev) list" where
  "lying_session = [(roomy 0, Start 7 [97] True Normal), (roomy 6, Datagram data7), (roomy 7, Datagram four7),
     (roomy 8, Datagram meta7)]"

lemma lying_log:
  "log_of 7 (client_run lying_session sample_client) =
     [Enqueue 7 [10, 20], StreamError 7 (Http4Error TotalSizeChanged None), RejectWith 7 (Http4Error TotalSizeChanged None)]"
  by (simp add: log_of_def lying_session_def sample_client_def plain_options_def roomy_def runs cong: run_congs)

theorem answered_once_witness:
  "answers (log_of 7 (client_run lying_session sample_client)) = [RejectWith 7 (Http4Error TotalSizeChanged None)] \<and>
   length (endings (log_of 7 (client_run lying_session sample_client))) = 1"
proof -
  have "drawn 7 (map snd lying_session) \<le> 1" by (simp add: drawn_def lying_session_def)
  from answered_once [OF this sample_client_run] show ?thesis
    by (simp add: lying_log answers_def endings_def)
qed

end
