(* ===== verification/Fractions.thy ===== *)
theory Fractions
  imports Rounds Config
begin

text \<open>
  A fractional budget (\<open>tuningOptions\<close> of \<open>client/src/index.ts\<close> against \<open>client/src/transport.ts\<close> and
  \<open>client/src/scheduler.ts\<close>). The check on the config's numbers lets a fraction through. A grant that such a budget
  cuts short is a fraction of a byte, which cannot be encoded, and the exception ends the read loop.
\<close>

section \<open>A cut grant is a fraction\<close>

lemma is_integer_undo: "is_integer (x - y) \<Longrightarrow> is_integer y \<Longrightarrow> is_integer x"
proof -
  assume "is_integer (x - y)" "is_integer y"
  then have "is_integer ((x - y) + y)" by (rule is_integer_arith(1))
  then show ?thesis by simp
qed

text \<open>As long as whole bytes have been granted, what is left of the budget is a fraction until a grant is cut.\<close>

lemma loop_cuts:
  assumes "whole_entries todo" "\<not> is_integer (g_avail g)"
  shows "\<forall>d \<in> set (g_out (grants_loop mi outst rank todo g)). d \<in> set (g_out g) \<or>
    (\<exists>e. (d_rpc d, e) \<in> set todo \<and> (d_max d = e_size e \<or> \<not> is_integer (d_max d)))"
  using assms
proof (induction mi outst rank todo g rule: grants_loop.induct)
  case (2 mi outst rank rpc e todo g)
  show ?case
  proof (cases "g_avail g \<le> 0 \<or>
      (let target = min (e_size e) (e_granted e + g_avail g)
       in target - e_granted e < mi \<and> target < e_size e \<and> \<not> (outst = 0 \<and> g_out g = []))")
    case True
    then show ?thesis by (auto simp: Let_def)
  next
    case False
    define target where "target = min (e_size e) (e_granted e + g_avail g)"
    let ?g = "grant_step rpc e rank todo g"
    let ?d = "\<lparr>d_rpc = rpc, d_max = target, d_priority = min rank 7\<rparr>"
    have step: "g_out ?g = g_out g @ [?d]" "g_avail ?g = g_avail g - (target - e_granted e)"
      by (simp_all add: grant_step_def Let_def target_def)
    have w: "is_integer (e_size e)" "is_integer (e_granted e)" "whole_entries todo"
      using "2.prems"(1) by (simp_all add: whole_entry_def)
    have loop: "grants_loop mi outst rank ((rpc, e) # todo) g = grants_loop mi outst (rank + 1) todo ?g"
      using False by (auto simp: Let_def)
    show ?thesis
    proof (cases "target = e_size e")
      case True
      have "\<not> is_integer (g_avail ?g)"
      proof
        assume "is_integer (g_avail ?g)"
        then have "is_integer (g_avail g)" using True w unfolding step by (elim is_integer_undo) simp
        then show False using "2.prems"(2) by simp
      qed
      moreover have "\<not> g_avail g \<le> 0" using False by auto
      ultimately have "\<forall>d \<in> set (g_out (grants_loop mi outst (rank + 1) todo ?g)). d \<in> set (g_out ?g) \<or>
          (\<exists>e. (d_rpc d, e) \<in> set todo \<and> (d_max d = e_size e \<or> \<not> is_integer (d_max d)))"
        using "2.IH" w(3) False by (auto simp: Let_def)
      then show ?thesis unfolding loop using True by (fastforce simp: step)
    next
      case False
      then have t: "target = e_granted e + g_avail g" by (simp add: target_def min_def split: if_splits)
      have "\<not> is_integer target"
      proof
        assume "is_integer target"
        then have "is_integer (target - e_granted e)" using w by simp
        then show False using "2.prems"(2) by (simp add: t)
      qed
      moreover have "g_out (grants_loop mi outst (rank + 1) todo ?g) = g_out ?g"
        using step(2) t by (cases todo; cases "hd todo") simp_all
      ultimately show ?thesis unfolding loop by (auto simp: step)
    qed
  qed
qed simp

lemma round_cuts:
  assumes "sched_grants res s = (ds, s')" "whole_entries (sc_rpcs s)" "jm_ok (sc_rpcs s)" "is_integer res" "\<not> is_integer (sc_budget s)"
    "d \<in> set ds" "jm_get (sc_rpcs s) (d_rpc d) = Some e" "d_max d < e_size e"
  shows "\<not> is_integer (d_max d)"
proof -
  let ?avail = "sc_budget s - res - sched_outstanding s"
  have "\<not> is_integer ?avail"
  proof
    assume "is_integer ?avail"
    then have "is_integer (sc_budget s)" using assms(4) outstanding_whole [OF assms(2)] by (metis is_integer_undo)
    then show False using assms(5) by simp
  qed
  moreover have "whole_entries (candidates s)" using assms(2) by (auto simp: whole_entries_def candidates_set)
  moreover have "d \<in> set (g_out (grants_loop (effective_increment s) (sched_outstanding s) 0 (candidates s)
      \<lparr>g_avail = ?avail, g_done = [], g_out = [], g_trace = [], g_limited = (candidates s \<noteq> [] \<and> ?avail < effective_increment s)\<rparr>))"
    using assms(1,6) by (auto simp: sched_grants_def Let_def split: if_splits)
  ultimately obtain e' where e': "(d_rpc d, e') \<in> set (candidates s)" "d_max d = e_size e' \<or> \<not> is_integer (d_max d)"
    using loop_cuts [of "candidates s" "\<lparr>g_avail = ?avail, g_done = [], g_out = [], g_trace = [],
        g_limited = (candidates s \<noteq> [] \<and> ?avail < effective_increment s)\<rparr>" "effective_increment s" "sched_outstanding s" 0]
    by force
  then have "(d_rpc d, e') \<in> set (sc_rpcs s)" by (simp add: candidates_set)
  then have "e' = e" using jm.get_entries [OF assms(3)] assms(7) by (metis option.inject)
  then show ?thesis using e'(2) assms(8) by auto
qed

section \<open>Such a grant cannot be sent\<close>

lemma fraction_not_encoded: "\<not> is_integer n \<Longrightarrow> \<exists>x. encode (Grant rpc n p) = Inl x"
  using encode_iff [of "Grant rpc n p"] by (cases "encode (Grant rpc n p)") (auto simp: wf_packet_def u32_def)

text \<open>Sending grants leaves \<open>dropOutgoing\<close> alone.\<close>

lemma grant_drop: "cl_dropOutgoing (snd (grant_one e b g c)) = cl_dropOutgoing c"
  by (simp add: grant_one_def send_def thenA_def bindA_def doA_def with_transfer_def readA_def retA_def throwA_def
      put_transfer_def upd_stats_def emit_def split: option.split sum.split)

lemma grants_throw:
  assumes "d \<in> set ds" "\<not> is_integer (d_max d)" "cl_dropOutgoing c = None"
  shows "\<exists>x. fst (eachA (grant_one e b) ds c) = Inl x"
  using assms
proof (induction ds arbitrary: c)
  case (Cons g ds)
  show ?case
  proof (cases "fst (grant_one e b g c)")
    case (Inl x)
    then show ?thesis by (cases "grant_one e b g c") (auto simp: thenA_def bindA_def)
  next
    case (Inr u)
    have "g \<noteq> d"
    proof
      assume "g = d"
      obtain x where x: "encode (Grant (d_rpc g) (d_max g) (of_nat (d_priority g))) = Inl x"
        using fraction_not_encoded Cons.prems(2) \<open>g = d\<close> by blast
      have "fst (grant_one e b g c) = Inl (WireError x)" using Cons.prems(3)
        by (simp add: grant_one_def send_def thenA_def bindA_def doA_def with_transfer_def readA_def retA_def throwA_def
            put_transfer_def upd_stats_def x split: option.split)
      with Inr show False by simp
    qed
    then have "\<exists>x. fst (eachA (grant_one e b) ds (snd (grant_one e b g c))) = Inl x"
      using Cons by (intro Cons.IH) (simp_all add: grant_drop)
    then show ?thesis using Inr by (cases "grant_one e b g c") (auto simp: thenA_def bindA_def)
  qed
qed simp

lemma pump_throws:
  assumes "round_of c = (ds, s)" "d \<in> set ds" "\<not> is_integer (d_max d)" "cl_dropOutgoing c = None"
  shows "\<exists>x. fst (pumpGrants e c) = Inl x"
proof -
  let ?p = "pump_prepare c"
  have g: "sched_grants (reserved ?p) (cl_sched ?p) = (ds, s)" using assms(1) by (simp add: prepare_parts)
  have "cl_dropOutgoing (?p\<lparr>cl_sched := s\<rparr>) = None" using assms(4) by (simp add: prepare_parts)
  from grants_throw [OF assms(2,3) this] obtain x where
    "fst (eachA (grant_one e (bc_current (cl_budget c) \<le> bc_floor (cl_budget c))) ds (?p\<lparr>cl_sched := s\<rparr>)) = Inl x" by blast
  then show ?thesis
    by (cases "eachA (grant_one e (bc_current (cl_budget c) \<le> bc_floor (cl_budget c))) ds (?p\<lparr>cl_sched := s\<rparr>)")
       (auto simp: pumpGrants_def readA_def Let_def thenA_def bindA_def doA_def g)
qed

section \<open>What a session with a fixed budget keeps\<close>

definition fixed_at :: "num \<Rightarrow> client \<Rightarrow> bool" where
  "fixed_at v c \<longleftrightarrow> bc_floor (cl_budget c) = v \<and> bc_cap (cl_budget c) = v \<and> bc_current (cl_budget c) = v \<and>
     0 \<le> v \<and> bc_loss_factor (cl_budget c) = DEFAULT_LOSS_FACTOR \<and> cl_dropOutgoing c = None \<and> jm_ok (sc_rpcs (cl_sched c))"

text \<open>With the state of the session.\<close>

definition poised :: "num \<Rightarrow> bool \<times> bool \<times> bool \<Rightarrow> client \<Rightarrow> bool" where
  "poised v k c \<longleftrightarrow> fixed_at v c \<and> (cl_closed c, cl_sessionClosed c, cl_reading c) = k"

abbreviation poises :: "num \<Rightarrow> bool \<times> bool \<times> bool \<Rightarrow> unit act \<Rightarrow> bool" where
  "poises v k \<equiv> upholding (poised v k) (poised v k)"

lemma poised_rest [simp]:
  "poised v k (c\<lparr>cl_seq := v1\<rparr>) = poised v k c" "poised v k (c\<lparr>cl_lastSeqDetect := v2\<rparr>) = poised v k c"
  "poised v k (c\<lparr>cl_initialRto := v3\<rparr>) = poised v k c" "poised v k (c\<lparr>cl_lastBackoffAt := v4\<rparr>) = poised v k c"
  "poised v k (c\<lparr>cl_ticker := v5\<rparr>) = poised v k c" "poised v k (c\<lparr>cl_queueLimit := v6\<rparr>) = poised v k c"
  "poised v k (c\<lparr>cl_transfers := v7\<rparr>) = poised v k c" "poised v k (put_transfer t c) = poised v k c"
  "poised v k (upd_stats f c) = poised v k c" "poised v k (emit x c) = poised v k c"
  "poised v k (c\<lparr>cl_stats := v8\<rparr>) = poised v k c" "poised v k (c\<lparr>cl_payloadSeen := v9\<rparr>) = poised v k c"
  by (simp_all add: poised_def fixed_at_def upd_stats_def emit_def put_transfer_def)

lemma poised_budget [simp]:
  "poised v k c \<Longrightarrow> poised v k (c\<lparr>cl_budget := on_rtt_sample r n (cl_budget c)\<rparr>)"
  "poised v k c \<Longrightarrow> poised v k (c\<lparr>cl_budget := on_delivered m n (cl_budget c)\<rparr>)"
  "poised v k c \<Longrightarrow> poised v k (c\<lparr>cl_budget := note_limited (cl_budget c)\<rparr>)"
  by (auto simp: poised_def fixed_at_def on_rtt_sample_def on_delivered_def bc_update_def note_limited_def Let_def
      split: option.split)

lemma fixed_on_loss: "0 \<le> v \<Longrightarrow> max v (of_int \<lfloor>v * DEFAULT_LOSS_FACTOR\<rfloor>) = v"
proof -
  assume "0 \<le> v"
  have "of_int \<lfloor>v * DEFAULT_LOSS_FACTOR\<rfloor> \<le> v * DEFAULT_LOSS_FACTOR" by (rule of_int_floor_le)
  also have "\<dots> \<le> v" using \<open>0 \<le> v\<close> by (simp add: DEFAULT_LOSS_FACTOR_def)
  finally show ?thesis by simp
qed

lemma poised_ops [simp]:
  "poised v k c \<Longrightarrow> poised v k (syncQueueLimit c)" "poised v k c \<Longrightarrow> poised v k (sampleRtt now r c)"
  "poised v k c \<Longrightarrow> poised v k (noteSpurious now c)" "poised v k c \<Longrightarrow> poised v k (lossBackoff now c)"
  by (auto simp: poised_def fixed_at_def syncQueueLimit_def sampleRtt_def noteSpurious_def lossBackoff_def upd_stats_def
      on_rtt_sample_def bc_on_loss_def fixed_on_loss Let_def split: option.split)

lemma modify_ok: "jm_ok (sc_rpcs s) \<Longrightarrow> jm_ok (sc_rpcs (sched_modify r f s))"
  by (simp add: sched_modify_def split: option.split)

lemma poised_sched:
  "poised v k c \<Longrightarrow> jm_ok (sc_rpcs s) \<Longrightarrow> poised v k (c\<lparr>cl_sched := s\<rparr>)" "poised v k c \<Longrightarrow> jm_ok (sc_rpcs (cl_sched c))"
  by (simp_all add: poised_def fixed_at_def)

lemma poised_changes [simp]:
  "poised v k c \<Longrightarrow> poised v k (c\<lparr>cl_sched := sched_remove r (cl_sched c)\<rparr>)"
  "poised v k c \<Longrightarrow> poised v k (c\<lparr>cl_transfers := ts, cl_sched := sched_remove r (cl_sched c)\<rparr>)"
  "poised v k c \<Longrightarrow> poised v k (c\<lparr>cl_sched := sched_set_paused r b (cl_sched c)\<rparr>)"
  "poised v k c \<Longrightarrow> poised v k (c\<lparr>cl_sched := sched_set_budget n (cl_sched c)\<rparr>)"
  "poised v k c \<Longrightarrow> poised v k (c\<lparr>cl_sched := sched_add r sz g 0 cls (cl_sched c)\<rparr>)"
  "poised v k c \<Longrightarrow> poised v k (c\<lparr>cl_sched := sched_on_data r n (cl_sched c)\<rparr>)"
  using modify_ok [of "cl_sched c" r]
  by (simp_all add: poised_def fixed_at_def sched_remove_def sched_set_paused_def sched_set_budget_def sched_add_def sched_on_data_def)

lemma grants_ok: "jm_ok (sc_rpcs s) \<Longrightarrow> jm_ok (sc_rpcs (snd (sched_grants res s)))"
  by (simp add: sched_grants_def Let_def fold_set_ok)

lemma poises_transfer [upholds]: "(\<And>t. poises v k (f t)) \<Longrightarrow> poises v k (with_transfer r f)"
  unfolding upholding_def by (rule hold_transfer) (auto intro: hold_pre)

lemma poises_send [upholds]: "poises v k (send p)"
  unfolding upholding_def by (rule hold_send) simp_all

lemma poises_hello [upholds]: "poises v k sendHello"
  unfolding sendHello_def by (intro upholds) simp

lemma poises_pump [upholds]: "poises v k (pumpGrants e)"
  unfolding pumpGrants_def grant_one_def Let_def split_def
proof (intro upholds)
  fix d c :: client
  assume "poised v k d" "poised v k c"
  then show "poised v k (c\<lparr>cl_sched := snd (sched_grants (reserved d) (cl_sched d))\<rparr>)"
    by (intro poised_sched(1) grants_ok poised_sched(2))
qed (simp_all add: pump_prepare_def pump_after_def Let_def)

lemma poises_resend [upholds]: "poises v k (send_resend r f g)"
  unfolding send_resend_def by (intro upholds) simp

lemma poises_resend_seq [upholds]: "poises v k (sendResendSeq r)"
  unfolding sendResendSeq_def by (intro upholds) simp

lemma poises_detect [upholds]: "poises v k (detectLoss e r)"
  unfolding detectLoss_def Let_def split_def prod.case by (intro upholds) simp_all

lemma poises_detect_seq [upholds]: "poises v k (detectSeqLoss e)"
  unfolding detectSeqLoss_def Let_def split_def by (intro upholds) simp_all

lemma poises_probe [upholds]: "poises v k (tail_probe e r g)"
  unfolding tail_probe_def Let_def split_def prod.case by (intro upholds) simp_all

lemma poises_again [upholds]: "poises v k (recover_again e r g)"
  unfolding recover_again_def Let_def split_def prod.case by (intro upholds) simp_all

lemma poises_reply [upholds]: "poises v k (note_reply e r)"
  unfolding note_reply_def by (intro upholds) simp_all

lemma poised_flush: "poised v k c \<Longrightarrow> poised v k (snd (flushStream e t c))"
  by (simp add: flushStream_def flush_chunk_def Let_def split_def split: option.split)

lemma poised_start: "poised v k (snd (maybeStart t c)) = poised v k c"
  by (simp add: maybeStart_def split: option.split)

lemma poises_finish [upholds]: "poises v k (finish e t err)"
proof -
  have s: "poised v k (settle_transfer err u (close_stream err u d)) = poised v k d" for u d
    by (simp add: settle_transfer_def close_stream_def split: option.split)
  have "poised v k (finish_core e t err c)" if "poised v k c" for c
    using that by (simp add: finish_core_def Let_def split_def s poised_flush)
  then show ?thesis unfolding finish_def by (intro upholds)
qed

lemma poises_fail [upholds]: "poises v k (failAll e x)"
  unfolding failAll_def by (intro upholds) simp

lemma poises_drop [upholds]: "poises v k (drop_transfer e r)"
  unfolding drop_transfer_def by (intro upholds) simp

lemma poises_tick [upholds]: "poises v k (tick e)"
  unfolding tick_def tick_transfer_def recover_def Let_def
  by (intro upholds) (simp_all add: recover_prepare_def Let_def)

lemma poises_meta [upholds]: "poises v k (handle_meta e r flds)"
  unfolding handle_meta_def by (intro upholds) (simp_all add: start_body_def split_def Let_def poised_start)

lemma poises_pull [upholds]: "poises v k (stream_pull e r)"
  unfolding stream_pull_def by (intro upholds) simp_all

lemma poises_throw [upholds]: "poises v k (throwA x)"
  unfolding upholding_def by (intro hold_throw)

lemma poises_catch [upholds]: "poises v k m \<Longrightarrow> (\<And>x. poises v k (h x)) \<Longrightarrow> poises v k (catchA m h)"
  unfolding upholding_def by (rule hold_catch)

lemma poises_start [upholds]: "poises v k (start_request e r aid streaming cls)"
  unfolding start_request_def Let_def by (intro upholds) (auto split: sum.split intro!: upholds)

lemma poised_data_arrived:
  assumes "poised v k c"
  shows "poised v k (data_arrived e off p fresh a rp t c)"
proof -
  have "poised v k (snd (probe_hit e n u d))" "poised v k (snd (progress e fresh u d))" if "poised v k d" for n u d
    using that by (simp_all add: probe_hit_def progress_def Let_def split: option.split)
  moreover have "poised v k (count_payload e fresh p b c)" for b using assms by (simp add: count_payload_def Let_def)
  ultimately show ?thesis unfolding data_arrived_def Let_def split_def by (simp add: poised_flush poised_start)
qed

lemma poises_payload [upholds]: "poises v k (take_payload e r off p)"
  unfolding take_payload_def
  by (intro upholds) (auto split: option.split sum.split intro!: upholds poised_data_arrived simp del: not_None_eq)

lemma poises_data [upholds]: "poises v k (handle_data e r tot off p)"
  unfolding handle_data_def by (intro upholds) (simp add: open_body_def)

lemma poises_handle [upholds]: "poises v k (handle e p)"
proof -
  have "poises v k (deliver e p)" for p
    unfolding deliver_def by (rule poises_transfer) (cases p; simp; intro upholds; simp)
  then show ?thesis unfolding handle_def
    by (cases p) (auto intro!: upholds simp: seq_arrived_def Let_def split_def)
qed

section \<open>Sessions\<close>

text \<open>The state of a session after an event, but for what the read loop says of itself.\<close>

lemma poised_fixed: "poised v k c \<Longrightarrow> fixed_at v c"
  by (simp add: poised_def)

lemma poised_self: "fixed_at v c \<Longrightarrow> poised v (cl_closed c, cl_sessionClosed c, cl_reading c) c"
  by (simp add: poised_def)

lemma poised_parts: "poised v (p, q, r) c \<Longrightarrow> cl_closed c = p \<and> cl_sessionClosed c = q \<and> cl_reading c = r"
  by (simp add: poised_def)

text \<open>An exception in the read loop ends it.\<close>

lemma poised_stops:
  assumes "poised v (p, q, r) c"
  shows "poised v (p, q, False) (snd (thenA (doA (\<lambda>c. c\<lparr>cl_reading := False\<rparr>)) (failAll e x) c))"
proof -
  have "poised v (p, q, False) (c\<lparr>cl_reading := False\<rparr>)" using assms by (simp add: poised_def fixed_at_def)
  from upholding_state [OF poises_fail this] show ?thesis by (simp add: thenA_def bindA_def doA_def)
qed

lemma poises_read_one: "poises v k (read_one e b)"
  unfolding read_one_def by (intro upholds) (auto split: sum.split wire_error.split intro!: upholds)

lemma poised_receive:
  assumes "poised v (p, q, r) c"
  shows "poised v (p, q, r \<and> fst (read_one e b c) = Inr ()) (snd (receive e b c))"
proof (cases r)
  case True
  have r: "cl_reading c" using assms True by (simp add: poised_def)
  have d: "poised v (p, q, r) (snd (read_one e b c))" by (rule upholding_state [OF poises_read_one assms])
  show ?thesis
  proof (cases "read_one e b c")
    case (Pair y d')
    then show ?thesis using d r True poised_stops [of v p q r d']
      by (cases y) (simp_all add: receive_def readA_def whenA_def catchA_def)
  qed
next
  case False
  then show ?thesis using assms by (simp add: poised_def receive_def readA_def whenA_def retA_def)
qed

lemma poised_step:
  assumes "fixed_at v c"
  shows "fixed_at v (snd (client_step e ev c)) \<and> (\<not> cl_reading c \<longrightarrow> \<not> cl_reading (snd (client_step e ev c)))"
proof -
  note c = poised_self [OF assms]
  have keep: ?thesis if "poises v (cl_closed c, cl_sessionClosed c, cl_reading c) (client_step e ev)"
    using upholding_state [OF that c] poised_fixed poised_parts by blast
  show ?thesis
  proof (cases ev)
    case (Start r aid streaming cls)
    show ?thesis by (rule keep) (simp add: Start poises_start)
  next
    case (Datagram b)
    then show ?thesis using poised_receive [OF c, of e b] poised_fixed poised_parts by fastforce
  next
    case Tick
    show ?thesis by (rule keep) (simp add: Tick, intro upholds)
  next
    case (Pull r)
    show ?thesis by (rule keep) (simp add: Pull poises_pull)
  next
    case (Cancel r)
    show ?thesis by (rule keep) (simp add: Cancel stream_cancel_def poises_drop)
  next
    case Close
    then show ?thesis using assms by (simp add: close_client_def doA_def fixed_at_def emit_def)
  next
    case SessionEnd
    have "poised v (cl_closed c, True, cl_reading c) (c\<lparr>cl_sessionClosed := True\<rparr>)"
      using assms by (simp add: poised_def fixed_at_def)
    from upholding_state [OF poises_fail this, of e "Http4Error SessionClosed None"] show ?thesis
      using poised_fixed poised_parts by (fastforce simp: SessionEnd session_end_def thenA_def bindA_def doA_def)
  qed
qed

lemma fixed_run: "fixed_at v c \<Longrightarrow> fixed_at v (client_run evs c)"
  by (induction evs c rule: client_run.induct) (simp_all add: poised_step)

lemma not_reading_run: "fixed_at v c \<Longrightarrow> \<not> cl_reading c \<Longrightarrow> \<not> cl_reading (client_run evs c)"
proof (induction evs c rule: client_run.induct)
  case (2 e ev evs c)
  then show ?case using poised_step [of v c e ev] by simp
qed simp

lemma fixed_new:
  assumes "op_budget op = Some v" "op_dropOutgoing op = None" "0 \<le> v"
  shows "fixed_at v (snd (new_client op limit queue))"
proof -
  have f: "poised v (False, False, True) (fresh_client op limit queue)"
    using assms
    by (simp add: poised_def fixed_at_def fresh_client_def new_budget_def new_scheduler_def chosen_floor_def chosen_cap_def
        or_default_def Let_def)
  then have "poised v (False, False, True) (snd (new_client op limit queue))"
    unfolding new_client_def Let_def by (intro upholding_state [OF poises_hello]) simp
  then show ?thesis by (rule poised_fixed)
qed

lemma tuned_budget:
  assumes "get_prop raw (js ''budget'') = JNum v" "0 \<le> v" "op_budget op = None"
  shows "op_budget (with_tuning raw op) = Some v" "op_dropOutgoing (with_tuning raw op) = op_dropOutgoing op"
proof -
  have "jm_get (tuningOptions raw) (js ''budget'') = Some (JNum v)"
    using assms(1,2) by (simp add: tuning_lookup TUNABLE_def js_def)
  then show "op_budget (with_tuning raw op) = Some v" using assms(3) by (simp add: with_tuning_def Let_def tuned_num_def over_def)
qed (simp add: with_tuning_def Let_def)

section \<open>The property\<close>

text \<open>C14: a config may set the budget to any fraction, and then the first grant that the budget cuts short stops the
  session for good. Take any session whose page left the budget to such a config (and did not install the
  \<open>dropOutgoing\<close> hook of the tests), and any datagram: when whole bytes have been granted and reserved so far
  and the round after the datagram grants a request less than its size, the grant is a fraction, the exception
  ends the read loop, and no later datagram has any effect, whatever happens next. Yet the session counts as
  open as before, so requests keep going to it.\<close>

theorem fractional_budget_stops_reading:
  assumes "get_prop raw (js ''budget'') = JNum v" "0 \<le> v" "\<not> is_integer v" "op_budget op = None" "op_dropOutgoing op = None"
    "c = client_run evs (snd (new_client (with_tuning raw op) limit queue))" "decode b = Inr p" "d = handled e p c"
    "whole_entries (sc_rpcs (cl_sched d))" "is_integer (reserved d)"
    "round_of d = (ds, s)" "g \<in> set ds" "jm_get (sc_rpcs (cl_sched d)) (d_rpc g) = Some x" "d_max g < e_size x"
    "c' = snd (client_step e (Datagram b) c)"
  shows "\<not> is_integer (d_max g) \<and> \<not> cl_reading c' \<and> isOpen c' = isOpen c \<and>
    client_step e' (Datagram b') (client_run later c') = (Inr (), client_run later c')"
proof -
  have c: "fixed_at v c"
    using fixed_run fixed_new tuned_budget(1) [OF assms(1,2,4)] tuned_budget(2) [OF assms(1,2,4)] assms(2,5,6) by simp
  let ?c = "upd_stats (\<lambda>s. s\<lparr>packetsIn := packetsIn s + 1\<rparr>) c"
  have "poised v (cl_closed c, cl_sessionClosed c, cl_reading c) ?c" using poised_self [OF c] by simp
  then have d: "fixed_at v d" unfolding assms(8) handled_def using upholding_state [OF poises_handle] poised_fixed by blast
  have g: "\<not> is_integer (d_max g)"
    by (rule round_cuts [OF assms(11) _ _ assms(10) _ assms(12)])
       (use d assms(3,9,13,14) in \<open>simp_all add: sched_set_budget_def fixed_at_def\<close>)
  have "\<exists>y. fst (pumpGrants e d) = Inl y"
    by (rule pump_throws [OF assms(11,12) g]) (use d in \<open>simp add: fixed_at_def\<close>)
  then have "fst (read_one e b c) \<noteq> Inr ()"
    using assms(7,8) by (cases "handle e p ?c") (auto simp: read_one_def thenA_def bindA_def doA_def handled_def split: sum.split)
  then have r: "poised v (cl_closed c, cl_sessionClosed c, False) c'"
    using poised_receive [OF poised_self [OF c], of e b] by (simp add: assms(15))
  then have "\<not> cl_reading (client_run later c')" using not_reading_run [OF poised_fixed] poised_parts by blast
  then show ?thesis using g r by (simp add: poised_def isOpen_def receive_def readA_def whenA_def retA_def)
qed

text \<open>With two and a half bytes of budget, and four bytes to come.\<close>

definition half_byte_config :: jsval where
  "half_byte_config = JObj [(js ''budget'', JNum (5 / 2)), (js ''initialGrant'', JNum 1)]"

lemma half_byte_tuning:
  "tuningOptions half_byte_config = [(js ''budget'', JNum (5 / 2)), (js ''initialGrant'', JNum 1)]"
  by (simp add: tuningOptions_def tune_step_def half_byte_config_def TUNABLE_def js_def jm_set_def Let_def)

definition half_byte_options :: client_options where
  "half_byte_options = with_tuning half_byte_config plain_options"

lemma half_byte_options: "half_byte_options = plain_options\<lparr>op_budget := Some (5 / 2), op_initialGrant := Some 1\<rparr>"
  by (simp add: half_byte_options_def with_tuning_def Let_def half_byte_tuning tuned_num_def tuned_bool_def
      plain_options_def over_def js_def jm_get_Cons)

lemma half_floors: "\<lfloor>5 / 2 :: num\<rfloor> = 2" "\<lfloor>7 / 2 :: num\<rfloor> = 3" "\<lfloor>5 / 8 :: num\<rfloor> = 0"
  by (simp_all add: floor_eq_iff)

lemma half_not_whole: "\<not> is_integer (5 / 2)"
  unfolding is_integer_def half_floors by simp

lemma half_grant [runs]: "encode (Grant 7 (7 / 2) 0) = Inl (MalformedPacketError NotU32)"
proof -
  have "checkU32 (7 / 2) = Inl (MalformedPacketError NotU32)" by (simp add: checkU32_def is_integer_def half_floors)
  then show ?thesis by (simp add: encode_def checkU64_def)
qed

definition half_byte_client :: client where
  "half_byte_client = client_run [(roomy 0, Start 7 [97] False Normal)]
     (snd (new_client half_byte_options 1200 None))"

lemma half_byte_handled:
  "cl_sched (handled (roomy 6) (Data 7 4 0 [10, 20]) half_byte_client) =
     \<lparr>sc_rpcs = [(7, \<lparr>e_size = 4, e_granted = 1, e_received = 2, e_paused = False, e_seq = 0, e_cls = Normal\<rparr>)],
      sc_seq = 1, sc_min_increment = DEFAULT_MIN_INCREMENT, sc_trace = None, sc_budget = 5 / 2, sc_limited = False\<rparr>"
  "bc_current (cl_budget (handled (roomy 6) (Data 7 4 0 [10, 20]) half_byte_client)) = 5 / 2"
  "reserved (handled (roomy 6) (Data 7 4 0 [10, 20]) half_byte_client) = 0"
  by (simp_all add: handled_def half_byte_client_def half_byte_options plain_options_def roomy_def runs half_floors cong: run_congs)

lemma half_byte_round:
  "fst (round_of (handled (roomy 6) (Data 7 4 0 [10, 20]) half_byte_client)) = [\<lparr>d_rpc = 7, d_max = 7 / 2, d_priority = 0\<rparr>]"
  by (simp add: half_byte_handled sched_set_budget_def sched_grants_def sched_outstanding_def in_flight_def candidates_def wants_def
      effective_increment_def grant_step_def Let_def MIN_INCREMENT_BUDGET_SHARE_def DEFAULT_MIN_INCREMENT_def half_floors)

lemma half_byte_rejected:
  "RejectWith 7 (WireError (MalformedPacketError NotU32)) \<in> set (cl_log (snd (client_step (roomy 6) (Datagram four7) half_byte_client)))"
  by (simp add: half_byte_client_def half_byte_options plain_options_def roomy_def runs half_floors cong: run_congs)

lemma half_byte_open: "isOpen half_byte_client"
  by (simp add: half_byte_client_def half_byte_options plain_options_def roomy_def runs half_floors cong: run_congs)

theorem fractional_budget_stops_reading_witness:
  "let c = snd (client_step (roomy 6) (Datagram four7) half_byte_client)
   in RejectWith 7 (WireError (MalformedPacketError NotU32)) \<in> set (cl_log c) \<and> isOpen c \<and>
      (\<forall>cls. client_step (roomy 9) (Datagram meta7) (client_run [(roomy 8, Start 8 [97] False cls)] c) =
        (Inr (), client_run [(roomy 8, Start 8 [97] False cls)] c))"
proof -
  let ?d = "handled (roomy 6) (Data 7 4 0 [10, 20]) half_byte_client"
  have conf: "get_prop half_byte_config (js ''budget'') = JNum (5 / 2)" by (simp add: half_byte_config_def)
  have round: "round_of ?d = ([\<lparr>d_rpc = 7, d_max = 7 / 2, d_priority = 0\<rparr>], snd (round_of ?d))"
    using half_byte_round by (metis prod.collapse)
  have plain: "op_budget plain_options = None" "op_dropOutgoing plain_options = None" by (simp_all add: plain_options_def)
  have whole: "whole_entries (sc_rpcs (cl_sched ?d))" "is_integer (reserved ?d)"
    by (simp_all add: half_byte_handled whole_entry_def id_ok_def)
  have cut: "jm_get (sc_rpcs (cl_sched ?d)) 7 =
      Some \<lparr>e_size = 4, e_granted = 1, e_received = 2, e_paused = False, e_seq = 0, e_cls = Normal\<rparr>"
    by (simp add: half_byte_handled jm_get_Cons)
  note stops = fractional_budget_stops_reading [OF conf _ half_not_whole plain half_byte_client_def [unfolded half_byte_options_def]
      sample_datagrams(3) refl whole round list.set_intros(1) _ _ refl]
  show ?thesis using stops [unfolded grant_decision.simps, OF _ cut] half_byte_rejected half_byte_open
    by (simp add: Let_def del: client_step.simps client_run.simps)
qed

end
