(* ===== verification/Spec2Isabelle.thy ===== *)
theory Spec2Isabelle
  imports Codec Repair SeqTracker Scheduler Budget Stall Resends EndToEnd Reports Forwarding Loads Sandbox Once Fractions
begin

text \<open>
  The HTTP4 client (\<open>client/src\<close>, TypeScript): assets over WebTransport datagrams, with grants that the
  receiver schedules, and the ways a page reaches it.

  \<^bold>\<open>The program.\<close> A page opens a session (\<open>index.ts\<close>) and sends requests through it. \<open>transport.ts\<close>
  (\<open>Http4Client\<close>) keeps a table of transfers; a REQ names an asset, the server answers with META and DATA
  datagrams (\<open>wire.ts\<close>), \<open>reassembly.ts\<close> puts the body together and finds what was lost, \<open>scheduler.ts\<close>
  decides who may get how many more bytes within the budget that \<open>budget.ts\<close> measures, and a timer repeats
  what got no answer. \<open>fetcher.ts\<close> makes a \<open>fetch\<close> of it that falls back to the platform's; \<open>sw.ts\<close> is a
  Service Worker that sends a site's own requests to the page's session through \<open>page.ts\<close>, by the protocol
  of \<open>swproto.ts\<close>; \<open>auto.ts\<close> sets this up from one script tag. Two pages drive a
  session directly: \<open>main.ts\<close>, which checks the connection with an echo, and \<open>bench.ts\<close>, which measures HTTP4
  against HTTP/3.

  \<^bold>\<open>Theories and sources.\<close>
  \<^item> Prelude, Frame, Whole: association lists in insertion order (JavaScript's \<open>Map\<close>), results as sums,
    numbers; triples and frame rules for the client's actions; whole-number lemmas.
  \<^item> Bytes, Utf8, Wire (\<open>wire.ts\<close>): byte fields, the fatal UTF-8 decoder over UTF-16 strings, \<open>decode\<close> and
    \<open>encode\<close> with every check. WireLayout, Codec: the packet layouts, the round trips, exactness.
  \<^item> Ranges, Reassembly, Repair, SeqTracker (\<open>reassembly.ts\<close>): the range list and buffer of a body, the RESENDs
    that are under way for it, the session's sequence numbers.
  \<^item> JsValue, Priority (\<open>priority.ts\<close>), Scheduler (\<open>scheduler.ts\<close>), Budget (\<open>budget.ts\<close>).
  \<^item> Session, Transport, Client (\<open>transport.ts\<close>): the constants and state of \<open>Http4Client\<close>, the operations that
    send, grant, finish, detect losses and recover, and its entry points with \<open>client_step\<close> and \<open>client_run\<close>.
    Runs: rules that run sessions symbolically, and sample sessions.
  \<^item> Delivery, Safety, Answers, Once, Watch, Silence, Completion, Bookkeeping, Rounds, Resends, Stall: what whole
    sessions guarantee. Fractions: what a fractional budget in a page's config does to one.
  \<^item> Web, Fetcher (\<open>fetcher.ts\<close>), Config (\<open>index.ts\<close>), Worker, Forwarding (\<open>sw.ts\<close>, \<open>swproto.ts\<close>), Page, Reports (\<open>page.ts\<close>,
    \<open>auto.ts\<close>, and worker and page together). EndToEnd: fetch layer, worker and page on a session with a
    site's server. Loads (\<open>client/bench/bench.ts\<close>), Sandbox (\<open>main.ts\<close>): the benchmark and the sandbox page.

  \<^bold>\<open>State and operations.\<close> A class is a record of its fields and a method a function on it, named after the
  source where HOL allows. \<open>Http4Client\<close> is a record; its methods are actions: functions from a state to a
  result (an exception or a value) and a state, composed with \<open>thenA\<close>, \<open>readA\<close>, \<open>catchA\<close> as the code composes
  them, so that an exception leaves the rest of a method undone. What leaves the client (datagrams written,
  promises settled, stream chunks, the session's end) is a log of effects in the state. A session is a list of
  events: a request, a datagram, a tick, a stream's pull or cancel, \<open>close\<close>, the end of the session. The
  worker and the page are state machines of the same kind, one event per thing that resumes them, so that all
  interleavings of their \<open>await\<close>s are lists of events; \<open>bridge\<close> is the inductive step relation of both
  together, each hearing only what the other posted.

  \<^bold>\<open>What the lemmas show.\<close>
  \<^item> Codec: the wire format is lossless both ways and \<open>decode\<close> throws nothing but \<open>MalformedPacketError\<close>.
  \<^item> Reassembly, Repair, SeqTracker: a body is rebuilt from any arrival order, missing bytes are found exactly,
    nothing is asked for twice too early, and each number is classified and repaired as it should be.
  \<^item> Scheduler, Budget, Priority: the budget is never overrun, priority is strict, nothing starves, the
    budget follows what is delivered.
  \<^item> Delivery: with a truthful server, any loss, repetition and reordering leaves every answer correct and
    a stream a prefix of its asset. Safety: with whole-number byte options no event throws. Answers: no request
    is forgotten. Once: nothing is answered twice, however the server behaves. Silence: a request the server never answers ends after \<open>maxRecoveries + 1\<close> times
    ten seconds and a tick (\<open>MAX_DRAIN_MS\<close> bounds the stall timeout). Completion: once META and the
    bytes have arrived, in whatever order, the request completes. Stall: the one case in which the timer never
    acts. Bookkeeping: the table of transfers and the scheduler never get out of step. Rounds: what a session
    grants is what a round of the scheduler decides under the measured budget, which it never exceeds.
    Resends: what a session asks for again is missing.
  \<^item> Fetcher, Config: the mapper confines asset ids and reaches every file, \<open>fetch\<close> never shows a session's
    error and reports each call that it or the platform answered, \<open>open\<close> never breaks the page, options are typed. Worker, Page: each request is answered once, with the
    page's consent, with what the page's session answered; the off switch is complete. Forwarding: a forwarded request goes on
    exactly once, by the page's reply or because its tab is gone. Reports: what a tab and the worker tell
    of their requests and who hears it. EndToEnd: what
    \<open>fetch\<close> and the worker give is the site's own file, whatever the network does.
  \<^item> Loads: a benchmark's address names its asset part by part, a baseline that was not HTTP/3 is refused, the byte
    count of the background load is bounded, a stopped load drains, arrivals come in order, each request is
    counted once. Sandbox: when the echo succeeds, and that the session is tried whatever the echo gave.
  The locales state what one part relies on in another, and the model interprets each: \<open>js_map\<close> (Prelude, the
  laws of a \<open>Map\<close>), \<open>datagram_codec\<close> (Codec), \<open>gap_source\<close> (Repair, what the repair tracker needs of a body),
  \<open>transfer_view\<close> (Frame, what the timing rules leave of a transfer, interpreted once for the caller's view
  and once for the stall timer's), \<open>request_view\<close> (Watch, following one request through a session that serves
  others: once for the stall timer, once for what has arrived). Every hypothesis a property has is met by a concrete run in its witness.

  \<^bold>\<open>Abstractions.\<close> A JavaScript number is an exact rational where the code computes with it: no rounding of
  doubles, and options given by code are finite; strings are lists of UTF-16 code
  units. \<open>performance.now()\<close> is read once per event. \<open>newRpcId\<close> is an argument of \<open>Start\<close>; the properties that need
  it assume that ids do not repeat. A stream's \<open>desiredSize\<close> is part of the environment of an event. The
  server is a predicate on the datagrams that arrive; lost datagrams are those that do not occur. Message
  texts are constructors. In Fetcher the session is its interface \<open>AssetRequester\<close>, with the answer as a function;
  URLs come parsed, with \<open>new URL\<close>, \<open>atob\<close> and \<open>JSON.parse\<close> as inputs. A tab's messages may be delivered more than
  once and in any order in \<open>bridge\<close>, which is more than a message port allows. An allocation, an \<open>onRequest\<close> callback, \<open>new Headers\<close>
  and \<open>postMessage\<close> are taken not to throw, and the datagram stream to end only with the session.

  \<^bold>\<open>Fuel and bounds.\<close> No definition runs on fuel: the loops are structural or have a termination proof (the
  UTF-8 scanner, percent-decoding). Sequence numbers, offsets and sizes are integers with the 32- and 64-bit
  checks of the codec; bytes are \<open>8 word\<close>.

  \<^bold>\<open>Not modelled.\<close> \<open>Http4Client.connect\<close> only awaits the browser's WebTransport. Registering the worker, finding elements
  in the DOM and the handles that expose getters are glue.
  So are \<open>atob\<close>, the status line and the Resource Timing buffer of the benchmark page. \<open>examples\<close> is a demo site and a script
  that makes its images, and holds no logic of the client. The Go server is another program; the client is verified against its wire format.

  \<^bold>\<open>What modelling showed.\<close> Four defects are theorems: a streamed request whose META is lost can hang
  (Stall), a byte order mark at the start of an asset id is lost (Codec), a fractional byte count in a page's
  config ends the read loop (Fractions), and the background load of the benchmark loses byte counts, since
  \<open>st.bytes += await\<close> reads the count before it waits (Loads). In Scheduler, \<open>budgetLimited\<close> can stay set although nobody wants more. The README has every request recorded; an aborted one is not (Fetcher).
\<close>

end
